(* ===== verification/Prelude.thy ===== *)
theory Prelude
  imports Main "HOL-Library.Word" "HOL-Library.Multiset"
begin

text \<open>
  What the component theories share: the names of the C integer types, the faults a C
  program runs into, sequencing of fallible operations, decimal rendering of integers
  (the \<open>%d\<close> of printf) and counting lemmas on lists that are updated at one index.

  C integers are words: \<open>int\<close> and \<open>unsigned int\<close> are 32 bits wide, \<open>unsigned long\<close>
  and \<open>size_t\<close> 64, \<open>short\<close> 16. A signed variable is read with \<open>sint\<close> and compared
  with the signed orders; mixed arithmetic converts as C prescribes (to the unsigned
  type of the greater rank), which on words is \<open>ucast\<close> or \<open>scast\<close>.
\<close>

type_synonym u16 = "16 word"
type_synonym u32 = "32 word"
type_synonym i32 = "32 word"
type_synonym u64 = "64 word"

section \<open>Faults and fallible results\<close>

text \<open>
  The ways in which the C code leaves its defined behaviour or stops: following an
  invalid pointer, touching memory outside an object, reading a variable before it was
  written, converting a double an int cannot hold, a failed \<open>assert\<close>, \<open>exit(-1)\<close>, and a
  recursion that outlives its fuel.
\<close>

datatype fault =
  InvalidPointer | OutOfBounds | Uninitialised | BadConversion | AssertFailed | ExitFailure | Diverged

type_synonym 'a result = "fault + 'a"

definition and_then :: "'a result \<Rightarrow> ('a \<Rightarrow> 'b result) \<Rightarrow> 'b result" where
  "and_then r f = (case r of Inl e \<Rightarrow> Inl e | Inr x \<Rightarrow> f x)"

lemma and_then_simps [simp]:
  "and_then (Inl e) f = Inl e"
  "and_then (Inr x) f = f x"
  by (simp_all add: and_then_def)

lemma and_then_Inr_iff:
  "and_then r f = Inr y \<longleftrightarrow> (\<exists>x. r = Inr x \<and> f x = Inr y)"
  by (cases r) simp_all

lemma and_then_InrE:
  assumes "and_then r f = Inr y"
  obtains x where "r = Inr x" and "f x = Inr y"
  using assms by (cases r) simp_all

section \<open>Updating one place of a list\<close>

lemma sum_list_update_nat:
  fixes f :: "'a \<Rightarrow> nat"
  assumes "i < length xs"
  shows "sum_list (map f (xs[i := y])) + f (xs ! i) = sum_list (map f xs) + f y"
  using assms by (induction xs arbitrary: i) (auto split: nat.splits)

lemma sum_list_update_mset:
  fixes f :: "'a \<Rightarrow> 'b multiset"
  assumes "i < length xs"
  shows "sum_list (map f (xs[i := y])) + f (xs ! i) = sum_list (map f xs) + f y"
  using assms by (induction xs arbitrary: i) (auto split: nat.splits simp: ac_simps)

lemma sum_list_update_split:
  fixes f :: "'a \<Rightarrow> 'b multiset"
  assumes "i < length xs"
  shows "\<exists>R. sum_list (map f xs) = f (xs ! i) + R \<and> (\<forall>y. sum_list (map f (xs[i := y])) = f y + R)"
  using assms
proof (induction xs arbitrary: i)
  case Nil
  then show ?case by simp
next
  case (Cons x xs)
  show ?case
  proof (cases i)
    case 0
    then show ?thesis by (intro exI [of _ "sum_list (map f xs)"]) simp
  next
    case (Suc j)
    with Cons obtain R where "sum_list (map f xs) = f (xs ! j) + R"
      "\<forall>y. sum_list (map f (xs[j := y])) = f y + R" by auto
    then show ?thesis using Suc by (intro exI [of _ "f x + R"]) (simp add: ac_simps)
  qed
qed

lemma sum_list_update_word:
  fixes f :: "'a \<Rightarrow> 'l::len word"
  assumes "i < length xs"
  shows "sum_list (map f (xs[i := y])) = sum_list (map f xs) - f (xs ! i) + f y"
  using assms by (induction xs arbitrary: i) (auto split: nat.splits)

lemma sum_list_ge_nth:
  fixes f :: "'a \<Rightarrow> nat"
  assumes "i < length xs"
  shows "f (xs ! i) \<le> sum_list (map f xs)"
  using assms by (simp add: member_le_sum_list)

section \<open>Mixing 32-bit and 64-bit counters\<close>

text \<open>
  The code adds 32-bit quantities to 64-bit counters and reads 64-bit counters into
  ints. Cutting to the low 32 bits commutes with addition and subtraction.
\<close>

lemma mod_low: "(a::int) mod 18446744073709551616 mod 4294967296 = a mod 4294967296"
  by (rule mod_mod_cancel) simp

lemma low_add: "(ucast (a + b :: u64) :: u32) = ucast a + ucast b"
  by transfer (simp add: take_bit_eq_mod, metis mod_low mod_add_eq)

lemma low_diff: "(ucast (a - b :: u64) :: u32) = ucast a - ucast b"
  by transfer (simp add: take_bit_eq_mod, metis mod_low mod_diff_eq)

lemma low_ucast [simp]: "(ucast (ucast (c::u32) :: u64) :: u32) = c"
  by transfer (simp add: take_bit_eq_mod mod_low)

lemma low_scast [simp]: "(ucast (scast (c::i32) :: u64) :: u32) = c"
  by transfer (simp add: take_bit_signed_take_bit)

lemma unat_ucast_up [simp]: "unat (ucast (c::u32) :: u64) = unat c"
proof -
  have "unat c < 2 ^ 32" using unsigned_less [of c] by simp
  then show ?thesis by (simp add: unsigned_ucast_eq take_bit_nat_eq_self)
qed

lemma unat_low:
  assumes "unat (c::u64) < 2 ^ 32"
  shows "unat (ucast c :: u32) = unat c"
  using assms by (simp add: unsigned_ucast_eq take_bit_nat_eq_self)

lemma ucast_le_iff: "(ucast (v::u32) :: u64) \<le> c \<longleftrightarrow> unat v \<le> unat c"
  by (simp add: word_le_nat_alt)

text \<open>A word below \<open>2^31\<close> is read as itself into an int.\<close>

lemma sint_small:
  assumes "unat (c::i32) < 2 ^ 31"
  shows "sint c = int (unat c)"
proof -
  have "int (unat c) < int (2 ^ 31)" using assms by (simp only: of_nat_less_iff)
  then have u: "uint c < 2147483648" by simp
  have "sint c = signed_take_bit 31 (uint c)" unfolding sint_uint by simp
  also have "signed_take_bit 31 (uint c) = uint c"
    by (rule signed_take_bit_int_eq_self)
      (use u order_trans [OF _ uint_ge_0 [of c], of "- 2147483648"] in simp_all)
  finally show ?thesis by (simp only: uint_nat)
qed

lemma sint_low:
  assumes "unat (c::u64) < 2 ^ 31"
  shows "sint (ucast c :: i32) = int (unat c)"
  using assms sint_small [of "ucast c"] unat_low [of c] by simp

lemma sless_low:
  assumes "unat (a::u64) < 2 ^ 31" and "unat (b::u64) < 2 ^ 31"
  shows "(ucast a :: i32) <s ucast b \<longleftrightarrow> unat a < unat b"
  unfolding word_sless_alt sint_low [OF assms(1)] sint_low [OF assms(2)] by (simp only: of_nat_less_iff)

lemma minus_one_sless_low:
  assumes "unat (b::u64) < 2 ^ 31"
  shows "(-1 :: i32) <s ucast b"
proof -
  have "(-1 :: int) < int (unat b)" by linarith
  then show ?thesis unfolding word_sless_alt sint_low [OF assms] by simp
qed

text \<open>
  An int compared with an unsigned long: a negative int is converted to a number above
  every counter of realistic size.
\<close>

lemma uint_scast_up:
  "uint (scast (v::i32) :: u64) = (if 0 \<le> sint v then sint v else sint v + 2 ^ 64)"
proof -
  have eq: "uint (scast v :: u64) = sint v mod 2 ^ 64"
    by transfer (simp add: take_bit_eq_mod)
  have bounds: "- 2147483648 \<le> sint v" "sint v < 2147483648"
    using sint_greater_eq [of v] sint_less [of v] by simp_all
  show ?thesis
  proof (cases "0 \<le> sint v")
    case True
    then show ?thesis using bounds eq by simp
  next
    case False
    have "sint v mod 2 ^ 64 = (sint v + 2 ^ 64) mod 2 ^ 64" by simp
    also have "\<dots> = sint v + 2 ^ 64" using False bounds by (intro mod_pos_pos_trivial) simp_all
    finally show ?thesis using False eq by simp
  qed
qed

lemma scast_le_iff:
  assumes "unat (m::u64) < 2 ^ 63"
  shows "scast (v::i32) \<le> m \<longleftrightarrow> 0 \<le> sint v \<and> sint v \<le> int (unat m)"
proof -
  have m: "uint m < 2 ^ 63"
    using assms by (metis of_nat_less_iff of_nat_numeral of_nat_power uint_nat)
  have "- 2147483648 \<le> sint v" using sint_greater_eq [of v] by simp
  then show ?thesis
    using m by (auto simp: word_le_def uint_scast_up)
qed

section \<open>Decimal rendering\<close>

text \<open>The digits that \<open>%u\<close> prints, and the signed form that \<open>%d\<close> prints.\<close>

fun digits_rev :: "nat \<Rightarrow> nat list" where
  "digits_rev n = (if n < 10 then [n] else n mod 10 # digits_rev (n div 10))"

declare digits_rev.simps [simp del]

definition digit_char :: "nat \<Rightarrow> char" where
  "digit_char d = char_of (48 + d)"

definition show_nat :: "nat \<Rightarrow> string" where
  "show_nat n = map digit_char (rev (digits_rev n))"

definition show_int :: "int \<Rightarrow> string" where
  "show_int k = (if k < 0 then CHR ''-'' # show_nat (nat (- k)) else show_nat (nat k))"

lemma digits_rev_small: "d \<in> set (digits_rev n) \<Longrightarrow> d < 10"
proof (induction n rule: digits_rev.induct)
  case (1 n)
  show ?case
  proof (cases "n < 10")
    case True
    with "1.prems" show ?thesis by (simp add: digits_rev.simps [of n])
  next
    case False
    then have "d = n mod 10 \<or> d \<in> set (digits_rev (n div 10))"
      using "1.prems" by (simp add: digits_rev.simps [of n])
    with "1.IH" False show ?thesis by auto
  qed
qed

lemma digits_rev_nonempty [simp]: "digits_rev n \<noteq> []"
  by (simp add: digits_rev.simps [of n])

lemma show_nat_nonempty [simp]: "show_nat n \<noteq> []"
  by (simp add: show_nat_def)

text \<open>Reading the digits back, most significant first.\<close>

lemma digits_rev_value: "foldr (\<lambda>d acc. d + 10 * acc) (digits_rev n) 0 = n"
proof (induction n rule: digits_rev.induct)
  case (1 n)
  then show ?case by (cases "n < 10") (simp_all add: digits_rev.simps [of n])
qed

lemma of_char_digit_char: "d < 10 \<Longrightarrow> of_char (digit_char d) = (48 + d :: nat)"
  by (simp add: digit_char_def)

end
