(* ===== verification/C_Strings.thy ===== *)
theory C_Strings
  imports Prelude
begin

text \<open>
  Memory objects as lists of bytes, and the functions of string.h and strings.h the
  service calls on them. An access past an object is the fault \<open>OutOfBounds\<close>. A character
  pointer is an object together with an offset; the string it points to ends before the
  first NUL at or after the offset.
\<close>

type_synonym block = "char list"

abbreviation NUL :: char where "NUL \<equiv> CHR 0x00"

section \<open>Reading\<close>

text \<open>\<open>c_string b p\<close>: the bytes strlen, strcmp and printf read from offset \<open>p\<close>.\<close>

definition c_string :: "block \<Rightarrow> nat \<Rightarrow> string result" where
  "c_string b p =
     (let s = takeWhile (\<lambda>c. c \<noteq> NUL) (drop p b) in
      if p + length s < length b then Inr s else Inl OutOfBounds)"

text \<open>
  \<open>read_upto b p n\<close>: the bytes strncpy and strncat read: at most \<open>n\<close>, and none after a NUL.
\<close>

definition read_upto :: "block \<Rightarrow> nat \<Rightarrow> nat \<Rightarrow> string result" where
  "read_upto b p n =
     (let s = takeWhile (\<lambda>c. c \<noteq> NUL) (take n (drop p b)) in
      if length s = n \<or> p + length s < length b then Inr s else Inl OutOfBounds)"

definition read_bytes :: "block \<Rightarrow> nat \<Rightarrow> nat \<Rightarrow> char list result" where
  "read_bytes b p n = (if p + n \<le> length b then Inr (take n (drop p b)) else Inl OutOfBounds)"

text \<open>A string literal or the string a C function was given: its characters and a NUL.\<close>

definition lit :: "string \<Rightarrow> block" where
  "lit s = s @ [NUL]"

section \<open>Writing\<close>

definition put_bytes :: "block \<Rightarrow> nat \<Rightarrow> char list \<Rightarrow> block result" where
  "put_bytes b p xs =
     (if p + length xs \<le> length b then Inr (take p b @ xs @ drop (p + length xs) b)
      else Inl OutOfBounds)"

text \<open>\<open>malloc\<close> gives a block with whatever bytes the memory holds, \<open>calloc\<close> zeros.\<close>

definition malloc :: "(nat \<Rightarrow> char) \<Rightarrow> nat \<Rightarrow> block" where
  "malloc junk n = map junk [0..<n]"

definition calloc :: "nat \<Rightarrow> block" where
  "calloc n = replicate n NUL"

definition bzero :: "block \<Rightarrow> nat \<Rightarrow> block result" where
  "bzero b n = put_bytes b 0 (replicate n NUL)"

definition memcpy :: "block \<Rightarrow> nat \<Rightarrow> block \<Rightarrow> nat \<Rightarrow> nat \<Rightarrow> block result" where
  "memcpy b p src q n = and_then (read_bytes src q n) (put_bytes b p)"

definition strncpy :: "block \<Rightarrow> nat \<Rightarrow> block \<Rightarrow> nat \<Rightarrow> nat \<Rightarrow> block result" where
  "strncpy b p src q n =
     and_then (read_upto src q n) (\<lambda>s. put_bytes b p (s @ replicate (n - length s) NUL))"

definition strncat :: "block \<Rightarrow> block \<Rightarrow> nat \<Rightarrow> nat \<Rightarrow> block result" where
  "strncat b src q n =
     and_then (c_string b 0) (\<lambda>d.
     and_then (read_upto src q n) (\<lambda>s. put_bytes b (length d) (s @ [NUL])))"

section \<open>Comparing, characters and numbers\<close>

text \<open>
  \<open>strcmp\<close> stops at the first difference or at the common end; its callers only test the
  result for zero, which is true here. \<open>tolower\<close> and \<open>isspace\<close> are those of the C locale.
\<close>

fun strcmp_eq :: "block \<Rightarrow> block \<Rightarrow> bool result" where
  "strcmp_eq (x # xs) (y # ys) =
     (if x \<noteq> y then Inr False else if x = NUL then Inr True else strcmp_eq xs ys)"
| "strcmp_eq xs ys = Inl OutOfBounds"

definition tolower :: "char \<Rightarrow> char" where
  "tolower c = (if of_char c \<in> {65..90 :: nat} then char_of (of_char c + 32 :: nat) else c)"

definition isspace :: "char \<Rightarrow> bool" where
  "isspace c \<longleftrightarrow> c = CHR '' '' \<or> of_char c \<in> {9..13 :: nat}"

definition is_digit :: "char \<Rightarrow> bool" where
  "is_digit c \<longleftrightarrow> of_char c \<in> {48..57 :: nat}"

definition digits_value :: "string \<Rightarrow> nat" where
  "digits_value ds = foldl (\<lambda>v c. 10 * v + (of_char c - 48)) 0 ds"

text \<open>\<open>atoi\<close>: \<open>strtol\<close> in base ten, which saturates at 64 bits, cut to an int.\<close>

definition atoi :: "string \<Rightarrow> i32" where
  "atoi s =
     (let t = dropWhile isspace s;
          signed = (case t of c # _ \<Rightarrow> c = CHR ''+'' \<or> c = CHR ''-'' | [] \<Rightarrow> False);
          n = int (digits_value (takeWhile is_digit (if signed then tl t else t)))
      in word_of_int (max (- 9223372036854775808) (min 9223372036854775807
           (if signed \<and> hd t = CHR ''-'' then - n else n))))"

section \<open>Facts\<close>

named_theorems block_simps

lemma malloc_length [simp]: "length (malloc junk n) = n"
  by (simp add: malloc_def)

lemma calloc_length [simp]: "length (calloc n) = n"
  by (simp add: calloc_def)

lemma malloc_nth [simp]: "i < n \<Longrightarrow> malloc junk n ! i = junk i"
  by (simp add: malloc_def)

lemma takeWhile_clean [simp]: "NUL \<notin> set s \<Longrightarrow> takeWhile (\<lambda>c. c \<noteq> NUL) (s @ NUL # r) = s"
  by (induction s) auto

lemma takeWhile_clean_all: "NUL \<notin> set s \<Longrightarrow> takeWhile (\<lambda>c. c \<noteq> NUL) s = s"
  by (auto simp: takeWhile_eq_all_conv)

lemma takeWhile_clean_prefix:
  "NUL \<notin> set s \<Longrightarrow> takeWhile (\<lambda>c. c \<noteq> NUL) (s @ r) = s @ takeWhile (\<lambda>c. c \<noteq> NUL) r"
  by (induction s) auto

lemma takeWhile_free: "NUL \<notin> set (takeWhile (\<lambda>c. c \<noteq> NUL) s)"
  using set_takeWhileD by fastforce

lemma c_string_terminated [block_simps]:
  "NUL \<notin> set s \<Longrightarrow> c_string (s @ NUL # r) 0 = Inr s"
  by (simp add: c_string_def)

lemma c_string_at [block_simps]:
  "length a = p \<Longrightarrow> NUL \<notin> set s \<Longrightarrow> c_string (a @ s @ NUL # r) p = Inr s"
  by (simp add: c_string_def)

lemma c_string_zeros:
  "NUL \<notin> set s \<Longrightarrow> 0 < n \<Longrightarrow> c_string (s @ replicate n NUL) 0 = Inr s"
  by (cases n) (simp_all add: c_string_terminated)

lemma c_string_unterminated: "NUL \<notin> set (drop p b) \<Longrightarrow> c_string b p = Inl OutOfBounds"
  by (simp add: c_string_def takeWhile_clean_all Let_def)

lemma c_string_lit [block_simps]: "NUL \<notin> set s \<Longrightarrow> c_string (lit s) 0 = Inr s"
  by (simp add: lit_def c_string_terminated)

lemma takeWhile_take_clean:
  "NUL \<notin> set s \<Longrightarrow> takeWhile (\<lambda>c. c \<noteq> NUL) (take n (s @ NUL # r)) = take n s"
proof (induction s arbitrary: n)
  case Nil
  then show ?case by (cases n) simp_all
next
  case (Cons a s)
  then show ?case by (cases n) auto
qed

lemma read_upto_terminated [block_simps]:
  assumes "NUL \<notin> set s"
  shows "read_upto (s @ NUL # r) 0 n = Inr (take n s)"
  unfolding read_upto_def drop_0 takeWhile_take_clean [OF assms] by (simp add: Let_def min_def)

lemma read_upto_lit [block_simps]: "NUL \<notin> set s \<Longrightarrow> read_upto (lit s) 0 n = Inr (take n s)"
  by (simp add: lit_def read_upto_terminated)

lemma read_upto_full [block_simps]:
  assumes "NUL \<notin> set s" and "length s = n" and "length a = p"
  shows "read_upto (a @ s @ r) p n = Inr s"
proof -
  have "take n (drop p (a @ s @ r)) = s" using assms(2,3) by simp
  then show ?thesis using assms by (simp add: read_upto_def takeWhile_clean_all)
qed

lemma put_bytes_fits [block_simps]:
  "length a = p \<Longrightarrow> length xs = length ys \<Longrightarrow> put_bytes (a @ ys @ r) p xs = Inr (a @ xs @ r)"
  by (simp add: put_bytes_def)

lemma put_bytes_length: "put_bytes b p xs = Inr b' \<Longrightarrow> length b' = length b"
  by (auto simp: put_bytes_def split: if_splits)

lemma put_bytes_prefix:
  assumes "length xs \<le> length b"
  shows "put_bytes b 0 xs = Inr (xs @ drop (length xs) b)"
  using assms by (simp add: put_bytes_def)

text \<open>Where the end of the string is, and what appending to it gives.\<close>

lemma strncat_clean:
  assumes "b = d @ NUL # r" and "NUL \<notin> set d" and "NUL \<notin> set s"
    and "length (take n s) \<le> length r"
  shows "strncat b (lit s) 0 n = Inr (d @ take n s @ NUL # drop (length (take n s)) r)"
proof -
  have "put_bytes b (length d) (take n s @ [NUL]) =
      Inr (d @ take n s @ NUL # drop (length (take n s)) r)"
    using assms(1,4) by (simp add: put_bytes_def)
  then show ?thesis using assms by (simp add: strncat_def block_simps)
qed

lemma strncat_zeros:
  assumes "NUL \<notin> set d" and "read_upto src q n = Inr s" and "length s < k"
  shows "strncat (d @ replicate k NUL) src q n = Inr ((d @ s) @ replicate (k - length s) NUL)"
proof -
  have "k = length (s @ [NUL]) + (k - Suc (length s))" using assms(3) by simp
  then have k: "replicate k NUL =
      replicate (length (s @ [NUL])) NUL @ replicate (k - Suc (length s)) NUL"
    by (metis replicate_add)
  have "put_bytes (d @ replicate k NUL) (length d) (s @ [NUL]) =
      Inr (d @ (s @ [NUL]) @ replicate (k - Suc (length s)) NUL)"
    unfolding k by (rule put_bytes_fits) simp_all
  moreover have "k - length s = Suc (k - Suc (length s))" using assms(3) by simp
  ultimately show ?thesis
    using assms by (simp add: strncat_def c_string_zeros)
qed

lemma show_nat_clean: "NUL \<notin> set (show_nat n)"
proof
  assume "NUL \<in> set (show_nat n)"
  then obtain d where d: "d \<in> set (digits_rev n)" "digit_char d = NUL"
    by (auto simp: show_nat_def)
  then have "of_char NUL = (48 + d :: nat)"
    using of_char_digit_char [OF digits_rev_small [OF d(1)]] by simp
  then show False by simp
qed

section \<open>Facts on comparison and numbers\<close>

lemma strcmp_eq_clean [block_simps]:
  "NUL \<notin> set s \<Longrightarrow> NUL \<notin> set t \<Longrightarrow> strcmp_eq (s @ NUL # r) (t @ NUL # q) = Inr (s = t)"
proof (induction s arbitrary: t)
  case Nil
  then show ?case by (cases t) auto
next
  case (Cons x s)
  then show ?case by (cases t) auto
qed

lemma strcmp_eq_lit [block_simps]:
  "NUL \<notin> set s \<Longrightarrow> NUL \<notin> set t \<Longrightarrow> strcmp_eq (lit s) (lit t) = Inr (s = t)"
  by (simp add: lit_def strcmp_eq_clean)

lemma tolower_NUL [simp]: "tolower c = NUL \<longleftrightarrow> c = NUL"
proof (cases "of_char c \<in> {65..90 :: nat}")
  case True
  then have "of_char (tolower c) = (of_char c + 32 :: nat)" by (simp add: tolower_def)
  then have "of_char (tolower c) \<noteq> (of_char NUL :: nat)" by simp
  then have "tolower c \<noteq> NUL" by metis
  moreover have "c \<noteq> NUL" using True by auto
  ultimately show ?thesis by simp
next
  case False
  then have "tolower c = c" unfolding tolower_def by (rule if_not_P)
  then show ?thesis by simp
qed

lemma map_tolower_clean [simp]: "NUL \<in> set (map tolower s) \<longleftrightarrow> NUL \<in> set s"
  by (induction s) (simp_all add: eq_commute [of NUL])

lemma is_digit_digit_char: "d < 10 \<Longrightarrow> is_digit (digit_char d)"
  by (simp add: is_digit_def of_char_digit_char)

lemma show_nat_digits: "c \<in> set (show_nat n) \<Longrightarrow> is_digit c"
  using digits_rev_small by (auto simp: show_nat_def is_digit_digit_char)

lemma digits_value_snoc: "digits_value (ds @ [c]) = 10 * digits_value ds + (of_char c - 48)"
  by (simp add: digits_value_def)

lemma digits_value_rev:
  "(\<And>d. d \<in> set ds \<Longrightarrow> d < 10) \<Longrightarrow>
   digits_value (map digit_char (rev ds)) = foldr (\<lambda>d acc. d + 10 * acc) ds 0"
proof (induction ds)
  case (Cons d ds)
  then show ?case by (simp add: digits_value_snoc of_char_digit_char)
qed (simp add: digits_value_def)

lemma digits_value_show [simp]: "digits_value (show_nat n) = n"
  unfolding show_nat_def using digits_value_rev [of "digits_rev n"] digits_rev_small digits_rev_value
  by metis

lemma takeWhile_digits_show [simp]: "takeWhile is_digit (show_nat n) = show_nat n"
  by (simp add: takeWhile_eq_all_conv show_nat_digits)

lemma digit_not: "is_digit c \<Longrightarrow> \<not> isspace c \<and> c \<noteq> CHR ''+'' \<and> c \<noteq> CHR ''-''"
  by (auto simp: is_digit_def isspace_def)

lemma atoi_show_nat:
  assumes "n < 2 ^ 31"
  shows "atoi (show_nat n) = word_of_nat n"
proof -
  obtain c s where s: "show_nat n = c # s" by (cases "show_nat n") auto
  then have "is_digit c" using show_nat_digits [of c n] by simp
  then have d: "\<not> isspace c" "c \<noteq> CHR ''+''" "c \<noteq> CHR ''-''" using digit_not by auto
  then have "dropWhile isspace (show_nat n) = show_nat n" by (simp add: s)
  then have "atoi (show_nat n) = word_of_int (max (- 9223372036854775808) (min 9223372036854775807 (int n)))"
    using d by (simp add: atoi_def Let_def s [symmetric]) (simp add: s)
  moreover have "int n < 2147483648" using assms by simp
  ultimately show ?thesis by (simp add: min_def max_def)
qed

section \<open>Texts inside a block\<close>

fun occurs :: "block \<Rightarrow> nat \<Rightarrow> string \<Rightarrow> bool" where
  "occurs b p [] \<longleftrightarrow> True"
| "occurs b p (c # s) \<longleftrightarrow> p < length b \<and> b ! p = c \<and> occurs b (p + 1) s"

definition slice :: "block \<Rightarrow> nat \<Rightarrow> nat \<Rightarrow> string" where
  "slice b p n = take n (drop p b)"

lemma occurs_append [simp]: "occurs b p (s @ t) \<longleftrightarrow> occurs b p s \<and> occurs b (p + length s) t"
  by (induction s arbitrary: p) auto

lemma occurs_here: "occurs (a @ s @ r) (length a) s"
proof (induction s arbitrary: a)
  case (Cons c s)
  from Cons [of "a @ [c]"] show ?case by simp
qed simp

lemma occurs_prefix: "occurs (s @ r) 0 s"
  using occurs_here [of "[]"] by simp

lemma slice_occurs: "occurs b p s \<Longrightarrow> slice b p (length s) = s"
proof (induction s arbitrary: p)
  case (Cons c s)
  then show ?case by (simp add: slice_def Cons_nth_drop_Suc [symmetric])
qed (simp add: slice_def)

lemma slice_length [simp]: "p + n \<le> length b \<Longrightarrow> length (slice b p n) = n"
  by (simp add: slice_def)

end
