(* ===== verification/Picohttp.thy ===== *)
theory Picohttp
  imports C_Strings
begin

text \<open>
  The HTTP parser lib/picohttpparser.c (parse_request, parse_response, parse_headers and
  the tokenizers), as compiled without SSE 4.2, where \<open>findchar_fast\<close> returns its argument.

  The input is a block of bytes; \<open>e\<close> is the offset of \<open>buf_end\<close>. A scan ends in a fault (a
  read outside the block), in a return code of the parser (-1 for malformed input, -2 for
  incomplete input), or in a value. Outputs that are written before a failure are left
  out: no caller reads them.
\<close>

section \<open>Scans\<close>

type_synonym 'a scan = "(int + 'a) result"

definition scan_then :: "'a scan \<Rightarrow> ('a \<Rightarrow> 'b scan) \<Rightarrow> 'b scan" where
  "scan_then r f = (case r of Inl e \<Rightarrow> Inl e | Inr (Inl ret) \<Rightarrow> Inr (Inl ret) | Inr (Inr x) \<Rightarrow> f x)"

abbreviation stop :: "int \<Rightarrow> 'a scan" where "stop ret \<equiv> Inr (Inl ret)"
abbreviation accept :: "'a \<Rightarrow> 'a scan" where "accept x \<equiv> Inr (Inr x)"

lemma scan_then_simps [simp]:
  "scan_then (Inl e) f = Inl e" "scan_then (stop ret) f = stop ret" "scan_then (accept x) f = f x"
  by (simp_all add: scan_then_def)

definition char_at :: "block \<Rightarrow> nat \<Rightarrow> char scan" where
  "char_at b p = (if p < length b then accept (b ! p) else Inl OutOfBounds)"

definition CHECK_EOF :: "nat \<Rightarrow> nat \<Rightarrow> unit scan" where
  "CHECK_EOF e p = (if p = e then stop (- 2) else accept ())"

definition EXPECT_CHAR_NO_CHECK :: "block \<Rightarrow> nat \<Rightarrow> char \<Rightarrow> nat scan" where
  "EXPECT_CHAR_NO_CHECK b p ch =
     scan_then (char_at b p) (\<lambda>c. if c = ch then accept (p + 1) else stop (- 1))"

definition EXPECT_CHAR :: "block \<Rightarrow> nat \<Rightarrow> nat \<Rightarrow> char \<Rightarrow> nat scan" where
  "EXPECT_CHAR b e p ch = scan_then (CHECK_EOF e p) (\<lambda>_. EXPECT_CHAR_NO_CHECK b p ch)"

section \<open>Character classes\<close>

definition IS_PRINTABLE_ASCII :: "char \<Rightarrow> bool" where
  "IS_PRINTABLE_ASCII c \<longleftrightarrow> of_char c \<in> {0x20..<0x7F :: nat}"

text \<open>A control character: below the space or DEL. The end-of-line scan lets tabs pass.\<close>

definition control_char :: "char \<Rightarrow> bool" where
  "control_char c \<longleftrightarrow> of_char c < (0x20 :: nat) \<or> c = CHR 0x7F"

definition line_control :: "char \<Rightarrow> bool" where
  "line_control c \<longleftrightarrow> (of_char c < (0x20 :: nat) \<and> c \<noteq> CHR 0x09) \<or> c = CHR 0x7F"

definition token_char_map :: "nat list" where
  "token_char_map =
     replicate 32 0 @
     [0,1,0,1,1,1,1,1,0,0,1,1,0,1,1,0,1,1,1,1,1,1,1,1,1,1,0,0,0,0,0,0] @
     [0,1,1,1,1,1,1,1,1,1,1,1,1,1,1,1,1,1,1,1,1,1,1,1,1,1,1,0,0,0,1,1] @
     [1,1,1,1,1,1,1,1,1,1,1,1,1,1,1,1,1,1,1,1,1,1,1,1,1,1,1,0,1,0,1,0] @
     replicate 128 0"

definition token_char :: "char \<Rightarrow> bool" where
  "token_char c \<longleftrightarrow> token_char_map ! of_char c \<noteq> 0"

definition blank :: "char \<Rightarrow> bool" where
  "blank c \<longleftrightarrow> c = CHR '' '' \<or> c = CHR 0x09"

abbreviation CR :: char where "CR \<equiv> CHR 0x0D"
abbreviation LF :: char where "LF \<equiv> CHR 0x0A"

section \<open>Tokens\<close>

text \<open>
  The loops advance \<open>buf\<close> until they meet a character that ends them or \<open>buf_end\<close>; reading
  outside the block is a fault, so the distance to the end of the block decreases.
\<close>

function token_loop :: "block \<Rightarrow> nat \<Rightarrow> char \<Rightarrow> nat \<Rightarrow> nat scan" where
  "token_loop b e next_char p =
     (if p < length b then
        (if b ! p = next_char then accept p
         else if \<not> token_char (b ! p) then stop (- 1)
         else scan_then (CHECK_EOF e (p + 1)) (\<lambda>_. token_loop b e next_char (p + 1)))
      else Inl OutOfBounds)"
  by pat_completeness auto
termination by (relation "measure (\<lambda>(b, e, c, p). length b - p)") auto

declare token_loop.simps [simp del]

text \<open>The result is the start of the token, its length, and the position after it.\<close>

definition parse_token :: "block \<Rightarrow> nat \<Rightarrow> nat \<Rightarrow> char \<Rightarrow> (nat \<times> nat \<times> nat) scan" where
  "parse_token b e p next_char =
     scan_then (CHECK_EOF e p) (\<lambda>_.
     scan_then (token_loop b e next_char p) (\<lambda>q. accept (p, q - p, q)))"

function advance_loop :: "block \<Rightarrow> nat \<Rightarrow> nat \<Rightarrow> nat scan" where
  "advance_loop b e p =
     (if p < length b then
        (if b ! p = CHR '' '' then accept p
         else if \<not> IS_PRINTABLE_ASCII (b ! p) \<and> control_char (b ! p) then stop (- 1)
         else scan_then (CHECK_EOF e (p + 1)) (\<lambda>_. advance_loop b e (p + 1)))
      else Inl OutOfBounds)"
  by pat_completeness auto
termination by (relation "measure (\<lambda>(b, e, p). length b - p)") auto

declare advance_loop.simps [simp del]

definition ADVANCE_TOKEN :: "block \<Rightarrow> nat \<Rightarrow> nat \<Rightarrow> (nat \<times> nat \<times> nat) scan" where
  "ADVANCE_TOKEN b e p =
     scan_then (CHECK_EOF e p) (\<lambda>_.
     scan_then (advance_loop b e p) (\<lambda>q. accept (p, q - p, q)))"

text \<open>\<open>do { ++buf; CHECK_EOF(); } while (*buf == ' ')\<close>\<close>

function skip_spaces :: "block \<Rightarrow> nat \<Rightarrow> nat \<Rightarrow> nat scan" where
  "skip_spaces b e p =
     scan_then (CHECK_EOF e (p + 1)) (\<lambda>_.
       if p + 1 < length b then
         (if b ! (p + 1) = CHR '' '' then skip_spaces b e (p + 1) else accept (p + 1))
       else Inl OutOfBounds)"
  by pat_completeness auto
termination by (relation "measure (\<lambda>(b, e, p). length b - p)") auto

declare skip_spaces.simps [simp del]

section \<open>The rest of a line\<close>

text \<open>
  The hot loop of \<open>get_token_to_eol\<close>: while eight bytes are left, step over up to eight
  printable characters (\<open>DOIT\<close>); at a character that is not printable, either a control
  character is found (\<open>Some q\<close>) or the scan goes on behind it. \<open>None\<close> and a position is
  where the plain loop continues.
\<close>

fun printable_run :: "block \<Rightarrow> nat \<Rightarrow> nat \<Rightarrow> (nat \<times> bool) result" where
  "printable_run b 0 p = Inr (p, True)"
| "printable_run b (Suc k) p =
     (if p < length b then
        (if IS_PRINTABLE_ASCII (b ! p) then printable_run b k (p + 1) else Inr (p, False))
      else Inl OutOfBounds)"

lemma printable_run_mono: "printable_run b k p = Inr (q, r) \<Longrightarrow> p \<le> q \<and> (r \<longrightarrow> q = p + k)"
  by (induction b k p rule: printable_run.induct) (auto split: if_splits)

lemma printable_run_stop:
  "printable_run b k p = Inr (q, False) \<Longrightarrow> q < length b \<and> q < p + k"
  by (induction b k p rule: printable_run.induct) (auto split: if_splits)

function hot_loop :: "block \<Rightarrow> nat \<Rightarrow> nat \<Rightarrow> (bool \<times> nat) result" where
  "hot_loop b e p =
     (if p + 8 \<le> e then
        (case printable_run b 8 p of
           Inl er \<Rightarrow> Inl er
         | Inr (q, True) \<Rightarrow> hot_loop b e q
         | Inr (q, False) \<Rightarrow> if line_control (b ! q) then Inr (True, q) else hot_loop b e (q + 1))
      else Inr (False, p))"
  by pat_completeness auto
termination
  by (relation "measure (\<lambda>(b, e, p). e - p)")
    (auto dest: printable_run_mono)

declare hot_loop.simps [simp del]

function plain_loop :: "block \<Rightarrow> nat \<Rightarrow> nat \<Rightarrow> nat scan" where
  "plain_loop b e p =
     scan_then (CHECK_EOF e p) (\<lambda>_.
       if p < length b then
         (if \<not> IS_PRINTABLE_ASCII (b ! p) \<and> line_control (b ! p) then accept p
          else plain_loop b e (p + 1))
       else Inl OutOfBounds)"
  by pat_completeness auto
termination by (relation "measure (\<lambda>(b, e, p). length b - p)") auto

declare plain_loop.simps [simp del]

text \<open>After \<open>FOUND_CTL\<close>: the token, its length, and the position after the line end.\<close>

definition end_line :: "block \<Rightarrow> nat \<Rightarrow> nat \<Rightarrow> nat \<Rightarrow> (nat \<times> nat \<times> nat) scan" where
  "end_line b e token_start p =
     scan_then (char_at b p) (\<lambda>c.
       if c = CR then
         scan_then (EXPECT_CHAR b e (p + 1) LF) (\<lambda>q. accept (token_start, q - 2 - token_start, q))
       else if c = LF then accept (token_start, p - token_start, p + 1)
       else stop (- 1))"

definition get_token_to_eol :: "block \<Rightarrow> nat \<Rightarrow> nat \<Rightarrow> (nat \<times> nat \<times> nat) scan" where
  "get_token_to_eol b e p =
     (case hot_loop b e p of
        Inl er \<Rightarrow> Inl er
      | Inr (True, q) \<Rightarrow> end_line b e p q
      | Inr (False, q) \<Rightarrow> scan_then (plain_loop b e q) (end_line b e p))"

section \<open>Completeness test, numbers, version\<close>

function is_complete_loop :: "block \<Rightarrow> nat \<Rightarrow> nat \<Rightarrow> nat \<Rightarrow> nat scan" where
  "is_complete_loop b e ret_cnt p =
     scan_then (CHECK_EOF e p) (\<lambda>_.
       if p < length b then
         (if b ! p = CR then
            scan_then (CHECK_EOF e (p + 1)) (\<lambda>_.
            scan_then (EXPECT_CHAR b e (p + 1) LF) (\<lambda>_.
              if ret_cnt = 1 then accept (p + 2) else is_complete_loop b e (ret_cnt + 1) (p + 2)))
          else if b ! p = LF then
            (if ret_cnt = 1 then accept (p + 1) else is_complete_loop b e (ret_cnt + 1) (p + 1))
          else is_complete_loop b e 0 (p + 1))
       else Inl OutOfBounds)"
  by pat_completeness auto
termination by (relation "measure (\<lambda>(b, e, k, p). length b - p)") auto

declare is_complete_loop.simps [simp del]

definition is_complete :: "block \<Rightarrow> nat \<Rightarrow> nat \<Rightarrow> nat scan" where
  "is_complete b e last_len = is_complete_loop b e 0 (if last_len < 3 then 0 else last_len - 3)"

definition PARSE_INT :: "block \<Rightarrow> nat \<Rightarrow> nat \<Rightarrow> (nat \<times> nat) scan" where
  "PARSE_INT b p mul =
     scan_then (char_at b p) (\<lambda>c.
       if of_char c < (0x30 :: nat) \<or> 0x39 < (of_char c :: nat) then stop (- 1)
       else accept (mul * (of_char c - 0x30), p + 1))"

definition PARSE_INT_3 :: "block \<Rightarrow> nat \<Rightarrow> (nat \<times> nat) scan" where
  "PARSE_INT_3 b p =
     scan_then (PARSE_INT b p 100) (\<lambda>(x, p1).
     scan_then (PARSE_INT b p1 10) (\<lambda>(y, p2).
     scan_then (PARSE_INT b p2 1) (\<lambda>(z, p3). accept (x + y + z, p3))))"

fun expect_text :: "block \<Rightarrow> string \<Rightarrow> nat \<Rightarrow> nat scan" where
  "expect_text b [] p = accept p"
| "expect_text b (c # cs) p = scan_then (EXPECT_CHAR_NO_CHECK b p c) (expect_text b cs)"

definition parse_http_version :: "block \<Rightarrow> nat \<Rightarrow> nat \<Rightarrow> (nat \<times> nat) scan" where
  "parse_http_version b e p =
     (if e < p + 9 then stop (- 2)
      else scan_then (expect_text b ''HTTP/1.'' p) (\<lambda>q. PARSE_INT b q 1))"

section \<open>Headers\<close>

text \<open>Pointers into the buffer are offsets; a continuation line has no name.\<close>

record phr_header =
  hdr_name :: "nat option"
  hdr_name_len :: nat
  hdr_value :: nat
  hdr_value_len :: nat

text \<open>The loop that skips spaces and tabs after the colon, and the one that trims the value.\<close>

function skip_blank :: "block \<Rightarrow> nat \<Rightarrow> nat \<Rightarrow> nat scan" where
  "skip_blank b e p =
     scan_then (CHECK_EOF e p) (\<lambda>_.
       if p < length b then (if blank (b ! p) then skip_blank b e (p + 1) else accept p)
       else Inl OutOfBounds)"
  by pat_completeness auto
termination by (relation "measure (\<lambda>(b, e, p). length b - p)") auto

declare skip_blank.simps [simp del]

fun trimmed_length :: "block \<Rightarrow> nat \<Rightarrow> nat \<Rightarrow> nat" where
  "trimmed_length b start 0 = 0"
| "trimmed_length b start (Suc n) =
     (if blank (b ! (start + n)) then trimmed_length b start n else Suc n)"

text \<open>One line of the header block: its name part and its value.\<close>

definition header_name :: "block \<Rightarrow> nat \<Rightarrow> nat \<Rightarrow> nat \<Rightarrow> (nat option \<times> nat \<times> nat) scan" where
  "header_name b e num_headers p =
     scan_then (char_at b p) (\<lambda>c.
       if \<not> (num_headers \<noteq> 0 \<and> blank c) then
         scan_then (parse_token b e p (CHR '':'')) (\<lambda>(name, name_len, q).
           if name_len = 0 then stop (- 1)
           else scan_then (skip_blank b e (q + 1)) (\<lambda>r. accept (Some name, name_len, r)))
       else accept (None, 0, p))"

definition header_line :: "block \<Rightarrow> nat \<Rightarrow> nat \<Rightarrow> nat \<Rightarrow> (phr_header \<times> nat) scan" where
  "header_line b e num_headers p =
     scan_then (header_name b e num_headers p) (\<lambda>(name, name_len, q).
     scan_then (get_token_to_eol b e q) (\<lambda>(v, value_len, r).
       accept (\<lparr>hdr_name = name, hdr_name_len = name_len, hdr_value = v,
                hdr_value_len = trimmed_length b v value_len\<rparr>, r)))"

text \<open>
  The loop over the header lines; \<open>left\<close> is \<open>max_headers - num_headers\<close>. The result is the
  list of all headers and the position after the empty line.
\<close>

fun parse_headers_loop ::
  "block \<Rightarrow> nat \<Rightarrow> nat \<Rightarrow> phr_header list \<Rightarrow> nat \<Rightarrow> (phr_header list \<times> nat) scan" where
  "parse_headers_loop b e left hs p =
     scan_then (CHECK_EOF e p) (\<lambda>_.
     scan_then (char_at b p) (\<lambda>c.
       if c = CR then scan_then (EXPECT_CHAR b e (p + 1) LF) (\<lambda>q. accept (hs, q))
       else if c = LF then accept (hs, p + 1)
       else
         (case left of
            0 \<Rightarrow> stop (- 1)
          | Suc left' \<Rightarrow>
              scan_then (header_line b e (length hs) p) (\<lambda>(h, q).
                parse_headers_loop b e left' (hs @ [h]) q))))"

declare parse_headers_loop.simps [simp del]

definition parse_headers :: "block \<Rightarrow> nat \<Rightarrow> nat \<Rightarrow> nat \<Rightarrow> (phr_header list \<times> nat) scan" where
  "parse_headers b e p max_headers = parse_headers_loop b e max_headers [] p"

section \<open>Requests and responses\<close>

record phr_request =
  phr_method :: nat
  phr_method_len :: nat
  phr_path :: nat
  phr_path_len :: nat
  phr_minor_version :: nat
  phr_headers :: "phr_header list"

text \<open>The line end after the version, and the optional empty line before the request.\<close>

definition skip_empty_line :: "block \<Rightarrow> nat \<Rightarrow> nat \<Rightarrow> nat scan" where
  "skip_empty_line b e p =
     scan_then (CHECK_EOF e p) (\<lambda>_.
     scan_then (char_at b p) (\<lambda>c.
       if c = CR then EXPECT_CHAR b e (p + 1) LF
       else accept (if c = LF then p + 1 else p)))"

definition line_end :: "block \<Rightarrow> nat \<Rightarrow> nat \<Rightarrow> nat scan" where
  "line_end b e p =
     scan_then (char_at b p) (\<lambda>c.
       if c = CR then EXPECT_CHAR b e (p + 1) LF
       else if c = LF then accept (p + 1) else stop (- 1))"

definition parse_request :: "block \<Rightarrow> nat \<Rightarrow> nat \<Rightarrow> nat \<Rightarrow> (phr_request \<times> nat) scan" where
  "parse_request b e p max_headers =
     scan_then (skip_empty_line b e p) (\<lambda>p1.
     scan_then (parse_token b e p1 (CHR '' '')) (\<lambda>(method, method_len, p2).
     scan_then (skip_spaces b e p2) (\<lambda>p3.
     scan_then (ADVANCE_TOKEN b e p3) (\<lambda>(path, path_len, p4).
     scan_then (skip_spaces b e p4) (\<lambda>p5.
       if method_len = 0 \<or> path_len = 0 then stop (- 1)
       else
         scan_then (parse_http_version b e p5) (\<lambda>(minor_version, p6).
         scan_then (line_end b e p6) (\<lambda>p7.
         scan_then (parse_headers b e p7 max_headers) (\<lambda>(hs, p8).
           accept (\<lparr>phr_method = method, phr_method_len = method_len, phr_path = path,
                    phr_path_len = path_len, phr_minor_version = minor_version,
                    phr_headers = hs\<rparr>, p8)))))))))"

text \<open>The value is the parsed request with the number of bytes consumed.\<close>

definition phr_parse_request :: "block \<Rightarrow> nat \<Rightarrow> nat \<Rightarrow> nat \<Rightarrow> (phr_request \<times> nat) scan" where
  "phr_parse_request b len max_headers last_len =
     scan_then (if last_len \<noteq> 0 then is_complete b len last_len else accept 0) (\<lambda>_.
       parse_request b len 0 max_headers)"

record phr_response =
  rsp_minor_version :: nat
  rsp_status :: nat
  rsp_msg :: nat
  rsp_msg_len :: nat
  rsp_headers :: "phr_header list"

text \<open>Removing the spaces before the reason phrase; the loop does not check the length.\<close>

function skip_msg_spaces :: "block \<Rightarrow> nat \<Rightarrow> nat scan" where
  "skip_msg_spaces b p =
     (if p < length b then (if b ! p = CHR '' '' then skip_msg_spaces b (p + 1) else accept p)
      else Inl OutOfBounds)"
  by pat_completeness auto
termination by (relation "measure (\<lambda>(b, p). length b - p)") auto

declare skip_msg_spaces.simps [simp del]

definition response_msg :: "block \<Rightarrow> nat \<Rightarrow> nat \<Rightarrow> (nat \<times> nat) scan" where
  "response_msg b msg msg_len =
     (if msg_len = 0 then accept (msg, 0)
      else scan_then (char_at b msg) (\<lambda>c.
        if c = CHR '' '' then
          scan_then (skip_msg_spaces b msg) (\<lambda>q. accept (q, msg_len - (q - msg)))
        else stop (- 1)))"

definition parse_response :: "block \<Rightarrow> nat \<Rightarrow> nat \<Rightarrow> nat \<Rightarrow> (phr_response \<times> nat) scan" where
  "parse_response b e p max_headers =
     scan_then (parse_http_version b e p) (\<lambda>(minor_version, p1).
     scan_then (char_at b p1) (\<lambda>c.
       if c \<noteq> CHR '' '' then stop (- 1)
       else
         scan_then (skip_spaces b e p1) (\<lambda>p2.
           if e < p2 + 4 then stop (- 2)
           else
             scan_then (PARSE_INT_3 b p2) (\<lambda>(status, p3).
             scan_then (get_token_to_eol b e p3) (\<lambda>(msg0, msg_len0, p4).
             scan_then (response_msg b msg0 msg_len0) (\<lambda>(msg, msg_len).
             scan_then (parse_headers b e p4 max_headers) (\<lambda>(hs, p5).
               accept (\<lparr>rsp_minor_version = minor_version, rsp_status = status, rsp_msg = msg,
                        rsp_msg_len = msg_len, rsp_headers = hs\<rparr>, p5))))))))"

definition phr_parse_response :: "block \<Rightarrow> nat \<Rightarrow> nat \<Rightarrow> nat \<Rightarrow> (phr_response \<times> nat) scan" where
  "phr_parse_response b len max_headers last_len =
     scan_then (if last_len \<noteq> 0 then is_complete b len last_len else accept 0) (\<lambda>_.
       parse_response b len 0 max_headers)"

definition phr_parse_headers :: "block \<Rightarrow> nat \<Rightarrow> nat \<Rightarrow> nat \<Rightarrow> (phr_header list \<times> nat) scan" where
  "phr_parse_headers b len max_headers last_len =
     scan_then (if last_len \<noteq> 0 then is_complete b len last_len else accept 0) (\<lambda>_.
       parse_headers b len 0 max_headers)"

end
