(* ===== verification/Picohttp_Safety.thy ===== *)
theory Picohttp_Safety
  imports Picohttp
begin

text \<open>
  The HTTP parser stays inside its input, whatever the bytes; its eight-at-a-time loop
  computes what the plain loop computes.
\<close>

section \<open>A calculus of scans\<close>

text \<open>
  \<open>scan_ok P r\<close>: no fault, a failure has one of the two return codes, and a value
  satisfies \<open>P\<close>.
\<close>

definition scan_ok :: "('a \<Rightarrow> bool) \<Rightarrow> 'a scan \<Rightarrow> bool" where
  "scan_ok P r \<longleftrightarrow>
     (case r of Inl _ \<Rightarrow> False | Inr (Inl ret) \<Rightarrow> ret = - 1 \<or> ret = - 2 | Inr (Inr x) \<Rightarrow> P x)"

named_theorems scan_rules

lemma scan_ok_simps [simp]:
  "scan_ok P (Inl er) = False" "scan_ok P (stop ret) = (ret = - 1 \<or> ret = - 2)"
  "scan_ok P (accept x) = P x"
  by (auto simp: scan_ok_def)

lemma scan_cases:
  obtains (fault) er where "r = Inl er" | (stop) ret where "r = stop ret" | (accept) x where "r = accept x"
  by (metis sum.exhaust)

lemma scan_ok_then:
  "scan_ok P r \<Longrightarrow> (\<And>x. P x \<Longrightarrow> scan_ok Q (f x)) \<Longrightarrow> scan_ok Q (scan_then r f)"
  by (cases r rule: scan_cases) simp_all

lemma scan_ok_weaken: "scan_ok P r \<Longrightarrow> (\<And>x. P x \<Longrightarrow> Q x) \<Longrightarrow> scan_ok Q r"
  by (auto simp: scan_ok_def split: sum.splits)

lemma scan_ok_value: "scan_ok P r \<Longrightarrow> r = accept x \<Longrightarrow> P x"
  by simp

section \<open>Every scan stays before the end\<close>

lemma char_at_ok [scan_rules]: "p < length b \<Longrightarrow> scan_ok (\<lambda>c. c = b ! p) (char_at b p)"
  by (simp add: char_at_def)

lemma CHECK_EOF_ok [scan_rules]: "p \<le> e \<Longrightarrow> scan_ok (\<lambda>_. p < e) (CHECK_EOF e p)"
  by (simp add: CHECK_EOF_def)

lemma EXPECT_CHAR_NO_CHECK_ok:
  "p < length b \<Longrightarrow> scan_ok (\<lambda>q. q = p + 1 \<and> b ! p = ch) (EXPECT_CHAR_NO_CHECK b p ch)"
  by (simp add: EXPECT_CHAR_NO_CHECK_def char_at_def)

lemma EXPECT_CHAR_ok:
  assumes "p \<le> e" and "e \<le> length b"
  shows "scan_ok (\<lambda>q. q = p + 1 \<and> q \<le> e) (EXPECT_CHAR b e p ch)"
  unfolding EXPECT_CHAR_def
  by (rule scan_ok_then [OF CHECK_EOF_ok [OF assms(1)]])
    (use assms in \<open>auto intro!: scan_ok_weaken [OF EXPECT_CHAR_NO_CHECK_ok]\<close>)

lemma token_loop_ok:
  "p < e \<Longrightarrow> e \<le> length b \<Longrightarrow> scan_ok (\<lambda>q. p \<le> q \<and> q < e) (token_loop b e ch p)"
proof (induction b e ch p rule: token_loop.induct)
  case (1 b e ch p)
  show ?case
  proof (cases "p < length b \<and> b ! p \<noteq> ch \<and> token_char (b ! p)")
    case True
    have "scan_ok (\<lambda>q. p \<le> q \<and> q < e)
        (scan_then (CHECK_EOF e (p + 1)) (\<lambda>_. token_loop b e ch (p + 1)))"
      by (rule scan_ok_then [OF CHECK_EOF_ok])
        (use 1 True in \<open>auto intro: scan_ok_weaken\<close>)
    then show ?thesis using True by (subst token_loop.simps) simp
  next
    case False
    then show ?thesis using 1(2,3) by (subst token_loop.simps) auto
  qed
qed

lemma advance_loop_ok:
  "p < e \<Longrightarrow> e \<le> length b \<Longrightarrow> scan_ok (\<lambda>q. p \<le> q \<and> q < e) (advance_loop b e p)"
proof (induction b e p rule: advance_loop.induct)
  case (1 b e p)
  show ?case
  proof (cases "p < length b \<and> b ! p \<noteq> CHR '' '' \<and> \<not> (\<not> IS_PRINTABLE_ASCII (b ! p) \<and> control_char (b ! p))")
    case True
    have "scan_ok (\<lambda>q. p \<le> q \<and> q < e)
        (scan_then (CHECK_EOF e (p + 1)) (\<lambda>_. advance_loop b e (p + 1)))"
      by (rule scan_ok_then [OF CHECK_EOF_ok])
        (use 1 True in \<open>auto intro: scan_ok_weaken\<close>)
    then show ?thesis using True by (subst advance_loop.simps) simp
  next
    case False
    then show ?thesis using 1(2,3) by (subst advance_loop.simps) auto
  qed
qed

lemma skip_spaces_ok:
  "p < e \<Longrightarrow> e \<le> length b \<Longrightarrow> scan_ok (\<lambda>q. p < q \<and> q < e) (skip_spaces b e p)"
proof (induction b e p rule: skip_spaces.induct)
  case (1 b e p)
  show ?case
  proof (subst skip_spaces.simps, rule scan_ok_then [OF CHECK_EOF_ok])
    show "p + 1 \<le> e" using 1(2) by simp
    show "scan_ok (\<lambda>q. p < q \<and> q < e)
       (if p + 1 < length b
        then if b ! (p + 1) = CHR '' '' then skip_spaces b e (p + 1) else accept (p + 1)
        else Inl OutOfBounds)" if "p + 1 < e" for x
      using 1(1) that 1(3) by (auto intro: scan_ok_weaken)
  qed
qed

lemma plain_loop_ok:
  "p \<le> e \<Longrightarrow> e \<le> length b \<Longrightarrow>
   scan_ok (\<lambda>q. p \<le> q \<and> q < e \<and> line_control (b ! q)) (plain_loop b e p)"
proof (induction b e p rule: plain_loop.induct)
  case (1 b e p)
  show ?case
  proof (subst plain_loop.simps, rule scan_ok_then [OF CHECK_EOF_ok [OF 1(2)]])
    show "scan_ok (\<lambda>q. p \<le> q \<and> q < e \<and> line_control (b ! q))
       (if p < length b
        then if \<not> IS_PRINTABLE_ASCII (b ! p) \<and> line_control (b ! p) then accept p
             else plain_loop b e (p + 1)
        else Inl OutOfBounds)" if "p < e" for x
      using 1(1) that 1(3) by (auto intro: scan_ok_weaken)
  qed
qed

lemma skip_blank_ok:
  "p \<le> e \<Longrightarrow> e \<le> length b \<Longrightarrow> scan_ok (\<lambda>q. p \<le> q \<and> q < e) (skip_blank b e p)"
proof (induction b e p rule: skip_blank.induct)
  case (1 b e p)
  show ?case
  proof (subst skip_blank.simps, rule scan_ok_then [OF CHECK_EOF_ok [OF 1(2)]])
    show "scan_ok (\<lambda>q. p \<le> q \<and> q < e)
       (if p < length b then if blank (b ! p) then skip_blank b e (p + 1) else accept p
        else Inl OutOfBounds)" if "p < e" for x
      using 1(1) that 1(3) by (auto intro: scan_ok_weaken)
  qed
qed

section \<open>The hot loop\<close>

lemma printable_run_ok:
  "p + k \<le> length b \<Longrightarrow> \<exists>q r. printable_run b k p = Inr (q, r) \<and> p \<le> q \<and> q \<le> p + k \<and>
     (\<forall>i \<in> {p..<q}. IS_PRINTABLE_ASCII (b ! i)) \<and> (\<not> r \<longrightarrow> q < p + k \<and> \<not> IS_PRINTABLE_ASCII (b ! q))"
proof (induction b k p rule: printable_run.induct)
  case (2 b k p)
  show ?case
  proof (cases "IS_PRINTABLE_ASCII (b ! p)")
    case True
    with 2 obtain q r where q: "printable_run b k (p + 1) = Inr (q, r)" "p + 1 \<le> q" "q \<le> p + 1 + k"
      "\<forall>i \<in> {p + 1..<q}. IS_PRINTABLE_ASCII (b ! i)" "\<not> r \<longrightarrow> q < p + 1 + k \<and> \<not> IS_PRINTABLE_ASCII (b ! q)"
      by auto
    have "IS_PRINTABLE_ASCII (b ! i)" if "i \<in> {p..<q}" for i
      using that True q(4) by (cases "i = p") auto
    with q True 2(2) show ?thesis by simp
  next
    case False
    with 2(2) show ?thesis by (intro exI [of _ p] exI [of _ False]) simp
  qed
qed auto

lemma plain_loop_skip:
  "(\<forall>i \<in> {p..<q}. IS_PRINTABLE_ASCII (b ! i) \<or> \<not> line_control (b ! i)) \<Longrightarrow> p \<le> q \<Longrightarrow> q \<le> e \<Longrightarrow>
   e \<le> length b \<Longrightarrow> plain_loop b e p = plain_loop b e q"
proof (induction "q - p" arbitrary: p)
  case 0
  then show ?case by simp
next
  case (Suc n)
  then have "plain_loop b e (p + 1) = plain_loop b e q" by simp
  moreover have "IS_PRINTABLE_ASCII (b ! p) \<or> \<not> line_control (b ! p)"
    using Suc.hyps(2) Suc.prems(1,2) by simp
  ultimately show ?case
    using Suc.hyps(2) Suc.prems by (subst plain_loop.simps) (auto simp: CHECK_EOF_def)
qed

lemma hot_loop_plain:
  "p \<le> e \<Longrightarrow> e \<le> length b \<Longrightarrow> \<exists>f q. hot_loop b e p = Inr (f, q) \<and>
     (if f then plain_loop b e p = accept q else p \<le> q \<and> q \<le> e \<and> plain_loop b e p = plain_loop b e q)"
proof (induction b e p rule: hot_loop.induct)
  case (1 b e p)
  show ?case
  proof (cases "p + 8 \<le> e")
    case False
    then have "hot_loop b e p = Inr (False, p)" by (subst hot_loop.simps) simp
    then show ?thesis using 1(3) by auto
  next
    case True
    then obtain q r where q: "printable_run b 8 p = Inr (q, r)" "p \<le> q" "q \<le> p + 8"
      "\<forall>i \<in> {p..<q}. IS_PRINTABLE_ASCII (b ! i)" "\<not> r \<longrightarrow> q < p + 8 \<and> \<not> IS_PRINTABLE_ASCII (b ! q)"
      using printable_run_ok [of p 8 b] 1(4) by auto
    have skip: "plain_loop b e p = plain_loop b e q"
      using q True 1(4) by (intro plain_loop_skip) auto
    show ?thesis
    proof (cases r)
      case r: True
      with True q(1) have hot: "hot_loop b e p = hot_loop b e q" by (subst hot_loop.simps) simp
      have "q \<le> e" using q(3) True by simp
      from 1(1) [OF True q(1) refl _ this 1(4)] r obtain f s where
        "hot_loop b e q = Inr (f, s)"
        "if f then plain_loop b e q = accept s else q \<le> s \<and> s \<le> e \<and> plain_loop b e q = plain_loop b e s"
        by auto
      with hot skip q(2) show ?thesis by (intro exI [of _ f] exI [of _ s]) (cases f, simp_all)
    next
      case r: False
      show ?thesis
      proof (cases "line_control (b ! q)")
        case ctl: True
        have "hot_loop b e p = Inr (True, q)"
          using True q(1) r ctl by (subst hot_loop.simps) simp
        moreover have "plain_loop b e q = accept q"
          using ctl q(5) r True 1(4) by (subst plain_loop.simps) (simp add: CHECK_EOF_def)
        ultimately show ?thesis using skip by auto
      next
        case ctl: False
        have hot: "hot_loop b e p = hot_loop b e (q + 1)"
          using True q(1) r ctl by (subst hot_loop.simps) simp
        have "plain_loop b e q = plain_loop b e (q + 1)"
          using ctl q(5) r True 1(4) by (intro plain_loop_skip) auto
        with skip have skip': "plain_loop b e p = plain_loop b e (q + 1)" by simp
        have "q + 1 \<le> e" using q(5) r True by simp
        from 1(2) [OF True q(1) refl _ ctl this 1(4)] r obtain f s where
          "hot_loop b e (q + 1) = Inr (f, s)"
          "if f then plain_loop b e (q + 1) = accept s
           else q + 1 \<le> s \<and> s \<le> e \<and> plain_loop b e (q + 1) = plain_loop b e s"
          by auto
        with hot skip' q(2) show ?thesis by (intro exI [of _ f] exI [of _ s]) (cases f, simp_all)
      qed
    qed
  qed
qed

lemma get_token_plain:
  assumes "p \<le> e" and "e \<le> length b"
  shows "get_token_to_eol b e p = scan_then (plain_loop b e p) (end_line b e p)"
proof -
  obtain f q where h: "hot_loop b e p = Inr (f, q)"
    "if f then plain_loop b e p = accept q else p \<le> q \<and> q \<le> e \<and> plain_loop b e p = plain_loop b e q"
    using hot_loop_plain [OF assms] by blast
  then show ?thesis by (cases f) (simp_all add: get_token_to_eol_def)
qed

section \<open>Lines, headers and requests\<close>

lemma parse_token_ok:
  assumes "p \<le> e" and "e \<le> length b"
  shows "scan_ok (\<lambda>(t, n, q). t = p \<and> q = p + n \<and> q < e) (parse_token b e p ch)"
  unfolding parse_token_def
  by (rule scan_ok_then [OF CHECK_EOF_ok [OF assms(1)]], rule scan_ok_then [OF token_loop_ok])
    (use assms in auto)

lemma ADVANCE_TOKEN_ok:
  assumes "p \<le> e" and "e \<le> length b"
  shows "scan_ok (\<lambda>(t, n, q). t = p \<and> q = p + n \<and> q < e) (ADVANCE_TOKEN b e p)"
  unfolding ADVANCE_TOKEN_def
  by (rule scan_ok_then [OF CHECK_EOF_ok [OF assms(1)]], rule scan_ok_then [OF advance_loop_ok])
    (use assms in auto)

lemma end_line_ok:
  assumes "t \<le> p" and "p < e" and "e \<le> length b"
  shows "scan_ok (\<lambda>(v, n, q). v = t \<and> v + n < q \<and> q \<le> e \<and> (b ! (v + n) = CR \<or> b ! (v + n) = LF)) (end_line b e t p)"
proof -
  have "scan_ok (\<lambda>(v, n, q). v = t \<and> v + n < q \<and> q \<le> e \<and> (b ! (v + n) = CR \<or> b ! (v + n) = LF))
      (scan_then (EXPECT_CHAR b e (p + 1) LF) (\<lambda>q. accept (t, q - 2 - t, q)))" if "b ! p = CR"
    by (rule scan_ok_then [OF EXPECT_CHAR_ok]) (use assms that in auto)
  then show ?thesis using assms by (auto simp: end_line_def char_at_def)
qed

lemma get_token_to_eol_ok:
  assumes "p \<le> e" and "e \<le> length b"
  shows "scan_ok (\<lambda>(v, n, q). v = p \<and> v + n < q \<and> q \<le> e \<and> (b ! (v + n) = CR \<or> b ! (v + n) = LF))
    (get_token_to_eol b e p)"
  unfolding get_token_plain [OF assms]
  by (rule scan_ok_then [OF plain_loop_ok [OF assms]], rule end_line_ok) (use assms in auto)

lemma trimmed_length_le: "trimmed_length b v n \<le> n"
  by (induction n) auto

lemma expect_text_ok:
  "p + length s \<le> length b \<Longrightarrow> scan_ok (\<lambda>q. q = p + length s) (expect_text b s p)"
proof (induction s arbitrary: p)
  case (Cons c s)
  show ?case unfolding expect_text.simps
    by (rule scan_ok_then [OF EXPECT_CHAR_NO_CHECK_ok]) (use Cons in \<open>auto intro!: scan_ok_weaken [OF Cons.IH]\<close>)
qed simp

lemma PARSE_INT_ok: "p < length b \<Longrightarrow> scan_ok (\<lambda>(x, q). x \<le> 9 * mul \<and> q = p + 1) (PARSE_INT b p mul)"
  by (auto simp: PARSE_INT_def char_at_def)

lemma parse_http_version_ok:
  assumes "e \<le> length b"
  shows "scan_ok (\<lambda>(v, q). v \<le> 9 \<and> q = p + 8 \<and> q < e) (parse_http_version b e p)"
proof (cases "e < p + 9")
  case True
  then show ?thesis by (simp add: parse_http_version_def)
next
  case False
  have "scan_ok (\<lambda>(v, q). v \<le> 9 \<and> q = p + 8 \<and> q < e)
      (scan_then (expect_text b ''HTTP/1.'' p) (\<lambda>q. PARSE_INT b q 1))"
    by (rule scan_ok_then [OF expect_text_ok], use False assms in simp, rule scan_ok_weaken [OF PARSE_INT_ok])
      (use False assms in auto)
  then show ?thesis using False by (simp add: parse_http_version_def)
qed

lemma is_complete_loop_ok:
  "p \<le> e \<Longrightarrow> e \<le> length b \<Longrightarrow> scan_ok (\<lambda>q. p < q \<and> q \<le> e) (is_complete_loop b e k p)"
proof (induction b e k p rule: is_complete_loop.induct)
  case (1 b e k p)
  show ?case
  proof (subst is_complete_loop.simps, rule scan_ok_then [OF CHECK_EOF_ok [OF 1(4)]])
    fix x assume "p < e"
    then have p: "p < e" "p < length b" using 1(5) by simp_all
    have cr: "scan_ok (\<lambda>q. p < q \<and> q \<le> e)
       (scan_then (CHECK_EOF e (p + 1)) (\<lambda>_.
        scan_then (EXPECT_CHAR b e (p + 1) LF) (\<lambda>_.
          if k = 1 then accept (p + 2) else is_complete_loop b e (k + 1) (p + 2))))" if c: "b ! p = CR"
      by (rule scan_ok_then [OF CHECK_EOF_ok], use p in simp, rule scan_ok_then [OF EXPECT_CHAR_ok])
        (use 1 p c in \<open>auto intro: scan_ok_weaken\<close>)
    show "scan_ok (\<lambda>q. p < q \<and> q \<le> e)
       (if p < length b
        then if b ! p = CR
             then scan_then (CHECK_EOF e (p + 1)) (\<lambda>_.
                  scan_then (EXPECT_CHAR b e (p + 1) LF) (\<lambda>_.
                    if k = 1 then accept (p + 2) else is_complete_loop b e (k + 1) (p + 2)))
             else if b ! p = LF
                  then if k = 1 then accept (p + 1) else is_complete_loop b e (k + 1) (p + 1)
                  else is_complete_loop b e 0 (p + 1)
        else Inl OutOfBounds)"
      using cr p 1 by (auto intro: scan_ok_weaken)
  qed
qed

definition header_inside :: "nat \<Rightarrow> phr_header \<Rightarrow> bool" where
  "header_inside e h \<longleftrightarrow>
     (case hdr_name h of None \<Rightarrow> hdr_name_len h = 0
      | Some n \<Rightarrow> 0 < hdr_name_len h \<and> n + hdr_name_len h < e) \<and>
     hdr_value h + hdr_value_len h < e"

lemma header_name_ok:
  assumes "p < e" and "e \<le> length b"
  shows "scan_ok (\<lambda>(name, n, q). p \<le> q \<and> q \<le> e \<and>
    (case name of None \<Rightarrow> n = 0 | Some t \<Rightarrow> 0 < n \<and> t + n < e)) (header_name b e k p)"
proof -
  have "scan_ok (\<lambda>(name, n, q). p \<le> q \<and> q \<le> e \<and>
      (case name of None \<Rightarrow> n = 0 | Some t \<Rightarrow> 0 < n \<and> t + n < e))
      (scan_then (parse_token b e p (CHR '':'')) (\<lambda>(name, name_len, q).
         if name_len = 0 then stop (- 1)
         else scan_then (skip_blank b e (q + 1)) (\<lambda>r. accept (Some name, name_len, r))))"
  proof (rule scan_ok_then [OF parse_token_ok], goal_cases)
    case (3 x)
    obtain t n q where x: "x = (t, n, q)" by (cases x)
    with 3 have "q + 1 \<le> e" "t = p" "q = p + n" by auto
    then have "scan_ok (\<lambda>r. q + 1 \<le> r \<and> r < e) (skip_blank b e (q + 1))"
      using assms(2) skip_blank_ok by blast
    then have "scan_ok (\<lambda>(name, n, r). p \<le> r \<and> r \<le> e \<and>
        (case name of None \<Rightarrow> n = 0 | Some t \<Rightarrow> 0 < n \<and> t + n < e))
        (scan_then (skip_blank b e (q + 1)) (\<lambda>r. accept (Some t, n, r)))" if "n \<noteq> 0"
      by (rule scan_ok_then) (use that x 3 in auto)
    then show ?case by (simp add: x)
  qed (use assms in auto)
  then show ?thesis using assms by (auto simp: header_name_def char_at_def)
qed

lemma header_line_ok:
  assumes "p < e" and "e \<le> length b"
  shows "scan_ok (\<lambda>(h, q). p < q \<and> q \<le> e \<and> header_inside e h) (header_line b e k p)"
  unfolding header_line_def
proof (rule scan_ok_then [OF header_name_ok [OF assms]], clarify)
  fix name n q
  assume n: "p \<le> q" "q \<le> e" "case name of None \<Rightarrow> n = 0 | Some t \<Rightarrow> 0 < n \<and> t + n < e"
  show "scan_ok (\<lambda>(h, q). p < q \<and> q \<le> e \<and> header_inside e h)
     (scan_then (get_token_to_eol b e q)
       (\<lambda>(v, value_len, r).
           accept (\<lparr>hdr_name = name, hdr_name_len = n, hdr_value = v,
                     hdr_value_len = trimmed_length b v value_len\<rparr>, r)))"
  proof (rule scan_ok_then [OF get_token_to_eol_ok [OF n(2) assms(2)]], clarify)
    fix v len r assume "q + len < r" "r \<le> e"
    then show "scan_ok (\<lambda>(h, q). p < q \<and> q \<le> e \<and> header_inside e h)
        (accept (\<lparr>hdr_name = name, hdr_name_len = n, hdr_value = q,
          hdr_value_len = trimmed_length b q len\<rparr>, r))"
      using n trimmed_length_le [of b q len] by (cases name) (simp_all add: header_inside_def)
  qed
qed

lemma parse_headers_loop_ok:
  "p \<le> e \<Longrightarrow> e \<le> length b \<Longrightarrow> \<forall>h \<in> set hs. header_inside e h \<Longrightarrow>
   scan_ok (\<lambda>(hs', q). p < q \<and> q \<le> e \<and> length hs' \<le> length hs + left \<and> (\<forall>h \<in> set hs'. header_inside e h))
     (parse_headers_loop b e left hs p)"
proof (induction left arbitrary: hs p)
  case 0
  show ?case
    by (subst parse_headers_loop.simps)
      (rule scan_ok_then [OF CHECK_EOF_ok [OF 0(1)]], rule scan_ok_then [OF char_at_ok],
        use 0 in \<open>auto intro!: scan_ok_then [OF EXPECT_CHAR_ok]\<close>)
next
  case (Suc left)
  let ?P = "\<lambda>(hs', q). p < q \<and> q \<le> e \<and> length hs' \<le> length hs + Suc left \<and> (\<forall>h \<in> set hs'. header_inside e h)"
  have line: "scan_ok ?P (scan_then (header_line b e (length hs) p) (\<lambda>(h, q).
      parse_headers_loop b e left (hs @ [h]) q))" if p: "p < e"
  proof (rule scan_ok_then [OF header_line_ok [OF p Suc.prems(2)]], clarify)
    fix h q assume q: "p < q" "q \<le> e" "header_inside e h"
    show "scan_ok ?P (parse_headers_loop b e left (hs @ [h]) q)"
      by (rule scan_ok_weaken [OF Suc.IH]) (use q Suc.prems in auto)
  qed
  show ?case
  proof (subst parse_headers_loop.simps, rule scan_ok_then [OF CHECK_EOF_ok [OF Suc.prems(1)]],
      rule scan_ok_then [OF char_at_ok], goal_cases)
    case 1 then show ?case using Suc.prems(2) by simp
  next
    case (2 x c)
    have "scan_ok ?P (scan_then (EXPECT_CHAR b e (p + 1) LF) (\<lambda>q. accept (hs, q)))"
      by (rule scan_ok_then [OF EXPECT_CHAR_ok]) (use 2 Suc.prems in auto)
    then show ?case using 2 Suc.prems(3) line by auto
  qed
qed

lemma parse_headers_ok:
  assumes "p \<le> e" and "e \<le> length b"
  shows "scan_ok (\<lambda>(hs, q). p < q \<and> q \<le> e \<and> length hs \<le> n \<and> (\<forall>h \<in> set hs. header_inside e h))
    (parse_headers b e p n)"
  using parse_headers_loop_ok [OF assms, of "[]" n] by (simp add: parse_headers_def)

lemma skip_empty_line_ok:
  assumes "p \<le> e" and "e \<le> length b"
  shows "scan_ok (\<lambda>q. p \<le> q \<and> q \<le> e) (skip_empty_line b e p)"
  unfolding skip_empty_line_def
proof (rule scan_ok_then [OF CHECK_EOF_ok [OF assms(1)]], rule scan_ok_then [OF char_at_ok], goal_cases)
  case (2 x c)
  have "scan_ok (\<lambda>q. p \<le> q \<and> q \<le> e) (EXPECT_CHAR b e (p + 1) LF)"
    by (rule scan_ok_weaken [OF EXPECT_CHAR_ok]) (use 2 assms in auto)
  then show ?case using 2 by auto
qed (use assms in simp)

lemma line_end_ok:
  assumes "p < e" and "e \<le> length b"
  shows "scan_ok (\<lambda>q. p < q \<and> q \<le> e) (line_end b e p)"
  unfolding line_end_def
proof (rule scan_ok_then [OF char_at_ok], goal_cases)
  case (2 c)
  have "scan_ok (\<lambda>q. p < q \<and> q \<le> e) (EXPECT_CHAR b e (p + 1) LF)"
    by (rule scan_ok_weaken [OF EXPECT_CHAR_ok]) (use 2 assms in auto)
  then show ?case using assms by auto
qed (use assms in simp)

text \<open>The request the parser stores lies inside the bytes it consumed.\<close>

definition request_inside :: "nat \<Rightarrow> nat \<Rightarrow> phr_request \<Rightarrow> bool" where
  "request_inside e n rq \<longleftrightarrow>
     0 < phr_method_len rq \<and> phr_method rq + phr_method_len rq < phr_path rq \<and>
     0 < phr_path_len rq \<and> phr_path rq + phr_path_len rq < e \<and> phr_minor_version rq \<le> 9 \<and>
     length (phr_headers rq) \<le> n \<and> (\<forall>h \<in> set (phr_headers rq). header_inside e h)"

lemma parse_request_ok:
  assumes "p \<le> e" and "e \<le> length b"
  shows "scan_ok (\<lambda>(rq, q). p < q \<and> q \<le> e \<and> request_inside e n rq) (parse_request b e p n)"
  unfolding parse_request_def
proof (rule scan_ok_then [OF skip_empty_line_ok [OF assms]], elim conjE,
    rule scan_ok_then [OF parse_token_ok], assumption, rule assms(2), clarify,
    rule scan_ok_then [OF skip_spaces_ok], assumption, rule assms(2), elim conjE,
    rule scan_ok_then [OF ADVANCE_TOKEN_ok], rule less_imp_le, assumption, rule assms(2), clarify,
    rule scan_ok_then [OF skip_spaces_ok], assumption, rule assms(2), elim conjE, goal_cases)
  case (1 p1 t1 n1 q1 q2 t2 n2 q3 q4)
  show ?case
  proof (cases "n1 = 0 \<or> n2 = 0")
    case False
    show ?thesis
      unfolding if_not_P [OF False]
    proof (rule scan_ok_then [OF parse_http_version_ok [OF assms(2)]], clarify,
        rule scan_ok_then [OF line_end_ok], assumption, rule assms(2), elim conjE,
        rule scan_ok_then [OF parse_headers_ok], assumption, rule assms(2), clarify, goal_cases)
      case (1 v p6 p7 hs p8)
      then show ?case using \<open>p \<le> p1\<close> \<open>p1 + n1 < q2\<close> \<open>q2 + n2 < q4\<close> \<open>q4 < e\<close> False
        by (simp add: request_inside_def)
    qed
  qed simp
qed

text \<open>
  In a response, the spaces before the reason phrase are skipped without a test for the end:
  the line end behind the phrase stops the loop.
\<close>

definition response_inside :: "nat \<Rightarrow> nat \<Rightarrow> phr_response \<Rightarrow> bool" where
  "response_inside e n rs \<longleftrightarrow>
     rsp_minor_version rs \<le> 9 \<and> rsp_status rs \<le> 999 \<and> rsp_msg rs + rsp_msg_len rs < e \<and>
     length (rsp_headers rs) \<le> n \<and> (\<forall>h \<in> set (rsp_headers rs). header_inside e h)"

lemma skip_msg_spaces_ok:
  "p \<le> t \<Longrightarrow> t < length b \<Longrightarrow> b ! t \<noteq> CHR '' '' \<Longrightarrow> scan_ok (\<lambda>q. p \<le> q \<and> q \<le> t) (skip_msg_spaces b p)"
proof (induction b p rule: skip_msg_spaces.induct)
  case (1 b p)
  show ?case
  proof (cases "b ! p = CHR '' ''")
    case True
    with 1(2,4) have "p < t" by (cases "p = t") auto
    with 1 True have "scan_ok (\<lambda>q. p \<le> q \<and> q \<le> t) (skip_msg_spaces b (p + 1))"
      by (intro scan_ok_weaken [OF 1(1)]) auto
    then show ?thesis using True 1(3) \<open>p < t\<close> by (subst skip_msg_spaces.simps) simp
  next
    case False
    then show ?thesis using 1(2,3) by (subst skip_msg_spaces.simps) simp
  qed
qed

lemma response_msg_ok:
  assumes "v + n < length b" and "b ! (v + n) = CR \<or> b ! (v + n) = LF"
  shows "scan_ok (\<lambda>(t, k). t + k = v + n) (response_msg b v n)"
proof -
  have "scan_ok (\<lambda>(t, k). t + k = v + n) (scan_then (skip_msg_spaces b v) (\<lambda>q. accept (q, n - (q - v))))"
    by (rule scan_ok_then [OF skip_msg_spaces_ok [of _ "v + n"]]) (use assms in auto)
  then show ?thesis using assms by (auto simp: response_msg_def char_at_def)
qed

lemma PARSE_INT_3_ok:
  assumes "p + 3 \<le> length b"
  shows "scan_ok (\<lambda>(x, q). x \<le> 999 \<and> q = p + 3) (PARSE_INT_3 b p)"
  unfolding PARSE_INT_3_def
  by (rule scan_ok_then [OF PARSE_INT_ok], use assms in simp, clarify,
      rule scan_ok_then [OF PARSE_INT_ok], use assms in simp, clarify,
      rule scan_ok_then [OF PARSE_INT_ok], use assms in simp) auto

lemma parse_response_ok:
  assumes le: "e \<le> length b"
  shows "scan_ok (\<lambda>(rs, q). p < q \<and> q \<le> e \<and> response_inside e n rs) (parse_response b e p n)"
  unfolding parse_response_def
proof (rule scan_ok_then [OF parse_http_version_ok [OF le]], clarify, rule scan_ok_then [OF char_at_ok], goal_cases)
  case (1 v q)
  then show ?case using le by simp
next
  case (2 v q c)
  have "scan_ok (\<lambda>(rs, q). p < q \<and> q \<le> e \<and> response_inside e n rs)
      (scan_then (PARSE_INT_3 b p2) (\<lambda>(status, p3).
       scan_then (get_token_to_eol b e p3) (\<lambda>(msg0, msg_len0, p4).
       scan_then (response_msg b msg0 msg_len0) (\<lambda>(msg, msg_len).
       scan_then (parse_headers b e p4 n) (\<lambda>(hs, p5).
         accept (\<lparr>rsp_minor_version = v, rsp_status = status, rsp_msg = msg,
                  rsp_msg_len = msg_len, rsp_headers = hs\<rparr>, p5))))))"
    if p2: "\<not> e < p2 + 4" "p + 8 < p2" for p2
  proof (rule scan_ok_then [OF PARSE_INT_3_ok], use p2 le in simp, clarify,
      rule scan_ok_then [OF get_token_to_eol_ok], use p2 in simp, rule le, clarify, goal_cases)
    case (1 st _ _ len p4)
    have "scan_ok (\<lambda>(t, k). t + k = p2 + 3 + len) (response_msg b (p2 + 3) len)"
      using 1 le by (intro response_msg_ok) auto
    then show ?case
    proof (rule scan_ok_then, clarify, rule_tac scan_ok_then [OF parse_headers_ok], goal_cases)
      case (3 t k x)
      then show ?case using \<open>st \<le> 999\<close> \<open>v \<le> 9\<close> 1 p2 by (auto simp: response_inside_def)
    qed (use 1 le in auto)
  qed
  then have "scan_ok (\<lambda>(rs, q). p < q \<and> q \<le> e \<and> response_inside e n rs)
     (scan_then (skip_spaces b e (p + 8)) (\<lambda>p2.
        if e < p2 + 4 then stop (- 2)
        else scan_then (PARSE_INT_3 b p2) (\<lambda>(status, p3).
       scan_then (get_token_to_eol b e p3) (\<lambda>(msg0, msg_len0, p4).
       scan_then (response_msg b msg0 msg_len0) (\<lambda>(msg, msg_len).
       scan_then (parse_headers b e p4 n) (\<lambda>(hs, p5).
         accept (\<lparr>rsp_minor_version = v, rsp_status = status, rsp_msg = msg,
                  rsp_msg_len = msg_len, rsp_headers = hs\<rparr>, p5)))))))"
    using 2 le by (intro scan_ok_then [OF skip_spaces_ok]) auto
  then show ?case by simp
qed

lemma is_complete_ok:
  assumes "last_len \<le> len" and "len \<le> length b"
  shows "scan_ok (\<lambda>q. q \<le> len) (is_complete b len last_len)"
  unfolding is_complete_def
  by (rule scan_ok_weaken [OF is_complete_loop_ok]) (use assms in auto)

text \<open>What the three entry points share: the fast check, then the parser.\<close>

lemma after_complete_ok:
  assumes "last_len \<le> len" and "len \<le> length b" and "scan_ok P r"
  shows "scan_ok P (scan_then (if last_len \<noteq> 0 then is_complete b len last_len else accept 0) (\<lambda>_. r))"
  by (rule scan_ok_then [where P = "\<lambda>_. True"], cases "last_len = 0",
      simp, simp add: scan_ok_weaken [OF is_complete_ok [OF assms(1,2)]], rule assms(3))

section \<open>The entry points\<close>

text \<open>
  C30. Whatever the bytes, the request parser does not read outside the first \<open>len\<close> bytes (take
  \<open>b\<close> to be exactly these: any further read is a fault of the model). It answers -1, -2 or the
  number of consumed bytes, between 1 and \<open>len\<close>; method, path and headers then lie inside these
  bytes and there are at most \<open>n\<close> headers.
\<close>

theorem request_parser_is_safe:
  assumes "last_len \<le> len" and "len \<le> length b"
  shows "scan_ok (\<lambda>(rq, consumed). 0 < consumed \<and> consumed \<le> len \<and> request_inside len n rq)
    (phr_parse_request b len n last_len)"
  unfolding phr_parse_request_def
  by (rule after_complete_ok [OF assms], rule parse_request_ok) (use assms in simp_all)

lemma request_parser_is_safe_witness:
  "scan_ok (\<lambda>(rq, consumed). 0 < consumed \<and> consumed \<le> 18 \<and> request_inside 18 100 rq)
    (phr_parse_request (''GET / HTTP/1.0'' @ [CR, LF, CR, LF]) 18 100 0)"
  by (rule request_parser_is_safe) simp_all

text \<open>The response parser is safe in the same sense; its status has three digits.\<close>

lemma response_parser_is_safe:
  assumes "last_len \<le> len" and "len \<le> length b"
  shows "scan_ok (\<lambda>(rs, consumed). 0 < consumed \<and> consumed \<le> len \<and> response_inside len n rs)
    (phr_parse_response b len n last_len)"
  unfolding phr_parse_response_def
  by (rule after_complete_ok [OF assms], rule parse_response_ok) (use assms in simp_all)

lemma response_parser_is_safe_witness:
  "scan_ok (\<lambda>(rs, consumed). 0 < consumed \<and> consumed \<le> 19 \<and> response_inside 19 4 rs)
    (phr_parse_response (''HTTP/1.1 200 OK'' @ [CR, LF, CR, LF]) 19 4 0)"
  by (rule response_parser_is_safe) simp_all

text \<open>
  The loop that looks at eight characters at a time is an optimisation only: the rest of a
  line is read as by the plain character-by-character loop.
\<close>

lemma eight_at_a_time_is_plain:
  assumes "p \<le> e" and "e \<le> length b"
  shows "get_token_to_eol b e p = scan_then (plain_loop b e p) (end_line b e p)"
  by (rule get_token_plain [OF assms])

lemma eight_at_a_time_is_plain_witness:
  "get_token_to_eol (''text/plain; charset'' @ [CR, LF]) 21 0 =
   scan_then (plain_loop (''text/plain; charset'' @ [CR, LF]) 21 0)
     (end_line (''text/plain; charset'' @ [CR, LF]) 21 0)"
  by (rule eight_at_a_time_is_plain) simp_all

end
