(* ===== verification/Picohttp_Stability.thy ===== *)
theory Picohttp_Stability
  imports Picohttp_Safety
begin

text \<open>
  What the HTTP parser answers depends only on the bytes before the end it is given, and an
  answer other than "incomplete" does not change when more input arrives. Both follow from
  comparing two inputs of which the second continues the first.
\<close>

section \<open>Continued inputs\<close>

text \<open>\<open>extends r r'\<close>: unless \<open>r\<close> is "incomplete", \<open>r'\<close> is the same.\<close>

definition extends :: "'a scan \<Rightarrow> 'a scan \<Rightarrow> bool" where
  "extends r r' \<longleftrightarrow> r = stop (- 2) \<or> r' = r"

lemma extends_refl [simp]: "extends r r"
  by (simp add: extends_def)

lemma extends_incomplete [simp]: "extends (stop (- 2)) r"
  by (simp add: extends_def)

lemma extends_then:
  assumes "extends r r'" and "scan_ok P r" and "\<And>x. P x \<Longrightarrow> extends (f x) (f' x)"
  shows "extends (scan_then r f) (scan_then r' f')"
proof (cases "r = stop (- 2)")
  case False
  with assms(1) have "r' = r" by (simp add: extends_def)
  with assms(2,3) show ?thesis by (cases r rule: scan_cases) simp_all
qed simp

text \<open>The first \<open>e\<close> bytes of \<open>b\<close> are the first of the \<open>e'\<close> bytes of \<open>b'\<close>.\<close>

definition continues :: "block \<Rightarrow> nat \<Rightarrow> block \<Rightarrow> nat \<Rightarrow> bool" where
  "continues b e b' e' \<longleftrightarrow> e \<le> length b \<and> e \<le> e' \<and> e' \<le> length b' \<and> (\<forall>i < e. b' ! i = b ! i)"

named_theorems continued

lemma continuesD [continued]:
  assumes "continues b e b' e'"
  shows "e \<le> length b" "e \<le> e'" "i < e \<Longrightarrow> b' ! i = b ! i" "i < e \<Longrightarrow> i < length b" "i < e \<Longrightarrow> i < length b'"
    "p \<le> e \<Longrightarrow> p \<le> e'" "e' \<le> length b'"
  using assms by (auto simp: continues_def)

lemma char_at_continues: "continues b e b' e' \<Longrightarrow> p < e \<Longrightarrow> char_at b' p = char_at b p"
  by (simp add: char_at_def continued)

text \<open>A test for the end of the input, and then more.\<close>

lemma CHECK_EOF_then_ext:
  "continues b e b' e' \<Longrightarrow> p \<le> e \<Longrightarrow> (p < e \<Longrightarrow> extends (f ()) (g ())) \<Longrightarrow>
   extends (scan_then (CHECK_EOF e p) f) (scan_then (CHECK_EOF e' p) g)"
  by (auto simp: CHECK_EOF_def continues_def)

lemma char_then_ext:
  "continues b e b' e' \<Longrightarrow> p < e \<Longrightarrow> extends (f (b ! p)) (g (b ! p)) \<Longrightarrow>
   extends (scan_then (char_at b p) f) (scan_then (char_at b' p) g)"
  by (simp add: char_at_def continued)

lemma EXPECT_CHAR_ext:
  "continues b e b' e' \<Longrightarrow> p \<le> e \<Longrightarrow> extends (EXPECT_CHAR b e p c) (EXPECT_CHAR b' e' p c)"
  unfolding EXPECT_CHAR_def EXPECT_CHAR_NO_CHECK_def
  by (rule CHECK_EOF_then_ext, assumption, assumption, rule char_then_ext) simp_all

section \<open>Loops\<close>

lemma token_loop_ext:
  "continues b e b' e' \<Longrightarrow> p < e \<Longrightarrow> extends (token_loop b e c p) (token_loop b' e' c p)"
proof (induction b e c p rule: token_loop.induct)
  case (1 b e c p)
  note c = continuesD(3-5) [OF 1(2), of p] continuesD(3-5) [OF 1(2), of "p + 1"] continuesD(1,2,7) [OF 1(2)]
  show ?case
    unfolding token_loop.simps [of b e c p] token_loop.simps [of b' e' c p]
    by (use 1 c in \<open>auto intro!: CHECK_EOF_then_ext [OF 1(2)]\<close>)
qed

lemma advance_loop_ext:
  "continues b e b' e' \<Longrightarrow> p < e \<Longrightarrow> extends (advance_loop b e p) (advance_loop b' e' p)"
proof (induction b e p rule: advance_loop.induct)
  case (1 b e p)
  note c = continuesD(3-5) [OF 1(2), of p] continuesD(3-5) [OF 1(2), of "p + 1"] continuesD(1,2,7) [OF 1(2)]
  show ?case
    unfolding advance_loop.simps [of b e p] advance_loop.simps [of b' e' p]
    by (use 1 c in \<open>auto intro!: CHECK_EOF_then_ext [OF 1(2)]\<close>)
qed

lemma skip_spaces_ext:
  "continues b e b' e' \<Longrightarrow> p < e \<Longrightarrow> extends (skip_spaces b e p) (skip_spaces b' e' p)"
proof (induction b e p rule: skip_spaces.induct)
  case (1 b e p)
  note c = continuesD(3-5) [OF 1(2), of p] continuesD(3-5) [OF 1(2), of "p + 1"] continuesD(1,2,7) [OF 1(2)]
  show ?case
    unfolding skip_spaces.simps [of b e p] skip_spaces.simps [of b' e' p]
    by (use 1 c in \<open>auto intro!: CHECK_EOF_then_ext [OF 1(2)]\<close>)
qed

lemma plain_loop_ext:
  "continues b e b' e' \<Longrightarrow> p \<le> e \<Longrightarrow> extends (plain_loop b e p) (plain_loop b' e' p)"
proof (induction b e p rule: plain_loop.induct)
  case (1 b e p)
  note c = continuesD(3-5) [OF 1(2), of p] continuesD(3-5) [OF 1(2), of "p + 1"] continuesD(1,2,7) [OF 1(2)]
  show ?case
    unfolding plain_loop.simps [of b e p] plain_loop.simps [of b' e' p]
    by (use 1 c in \<open>auto intro!: CHECK_EOF_then_ext [OF 1(2)]\<close>)
qed

lemma skip_blank_ext:
  "continues b e b' e' \<Longrightarrow> p \<le> e \<Longrightarrow> extends (skip_blank b e p) (skip_blank b' e' p)"
proof (induction b e p rule: skip_blank.induct)
  case (1 b e p)
  note c = continuesD(3-5) [OF 1(2), of p] continuesD(3-5) [OF 1(2), of "p + 1"] continuesD(1,2,7) [OF 1(2)]
  show ?case
    unfolding skip_blank.simps [of b e p] skip_blank.simps [of b' e' p]
    by (use 1 c in \<open>auto intro!: CHECK_EOF_then_ext [OF 1(2)]\<close>)
qed

section \<open>Lines, headers and requests\<close>

lemma parse_token_ext:
  assumes "continues b e b' e'" and "p \<le> e"
  shows "extends (parse_token b e p c) (parse_token b' e' p c)"
  unfolding parse_token_def
  by (rule CHECK_EOF_then_ext [OF assms], rule extends_then [OF token_loop_ext token_loop_ok])
    (use assms in \<open>simp_all add: continued\<close>)

lemma ADVANCE_TOKEN_ext:
  assumes "continues b e b' e'" and "p \<le> e"
  shows "extends (ADVANCE_TOKEN b e p) (ADVANCE_TOKEN b' e' p)"
  unfolding ADVANCE_TOKEN_def
  by (rule CHECK_EOF_then_ext [OF assms], rule extends_then [OF advance_loop_ext advance_loop_ok])
    (use assms in \<open>simp_all add: continued\<close>)

lemma EXPECT_then_ext:
  assumes "continues b e b' e'" and "p \<le> e" and "p + 1 \<le> e \<Longrightarrow> extends (f (p + 1)) (g (p + 1))"
  shows "extends (scan_then (EXPECT_CHAR b e p c) f) (scan_then (EXPECT_CHAR b' e' p c) g)"
  by (rule extends_then [OF EXPECT_CHAR_ext EXPECT_CHAR_ok]) (use assms in \<open>auto simp: continued\<close>)

lemma end_line_ext:
  assumes "continues b e b' e'" and "p < e"
  shows "extends (end_line b e t p) (end_line b' e' t p)"
  unfolding end_line_def
  by (rule char_then_ext [OF assms]) (use assms in \<open>auto intro!: EXPECT_then_ext [OF assms(1)]\<close>)

lemma get_token_to_eol_ext:
  assumes "continues b e b' e'" and "p \<le> e"
  shows "extends (get_token_to_eol b e p) (get_token_to_eol b' e' p)"
proof -
  note c = continuesD [OF assms(1)]
  have "extends (scan_then (plain_loop b e p) (end_line b e p)) (scan_then (plain_loop b' e' p) (end_line b' e' p))"
    by (rule extends_then [OF plain_loop_ext [OF assms] plain_loop_ok [OF assms(2) c(1)]])
      (auto intro: end_line_ext [OF assms(1)])
  then show ?thesis
    using get_token_plain [of p e b] get_token_plain [of p e' b'] assms(2) c by simp
qed

lemma header_name_ext:
  assumes "continues b e b' e'" and "p < e"
  shows "extends (header_name b e k p) (header_name b' e' k p)"
proof -
  note c = continuesD [OF assms(1)]
  have rest: "extends (scan_then (skip_blank b e (q + 1)) f) (scan_then (skip_blank b' e' (q + 1)) f)"
    if "q < e" for q :: nat and f :: "nat \<Rightarrow> (nat option \<times> nat \<times> nat) scan"
    by (rule extends_then [OF skip_blank_ext skip_blank_ok]) (use assms(1) c that in auto)
  show ?thesis
    unfolding header_name_def
    by (rule char_then_ext [OF assms])
      (use assms c rest in \<open>auto intro!: extends_then [OF parse_token_ext parse_token_ok]\<close>)
qed

lemma trimmed_length_same:
  "(\<forall>i < v + n. b' ! i = b ! i) \<Longrightarrow> trimmed_length b' v n = trimmed_length b v n"
  by (induction n) auto

lemma header_line_ext:
  assumes "continues b e b' e'" and "p < e"
  shows "extends (header_line b e k p) (header_line b' e' k p)"
proof -
  note c = continuesD [OF assms(1)]
  have same: "trimmed_length b' v n = trimmed_length b v n" if "v + n \<le> e" for v n
    by (rule trimmed_length_same) (use c(3) that in auto)
  have line: "extends
     (scan_then (get_token_to_eol b e q) (\<lambda>(v, len, r).
       accept (\<lparr>hdr_name = name, hdr_name_len = n, hdr_value = v, hdr_value_len = trimmed_length b v len\<rparr>, r)))
     (scan_then (get_token_to_eol b' e' q) (\<lambda>(v, len, r).
       accept (\<lparr>hdr_name = name, hdr_name_len = n, hdr_value = v, hdr_value_len = trimmed_length b' v len\<rparr>, r)))"
    if "q \<le> e" for name n q
    by (rule extends_then [OF get_token_to_eol_ext [OF assms(1) that] get_token_to_eol_ok [OF that c(1)]])
      (auto simp: same)
  show ?thesis
    unfolding header_line_def
    by (rule extends_then [OF header_name_ext [OF assms] header_name_ok [OF assms(2) c(1)]])
      (auto intro: line)
qed

lemma parse_headers_loop_ext:
  assumes "continues b e b' e'"
  shows "p \<le> e \<Longrightarrow> extends (parse_headers_loop b e left hs p) (parse_headers_loop b' e' left hs p)"
proof (induction left arbitrary: hs p)
  case 0
  show ?case
    by (subst (1 2) parse_headers_loop.simps, rule CHECK_EOF_then_ext [OF assms 0], rule char_then_ext [OF assms])
      (use assms in \<open>auto intro!: EXPECT_then_ext\<close>)
next
  case (Suc left)
  have "extends (scan_then (header_line b e k p) (\<lambda>(h, q). parse_headers_loop b e left (hs @ [h]) q))
      (scan_then (header_line b' e' k p) (\<lambda>(h, q). parse_headers_loop b' e' left (hs @ [h]) q))"
    if "p < e" for k
    by (rule extends_then [OF header_line_ext [OF assms that] header_line_ok [OF that]])
      (use Suc.IH continuesD(1) [OF assms] in auto)
  then show ?case
    by (subst (1 2) parse_headers_loop.simps, intro CHECK_EOF_then_ext [OF assms Suc.prems] char_then_ext [OF assms])
      (use assms in \<open>auto intro!: EXPECT_then_ext\<close>)
qed

lemma parse_headers_ext:
  "continues b e b' e' \<Longrightarrow> p \<le> e \<Longrightarrow> extends (parse_headers b e p n) (parse_headers b' e' p n)"
  by (simp add: parse_headers_def parse_headers_loop_ext)

lemma expect_text_same:
  "(\<forall>i < p + length s. b' ! i = b ! i) \<Longrightarrow> p + length s \<le> length b \<Longrightarrow> p + length s \<le> length b' \<Longrightarrow>
   expect_text b' s p = expect_text b s p"
proof (induction s arbitrary: p)
  case (Cons c s)
  then have "EXPECT_CHAR_NO_CHECK b' p c = EXPECT_CHAR_NO_CHECK b p c"
    by (simp add: EXPECT_CHAR_NO_CHECK_def char_at_def)
  moreover have "expect_text b' s (p + 1) = expect_text b s (p + 1)"
    by (rule Cons.IH) (use Cons.prems in auto)
  ultimately show ?case
    using Cons.prems by (simp add: EXPECT_CHAR_NO_CHECK_def char_at_def)
qed simp

lemma parse_http_version_ext:
  assumes "continues b e b' e'"
  shows "extends (parse_http_version b e p) (parse_http_version b' e' p)"
proof (cases "e < p + 9")
  case True
  then show ?thesis by (simp add: parse_http_version_def)
next
  case False
  note c = continuesD [OF assms]
  have "e \<le> length b'" using c(2,7) by simp
  then have same: "expect_text b' ''HTTP/1.'' p = expect_text b ''HTTP/1.'' p"
    by (intro expect_text_same) (use False c(1,3) in auto)
  have "p + length ''HTTP/1.'' \<le> length b" using False c(1) by simp
  from expect_text_ok [OF this] have "extends
      (scan_then (expect_text b ''HTTP/1.'' p) (\<lambda>q. PARSE_INT b q 1))
      (scan_then (expect_text b ''HTTP/1.'' p) (\<lambda>q. PARSE_INT b' q 1))"
    by (rule extends_then [OF extends_refl])
      (use False c in \<open>simp add: PARSE_INT_def char_at_continues [OF assms]\<close>)
  then show ?thesis
    using False c(2) same by (simp add: parse_http_version_def del: expect_text.simps)
qed

lemma skip_empty_line_ext:
  assumes "continues b e b' e'" and "p \<le> e"
  shows "extends (skip_empty_line b e p) (skip_empty_line b' e' p)"
  unfolding skip_empty_line_def
  by (rule CHECK_EOF_then_ext [OF assms], rule char_then_ext [OF assms(1)])
    (auto intro!: EXPECT_CHAR_ext [OF assms(1)])

lemma line_end_ext:
  assumes "continues b e b' e'" and "p < e"
  shows "extends (line_end b e p) (line_end b' e' p)"
  unfolding line_end_def
  by (rule char_then_ext [OF assms]) (use assms(2) in \<open>auto intro!: EXPECT_CHAR_ext [OF assms(1)]\<close>)

lemma parse_request_ext:
  assumes c: "continues b e b' e'" and p: "p \<le> e"
  shows "extends (parse_request b e p n) (parse_request b' e' p n)"
proof -
  note le = continuesD(1) [OF c]
  show ?thesis
    unfolding parse_request_def
  proof (rule extends_then [OF skip_empty_line_ext [OF c p] skip_empty_line_ok [OF p le]], elim conjE,
      rule extends_then [OF parse_token_ext [OF c] parse_token_ok], assumption, assumption, rule le, clarify,
      rule extends_then [OF skip_spaces_ext [OF c] skip_spaces_ok], assumption, assumption, rule le, elim conjE,
      rule extends_then [OF ADVANCE_TOKEN_ext [OF c] ADVANCE_TOKEN_ok], rule less_imp_le, assumption,
      rule less_imp_le, assumption, rule le, clarify,
      rule extends_then [OF skip_spaces_ext [OF c] skip_spaces_ok], assumption, assumption, rule le,
      elim conjE, goal_cases)
    case (1 p1 t1 n1 q1 q2 t2 n2 q3 q4)
    show ?case
    proof (cases "n1 = 0 \<or> n2 = 0")
      case False
      show ?thesis
        unfolding if_not_P [OF False]
        by (rule extends_then [OF parse_http_version_ext [OF c] parse_http_version_ok [OF le]], clarify,
            rule extends_then [OF line_end_ext [OF c] line_end_ok], assumption, assumption, rule le,
            elim conjE, rule extends_then [OF parse_headers_ext [OF c] parse_headers_ok])
          (use le in auto)
    qed simp
  qed
qed

text \<open>The same input length: the bytes behind it do not matter.\<close>

lemma continues_sym: "continues b e b' e \<Longrightarrow> e \<le> length b \<Longrightarrow> continues b' e b e"
  by (auto simp: continues_def)

lemma parse_request_local:
  assumes "continues b e b' e" and "p \<le> e"
  shows "parse_request b' e p n = parse_request b e p n"
  using parse_request_ext [OF assms, of n]
    parse_request_ext [OF continues_sym [OF assms(1) continuesD(1) [OF assms(1)]] assms(2), of n]
  by (auto simp: extends_def)

section \<open>The verdict\<close>

text \<open>
  C31. A verdict on a prefix of the input is final: unless the parser answers "incomplete" (-2)
  for the first \<open>len\<close> bytes, it gives the same answer (the same request, the same number of
  consumed bytes, or the same rejection) when more bytes have arrived. Reading a request in
  pieces therefore cannot change how it is understood.
\<close>

theorem verdict_is_final:
  assumes "len \<le> len'" and "len' \<le> length b" and "phr_parse_request b len n 0 \<noteq> stop (- 2)"
  shows "phr_parse_request b len' n 0 = phr_parse_request b len n 0"
proof -
  have "continues b len b len'" using assms(1,2) by (simp add: continues_def)
  from parse_request_ext [OF this, of 0 n] assms(3) show ?thesis
    by (simp add: phr_parse_request_def extends_def)
qed

lemma verdict_is_final_witness:
  "phr_parse_request (''GET /a HTTP/1.0'' @ [CR, LF, CR, LF] @ ''rest'') 23 1 0 =
   phr_parse_request (''GET /a HTTP/1.0'' @ [CR, LF, CR, LF] @ ''rest'') 19 1 0"
  by (rule verdict_is_final) (simp, simp, code_simp)

text \<open>
  The parser looks only at the bytes it was given: two buffers with the same first \<open>len\<close> bytes
  are parsed alike, whatever stands behind them (stale data of an earlier request, say).
\<close>

lemma parser_ignores_rest:
  assumes "take len b' = take len b" and "len \<le> length b" and "len \<le> length b'"
  shows "phr_parse_request b' len n 0 = phr_parse_request b len n 0"
proof -
  have "continues b len b' len"
    using assms by (auto simp: continues_def) (metis nth_take)
  from parse_request_local [OF this, of 0 n] show ?thesis by (simp add: phr_parse_request_def)
qed

lemma parser_ignores_rest_witness:
  "phr_parse_request ''GET / HTTX'' 9 1 0 = phr_parse_request ''GET / HTTP'' 9 1 0"
  by (rule parser_ignores_rest) simp_all

end
