(* ===== verification/Picohttp_Roundtrip.thy ===== *)
theory Picohttp_Roundtrip
  imports Picohttp_Stability
begin

text \<open>
  The HTTP parser gives back what a client printed: a printer for requests, and the proof
  that the parser finds in its output the method, the path, the version and the headers.
\<close>

section \<open>Printing a request\<close>

definition header_text :: "string \<times> string \<Rightarrow> string" where
  "header_text h = fst h @ '': '' @ snd h @ [CR, LF]"

definition request_text :: "string \<Rightarrow> string \<Rightarrow> nat \<Rightarrow> (string \<times> string) list \<Rightarrow> string" where
  "request_text method path version hs =
     method @ '' '' @ path @ '' HTTP/1.'' @ [digit_char version] @ [CR, LF] @
     concat (map header_text hs) @ [CR, LF]"

text \<open>
  What can be printed: a method and header names of token characters, a path without
  spaces and control characters, values without control characters (a tab is fine) that
  neither begin nor end with a blank.
\<close>

definition good_token :: "string \<Rightarrow> bool" where
  "good_token s \<longleftrightarrow> s \<noteq> [] \<and> list_all token_char s"

definition good_path :: "string \<Rightarrow> bool" where
  "good_path s \<longleftrightarrow> s \<noteq> [] \<and> list_all (\<lambda>c. c \<noteq> CHR '' '' \<and> \<not> control_char c) s"

definition good_value :: "string \<Rightarrow> bool" where
  "good_value s \<longleftrightarrow> list_all (\<lambda>c. \<not> line_control c) s \<and> (s \<noteq> [] \<longrightarrow> \<not> blank (hd s) \<and> \<not> blank (last s))"

definition good_header :: "string \<times> string \<Rightarrow> bool" where
  "good_header h \<longleftrightarrow> good_token (fst h) \<and> good_value (snd h)"

text \<open>The name and the value of a parsed header.\<close>

definition header_strings :: "block \<Rightarrow> phr_header \<Rightarrow> string \<times> string" where
  "header_strings b h =
     ((case hdr_name h of None \<Rightarrow> [] | Some p \<Rightarrow> slice b p (hdr_name_len h)),
      slice b (hdr_value h) (hdr_value_len h))"

section \<open>Character classes\<close>

lemma token_char_not:
  assumes "token_char c"
  shows "c \<noteq> CHR '' ''" "c \<noteq> CHR '':''" "c \<noteq> CR" "c \<noteq> LF" "c \<noteq> CHR 0x09"
proof -
  have "\<not> token_char (CHR '' '')" "\<not> token_char (CHR '':'')" "\<not> token_char CR" "\<not> token_char LF"
    "\<not> token_char (CHR 0x09)" by code_simp+
  with assms show "c \<noteq> CHR '' ''" "c \<noteq> CHR '':''" "c \<noteq> CR" "c \<noteq> LF" "c \<noteq> CHR 0x09" by metis+
qed

lemma line_end_control [simp]: "line_control CR" "line_control LF" "\<not> blank CR" "\<not> blank LF"
  "\<not> IS_PRINTABLE_ASCII CR"
  by (simp_all add: line_control_def blank_def IS_PRINTABLE_ASCII_def)

section \<open>Each part of the text\<close>

lemma token_loop_reads:
  "occurs b p (t @ [c]) \<Longrightarrow> list_all (\<lambda>x. token_char x \<and> x \<noteq> c) t \<Longrightarrow> p + length t < e \<Longrightarrow>
   token_loop b e c p = accept (p + length t)"
proof (induction t arbitrary: p)
  case (Cons x t)
  then show ?case by (subst token_loop.simps) (simp add: CHECK_EOF_def)
qed (simp add: token_loop.simps)

lemma parse_token_reads:
  "occurs b p (t @ [c]) \<Longrightarrow> list_all (\<lambda>x. token_char x \<and> x \<noteq> c) t \<Longrightarrow> p + length t < e \<Longrightarrow>
   parse_token b e p c = accept (p, length t, p + length t)"
  by (simp add: parse_token_def CHECK_EOF_def token_loop_reads del: occurs_append)

lemma advance_loop_reads:
  "occurs b p (t @ '' '') \<Longrightarrow> list_all (\<lambda>c. c \<noteq> CHR '' '' \<and> \<not> control_char c) t \<Longrightarrow> p + length t < e \<Longrightarrow>
   advance_loop b e p = accept (p + length t)"
proof (induction t arbitrary: p)
  case (Cons x t)
  then show ?case by (subst advance_loop.simps) (simp add: CHECK_EOF_def)
qed (simp add: advance_loop.simps)

lemma ADVANCE_TOKEN_reads:
  "occurs b p (t @ '' '') \<Longrightarrow> list_all (\<lambda>c. c \<noteq> CHR '' '' \<and> \<not> control_char c) t \<Longrightarrow> p + length t < e \<Longrightarrow>
   ADVANCE_TOKEN b e p = accept (p, length t, p + length t)"
  by (simp add: ADVANCE_TOKEN_def CHECK_EOF_def advance_loop_reads del: occurs_append)

lemma skip_spaces_reads:
  "p + 1 < length b \<Longrightarrow> b ! (p + 1) \<noteq> CHR '' '' \<Longrightarrow> p + 1 < e \<Longrightarrow> skip_spaces b e p = accept (p + 1)"
  by (subst skip_spaces.simps) (simp add: CHECK_EOF_def)

lemma expect_text_reads: "occurs b p s \<Longrightarrow> expect_text b s p = accept (p + length s)"
  by (induction s arbitrary: p) (simp_all add: EXPECT_CHAR_NO_CHECK_def char_at_def)

lemma parse_http_version_reads:
  assumes "occurs b p (''HTTP/1.'' @ [digit_char v])" and "v \<le> 9" and "p + 9 \<le> e"
  shows "parse_http_version b e p = accept (v, p + 8)"
  using assms expect_text_reads [of b p "''HTTP/1.''"]
  by (auto simp: parse_http_version_def PARSE_INT_def char_at_def of_char_digit_char eval_nat_numeral)

lemma EXPECT_CHAR_reads: "occurs b p [c] \<Longrightarrow> p < e \<Longrightarrow> EXPECT_CHAR b e p c = accept (p + 1)"
  by (simp add: EXPECT_CHAR_def CHECK_EOF_def EXPECT_CHAR_NO_CHECK_def char_at_def)

lemma line_end_reads: "occurs b p [CR, LF] \<Longrightarrow> p + 2 \<le> e \<Longrightarrow> line_end b e p = accept (p + 2)"
  using EXPECT_CHAR_reads [of b "p + 1" LF e] by (simp add: line_end_def char_at_def)

lemma plain_loop_reads:
  "occurs b p (t @ [CR]) \<Longrightarrow> list_all (\<lambda>c. \<not> line_control c) t \<Longrightarrow> p + length t < e \<Longrightarrow>
   plain_loop b e p = accept (p + length t)"
proof (induction t arbitrary: p)
  case (Cons x t)
  then show ?case by (subst plain_loop.simps) (simp add: CHECK_EOF_def)
qed (simp add: plain_loop.simps CHECK_EOF_def)

lemma get_token_to_eol_reads:
  assumes "occurs b p (t @ [CR, LF])" and "list_all (\<lambda>c. \<not> line_control c) t"
    and "p + length t + 2 \<le> e" and "e \<le> length b"
  shows "get_token_to_eol b e p = accept (p, length t, p + length t + 2)"
proof -
  have "get_token_to_eol b e p = end_line b e p (p + length t)"
    using assms plain_loop_reads [of b p t e] get_token_plain [of p e b] by simp
  then show ?thesis
    using assms EXPECT_CHAR_reads [of b "p + length t + 1" LF e] by (simp add: end_line_def char_at_def)
qed

lemma skip_blank_stops:
  "p < length b \<Longrightarrow> p < e \<Longrightarrow> \<not> blank (b ! p) \<Longrightarrow> skip_blank b e p = accept p"
  by (simp add: skip_blank.simps CHECK_EOF_def)

lemma trimmed_length_reads:
  assumes "occurs b p t" and "t \<noteq> [] \<longrightarrow> \<not> blank (last t)"
  shows "trimmed_length b p (length t) = length t"
proof (cases t rule: rev_cases)
  case (snoc s c)
  then show ?thesis using assms by simp
qed simp

section \<open>Headers\<close>

lemma header_line_reads:
  assumes h: "occurs b p (header_text h)" "good_header h"
    and e: "p + length (header_text h) \<le> e" "e \<le> length b"
  shows "\<exists>r. header_line b e k p = accept (r, p + length (header_text h)) \<and> header_strings b r = h"
proof -
  obtain name v where hv: "h = (name, v)" by (cases h)
  let ?n = "p + length name"
  have good: "name \<noteq> []" "list_all token_char name" "list_all (\<lambda>c. \<not> line_control c) v"
    "v \<noteq> [] \<longrightarrow> \<not> blank (hd v)" "v \<noteq> [] \<longrightarrow> \<not> blank (last v)"
    using h(2) by (auto simp: hv good_header_def good_token_def good_value_def)
  have o: "occurs b p (name @ '':'')" "occurs b (?n + 1) '' ''" "occurs b (?n + 2) (v @ [CR, LF])"
    using h(1) by (simp_all add: hv header_text_def add.assoc)
  have len: "?n + length v + 4 \<le> e" using e(1) by (simp add: hv header_text_def)
  obtain c s where name: "name = c # s" using good(1) by (cases name) auto
  then have c: "b ! p = c" "p < length b" "token_char c" using o(1) good(2) by auto
  have "list_all (\<lambda>x. token_char x \<and> x \<noteq> CHR '':'') name"
    using good(2) token_char_not(2) by (auto simp: list_all_iff)
  then have tok: "parse_token b e p (CHR '':'') = accept (p, length name, ?n)"
    using o(1) len by (intro parse_token_reads) auto
  have "\<not> blank (b ! (?n + 2))"
  proof (cases v)
    case Nil
    then show ?thesis using o(3) by simp
  next
    case (Cons x w)
    then show ?thesis using o(3) good(4) by simp
  qed
  then have "skip_blank b e (?n + 2) = accept (?n + 2)"
    using len e(2) by (intro skip_blank_stops) auto
  then have "skip_blank b e (?n + 1) = accept (?n + 2)"
    using o(2) len e(2) by (subst skip_blank.simps) (simp add: CHECK_EOF_def blank_def)
  then have nm: "header_name b e k p = accept (Some p, length name, ?n + 2)"
    using tok good(1) c token_char_not [OF c(3)] by (simp add: header_name_def char_at_def blank_def)
  have "get_token_to_eol b e (?n + 2) = accept (?n + 2, length v, ?n + 2 + length v + 2)"
    using o(3) good(3) len e(2) by (intro get_token_to_eol_reads) auto
  then have "header_line b e k p = accept (\<lparr>hdr_name = Some p, hdr_name_len = length name,
      hdr_value = ?n + 2, hdr_value_len = length v\<rparr>, ?n + length v + 4)"
    using nm trimmed_length_reads [of b "?n + 2" v] o(3) good(5) by (simp add: header_line_def)
  moreover have "slice b p (length name) = name" "slice b (?n + 2) (length v) = v"
    using o by (auto intro: slice_occurs)
  ultimately show ?thesis by (simp add: header_strings_def hv header_text_def)
qed

lemma parse_headers_loop_reads:
  "occurs b p (concat (map header_text hs) @ [CR, LF]) \<Longrightarrow> list_all good_header hs \<Longrightarrow>
   p + length (concat (map header_text hs)) + 2 \<le> e \<Longrightarrow> e \<le> length b \<Longrightarrow> length hs \<le> left \<Longrightarrow>
   \<exists>rs. parse_headers_loop b e left acc p = accept (acc @ rs, p + length (concat (map header_text hs)) + 2) \<and>
     map (header_strings b) rs = hs"
proof (induction hs arbitrary: p left acc)
  case Nil
  then have "parse_headers_loop b e left acc p = accept (acc, p + 2)"
    using EXPECT_CHAR_reads [of b "p + 1" LF e]
    by (subst parse_headers_loop.simps) (simp add: CHECK_EOF_def char_at_def)
  then show ?case by simp
next
  case (Cons h hs)
  let ?q = "p + length (header_text h)"
  obtain m where left: "left = Suc m" using Cons.prems(5) by (cases left) auto
  obtain r where r: "header_line b e (length acc) p = accept (r, ?q)" "header_strings b r = h"
    using header_line_reads [of b p h e "length acc"] Cons.prems by auto
  obtain rs where rs: "parse_headers_loop b e m (acc @ [r]) ?q =
      accept ((acc @ [r]) @ rs, ?q + length (concat (map header_text hs)) + 2)"
    "map (header_strings b) rs = hs"
    using Cons.IH [of ?q m "acc @ [r]"] Cons.prems left by auto
  obtain c s where c: "fst h = c # s" "token_char c"
    using Cons.prems(2) by (cases "fst h") (auto simp: good_header_def good_token_def)
  then have "b ! p = c" "p < length b" using Cons.prems(1) by (simp_all add: header_text_def)
  then have "parse_headers_loop b e left acc p = parse_headers_loop b e m (acc @ [r]) ?q"
    using token_char_not [OF c(2)] Cons.prems(3) left r(1)
    by (subst parse_headers_loop.simps) (simp add: CHECK_EOF_def char_at_def)
  then show ?case using rs r(2) by (intro exI [of _ "r # rs"]) (simp add: add.assoc)
qed

section \<open>The request\<close>

lemma header_text_nonempty [simp]: "length (header_text h) > 0"
  by (simp add: header_text_def)

lemma skip_empty_line_reads:
  "p < length b \<Longrightarrow> p < e \<Longrightarrow> b ! p \<noteq> CR \<Longrightarrow> b ! p \<noteq> LF \<Longrightarrow> skip_empty_line b e p = accept p"
  by (simp add: skip_empty_line_def CHECK_EOF_def char_at_def)

lemma parse_request_reads:
  assumes occ: "occurs b p (request_text m path v hs)"
    and good: "good_token m" "good_path path" "v \<le> 9" "list_all good_header hs" "length hs \<le> n"
    and e: "p + length (request_text m path v hs) \<le> e" "e \<le> length b"
  shows "\<exists>rq. parse_request b e p n = accept (rq, p + length (request_text m path v hs)) \<and>
    slice b (phr_method rq) (phr_method_len rq) = m \<and> slice b (phr_path rq) (phr_path_len rq) = path \<and>
    phr_minor_version rq = v \<and> map (header_strings b) (phr_headers rq) = hs"
proof -
  let ?q = "p + length m + 1" and ?H = "concat (map header_text hs)"
  let ?r = "?q + length path + 1"
  have o: "occurs b p (m @ '' '')" "occurs b ?q (path @ '' '')" "occurs b ?r (''HTTP/1.'' @ [digit_char v])"
    "occurs b (?r + 8) [CR, LF]" "occurs b (?r + 10) (?H @ [CR, LF])"
    using occ by (simp_all add: request_text_def eval_nat_numeral)
  have len: "?r + 10 + length ?H + 2 \<le> e" "length (request_text m path v hs) = length m + length path + length ?H + 14"
    using e(1) by (simp_all add: request_text_def)
  obtain c s where m: "m = c # s" "token_char c" using good(1) by (cases m) (auto simp: good_token_def)
  obtain d t where path: "path = d # t" "d \<noteq> CHR '' ''" using good(2) by (cases path) (auto simp: good_path_def)
  have "skip_empty_line b e p = accept p"
    using o(1) m token_char_not [OF m(2)] len(1) by (intro skip_empty_line_reads) auto
  moreover have "parse_token b e p (CHR '' '') = accept (p, length m, p + length m)"
    using o(1) good(1) token_char_not(1) len(1)
    by (intro parse_token_reads) (auto simp: good_token_def list_all_iff)
  moreover have "skip_spaces b e (p + length m) = accept ?q"
    using o(2) path len(1) by (intro skip_spaces_reads) auto
  moreover have "ADVANCE_TOKEN b e ?q = accept (?q, length path, ?q + length path)"
    using o(2) good(2) len(1) by (intro ADVANCE_TOKEN_reads) (auto simp: good_path_def)
  moreover have "skip_spaces b e (?q + length path) = accept ?r"
    using o(3) len(1) by (intro skip_spaces_reads) auto
  moreover have "parse_http_version b e ?r = accept (v, ?r + 8)"
    using o(3) good(3) len(1) by (intro parse_http_version_reads) auto
  moreover have "line_end b e (?r + 8) = accept (?r + 10)"
    using line_end_reads [OF o(4), of e] len(1) by simp
  moreover obtain rs where "parse_headers b e (?r + 10) n = accept (rs, ?r + 10 + length ?H + 2)"
    "map (header_strings b) rs = hs"
    using parse_headers_loop_reads [OF o(5) good(4) len(1) e(2) good(5), of "[]"]
    by (auto simp: parse_headers_def)
  moreover have "slice b p (length m) = m" "slice b ?q (length path) = path"
    using o(1,2) by (auto intro: slice_occurs)
  ultimately show ?thesis
    using m(1) path(1) len(2) by (simp add: parse_request_def)
qed

text \<open>
  C12. Parsing gives back what was printed. A request text (method, path, HTTP/1.\<open>v\<close>, up to \<open>n\<close>
  headers, empty line), followed by any further bytes such as a body, is accepted; the consumed
  bytes are exactly the text, so that the body starts behind them; and the slices of the buffer
  the parser reports are the method, the path, the version and the names and values of the
  headers, in order.
\<close>

theorem printed_request_is_parsed:
  assumes "good_token m" and "good_path path" and "v \<le> 9" and "list_all good_header hs"
    and "length hs \<le> n" and "b = request_text m path v hs @ rest"
  shows "\<exists>rq. phr_parse_request b (length b) n 0 = accept (rq, length (request_text m path v hs)) \<and>
    slice b (phr_method rq) (phr_method_len rq) = m \<and> slice b (phr_path rq) (phr_path_len rq) = path \<and>
    phr_minor_version rq = v \<and> map (header_strings b) (phr_headers rq) = hs"
  using parse_request_reads [of b 0 m path v hs n "length b"] assms
  by (simp add: occurs_prefix phr_parse_request_def)

lemma printed_request_is_parsed_witness:
  "\<exists>rq. phr_parse_request (request_text ''POST'' ''/done'' 1 [(''Content-Length'', ''2'')] @ ''{}'')
      (length (request_text ''POST'' ''/done'' 1 [(''Content-Length'', ''2'')] @ ''{}'')) 100 0 =
    accept (rq, length (request_text ''POST'' ''/done'' 1 [(''Content-Length'', ''2'')])) \<and>
    slice (request_text ''POST'' ''/done'' 1 [(''Content-Length'', ''2'')] @ ''{}'')
      (phr_method rq) (phr_method_len rq) = ''POST'' \<and>
    slice (request_text ''POST'' ''/done'' 1 [(''Content-Length'', ''2'')] @ ''{}'')
      (phr_path rq) (phr_path_len rq) = ''/done'' \<and>
    phr_minor_version rq = 1 \<and>
    map (header_strings (request_text ''POST'' ''/done'' 1 [(''Content-Length'', ''2'')] @ ''{}''))
      (phr_headers rq) = [(''Content-Length'', ''2'')]"
  by (rule printed_request_is_parsed) code_simp+

end
