(* ===== verification/CJson.thy ===== *)
theory CJson
  imports C_Strings Complex_Main
begin

text \<open>
  The JSON values of lib/c_json.c: the item structure, its type tests, lookup in arrays and
  objects, and the constructors the service builds its requests with.

  A chain of items linked by \<open>next\<close> and \<open>prev\<close> is a list, so \<open>child\<close> is the list of the
  items below an array or object (NULL is the empty list). Strings are C strings without
  their terminator. A double is NaN, an infinity or a rational number (the sign of zero,
  which no operation here distinguishes, is left out). What successive calls of malloc
  answer is a list of booleans; past its end malloc succeeds.
\<close>

section \<open>Doubles\<close>

datatype dbl = NaN | Infinity bool | Finite rat

fun double_le :: "dbl \<Rightarrow> dbl \<Rightarrow> bool" where
  "double_le NaN b = False"
| "double_le a NaN = False"
| "double_le (Infinity neg) b = (neg \<or> b = Infinity False)"
| "double_le (Finite p) (Infinity neg) = (\<not> neg)"
| "double_le (Finite p) (Finite q) = (p \<le> q)"

text \<open>The comparisons of C. A comparison with NaN is false.\<close>

instantiation dbl :: ord
begin

definition less_eq_dbl :: "dbl \<Rightarrow> dbl \<Rightarrow> bool" where
  [simp]: "less_eq_dbl a b = double_le a b"

definition less_dbl :: "dbl \<Rightarrow> dbl \<Rightarrow> bool" where
  [simp]: "less_dbl a b = (double_le a b \<and> \<not> double_le b a)"

instance ..

end

definition INT_MAX :: int where "INT_MAX = 2147483647"
definition INT_MIN :: int where "INT_MIN = - 2147483648"

text \<open>\<open>(int)number\<close> truncates towards zero.\<close>

definition truncate :: "rat \<Rightarrow> int" where
  "truncate q = (if q < 0 then - \<lfloor>- q\<rfloor> else \<lfloor>q\<rfloor>)"

definition saturated_int :: "dbl \<Rightarrow> i32 result" where
  "saturated_int number =
     (if number \<ge> Finite (of_int INT_MAX) then Inr (word_of_int INT_MAX)
      else if number \<le> Finite (of_int INT_MIN) then Inr (word_of_int INT_MIN)
      else case number of Finite q \<Rightarrow> Inr (word_of_int (truncate q)) | _ \<Rightarrow> Inl BadConversion)"

section \<open>Items\<close>

definition cJSON_Invalid :: i32 where "cJSON_Invalid = 0"
definition cJSON_False :: i32 where "cJSON_False = 1"
definition cJSON_True :: i32 where "cJSON_True = 2"
definition cJSON_NULL :: i32 where "cJSON_NULL = 4"
definition cJSON_Number :: i32 where "cJSON_Number = 8"
definition cJSON_String :: i32 where "cJSON_String = 16"
definition cJSON_Array :: i32 where "cJSON_Array = 32"
definition cJSON_Object :: i32 where "cJSON_Object = 64"
definition cJSON_Raw :: i32 where "cJSON_Raw = 128"
definition cJSON_IsReference :: i32 where "cJSON_IsReference = 256"
definition cJSON_StringIsConst :: i32 where "cJSON_StringIsConst = 512"

lemmas item_types =
  cJSON_Invalid_def cJSON_False_def cJSON_True_def cJSON_NULL_def cJSON_Number_def
  cJSON_String_def cJSON_Array_def cJSON_Object_def cJSON_Raw_def cJSON_IsReference_def
  cJSON_StringIsConst_def

datatype cJSON = CJSON
  (item_type: i32) (item_valuestring: "string option") (item_valueint: i32)
  (item_valuedouble: dbl) (item_string: "string option") (item_child: "cJSON list")

fun set_type :: "i32 \<Rightarrow> cJSON \<Rightarrow> cJSON" where
  "set_type t (CJSON _ vs vi vd st ch) = CJSON t vs vi vd st ch"

fun set_valuestring :: "string option \<Rightarrow> cJSON \<Rightarrow> cJSON" where
  "set_valuestring vs (CJSON t _ vi vd st ch) = CJSON t vs vi vd st ch"

fun set_valueint :: "i32 \<Rightarrow> cJSON \<Rightarrow> cJSON" where
  "set_valueint vi (CJSON t vs _ vd st ch) = CJSON t vs vi vd st ch"

fun set_number :: "i32 \<Rightarrow> dbl \<Rightarrow> cJSON \<Rightarrow> cJSON" where
  "set_number vi vd (CJSON t vs _ _ st ch) = CJSON t vs vi vd st ch"

fun set_string :: "string option \<Rightarrow> cJSON \<Rightarrow> cJSON" where
  "set_string st (CJSON t vs vi vd _ ch) = CJSON t vs vi vd st ch"

fun set_child :: "cJSON list \<Rightarrow> cJSON \<Rightarrow> cJSON" where
  "set_child ch (CJSON t vs vi vd st _) = CJSON t vs vi vd st ch"

lemma item_set_simps [simp]:
  "item_type (set_type t it) = t" "item_type (set_valuestring vs it) = item_type it"
  "item_type (set_number vi vd it) = item_type it" "item_type (set_string st it) = item_type it"
  "item_type (set_child ch it) = item_type it" "item_type (set_valueint vi it) = item_type it"
  "item_valuestring (set_type t it) = item_valuestring it"
  "item_valuestring (set_valuestring vs it) = vs"
  "item_valueint (set_type t it) = item_valueint it" "item_valueint (set_valueint vi it) = vi"
  "item_valueint (set_number vi vd it) = vi" "item_valueint (set_string st it) = item_valueint it"
  "item_valuedouble (set_number vi vd it) = vd"
  "item_valuedouble (set_type t it) = item_valuedouble it"
  "item_valuedouble (set_string st it) = item_valuedouble it"
  "item_string (set_type t it) = item_string it" "item_string (set_string st it) = st"
  "item_string (set_valuestring vs it) = item_string it"
  "item_string (set_number vi vd it) = item_string it"
  "item_string (set_child ch it) = item_string it"
  "item_string (set_valueint vi it) = item_string it"
  "item_child (set_child ch it) = ch" "item_child (set_type t it) = item_child it"
  "item_child (set_string st it) = item_child it"
  by (cases it, simp)+

section \<open>Type tests\<close>

text \<open>A pointer argument is an option; the tests answer false for NULL.\<close>

unbundle bit_operations_syntax

definition has_type :: "i32 \<Rightarrow> cJSON option \<Rightarrow> bool" where
  "has_type t item = (case item of None \<Rightarrow> False | Some it \<Rightarrow> item_type it AND 0xFF = t)"

definition cJSON_IsInvalid where "cJSON_IsInvalid item = has_type cJSON_Invalid item"
definition cJSON_IsFalse where "cJSON_IsFalse item = has_type cJSON_False item"
definition cJSON_IsTrue where "cJSON_IsTrue item = has_type cJSON_True item"
definition cJSON_IsNull where "cJSON_IsNull item = has_type cJSON_NULL item"
definition cJSON_IsNumber where "cJSON_IsNumber item = has_type cJSON_Number item"
definition cJSON_IsString where "cJSON_IsString item = has_type cJSON_String item"
definition cJSON_IsArray where "cJSON_IsArray item = has_type cJSON_Array item"
definition cJSON_IsObject where "cJSON_IsObject item = has_type cJSON_Object item"
definition cJSON_IsRaw where "cJSON_IsRaw item = has_type cJSON_Raw item"

definition cJSON_IsBool :: "cJSON option \<Rightarrow> bool" where
  "cJSON_IsBool item =
     (case item of None \<Rightarrow> False | Some it \<Rightarrow> item_type it AND (cJSON_True OR cJSON_False) \<noteq> 0)"

definition cJSON_GetStringValue :: "cJSON option \<Rightarrow> string option" where
  "cJSON_GetStringValue item =
     (if cJSON_IsString item then Option.bind item item_valuestring else None)"

definition cJSON_GetNumberValue :: "cJSON option \<Rightarrow> dbl" where
  "cJSON_GetNumberValue item =
     (case item of Some it \<Rightarrow> if cJSON_IsNumber item then item_valuedouble it else NaN | None \<Rightarrow> NaN)"

section \<open>Lookup\<close>

text \<open>
  The result of the comparison is only ever tested for zero, so it is a boolean here:
  true when the C function returns 0. (Two equal pointers are equal strings.)
\<close>

fun same_ignoring_case :: "string \<Rightarrow> string \<Rightarrow> bool" where
  "same_ignoring_case [] [] = True"
| "same_ignoring_case (a # as) (b # bs) = (tolower a = tolower b \<and> same_ignoring_case as bs)"
| "same_ignoring_case _ _ = False"

definition case_insensitive_equal :: "string option \<Rightarrow> string option \<Rightarrow> bool" where
  "case_insensitive_equal string1 string2 =
     (case (string1, string2) of (Some a, Some b) \<Rightarrow> same_ignoring_case a b | _ \<Rightarrow> False)"

text \<open>\<open>(int)size\<close> keeps the low 32 bits.\<close>

definition cJSON_GetArraySize :: "cJSON option \<Rightarrow> i32" where
  "cJSON_GetArraySize array = (case array of None \<Rightarrow> 0 | Some a \<Rightarrow> of_nat (length (item_child a)))"

fun nth_item :: "cJSON list \<Rightarrow> nat \<Rightarrow> cJSON option" where
  "nth_item [] index = None"
| "nth_item (c # cs) 0 = Some c"
| "nth_item (c # cs) (Suc index) = nth_item cs index"

definition get_array_item :: "cJSON option \<Rightarrow> nat \<Rightarrow> cJSON option" where
  "get_array_item array index = Option.bind array (\<lambda>a. nth_item (item_child a) index)"

definition cJSON_GetArrayItem :: "cJSON option \<Rightarrow> i32 \<Rightarrow> cJSON option" where
  "cJSON_GetArrayItem array index =
     (if index <s 0 then None else get_array_item array (unat (scast index :: u64)))"

text \<open>
  The case sensitive loop stops at the first item without a name, the other one walks past
  it; an item without a name is never an answer.
\<close>

fun find_item :: "bool \<Rightarrow> string \<Rightarrow> cJSON list \<Rightarrow> cJSON option" where
  "find_item case_sensitive name [] = None"
| "find_item case_sensitive name (c # cs) =
     (if (if case_sensitive
          then item_string c \<noteq> None \<and> item_string c \<noteq> Some name
          else \<not> case_insensitive_equal (Some name) (item_string c))
      then find_item case_sensitive name cs
      else Some c)"

definition get_object_item :: "cJSON option \<Rightarrow> string option \<Rightarrow> bool \<Rightarrow> cJSON option" where
  "get_object_item object name case_sensitive =
     (case (object, name) of
        (Some ob, Some n) \<Rightarrow>
          (case find_item case_sensitive n (item_child ob) of
             None \<Rightarrow> None
           | Some it \<Rightarrow> if item_string it = None then None else Some it)
      | _ \<Rightarrow> None)"

definition cJSON_GetObjectItem :: "cJSON option \<Rightarrow> string option \<Rightarrow> cJSON option" where
  "cJSON_GetObjectItem object name = get_object_item object name False"

definition cJSON_GetObjectItemCaseSensitive :: "cJSON option \<Rightarrow> string option \<Rightarrow> cJSON option" where
  "cJSON_GetObjectItemCaseSensitive object name = get_object_item object name True"

definition cJSON_HasObjectItem :: "cJSON option \<Rightarrow> string option \<Rightarrow> bool" where
  "cJSON_HasObjectItem object name = (cJSON_GetObjectItem object name \<noteq> None)"

section \<open>Constructors\<close>

type_synonym allocs = "bool list"

definition allocate :: "allocs \<Rightarrow> bool \<times> allocs" where
  "allocate oks = (case oks of [] \<Rightarrow> (True, []) | ok # oks' \<Rightarrow> (ok, oks'))"

definition zero_item :: cJSON where
  "zero_item = CJSON 0 None 0 (Finite 0) None []"

definition cJSON_New_Item :: "allocs \<Rightarrow> cJSON option \<times> allocs" where
  "cJSON_New_Item oks =
     (let (ok, oks') = allocate oks in (if ok then Some zero_item else None, oks'))"

definition cJSON_strdup :: "string option \<Rightarrow> allocs \<Rightarrow> string option \<times> allocs" where
  "cJSON_strdup string oks =
     (case string of
        None \<Rightarrow> (None, oks)
      | Some s \<Rightarrow> let (ok, oks') = allocate oks in (if ok then Some s else None, oks'))"

definition create_typed :: "i32 \<Rightarrow> allocs \<Rightarrow> cJSON option \<times> allocs" where
  "create_typed t oks = (let (item, oks') = cJSON_New_Item oks in (map_option (set_type t) item, oks'))"

definition cJSON_CreateNull where "cJSON_CreateNull oks = create_typed cJSON_NULL oks"
definition cJSON_CreateTrue where "cJSON_CreateTrue oks = create_typed cJSON_True oks"
definition cJSON_CreateFalse where "cJSON_CreateFalse oks = create_typed cJSON_False oks"
definition cJSON_CreateBool where
  "cJSON_CreateBool boolean oks = create_typed (if boolean then cJSON_True else cJSON_False) oks"
definition cJSON_CreateArray where "cJSON_CreateArray oks = create_typed cJSON_Array oks"
definition cJSON_CreateObject where "cJSON_CreateObject oks = create_typed cJSON_Object oks"

definition cJSON_CreateNumber :: "dbl \<Rightarrow> allocs \<Rightarrow> (cJSON option \<times> allocs) result" where
  "cJSON_CreateNumber num oks =
     (case cJSON_New_Item oks of
        (None, oks') \<Rightarrow> Inr (None, oks')
      | (Some item, oks') \<Rightarrow> and_then (saturated_int num) (\<lambda>i.
          Inr (Some (set_number i num (set_type cJSON_Number item)), oks')))"

definition cJSON_SetNumberHelper :: "cJSON \<Rightarrow> dbl \<Rightarrow> cJSON result" where
  "cJSON_SetNumberHelper object number =
     and_then (saturated_int number) (\<lambda>i. Inr (set_number i number object))"

definition create_text :: "i32 \<Rightarrow> string option \<Rightarrow> allocs \<Rightarrow> cJSON option \<times> allocs" where
  "create_text t string oks =
     (case cJSON_New_Item oks of
        (None, oks1) \<Rightarrow> (None, oks1)
      | (Some item, oks1) \<Rightarrow>
          (case cJSON_strdup string oks1 of
             (None, oks2) \<Rightarrow> (None, oks2)
           | (Some s, oks2) \<Rightarrow> (Some (set_valuestring (Some s) (set_type t item)), oks2)))"

definition cJSON_CreateString where "cJSON_CreateString string oks = create_text cJSON_String string oks"
definition cJSON_CreateRaw where "cJSON_CreateRaw raw oks = create_text cJSON_Raw raw oks"

section \<open>Adding to arrays and objects\<close>

text \<open>
  Both return the success flag and the container. The item becomes the last child; that a
  container is not added to itself is a matter of pointers, which trees do not have.
\<close>

definition add_item_to_array :: "cJSON option \<Rightarrow> cJSON option \<Rightarrow> bool \<times> cJSON option" where
  "add_item_to_array array item =
     (case (array, item) of
        (Some a, Some it) \<Rightarrow> (True, Some (set_child (item_child a @ [it]) a))
      | _ \<Rightarrow> (False, array))"

definition cJSON_AddItemToArray where "cJSON_AddItemToArray array item = add_item_to_array array item"

definition add_item_to_object ::
  "cJSON option \<Rightarrow> string option \<Rightarrow> cJSON option \<Rightarrow> bool \<Rightarrow> allocs \<Rightarrow> (bool \<times> cJSON option) \<times> allocs" where
  "add_item_to_object object string item constant_key oks =
     (case (object, string, item) of
        (Some ob, Some key, Some it) \<Rightarrow>
          (if constant_key then
             (add_item_to_array object
                (Some (set_type (item_type it OR cJSON_StringIsConst) (set_string (Some key) it))), oks)
           else (case cJSON_strdup string oks of
               (None, oks') \<Rightarrow> ((False, object), oks')
             | (Some new_key, oks') \<Rightarrow>
                 (add_item_to_array object
                    (Some (set_type (item_type it AND NOT cJSON_StringIsConst)
                      (set_string (Some new_key) it))), oks')))
      | _ \<Rightarrow> ((False, object), oks))"

definition cJSON_AddItemToObject where
  "cJSON_AddItemToObject object string item oks = add_item_to_object object string item False oks"

definition cJSON_AddItemToObjectCS where
  "cJSON_AddItemToObjectCS object string item oks = add_item_to_object object string item True oks"

text \<open>
  \<open>cJSON_AddNumberToObject\<close> returns NULL when an allocation fails (the item is deleted
  then), here the flag and the object.
\<close>

definition cJSON_AddNumberToObject ::
  "cJSON option \<Rightarrow> string option \<Rightarrow> dbl \<Rightarrow> allocs \<Rightarrow> ((bool \<times> cJSON option) \<times> allocs) result" where
  "cJSON_AddNumberToObject object name number oks =
     and_then (cJSON_CreateNumber number oks) (\<lambda>(number_item, oks').
       Inr (add_item_to_object object name number_item False oks'))"

definition cJSON_AddStringToObject ::
  "cJSON option \<Rightarrow> string option \<Rightarrow> string option \<Rightarrow> allocs \<Rightarrow> (bool \<times> cJSON option) \<times> allocs" where
  "cJSON_AddStringToObject object name string oks =
     (let (string_item, oks') = cJSON_CreateString string oks
      in add_item_to_object object name string_item False oks')"

definition add_created ::
  "(allocs \<Rightarrow> cJSON option \<times> allocs) \<Rightarrow> cJSON option \<Rightarrow> string option \<Rightarrow> allocs \<Rightarrow>
   (bool \<times> cJSON option) \<times> allocs" where
  "add_created create object name oks =
     (let (item, oks') = create oks in add_item_to_object object name item False oks')"

definition cJSON_AddNullToObject where "cJSON_AddNullToObject = add_created cJSON_CreateNull"
definition cJSON_AddTrueToObject where "cJSON_AddTrueToObject = add_created cJSON_CreateTrue"
definition cJSON_AddFalseToObject where "cJSON_AddFalseToObject = add_created cJSON_CreateFalse"
definition cJSON_AddBoolToObject where
  "cJSON_AddBoolToObject object name boolean = add_created (cJSON_CreateBool boolean) object name"
definition cJSON_AddRawToObject where
  "cJSON_AddRawToObject object name raw = add_created (cJSON_CreateRaw raw) object name"
definition cJSON_AddObjectToObject where "cJSON_AddObjectToObject = add_created cJSON_CreateObject"
definition cJSON_AddArrayToObject where "cJSON_AddArrayToObject = add_created cJSON_CreateArray"

section \<open>Facts about lookup and adding\<close>

lemma same_ignoring_case_refl [simp]: "same_ignoring_case s s"
  by (induction s) simp_all

lemma find_item_append:
  "find_item cs name (xs @ ys) =
     (case find_item cs name xs of None \<Rightarrow> find_item cs name ys | Some it \<Rightarrow> Some it)"
  by (induction xs) (auto split: option.splits)

lemma find_item_SomeD:
  "find_item cs name xs = Some it \<Longrightarrow> it \<in> set xs \<and>
     (if cs then item_string it = None \<or> item_string it = Some name
      else case_insensitive_equal (Some name) (item_string it))"
  by (induction xs) (auto split: if_splits)

lemma named_equal: "case_insensitive_equal (Some name) st \<Longrightarrow> st \<noteq> None"
  by (auto simp: case_insensitive_equal_def split: option.splits)

lemma get_object_item_ci:
  "get_object_item (Some ob) (Some name) False = find_item False name (item_child ob)"
proof (cases "find_item False name (item_child ob)")
  case None
  then show ?thesis by (simp add: get_object_item_def)
next
  case (Some it)
  then have "item_string it \<noteq> None" using find_item_SomeD [OF Some] named_equal by auto
  with Some show ?thesis by (auto simp: get_object_item_def)
qed

lemma saturated_int_small:
  assumes "INT_MIN < k" and "k < INT_MAX"
  shows "saturated_int (Finite (of_int k)) = Inr (word_of_int k)"
  using assms by (auto simp: saturated_int_def truncate_def)

section \<open>Properties\<close>

text \<open>
  What was added is found: adding a number in the int range under a name that no item
  of the object has (ignoring case) succeeds when memory is available, keeps the other
  children, and looking the name up, in any case, gives an item whose int value is it.
\<close>

lemma number_added_is_found:
  assumes "INT_MIN < k" and "k < INT_MAX"
    and "same_ignoring_case name' name"
    and "\<forall>it \<in> set (item_child ob). \<not> case_insensitive_equal (Some name') (item_string it)"
  shows "\<exists>it ob'. cJSON_AddNumberToObject (Some ob) (Some name) (Finite (of_int k)) [] =
      Inr ((True, Some ob'), []) \<and> item_child ob' = item_child ob @ [it] \<and>
    cJSON_GetObjectItem (Some ob') (Some name') = Some it \<and>
    item_valueint it = word_of_int k \<and> cJSON_IsNumber (Some it)"
proof -
  let ?n = "set_number (word_of_int k) (Finite (of_int k)) (set_type cJSON_Number zero_item)"
  let ?it = "set_type (item_type ?n AND NOT cJSON_StringIsConst) (set_string (Some name) ?n)"
  let ?ob = "set_child (item_child ob @ [?it]) ob"
  have "cJSON_AddNumberToObject (Some ob) (Some name) (Finite (of_int k)) [] =
      Inr ((True, Some ?ob), [])"
    using saturated_int_small [OF assms(1,2)]
    by (simp add: cJSON_AddNumberToObject_def cJSON_CreateNumber_def cJSON_New_Item_def
        allocate_def add_item_to_object_def cJSON_strdup_def add_item_to_array_def)
  moreover have "find_item False name' (item_child ob) = None"
  proof (cases "find_item False name' (item_child ob)")
    case (Some it)
    with find_item_SomeD [OF Some] assms(4) show ?thesis by auto
  qed
  then have "cJSON_GetObjectItem (Some ?ob) (Some name') = Some ?it"
    using assms(3) by (simp add: cJSON_GetObjectItem_def get_object_item_ci find_item_append
        case_insensitive_equal_def)
  moreover have "item_valueint ?it = word_of_int k" by simp
  moreover have "cJSON_IsNumber (Some ?it)"
    by (simp add: cJSON_IsNumber_def has_type_def item_types)
  ultimately show ?thesis by (intro exI [of _ ?it] exI [of _ ?ob] conjI) simp_all
qed

theorem number_added_is_found_witness:
  "\<exists>it ob'. cJSON_AddNumberToObject (Some zero_item) (Some ''value'') (Finite 12) [] =
      Inr ((True, Some ob'), []) \<and> cJSON_GetObjectItem (Some ob') (Some ''VALUE'') = Some it \<and>
    item_valueint it = 12"
proof -
  have "INT_MIN < 12" "12 < INT_MAX" by (simp_all add: INT_MIN_def INT_MAX_def)
  moreover have "same_ignoring_case ''VALUE'' ''value''" by code_simp
  ultimately show ?thesis
    using number_added_is_found [of 12 "''VALUE''" "''value''" zero_item]
    by (auto simp: zero_item_def)
qed

end
