(* ===== verification/Http_Request.thy ===== *)
theory Http_Request
  imports Picohttp_Roundtrip CJson
begin

text \<open>
  The request structure (lib/h/http_request.h), \<open>http_request_from\<close> (lib/http_request.c) and
  the helpers of lib/utils.c. \<open>junk\<close> is what the memory of malloc and of local arrays holds.
  Headers keep their pointers into the request buffer, as offsets.
\<close>

section \<open>The request\<close>

text \<open>
  \<open>json_body\<close> is a result: the code declares the structure without initialising it and
  writes this field only when it has parsed a body.
\<close>

record http_request =
  req_method :: block
  req_path :: block
  req_headers :: "phr_header list"
  req_json_body :: "cJSON option result"
  req_method_len :: nat
  req_path_len :: nat
  req_num_headers :: nat

text \<open>A string of \<open>len\<close> bytes copied to a local array and from there to a zeroed block.\<close>

definition copy_out :: "(nat \<Rightarrow> char) \<Rightarrow> block \<Rightarrow> nat \<Rightarrow> nat \<Rightarrow> block result" where
  "copy_out junk buf p len =
     and_then (strncpy (malloc junk (len + 1)) 0 buf p len) (\<lambda>a0.
     and_then (put_bytes a0 len [NUL]) (\<lambda>actual.
     and_then (bzero (malloc junk (1 + len)) (len + 1)) (\<lambda>field.
     strncpy field 0 actual 0 (len + 1))))"

definition http_request_from ::
  "(nat \<Rightarrow> char) \<Rightarrow> block \<Rightarrow> nat \<Rightarrow> nat \<Rightarrow> phr_header list \<Rightarrow> nat \<Rightarrow> nat \<Rightarrow> nat \<Rightarrow> http_request result" where
  "http_request_from junk buf method path headers method_len path_len num_headers =
     and_then (copy_out junk buf method method_len) (\<lambda>m.
     and_then (copy_out junk buf path path_len) (\<lambda>p.
       if num_headers \<le> length headers then
         Inr \<lparr>req_method = m, req_path = p, req_headers = take num_headers headers,
              req_json_body = Inl Uninitialised, req_method_len = method_len,
              req_path_len = path_len, req_num_headers = num_headers\<rparr>
       else Inl OutOfBounds))"

section \<open>Utilities\<close>

definition has_body :: "http_request \<Rightarrow> bool result" where
  "has_body req =
     and_then (strcmp_eq (req_method req) (lit ''POST'')) (\<lambda>post.
       if post then and_then (req_json_body req) (\<lambda>json. Inr (json \<noteq> None)) else Inr False)"

definition to_lowercase :: "block \<Rightarrow> nat \<Rightarrow> block result" where
  "to_lowercase s len =
     (if len \<le> length s then Inr (map tolower (take len s) @ drop len s) else Inl OutOfBounds)"

text \<open>
  The name of a header copied to \<open>header_name\<close>: a continuation line has the pointer NULL and
  the length 0, and \<open>strncpy\<close> then reads nothing.
\<close>

definition lowercase_name :: "(nat \<Rightarrow> char) \<Rightarrow> block \<Rightarrow> phr_header \<Rightarrow> block result" where
  "lowercase_name junk buf h =
     (let name_len = hdr_name_len h; header_name = malloc junk (name_len + 1) in
      and_then (case hdr_name h of
                  Some p \<Rightarrow> strncpy header_name 0 buf p name_len
                | None \<Rightarrow> if name_len = 0 then Inr header_name else Inl InvalidPointer) (\<lambda>n0.
      and_then (put_bytes n0 name_len [NUL]) (\<lambda>n1. to_lowercase n1 name_len)))"

definition copy_value :: "(nat \<Rightarrow> char) \<Rightarrow> block \<Rightarrow> phr_header \<Rightarrow> block result" where
  "copy_value junk buf h =
     (let value_len = hdr_value_len h in
      and_then (bzero (malloc junk (value_len + 1)) (value_len + 1)) (\<lambda>v.
        strncpy v 0 buf (hdr_value h) value_len))"

fun get_header_loop ::
  "(nat \<Rightarrow> char) \<Rightarrow> block \<Rightarrow> block \<Rightarrow> phr_header list \<Rightarrow> nat \<Rightarrow> block option result" where
  "get_header_loop junk buf clone hs 0 = Inr None"
| "get_header_loop junk buf clone [] (Suc n) = Inl OutOfBounds"
| "get_header_loop junk buf clone (h # hs) (Suc n) =
     and_then (lowercase_name junk buf h) (\<lambda>header_name.
     and_then (strcmp_eq header_name clone) (\<lambda>equal.
       if equal then and_then (copy_value junk buf h) (\<lambda>v. Inr (Some v))
       else get_header_loop junk buf clone hs n))"

text \<open>
  \<open>wanted_header_clone\<close> has no room for a terminator: \<open>strcmp\<close> reads on behind it. The bytes
  there, which belong to the allocator, are the parameter \<open>slack\<close>.
\<close>

definition wanted_clone :: "(nat \<Rightarrow> char) \<Rightarrow> string \<Rightarrow> block result" where
  "wanted_clone junk wanted_header =
     (let size = length wanted_header in
      and_then (bzero (malloc junk size) size) (\<lambda>c0.
      and_then (memcpy c0 0 (lit wanted_header) 0 size) (\<lambda>c1. to_lowercase c1 size)))"

definition get_header ::
  "(nat \<Rightarrow> char) \<Rightarrow> block \<Rightarrow> block \<Rightarrow> phr_header list \<Rightarrow> nat \<Rightarrow> string \<Rightarrow> block option result" where
  "get_header junk slack buf headers len wanted_header =
     and_then (wanted_clone junk wanted_header) (\<lambda>clone.
       get_header_loop junk buf (clone @ slack) headers len)"

text \<open>The file helpers. No function of the service calls them.\<close>

function extension_start :: "block \<Rightarrow> nat \<Rightarrow> nat result" where
  "extension_start filename n =
     (case n of
        0 \<Rightarrow> Inl OutOfBounds
      | Suc i \<Rightarrow> if i < length filename then
                   (if filename ! i = CHR ''.'' then Inr i else extension_start filename i)
                 else Inl OutOfBounds)"
  by pat_completeness auto
termination by (relation "measure snd") auto

declare extension_start.simps [simp del]

text \<open>
  The loop reads \<open>filename[i]\<close> before it tests \<open>i >= 0\<close>, so a name without a dot makes it read
  \<open>filename[-1]\<close>; \<open>None\<close> is the NULL answered for a dot at the start.
\<close>

definition filename_to_extension :: "block \<Rightarrow> block option result" where
  "filename_to_extension filename =
     and_then (c_string filename 0) (\<lambda>name.
     and_then (extension_start filename (length name)) (\<lambda>i.
       if i = 0 then Inr None else Inr (Some (drop i name @ [NUL]))))"

fun mimetype_of :: "(string \<times> string) list \<Rightarrow> block \<Rightarrow> string result" where
  "mimetype_of [] ext = Inr (''Content-Type: application/octet-stream'' @ [LF])"
| "mimetype_of ((e, header) # ts) ext =
     and_then (strcmp_eq (lit e) ext) (\<lambda>equal. if equal then Inr (header @ [LF]) else mimetype_of ts ext)"

definition filename_to_mimetype_header :: "block \<Rightarrow> string result" where
  "filename_to_mimetype_header filename =
     and_then (filename_to_extension filename) (\<lambda>file_extension.
       case file_extension of
         None \<Rightarrow> Inl InvalidPointer
       | Some ext \<Rightarrow> mimetype_of
           [(''.html'', ''Content-Type: text/html; charset=utf-8''),
            (''.txt'', ''Content-Type: text/plain; charset=utf-8''),
            (''.jpg'', ''Content-Type: image/jpeg''), (''.jpeg'', ''Content-Type: image/jpeg''),
            (''.css'', ''Content-Type: text/css'')] ext)"

text \<open>\<open>strchr\<close> from an offset on; \<open>None\<close> is NULL.\<close>

function strchr :: "block \<Rightarrow> nat \<Rightarrow> char \<Rightarrow> nat option result" where
  "strchr b p c =
     (if p < length b then
        (if b ! p = c then Inr (Some p) else if b ! p = NUL then Inr None else strchr b (p + 1) c)
      else Inl OutOfBounds)"
  by pat_completeness auto
termination by (relation "measure (\<lambda>(b, p, c). length b - p)") auto

declare strchr.simps [simp del]

lemma strchr_range: "strchr b p c = Inr (Some q) \<Longrightarrow> p \<le> q \<and> q < length b"
proof (induction b p c rule: strchr.induct)
  case (1 b p c)
  then show ?case by (subst (asm) (2) strchr.simps) (fastforce split: if_splits)
qed

function count_newlines :: "block \<Rightarrow> nat \<Rightarrow> nat result" where
  "count_newlines copy p =
     (case strchr copy p LF of
        Inl e \<Rightarrow> Inl e
      | Inr None \<Rightarrow> Inr 0
      | Inr (Some q) \<Rightarrow> and_then (count_newlines copy (q + 1)) (\<lambda>n. Inr (n + 1)))"
  by pat_completeness auto
termination
  by (relation "measure (\<lambda>(b, p). length b - p)") (auto dest: strchr_range)

declare count_newlines.simps [simp del]

definition count_lines :: "(nat \<Rightarrow> char) \<Rightarrow> block \<Rightarrow> nat \<Rightarrow> nat result" where
  "count_lines junk bytes byte_len =
     and_then (memcpy (malloc junk byte_len) 0 bytes 0 byte_len) (\<lambda>copy. count_newlines copy 0)"

section \<open>Copies of the buffer\<close>

lemma read_upto_slice:
  assumes "p + n \<le> length b" and "NUL \<notin> set (slice b p n)"
  shows "read_upto b p n = Inr (slice b p n)"
  using assms by (simp add: read_upto_def slice_def takeWhile_clean_all)

lemma strncpy_slice:
  assumes "p + n \<le> length b" and "NUL \<notin> set (slice b p n)" and "n \<le> length d"
  shows "strncpy d 0 b p n = Inr (slice b p n @ drop n d)"
  using assms by (simp add: strncpy_def read_upto_slice put_bytes_prefix)

lemma drop_malloc_one: "drop n (malloc junk (n + 1)) = [junk n]"
  by (simp add: malloc_def)

lemma put_last: "length s = n \<Longrightarrow> put_bytes (s @ [x]) n [y] = Inr (s @ [y])"
  by (simp add: put_bytes_def)

lemma bzero_malloc [simp]: "bzero (malloc junk n) n = Inr (replicate n NUL)"
  by (simp add: bzero_def put_bytes_def)

lemma replicate_one_more: "replicate (n + 1) NUL = replicate n NUL @ [NUL]"
  by (metis replicate_append_same replicate_Suc Suc_eq_plus1)

lemma copy_out_slice:
  assumes "p + n \<le> length buf" and "NUL \<notin> set (slice buf p n)"
  shows "copy_out junk buf p n = Inr (lit (slice buf p n))"
proof -
  let ?s = "slice buf p n"
  have len: "length ?s = n" using assms(1) by simp
  have 1: "strncpy (malloc junk (n + 1)) 0 buf p n = Inr (?s @ [junk n])"
    using strncpy_slice [OF assms, of "malloc junk (n + 1)"] drop_malloc_one [of n junk] by simp
  have "read_upto (?s @ [NUL]) 0 (n + 1) = Inr ?s"
    using read_upto_terminated [OF assms(2), of "[]" "n + 1"] len by simp
  then have 2: "strncpy (replicate (n + 1) NUL) 0 (?s @ [NUL]) 0 (n + 1) = Inr (?s @ [NUL])"
    using len by (simp add: strncpy_def put_bytes_def)
  show ?thesis
    unfolding copy_out_def 1 and_then_simps put_last [OF len] lit_def
    using 2 bzero_malloc [of junk "n + 1"] by (simp add: add.commute)
qed

section \<open>Finding a header\<close>

fun find_header :: "string \<Rightarrow> (string \<times> string) list \<Rightarrow> string option" where
  "find_header key [] = None"
| "find_header key ((name, v) # hs) = (if map tolower name = key then Some v else find_header key hs)"

definition header_clean :: "block \<Rightarrow> phr_header \<Rightarrow> bool" where
  "header_clean buf h \<longleftrightarrow> header_inside (length buf) h \<and>
     NUL \<notin> set (fst (header_strings buf h)) \<and> NUL \<notin> set (snd (header_strings buf h))"

lemma to_lowercase_string [simp]: "to_lowercase (s @ r) (length s) = Inr (map tolower s @ r)"
  by (simp add: to_lowercase_def)

lemma lowercase_name_clean:
  assumes "header_clean buf h"
  shows "lowercase_name junk buf h = Inr (map tolower (fst (header_strings buf h)) @ [NUL])"
proof (cases "hdr_name h")
  case None
  then have n: "hdr_name_len h = 0" using assms by (simp add: header_clean_def header_inside_def)
  have "put_bytes (malloc junk (Suc 0)) 0 [NUL] = Inr [NUL]" by (simp add: put_bytes_def)
  then show ?thesis
    using None n to_lowercase_string [of "[]" "[NUL]"] by (simp add: lowercase_name_def header_strings_def)
next
  case (Some p)
  let ?n = "hdr_name_len h"
  have s: "p + ?n \<le> length buf" "NUL \<notin> set (slice buf p ?n)"
    using assms Some by (simp_all add: header_clean_def header_inside_def header_strings_def)
  then have len: "length (slice buf p ?n) = ?n" by simp
  have "strncpy (malloc junk (?n + 1)) 0 buf p ?n = Inr (slice buf p ?n @ [junk ?n])"
    using strncpy_slice [OF s, of "malloc junk (?n + 1)"] drop_malloc_one [of ?n junk] by simp
  then show ?thesis
    using Some put_last [OF len] to_lowercase_string [of "slice buf p ?n" "[NUL]"] len
    by (simp add: lowercase_name_def header_strings_def Let_def)
qed

lemma copy_value_clean:
  assumes "header_clean buf h"
  shows "copy_value junk buf h = Inr (lit (snd (header_strings buf h)))"
proof -
  let ?n = "hdr_value_len h"
  have s: "hdr_value h + ?n \<le> length buf" "NUL \<notin> set (slice buf (hdr_value h) ?n)"
    using assms by (simp_all add: header_clean_def header_inside_def header_strings_def)
  have "drop ?n (replicate (?n + 1) NUL) = [NUL]"
    by (metis append_eq_conv_conj length_replicate replicate_one_more)
  then show ?thesis
    using strncpy_slice [OF s, of "replicate (?n + 1) NUL"]
    by (simp add: copy_value_def header_strings_def lit_def Let_def)
qed

lemma wanted_clone_string: "wanted_clone junk w = Inr (map tolower w)"
proof -
  have "put_bytes (replicate (length w) NUL) 0 w = Inr w" by (simp add: put_bytes_def)
  moreover have "read_bytes (lit w) 0 (length w) = Inr w" by (simp add: read_bytes_def lit_def)
  ultimately show ?thesis
    using to_lowercase_string [of w "[]"] by (simp add: wanted_clone_def memcpy_def Let_def)
qed

lemma get_header_loop_finds:
  "\<forall>h \<in> set hs. header_clean buf h \<Longrightarrow> NUL \<notin> set key \<Longrightarrow>
   get_header_loop junk buf (key @ NUL # r) hs (length hs) =
     Inr (map_option lit (find_header key (map (header_strings buf) hs)))"
proof (induction hs)
  case (Cons h hs)
  obtain name v where nv: "header_strings buf h = (name, v)" by (cases "header_strings buf h")
  have "header_clean buf h" "NUL \<notin> set name"
    using Cons.prems(1) nv by (auto simp: header_clean_def)
  then have clean: "header_clean buf h" "NUL \<notin> set (map tolower name)"
    using map_tolower_clean [of name] by metis+
  have "strcmp_eq (map tolower name @ [NUL]) (key @ NUL # r) = Inr (map tolower name = key)"
    using strcmp_eq_clean [OF clean(2) Cons.prems(2), of "[]" r] by simp
  then show ?case
    using Cons lowercase_name_clean [OF clean(1), of junk] copy_value_clean [OF clean(1), of junk] nv
    by simp
qed simp

text \<open>
  \<open>get_header\<close> depends on memory it does not own. The clone of the wanted name has no
  terminator, and if the heap behind it holds the characters \<open>x\<close> before the first NUL, the
  function answers the value of the first header whose lower-case name is the lower-case
  wanted name followed by \<open>x\<close>. Only for an empty \<open>x\<close> is that the wanted header.
\<close>

lemma get_header_reads_slack:
  assumes "NUL \<notin> set wanted" and "NUL \<notin> set x" and "\<forall>h \<in> set hs. header_clean buf h"
  shows "get_header junk (x @ NUL # r) buf hs (length hs) wanted =
    Inr (map_option lit (find_header (map tolower wanted @ x) (map (header_strings buf) hs)))"
proof -
  have "NUL \<notin> set (map tolower wanted @ x)" using assms(1,2) by (simp only: set_append Un_iff map_tolower_clean simp_thms)
  from get_header_loop_finds [OF assms(3) this, of junk r] show ?thesis
    by (simp add: get_header_def wanted_clone_string)
qed

lemma get_header_reads_slack_witness:
  "get_header (\<lambda>_. NUL) (''x'' @ NUL # []) (''Host: a'' @ [CR, LF])
     [\<lparr>hdr_name = Some 0, hdr_name_len = 4, hdr_value = 6, hdr_value_len = 1\<rparr>] 1 ''Hos'' =
   Inr (map_option lit (find_header (map tolower ''Hos'' @ ''x'') (map (header_strings (''Host: a'' @ [CR, LF]))
     [\<lparr>hdr_name = Some 0, hdr_name_len = 4, hdr_value = 6, hdr_value_len = 1\<rparr>])))"
  using get_header_reads_slack [of "''Hos''" "''x''"
      "[\<lparr>hdr_name = Some 0, hdr_name_len = 4, hdr_value = 6, hdr_value_len = 1\<rparr>]" "''Host: a'' @ [CR, LF]" "\<lambda>_. NUL" "[]"]
  by (simp add: header_clean_def header_inside_def header_strings_def slice_def)

text \<open>
  What the search answers for every content of that memory, if no header is named by the wanted
  name with more characters behind it: it finds the header if the first byte is NUL, finds none if
  it is another, and reads outside the heap if there is none and the header is there.
\<close>

definition no_longer_name :: "string \<Rightarrow> (string \<times> string) list \<Rightarrow> bool" where
  "no_longer_name key hs \<longleftrightarrow> list_all (\<lambda>(name, v). take (length key) (map tolower name) = key \<longrightarrow> length name \<le> length key) hs"

lemma no_longer_nameD:
  "no_longer_name key ((name, v) # hs) \<Longrightarrow> (map tolower name = key @ x \<longrightarrow> x = []) \<and> no_longer_name key hs"
proof -
  have "x = []" if "length name \<le> length key" "map tolower name = key @ x"
    using arg_cong [OF that(2), of length] that(1) by simp
  then show "no_longer_name key ((name, v) # hs) \<Longrightarrow> (map tolower name = key @ x \<longrightarrow> x = []) \<and> no_longer_name key hs"
    by (auto simp: no_longer_name_def)
qed

lemma strcmp_eq_slack:
  "NUL \<notin> set s \<Longrightarrow> NUL \<notin> set key \<Longrightarrow> (\<forall>x. s = key @ x \<longrightarrow> x = []) \<Longrightarrow>
   strcmp_eq (s @ [NUL]) (key @ slack) =
     (case slack of [] \<Rightarrow> if s = key then Inl OutOfBounds else Inr False | c # r \<Rightarrow> Inr (s = key \<and> c = NUL))"
proof (induction s arbitrary: key)
  case Nil
  then show ?case by (cases key) (auto split: list.split)
next
  case (Cons a s)
  then show ?case by (cases key) (auto split: list.splits)
qed

lemma get_header_loop_slack:
  "\<forall>h \<in> set hs. header_clean buf h \<Longrightarrow> NUL \<notin> set key \<Longrightarrow> no_longer_name key (map (header_strings buf) hs) \<Longrightarrow>
   get_header_loop junk buf (key @ slack) hs (length hs) =
     (case slack of
        [] \<Rightarrow> if find_header key (map (header_strings buf) hs) = None then Inr None else Inl OutOfBounds
      | c # r \<Rightarrow> Inr (if c = NUL then map_option lit (find_header key (map (header_strings buf) hs)) else None))"
proof (induction hs)
  case (Cons h hs)
  obtain name v where nv: "header_strings buf h = (name, v)" by (cases "header_strings buf h")
  have clean: "header_clean buf h" "NUL \<notin> set (map tolower name)"
    using Cons.prems(1) nv map_tolower_clean [of name] by (auto simp: header_clean_def simp del: set_map)
  have longer: "\<forall>x. map tolower name = key @ x \<longrightarrow> x = []" "no_longer_name key (map (header_strings buf) hs)"
    using Cons.prems(3) no_longer_nameD [of key name v "map (header_strings buf) hs"] by (simp_all add: nv)
  note cmp = strcmp_eq_slack [OF clean(2) Cons.prems(2) longer(1), of slack]
  have "get_header_loop junk buf (key @ slack) hs (length hs) =
     (case slack of
        [] \<Rightarrow> if find_header key (map (header_strings buf) hs) = None then Inr None else Inl OutOfBounds
      | c # r \<Rightarrow> Inr (if c = NUL then map_option lit (find_header key (map (header_strings buf) hs)) else None))"
    by (rule Cons.IH) (use Cons.prems longer(2) in simp_all)
  then show ?case
    using lowercase_name_clean [OF clean(1), of junk] copy_value_clean [OF clean(1), of junk] nv cmp
    by (auto split: list.splits)
qed (simp split: list.split)

lemma get_header_slack:
  assumes "\<forall>h \<in> set hs. header_clean buf h" and "NUL \<notin> set wanted"
    and "no_longer_name (map tolower wanted) (map (header_strings buf) hs)"
  shows "get_header junk slack buf hs (length hs) wanted =
    (case slack of
       [] \<Rightarrow> if find_header (map tolower wanted) (map (header_strings buf) hs) = None then Inr None else Inl OutOfBounds
     | c # r \<Rightarrow>
         Inr (if c = NUL then map_option lit (find_header (map tolower wanted) (map (header_strings buf) hs)) else None))"
proof -
  have "NUL \<notin> set (map tolower wanted)" using assms(2) by (simp only: map_tolower_clean simp_thms)
  from get_header_loop_slack [OF assms(1) this assms(3)] show ?thesis
    by (simp add: get_header_def wanted_clone_string)
qed

text \<open>
  When the heap block is exactly as large as malloc was asked for, finding the header means
  reading past it: the answer is a fault as soon as a header with the wanted name comes first.
\<close>

lemma get_header_overreads:
  assumes "NUL \<notin> set wanted" and "header_clean buf h"
    and "map tolower (fst (header_strings buf h)) = map tolower wanted"
  shows "get_header junk [] buf (h # hs) (length (h # hs)) wanted = Inl OutOfBounds"
proof -
  have "strcmp_eq (s @ [NUL]) s = Inl OutOfBounds" if "NUL \<notin> set s" for s
    using that by (induction s) auto
  from this [of "map tolower wanted"] show ?thesis
    using assms lowercase_name_clean [OF assms(2), of junk]
    by (simp add: get_header_def wanted_clone_string del: set_map)
qed

lemma get_header_overreads_witness:
  "get_header (\<lambda>_. NUL) [] (''Host: a'' @ [CR, LF])
     ([\<lparr>hdr_name = Some 0, hdr_name_len = 4, hdr_value = 6, hdr_value_len = 1\<rparr>])
     (length [\<lparr>hdr_name = Some 0, hdr_name_len = 4, hdr_value = 6, hdr_value_len = 1\<rparr>]) ''host'' =
   Inl OutOfBounds"
  by (rule get_header_overreads) (code_simp+)

end
