(* ===== verification/Http_Response.thy ===== *)
theory Http_Response
  imports C_Strings
begin

text \<open>
  Building an HTTP response (lib/http_response.c): the status line, the headers and the
  text that is streamed to the client. Memory is explicit, because the functions copy into
  blocks from malloc whose contents they do not always write: \<open>junk\<close> is what malloc's
  blocks hold. \<open>date\<close> is the string strftime wrote into \<open>date_buf\<close>. Lengths are C ints
  that stay far below their range here and are natural numbers.
\<close>

record http_response =
  res_status :: int
  res_content_length :: nat
  res_headers_length :: nat
  res_date_header_length :: nat
  res_full_length :: nat
  res_socket :: int
  res_body :: block
  res_headers :: block
  res_stringified :: block
  res_stream_ptr :: nat

definition default_headers :: string where
  "default_headers =
     ''Connection: close'' @ [CHR 0x0A] @ ''Server: pronto-srv/0.0.1'' @ [CHR 0x0A]"

definition stringify_status :: "int \<Rightarrow> string" where
  "stringify_status status =
     (if status = 200 then ''HTTP/1.1 200 OK''
      else if status = 400 then ''HTTP/1.1 400 Bad Request''
      else if status = 404 then ''HTTP/1.1 404 Not Found''
      else if status = 405 then ''HTTP/1.1 405 Method Not Allowed''
      else ''HTTP/1.1 500 Internal Server Error'') @ [CHR 0x0A]"

definition header_end :: string where
  "header_end = [CHR 0x0A, CHR 0x0D, CHR 0x0A]"

definition http_response_stringify :: "(nat \<Rightarrow> char) \<Rightarrow> http_response \<Rightarrow> block result" where
  "http_response_stringify junk res =
     (let status_line = stringify_status (res_status res);
          status_line_length = length status_line;
          total_length = res_content_length res + res_headers_length res + status_line_length
      in and_then (bzero (malloc junk total_length) total_length) (\<lambda>b0.
         and_then (strncat b0 (lit status_line) 0 status_line_length) (\<lambda>b1.
         and_then (strncat b1 (res_headers res) 0 (res_headers_length res)) (\<lambda>b2.
         and_then (strncat b2 (lit header_end) 0 4) (\<lambda>b3.
         strncat b3 (res_body res) 0 (res_content_length res))))))"

text \<open>
  \<open>snprintf\<close> into the block of \<open>content_length_header_length + 18\<close> bytes; the copies into
  \<open>res->headers\<close> follow in the order of the code.
\<close>

definition content_length_header :: "nat \<Rightarrow> string" where
  "content_length_header n = ''Content-Length: '' @ show_nat n @ [CHR 0x0A]"

definition fill_headers ::
  "(nat \<Rightarrow> char) \<Rightarrow> string \<Rightarrow> nat \<Rightarrow> string option \<Rightarrow> nat \<Rightarrow> block result" where
  "fill_headers junk date content_length hdrs headers_length =
     and_then (strncpy (malloc junk (headers_length + 1)) 0
       (lit default_headers) 0 (length default_headers)) (\<lambda>h1.
     and_then (strncpy h1 0 (lit date) 0 (length date)) (\<lambda>h2.
     and_then (strncat h2 (lit (content_length_header content_length)) 0
       (length (show_nat content_length))) (\<lambda>h3.
     and_then (case hdrs of None \<Rightarrow> Inr h3 | Some s \<Rightarrow> strncpy h3 0 (lit s) 0 headers_length) (\<lambda>h4.
     put_bytes h4 headers_length [NUL]))))"

definition http_response_create ::
  "(nat \<Rightarrow> char) \<Rightarrow> string \<Rightarrow> int \<Rightarrow> string option \<Rightarrow> string \<Rightarrow> int \<Rightarrow> http_response result" where
  "http_response_create junk date status hdrs body socket =
     (let content_length = length body;
          content_length_header_length = length (show_nat content_length);
          headers_length =
            (case hdrs of None \<Rightarrow> 0 | Some s \<Rightarrow> length s) + length default_headers +
            content_length_header_length + 18 + length date
      in and_then (fill_headers junk date content_length hdrs headers_length) (\<lambda>h.
         and_then (strncpy (malloc junk (content_length + 1)) 0 (lit body) 0 content_length) (\<lambda>b0.
         and_then (put_bytes b0 content_length [NUL]) (\<lambda>b.
         let res = \<lparr>res_status = status, res_content_length = content_length,
               res_headers_length = headers_length, res_date_header_length = length date,
               res_full_length = 0, res_socket = socket, res_body = b, res_headers = h,
               res_stringified = [], res_stream_ptr = 0\<rparr>
         in and_then (http_response_stringify junk res) (\<lambda>s.
            and_then (c_string s 0) (\<lambda>text.
            Inr (res\<lparr>res_stringified := s, res_full_length := length text\<rparr>)))))))"

definition json_content_type :: string where
  "json_content_type = ''Content-Type: application/json''"

definition error_body :: "string \<Rightarrow> string" where
  "error_body e =
     [CHR 0x7B, CHR 0x22] @ ''success'' @ [CHR 0x22] @ '': false, '' @ [CHR 0x22] @ ''error'' @
     [CHR 0x22] @ '': '' @ [CHR 0x22] @ e @ [CHR 0x22, CHR 0x7D]"

definition http_response_bad_request where
  "http_response_bad_request junk date socket_fd =
     http_response_create junk date 400 (Some json_content_type) (error_body ''bad_request'') socket_fd"

definition http_response_uninmplemented_method where
  "http_response_uninmplemented_method junk date socket_fd =
     http_response_create junk date 501 (Some json_content_type)
       (error_body ''method_not_implemented'') socket_fd"

definition http_response_internal_server_error where
  "http_response_internal_server_error junk date socket_fd =
     http_response_create junk date 500 (Some json_content_type)
       (error_body ''internal_server_error'') socket_fd"

definition http_response_not_found where
  "http_response_not_found junk date socket_fd =
     http_response_create junk date 404 (Some json_content_type) (error_body ''not_found'') socket_fd"

definition http_response_not_allowed where
  "http_response_not_allowed junk date socket_fd =
     http_response_create junk date 405 (Some json_content_type)
       (error_body ''method_not_allowed'') socket_fd"

section \<open>The text that is sent\<close>

lemma literals_clean [simp]:
  "NUL \<notin> set default_headers" "NUL \<notin> set (stringify_status status)" "NUL \<notin> set header_end"
  "NUL \<notin> set (content_length_header n)" "NUL \<notin> set json_content_type"
  "length default_headers = 43" "length header_end = 3"
  by (simp_all add: default_headers_def stringify_status_def header_end_def
      content_length_header_def show_nat_clean json_content_type_def)

text \<open>
  After the two copies that do not terminate the string, strncat looks for its end in
  the part of the block that malloc left as it was.
\<close>

definition headers_before_cat :: "(nat \<Rightarrow> char) \<Rightarrow> string \<Rightarrow> nat \<Rightarrow> block" where
  "headers_before_cat junk date h =
     date @ drop (length date) default_headers @ map junk [max (length date) 43..<h + 1]"

lemma drop_malloc: "drop k (malloc junk n) = map junk [k..<n]"
  by (simp add: malloc_def drop_map)

lemma headers_copied:
  assumes "NUL \<notin> set date" and "43 \<le> h" and "length date \<le> h"
  shows "and_then (strncpy (malloc junk (h + 1)) 0 (lit default_headers) 0 (length default_headers))
      (\<lambda>h1. strncpy h1 0 (lit date) 0 (length date)) = Inr (headers_before_cat junk date h)"
proof -
  have 1: "strncpy (malloc junk (h + 1)) 0 (lit default_headers) 0 (length default_headers) =
      Inr (default_headers @ drop 43 (malloc junk (h + 1)))"
    using assms(2) by (simp add: strncpy_def block_simps put_bytes_prefix)
  have 2: "strncpy (default_headers @ drop 43 (malloc junk (h + 1))) 0 (lit date) 0 (length date) =
      Inr (date @ drop (length date) (default_headers @ drop 43 (malloc junk (h + 1))))"
    using assms by (simp add: strncpy_def block_simps put_bytes_prefix)
  have "drop (length date) (default_headers @ drop 43 (malloc junk (h + 1))) =
      drop (length date) default_headers @ map junk [max (length date) 43..<h + 1]"
    using assms(2,3) by (auto simp: drop_malloc drop_map max_def)
  then show ?thesis unfolding headers_before_cat_def 1 and_then_simps 2 by simp
qed

lemma headers_before_cat_length:
  "length date \<le> h \<Longrightarrow> 43 \<le> h \<Longrightarrow> length (headers_before_cat junk date h) = h + 1"
  by (auto simp: headers_before_cat_def)

text \<open>\<open>junk_end junk m k\<close>: from \<open>m\<close> on, the first NUL of the memory is at \<open>k\<close>.\<close>

definition junk_end :: "(nat \<Rightarrow> char) \<Rightarrow> nat \<Rightarrow> nat \<Rightarrow> bool" where
  "junk_end junk m k \<longleftrightarrow> m \<le> k \<and> junk k = NUL \<and> (\<forall>i \<in> {m..<k}. junk i \<noteq> NUL)"

lemma headers_before_cat_split:
  assumes "NUL \<notin> set date" and "junk_end junk (max (length date) 43) k" and "k \<le> h"
  shows "\<exists>d r. headers_before_cat junk date h = d @ NUL # r \<and> NUL \<notin> set d \<and> length r = h - k"
proof -
  let ?m = "max (length date) 43"
  from assms have m: "?m \<le> k" "junk k = NUL" "\<forall>i \<in> {?m..<k}. junk i \<noteq> NUL"
    by (simp_all add: junk_end_def)
  have "[?m..<h + 1] = [?m..<k] @ [k..<h + 1]"
    using upt_add_eq_append [OF m(1), of "h + 1 - k"] assms(3) by simp
  moreover have "[k..<h + 1] = k # [Suc k..<h + 1]" using assms(3) by (simp add: upt_conv_Cons)
  ultimately have "[?m..<h + 1] = [?m..<k] @ k # [Suc k..<h + 1]" by simp
  then have "headers_before_cat junk date h =
      (date @ drop (length date) default_headers @ map junk [?m..<k]) @ NUL # map junk [Suc k..<h + 1]"
    using m(2) by (simp add: headers_before_cat_def)
  moreover have "NUL \<notin> set (date @ drop (length date) default_headers @ map junk [?m..<k])"
  proof -
    have "NUL \<notin> set (drop (length date) default_headers)"
      using literals_clean(1) in_set_dropD by metis
    moreover have "NUL \<notin> set (map junk [?m..<k])" using m(3) by auto
    ultimately show ?thesis using assms(1) by (simp only: set_append Un_iff simp_thms)
  qed
  moreover have "length (map junk [Suc k..<h + 1]) = h - k" using assms(3) by (cases "k = h") simp_all
  ultimately show ?thesis by blast
qed

lemma fill_headers_text:
  assumes "NUL \<notin> set date" and "NUL \<notin> set s" and "junk_end junk (max (length date) 43) k"
    and "k + length (show_nat n) \<le> h" and "43 \<le> h" and "length date \<le> h" and "length s \<le> h"
  shows "fill_headers junk date n (Some s) h = Inr (s @ replicate (h + 1 - length s) NUL)"
proof -
  let ?b = "headers_before_cat junk date h"
  have kh: "k \<le> h" using assms(4) by simp
  obtain d r where b: "?b = d @ NUL # r" and d: "NUL \<notin> set d" and r: "length r = h - k"
    using headers_before_cat_split [OF assms(1,3) kh] by blast
  have "length d + length r = h"
    using headers_before_cat_length [OF assms(6,5), of junk] b by simp
  have "length (take (length (show_nat n)) (content_length_header n)) \<le> length r"
    using r assms(4) by simp
  from strncat_clean [OF b d literals_clean(4) this] obtain c where
    c: "strncat ?b (lit (content_length_header n)) 0 (length (show_nat n)) = Inr c"
    by auto
  have "length c = h + 1"
    using c headers_before_cat_length [OF assms(6,5), of junk]
    by (auto simp: strncat_def and_then_Inr_iff dest: put_bytes_length)
  then have "strncpy c 0 (lit s) 0 h = Inr (s @ replicate (h - length s) NUL @ drop h c)"
    using assms(2,7) by (simp add: strncpy_def block_simps put_bytes_prefix)
  moreover have "put_bytes (s @ replicate (h - length s) NUL @ drop h c) h [NUL] =
      Inr (s @ replicate (h + 1 - length s) NUL)"
  proof -
    obtain x where "drop h c = [x]"
      using \<open>length c = h + 1\<close> by (metis Cons_nth_drop_Suc Suc_eq_plus1 drop_eq_Nil le_refl lessI)
    moreover have "put_bytes ((s @ replicate (h - length s) NUL) @ [x] @ []) h [NUL] =
        Inr ((s @ replicate (h - length s) NUL) @ [NUL] @ [])"
      by (rule put_bytes_fits) (use assms(7) in simp_all)
    ultimately show ?thesis using assms(7) by (simp add: Suc_diff_le replicate_append_same)
  qed
  ultimately show ?thesis
    using headers_copied [OF assms(1,5,6), of junk] c
    by (cases "strncpy (malloc junk (h + 1)) 0 (lit default_headers) 0 (length default_headers)")
      (simp_all add: fill_headers_def)
qed

lemma stringify_text:
  assumes "NUL \<notin> set s" and "NUL \<notin> set body"
    and "res_headers res = s @ replicate (h + 1 - length s) NUL" and "res_headers_length res = h"
    and "length s + 3 < h" and "res_body res = lit body" and "res_content_length res = length body"
  shows "http_response_stringify junk res =
    Inr ((stringify_status (res_status res) @ s @ header_end @ body) @ replicate (h - length s - 3) NUL)"
proof -
  let ?st = "stringify_status (res_status res)"
  let ?t = "length body + h + length ?st"
  have 0: "bzero (malloc junk ?t) ?t = Inr ([] @ replicate ?t NUL)"
    by (simp add: bzero_def put_bytes_def)
  have 1: "strncat ([] @ replicate ?t NUL) (lit ?st) 0 (length ?st) =
      Inr (([] @ ?st) @ replicate (?t - length ?st) NUL)"
    by (rule strncat_zeros) (use assms(5) in \<open>simp_all add: block_simps\<close>)
  have rd: "read_upto (res_headers res) 0 h = Inr s"
  proof -
    have "res_headers res = s @ NUL # replicate (h - length s) NUL"
      using assms(3,5) by (simp add: Suc_diff_le)
    then show ?thesis using assms(1,5) by (simp add: block_simps)
  qed
  have 2: "strncat (([] @ ?st) @ replicate (?t - length ?st) NUL) (res_headers res) 0 h =
      Inr ((([] @ ?st) @ s) @ replicate (?t - length ?st - length s) NUL)"
    by (rule strncat_zeros [OF _ rd]) (use assms(5) in simp_all)
  have 3: "strncat ((([] @ ?st) @ s) @ replicate (?t - length ?st - length s) NUL) (lit header_end) 0 4 =
      Inr (((([] @ ?st) @ s) @ header_end) @ replicate (?t - length ?st - length s - 3) NUL)"
    using strncat_zeros [of "([] @ ?st) @ s" "lit header_end" 0 4 header_end] assms(1,5)
    by (simp add: block_simps)
  have 4: "strncat (((([] @ ?st) @ s) @ header_end) @ replicate (?t - length ?st - length s - 3) NUL)
      (lit body) 0 (length body) =
      Inr ((((([] @ ?st) @ s) @ header_end) @ body) @
        replicate (?t - length ?st - length s - 3 - length body) NUL)"
    by (rule strncat_zeros) (use assms(1,2,5) in \<open>simp_all add: block_simps\<close>)
  have "http_response_stringify junk res =
      Inr ((?st @ s @ header_end @ body) @
        replicate (?t - length ?st - length s - 3 - length body) NUL)"
    unfolding http_response_stringify_def Let_def assms(4,6,7) 0 1 2 3 4 and_then_simps by simp
  moreover have "?t - length ?st - length s - 3 - length body = h - length s - 3" using assms(5) by simp
  ultimately show ?thesis by (simp only:)
qed

text \<open>
  Whether the copies into the block of the headers stay inside it: the memory that malloc has
  returned must hold a NUL behind what is written first, and early enough.
\<close>

definition header_room :: "(nat \<Rightarrow> char) \<Rightarrow> string \<Rightarrow> string \<Rightarrow> bool" where
  "header_room junk date s \<longleftrightarrow> (\<exists>k \<in> {max (length date) 43..length s + 61 + length date}. junk k = NUL)"

lemma first_NUL:
  assumes "junk k = NUL" and "m \<le> k"
  shows "\<exists>j \<le> k. junk_end junk m j"
proof -
  obtain j where j: "m \<le> j \<and> junk j = NUL" "\<forall>i < j. \<not> (m \<le> i \<and> junk i = NUL)"
    using exists_least_iff [of "\<lambda>i. m \<le> i \<and> junk i = NUL"] assms by blast
  then have "junk_end junk m j" by (auto simp: junk_end_def)
  moreover have "j \<le> k" using j(2) assms by (metis linorder_not_less)
  ultimately show ?thesis by blast
qed

lemma fill_headers_overruns:
  assumes "NUL \<notin> set date" and "\<not> header_room junk date s"
    and h: "h = length s + 61 + length date + length (show_nat n)"
  shows "fill_headers junk date n hdrs h = Inl OutOfBounds"
proof -
  let ?b = "headers_before_cat junk date h" and ?m = "max (length date) 43"
  have no: "junk i \<noteq> NUL" if "?m \<le> i" "i \<le> length s + 61 + length date" for i
    using assms(2) that by (auto simp: header_room_def)
  have "strncat ?b (lit (content_length_header n)) 0 (length (show_nat n)) = Inl OutOfBounds"
  proof (cases "\<exists>k \<in> {?m..h}. junk k = NUL")
    case True
    then obtain k0 where k0: "?m \<le> k0" "k0 \<le> h" "junk k0 = NUL" by auto
    obtain k where k: "junk_end junk ?m k" "k \<le> k0" using first_NUL [of junk k0] k0 by blast
    have "k \<le> h" using k(2) k0(2) by simp
    from headers_before_cat_split [OF assms(1) k(1) this] obtain d r
      where b: "?b = d @ NUL # r" "NUL \<notin> set d" "length r = h - k" by blast
    have "length s + 61 + length date < k" using k(1) no [of k] by (force simp: junk_end_def)
    then have "length r < length (show_nat n)" using b(3) h \<open>k \<le> h\<close> by linarith
    moreover have "read_upto (lit (content_length_header n)) 0 (length (show_nat n)) =
        Inr (take (length (show_nat n)) (content_length_header n))" by (rule read_upto_lit) simp
    moreover have "length (show_nat n) \<le> length (content_length_header n)" by (simp add: content_length_header_def)
    ultimately show ?thesis using b by (simp add: strncat_def c_string_terminated put_bytes_def)
  next
    case False
    have "NUL \<notin> set (map junk [?m..<h + 1])" using False by (auto simp: image_iff)
    moreover have "NUL \<notin> set (drop (length date) default_headers)"
      using literals_clean(1) in_set_dropD by metis
    ultimately have "NUL \<notin> set (drop 0 ?b)"
      using assms(1) by (simp only: headers_before_cat_def drop_0 set_append Un_iff simp_thms)
    then show ?thesis unfolding strncat_def by (simp add: c_string_unterminated)
  qed
  moreover have "43 \<le> h" "length date \<le> h" using h by simp_all
  ultimately show ?thesis
    using headers_copied [OF assms(1), of h junk]
    by (cases "strncpy (malloc junk (h + 1)) 0 (lit default_headers) 0 (length default_headers)")
      (simp_all add: fill_headers_def)
qed

text \<open>The response that comes out, with the exact contents of its blocks.\<close>

definition response_text :: "int \<Rightarrow> string \<Rightarrow> string \<Rightarrow> string" where
  "response_text status s body = stringify_status status @ s @ header_end @ body"

definition built_response :: "string \<Rightarrow> int \<Rightarrow> string \<Rightarrow> string \<Rightarrow> int \<Rightarrow> http_response" where
  "built_response date status s body fd =
     (let h = length s + 43 + length (show_nat (length body)) + 18 + length date in
      \<lparr>res_status = status, res_content_length = length body, res_headers_length = h,
       res_date_header_length = length date, res_full_length = length (response_text status s body),
       res_socket = fd, res_body = lit body, res_headers = s @ replicate (h + 1 - length s) NUL,
       res_stringified = response_text status s body @ replicate (h - length s - 3) NUL, res_stream_ptr = 0\<rparr>)"

lemma response_text_clean: "NUL \<notin> set s \<Longrightarrow> NUL \<notin> set body \<Longrightarrow> NUL \<notin> set (response_text status s body)"
  by (simp add: response_text_def)

lemma built_response_text:
  assumes "NUL \<notin> set s" and "NUL \<notin> set body"
  shows "c_string (res_stringified (built_response date status s body fd)) 0 = Inr (response_text status s body)"
  using response_text_clean [OF assms] by (simp add: built_response_def Let_def c_string_zeros)

lemma built_response_simps [simp]:
  "res_full_length (built_response date status s body fd) = length (response_text status s body)"
  "res_stream_ptr (built_response date status s body fd) = 0"
  "res_socket (built_response date status s body fd) = fd"
  by (simp_all add: built_response_def Let_def)

lemma create_builds:
  assumes "NUL \<notin> set date" and "NUL \<notin> set s" and "NUL \<notin> set body"
  shows "http_response_create junk date status (Some s) body fd =
    (if header_room junk date s then Inr (built_response date status s body fd) else Inl OutOfBounds)"
proof -
  let ?h = "length s + 43 + length (show_nat (length body)) + 18 + length date"
  let ?text = "response_text status s body"
  let ?hs = "s @ replicate (?h + 1 - length s) NUL"
  show ?thesis
  proof (cases "header_room junk date s")
    case True
    then obtain k0 where k0: "max (length date) 43 \<le> k0" "k0 \<le> length s + 61 + length date" "junk k0 = NUL"
      by (auto simp: header_room_def)
    obtain k where k: "junk_end junk (max (length date) 43) k" "k \<le> k0" using first_NUL [of junk k0] k0 by blast
    have fill: "fill_headers junk date (length body) (Some s) ?h = Inr ?hs"
      by (rule fill_headers_text [OF assms(1,2) k(1)]) (use k(2) k0(2) in simp_all)
    have body: "and_then (strncpy (malloc junk (length body + 1)) 0 (lit body) 0 (length body))
        (\<lambda>b. put_bytes b (length body) [NUL]) = Inr (lit body)"
      using assms(3) by (simp add: strncpy_def block_simps put_bytes_prefix put_bytes_def lit_def)
    then obtain b0 where b: "strncpy (malloc junk (length body + 1)) 0 (lit body) 0 (length body) = Inr b0"
      "put_bytes b0 (length body) [NUL] = Inr (lit body)"
      by (auto simp: and_then_Inr_iff)
    let ?res = "\<lparr>res_status = status, res_content_length = length body, res_headers_length = ?h,
        res_date_header_length = length date, res_full_length = 0, res_socket = fd,
        res_body = lit body, res_headers = ?hs, res_stringified = [], res_stream_ptr = 0\<rparr>"
    have str: "http_response_stringify junk ?res = Inr (?text @ replicate (?h - length s - 3) NUL)"
      using stringify_text [OF assms(2,3), of ?res ?h junk] by (simp add: response_text_def)
    have sent: "c_string (?text @ replicate (?h - length s - 3) NUL) 0 = Inr ?text"
      using response_text_clean [OF assms(2,3)] by (intro c_string_zeros) simp_all
    show ?thesis using True
      unfolding http_response_create_def Let_def literals_clean(6) option.case fill b and_then_simps
        str sent by (simp add: built_response_def Let_def)
  next
    case False
    have "fill_headers junk date (length body) (Some s) ?h = Inl OutOfBounds"
      by (rule fill_headers_overruns [OF assms(1) False]) simp
    then show ?thesis using False
      unfolding http_response_create_def Let_def literals_clean(6) option.case by simp
  qed
qed
section \<open>Properties\<close>

text \<open>
  C34. What the client receives, with headers given as every caller in the repository gives them.
  Building a response has exactly two outcomes, decided by what the memory that malloc returns for
  the headers happens to hold: if a NUL lies early enough in it, a response whose text is the
  status line, the given headers, the line break sequence and the body (the default headers, the
  date and the content length, which are written first, are overwritten and never sent), with its
  length recorded and nothing streamed; otherwise an access outside the block.
\<close>

theorem response_is_status_headers_body:
  assumes "NUL \<notin> set date" and "NUL \<notin> set s" and "NUL \<notin> set body"
  shows "http_response_create junk date status (Some s) body fd =
      (if header_room junk date s then Inr (built_response date status s body fd) else Inl OutOfBounds) \<and>
    c_string (res_stringified (built_response date status s body fd)) 0 =
      Inr (stringify_status status @ s @ header_end @ body) \<and>
    res_full_length (built_response date status s body fd) =
      length (stringify_status status @ s @ header_end @ body) \<and>
    res_stream_ptr (built_response date status s body fd) = 0 \<and>
    res_socket (built_response date status s body fd) = fd"
  using create_builds [OF assms] built_response_text [OF assms(2,3)] by (simp add: response_text_def)

lemma response_is_status_headers_body_witness:
  "c_string (res_stringified (built_response ''Date: now'' 501 json_content_type ''ok'' 7)) 0 =
      Inr (stringify_status 501 @ json_content_type @ header_end @ ''ok'') \<and>
    http_response_create (\<lambda>_. NUL) ''Date: now'' 501 (Some json_content_type) ''ok'' 7 =
      Inr (built_response ''Date: now'' 501 json_content_type ''ok'' 7) \<and>
    http_response_create (\<lambda>_. CHR ''x'') ''Date: now'' 501 (Some json_content_type) ''ok'' 7 = Inl OutOfBounds"
proof -
  have "header_room (\<lambda>_. NUL) ''Date: now'' json_content_type" "\<not> header_room (\<lambda>_. CHR ''x'') ''Date: now'' json_content_type"
    by (auto simp: header_room_def intro!: exI [of _ 43])
  then show ?thesis
    using response_is_status_headers_body [of "''Date: now''" json_content_type "''ok''" "\<lambda>_. NUL" 501 7]
      response_is_status_headers_body [of "''Date: now''" json_content_type "''ok''" "\<lambda>_. CHR ''x''" 501 7]
    by simp
qed

end
