(* ===== verification/Prio_Queue.thy ===== *)
theory Prio_Queue
  imports Prelude
begin

text \<open>
  The job queue of lib/prio_queue.c: a singly linked list of \<open>node_t\<close> cells with a
  head and a tail pointer, kept in ascending order of the requested units.
  The detailed model works on an explicit store of nodes; the abstract one is the list of
  the requests. The locale \<open>request_queue\<close> is the contract between the queue and its
  clients (the schedulers), and both models are instances of it.
\<close>

section \<open>The linked list\<close>

type_synonym addr = nat

record job =
  request :: u32

text \<open>
  \<open>node_t.value\<close> is a pointer to a \<open>job\<close> that only its node refers to (every node is
  built by calloc of one node and one job), so the model stores the job in the node.
\<close>

record node_t =
  node_value :: job
  node_next :: "addr option"

record prio_queue =
  pq_size :: i32
  pq_head :: "addr option"
  pq_tail :: "addr option"

type_synonym node_store = "addr \<rightharpoonup> node_t"

definition prio_queue_init :: "prio_queue \<Rightarrow> prio_queue" where
  "prio_queue_init q = q\<lparr>pq_size := 0, pq_head := None, pq_tail := None\<rparr>"

definition load_node :: "node_store \<Rightarrow> addr option \<Rightarrow> node_t result" where
  "load_node h p = (case p of None \<Rightarrow> Inl InvalidPointer
     | Some a \<Rightarrow> (case h a of None \<Rightarrow> Inl InvalidPointer | Some n \<Rightarrow> Inr n))"

definition set_next :: "node_store \<Rightarrow> addr option \<Rightarrow> addr option \<Rightarrow> node_store result" where
  "set_next h p nx = (case p of None \<Rightarrow> Inl InvalidPointer
     | Some a \<Rightarrow> (case h a of None \<Rightarrow> Inl InvalidPointer
       | Some n \<Rightarrow> Inr (h(a \<mapsto> n\<lparr>node_next := nx\<rparr>))))"

text \<open>
  The while loop of the insertion: walk on while the current request is smaller. The
  result is the pair (\<open>prev_of_curr_item\<close>, \<open>curr_item\<close>); the loop over a cyclic chain
  does not return, hence the option.
\<close>

partial_function (option) enqueue_scan ::
  "node_store \<Rightarrow> u32 \<Rightarrow> addr option \<Rightarrow> addr option \<Rightarrow> (addr option \<times> addr option) result option" where
  "enqueue_scan h v curr_item prev_of_curr_item =
     (case curr_item of
        None \<Rightarrow> Some (Inr (prev_of_curr_item, None))
      | Some a \<Rightarrow> (case h a of
           None \<Rightarrow> Some (Inl InvalidPointer)
         | Some n \<Rightarrow>
             if request (node_value n) < v
             then enqueue_scan h v (node_next n) (Some a)
             else Some (Inr (prev_of_curr_item, Some a))))"

text \<open>What follows the loop: the three places a node can be linked in.\<close>

definition enqueue_link ::
  "node_store \<Rightarrow> prio_queue \<Rightarrow> addr \<Rightarrow> addr option \<Rightarrow> addr option \<Rightarrow> (node_store \<times> prio_queue) result" where
  "enqueue_link h q el prev_of_curr_item curr_item =
     and_then
       (if prev_of_curr_item = None then
          and_then (set_next h (Some el) curr_item) (\<lambda>h1. Inr (h1, q\<lparr>pq_head := Some el\<rparr>))
        else if curr_item = None then
          and_then (set_next h (Some el) None) (\<lambda>h1.
          and_then (set_next h1 (pq_tail q) (Some el)) (\<lambda>h2.
          Inr (h2, q\<lparr>pq_tail := Some el\<rparr>)))
        else
          and_then (set_next h prev_of_curr_item (Some el)) (\<lambda>h1.
          and_then (set_next h1 (Some el) curr_item) (\<lambda>h2. Inr (h2, q))))
       (\<lambda>(h', q').
          and_then (load_node h' (pq_tail q')) (\<lambda>t.
          if node_next t = None then Inr (h', q'\<lparr>pq_size := pq_size q' + 1\<rparr>)
          else Inl AssertFailed))"

definition prio_queue_enqueue ::
  "node_store \<Rightarrow> prio_queue \<Rightarrow> addr \<Rightarrow> (node_store \<times> prio_queue) result option" where
  "prio_queue_enqueue h q el =
     (if pq_size q = 0 then
        Some (and_then (set_next h (Some el) None) (\<lambda>h1.
          Inr (h1, q\<lparr>pq_head := Some el, pq_tail := Some el, pq_size := pq_size q + 1\<rparr>)))
      else
        (case load_node h (Some el) of
           Inl e \<Rightarrow> Some (Inl e)
         | Inr n \<Rightarrow>
             (case enqueue_scan h (request (node_value n)) (pq_head q) None of
                None \<Rightarrow> None
              | Some (Inl e) \<Rightarrow> Some (Inl e)
              | Some (Inr (prev_of_curr_item, curr_item)) \<Rightarrow>
                  Some (enqueue_link h q el prev_of_curr_item curr_item))))"

definition prio_queue_fifo_dequeue ::
  "node_store \<Rightarrow> prio_queue \<Rightarrow> (addr option \<times> prio_queue) result" where
  "prio_queue_fifo_dequeue h q =
     (if pq_size q = 0 then Inr (None, q)
      else
        and_then (load_node h (pq_head q)) (\<lambda>old_head.
          let q1 = q\<lparr>pq_head := node_next old_head, pq_size := pq_size q - 1\<rparr>
          in Inr (pq_head q, if pq_head q1 = None then q1\<lparr>pq_tail := None\<rparr> else q1)))"

section \<open>The chain of nodes a queue stands for\<close>

fun chain :: "node_store \<Rightarrow> addr option \<Rightarrow> addr list \<Rightarrow> addr option \<Rightarrow> bool" where
  "chain h p [] r \<longleftrightarrow> p = r"
| "chain h p (a # as) r \<longleftrightarrow>
     p = Some a \<and> (case h a of None \<Rightarrow> False | Some n \<Rightarrow> chain h (node_next n) as r)"

definition request_at :: "node_store \<Rightarrow> addr \<Rightarrow> u32" where
  "request_at h a = (case h a of None \<Rightarrow> 0 | Some n \<Rightarrow> request (node_value n))"

definition queue_nodes :: "node_store \<Rightarrow> prio_queue \<Rightarrow> addr list \<Rightarrow> bool" where
  "queue_nodes h q as \<longleftrightarrow>
     chain h (pq_head q) as None \<and> distinct as \<and> pq_size q = of_nat (length as) \<and>
     length as < 2 ^ 31 \<and> pq_tail q = (if as = [] then None else Some (last as))"

lemma chain_append:
  "chain h p (as @ bs) r \<longleftrightarrow> (\<exists>m. chain h p as m \<and> chain h m bs r)"
  by (induction as arbitrary: p) (auto split: option.splits)

lemma chain_update [simp]:
  "a \<notin> set as \<Longrightarrow> chain (h(a := c)) p as r = chain h p as r"
  by (induction as arbitrary: p) (auto split: option.splits)

lemma chain_valid: "chain h p as r \<Longrightarrow> a \<in> set as \<Longrightarrow> h a \<noteq> None"
  by (induction as arbitrary: p) (auto split: option.splits)

lemma request_at_upd_next:
  "h a = Some n \<Longrightarrow> request_at (h(a \<mapsto> n\<lparr>node_next := x\<rparr>)) b = request_at h b"
  by (simp add: request_at_def)

lemma request_at_upd_other [simp]: "a \<noteq> b \<Longrightarrow> request_at (h(a := c)) b = request_at h b"
  by (simp add: request_at_def)

section \<open>What the operations do to the chain\<close>

definition first_ptr :: "addr list \<Rightarrow> addr option" where
  "first_ptr as = (case as of [] \<Rightarrow> None | a # _ \<Rightarrow> Some a)"

lemma first_ptr_simps [simp]: "first_ptr [] = None" "first_ptr (a # as) = Some a"
  by (simp_all add: first_ptr_def)

lemma chain_first_ptr: "chain h p as None \<Longrightarrow> p = first_ptr as"
  by (cases as) auto

lemma enqueue_scan_chain:
  "chain h p as None \<Longrightarrow>
   enqueue_scan h v p prev =
     Some (Inr (if takeWhile (\<lambda>a. request_at h a < v) as = [] then prev
                else Some (last (takeWhile (\<lambda>a. request_at h a < v) as)),
                first_ptr (dropWhile (\<lambda>a. request_at h a < v) as)))"
proof (induction as arbitrary: p prev)
  case Nil
  then show ?case by (simp add: enqueue_scan.simps)
next
  case (Cons a as)
  then obtain n where n: "p = Some a" "h a = Some n" "chain h (node_next n) as None"
    by (auto split: option.splits)
  then have r: "request_at h a = request (node_value n)"
    by (simp add: request_at_def)
  show ?case
  proof (cases "request (node_value n) < v")
    case True
    with n r have "enqueue_scan h v p prev = enqueue_scan h v (node_next n) (Some a)"
      by (subst enqueue_scan.simps) simp
    with Cons.IH [OF n(3), of "Some a"] True r show ?thesis by simp
  next
    case False
    with n r show ?thesis by (subst enqueue_scan.simps) simp
  qed
qed

text \<open>
  Linking node \<open>el\<close> between the prefix \<open>bs\<close> of smaller requests and the rest \<open>cs\<close>
  gives the chain \<open>bs @ el # cs\<close>; nodes outside the queue are not touched and no
  request changes.
\<close>

definition linked :: "node_store \<Rightarrow> node_store \<Rightarrow> addr set \<Rightarrow> bool" where
  "linked h h' A \<longleftrightarrow>
     (\<forall>a. request_at h' a = request_at h a) \<and> (\<forall>a. a \<notin> A \<longrightarrow> h' a = h a) \<and> dom h' = dom h"

lemma linked_set_next:
  "h a = Some n \<Longrightarrow> a \<in> A \<Longrightarrow> linked h (h(a \<mapsto> n\<lparr>node_next := x\<rparr>)) A"
  by (auto simp: linked_def request_at_upd_next)

lemma linked_trans: "linked h h1 A \<Longrightarrow> linked h1 h2 A \<Longrightarrow> linked h h2 A"
  by (simp add: linked_def)

lemma chain_last_next:
  assumes "chain h p as None" and "as \<noteq> []"
  obtains n where "h (last as) = Some n" and "node_next n = None"
proof -
  from assms(2) have "as = butlast as @ [last as]" by simp
  with assms(1) have "chain h p (butlast as @ [last as]) None" by metis
  then show ?thesis using that by (auto simp: chain_append split: option.splits)
qed

lemma chain_redirect_last:
  assumes "chain h p as m" and "as \<noteq> []" and "distinct as" and "h (last as) = Some n"
  shows "chain (h(last as \<mapsto> n\<lparr>node_next := r\<rparr>)) p as r"
proof -
  have as: "as = butlast as @ [last as]" using assms(2) by simp
  with assms(3) have l: "last as \<notin> set (butlast as)"
    by (metis distinct_append not_distinct_conv_prefix)
  from as assms(1) obtain k where "chain h p (butlast as) k" "k = Some (last as)"
    by (metis chain.simps(2) chain_append)
  then have "chain (h(last as \<mapsto> n\<lparr>node_next := r\<rparr>)) p (butlast as @ [last as]) r"
    using l by (simp add: chain_append)
  with as show ?thesis by metis
qed

lemma set_next_Some: "h a = Some n \<Longrightarrow> set_next h (Some a) x = Inr (h(a \<mapsto> n\<lparr>node_next := x\<rparr>))"
  by (simp add: set_next_def)

lemma load_node_Some: "h a = Some n \<Longrightarrow> load_node h (Some a) = Inr n"
  by (simp add: load_node_def)

lemma size_not_zero:
  assumes "queue_nodes h q as" shows "pq_size q = 0 \<longleftrightarrow> as = []"
proof -
  have "unat (pq_size q) = length as"
    using assms by (simp add: queue_nodes_def unat_of_nat)
  then show ?thesis by (metis length_0_conv unat_eq_zero)
qed

lemma enqueue_link_head:
  assumes q: "queue_nodes h q cs" and cs: "cs \<noteq> []"
    and el: "h el = Some n" "el \<notin> set cs" and len: "Suc (length cs) < 2 ^ 31"
  shows "\<exists>h' q'. enqueue_link h q el None (first_ptr cs) = Inr (h', q') \<and>
           queue_nodes h' q' (el # cs) \<and> linked h h' (insert el (set cs))"
proof -
  let ?h = "h(el \<mapsto> n\<lparr>node_next := first_ptr cs\<rparr>)"
  let ?q = "q\<lparr>pq_head := Some el, pq_size := pq_size q + 1\<rparr>"
  from q have ch: "chain h (first_ptr cs) cs None" and tl: "pq_tail q = Some (last cs)"
    using cs chain_first_ptr by (auto simp: queue_nodes_def)
  from chain_last_next [OF ch cs] obtain m where m: "h (last cs) = Some m" "node_next m = None" .
  have ne: "last cs \<noteq> el" using el cs by auto
  have "enqueue_link h q el None (first_ptr cs) = Inr (?h, ?q)"
    using el m ne tl by (simp add: enqueue_link_def set_next_Some load_node_Some)
  moreover have "queue_nodes ?h ?q (el # cs)"
    using q ch el len cs by (simp add: queue_nodes_def)
  moreover have "linked h ?h (insert el (set cs))"
    using el by (simp add: linked_set_next)
  ultimately show ?thesis by blast
qed

lemma enqueue_link_tail:
  assumes q: "queue_nodes h q bs" and bs: "bs \<noteq> []"
    and el: "h el = Some n" "el \<notin> set bs" and len: "Suc (length bs) < 2 ^ 31"
  shows "\<exists>h' q'. enqueue_link h q el (Some (last bs)) None = Inr (h', q') \<and>
           queue_nodes h' q' (bs @ [el]) \<and> linked h h' (insert el (set bs))"
proof -
  from q have ch: "chain h (pq_head q) bs None" and tl: "pq_tail q = Some (last bs)"
    and ds: "distinct bs" using bs by (auto simp: queue_nodes_def)
  from chain_last_next [OF ch bs] obtain m where m: "h (last bs) = Some m" .
  have ne: "last bs \<noteq> el" using el bs by auto
  let ?h1 = "h(el \<mapsto> n\<lparr>node_next := None\<rparr>)"
  let ?h = "?h1(last bs \<mapsto> m\<lparr>node_next := Some el\<rparr>)"
  let ?q = "q\<lparr>pq_tail := Some el, pq_size := pq_size q + 1\<rparr>"
  have m1: "?h1 (last bs) = Some m" using m ne by simp
  have eq: "enqueue_link h q el (Some (last bs)) None = Inr (?h, ?q)"
    using el m1 ne tl by (simp add: enqueue_link_def set_next_Some load_node_Some)
  have "chain ?h1 (pq_head q) bs None" using ch el by simp
  then have "chain ?h (pq_head q) bs (Some el)"
    by (rule chain_redirect_last) (use bs ds m1 in simp_all)
  moreover have "chain ?h (Some el) [el] None" using ne by simp
  ultimately have "chain ?h (pq_head q) (bs @ [el]) None" unfolding chain_append by blast
  then have "queue_nodes ?h ?q (bs @ [el])"
    using q el len by (simp add: queue_nodes_def add.commute)
  moreover have "linked h ?h1 (insert el (set bs))"
    using el by (simp add: linked_set_next)
  moreover have "linked ?h1 ?h (insert el (set bs))"
    using m1 bs by (intro linked_set_next) simp_all
  ultimately show ?thesis using eq linked_trans by blast
qed

lemma enqueue_link_middle:
  assumes q: "queue_nodes h q (bs @ cs)" and bs: "bs \<noteq> []" and cs: "cs \<noteq> []"
    and el: "h el = Some n" "el \<notin> set (bs @ cs)" and len: "Suc (length (bs @ cs)) < 2 ^ 31"
  shows "\<exists>h' q'. enqueue_link h q el (Some (last bs)) (first_ptr cs) = Inr (h', q') \<and>
           queue_nodes h' q' (bs @ el # cs) \<and> linked h h' (insert el (set (bs @ cs)))"
proof -
  from q have tl: "pq_tail q = Some (last cs)" and ds: "distinct (bs @ cs)"
    using cs by (auto simp: queue_nodes_def)
  from q obtain k where ch: "chain h (pq_head q) bs k" "chain h k cs None"
    by (auto simp: queue_nodes_def chain_append)
  then have k: "k = first_ptr cs" by (simp add: chain_first_ptr)
  obtain m where m: "h (last bs) = Some m" using chain_valid [OF ch(1), of "last bs"] bs by auto
  from chain_last_next [OF ch(2) cs] obtain t where t: "h (last cs) = Some t" "node_next t = None" .
  have ne: "last bs \<noteq> el" "last cs \<noteq> el" "last cs \<noteq> last bs" "last bs \<notin> set cs"
    using el ds last_in_set [OF bs] last_in_set [OF cs] by auto
  obtain c cs' where cs': "cs = c # cs'" using cs by (cases cs) auto
  let ?h1 = "h(last bs \<mapsto> m\<lparr>node_next := Some el\<rparr>)"
  let ?h = "?h1(el \<mapsto> n\<lparr>node_next := first_ptr cs\<rparr>)"
  let ?q = "q\<lparr>pq_size := pq_size q + 1\<rparr>"
  have n1: "?h1 el = Some n" using el ne by auto
  have "enqueue_link h q el (Some (last bs)) (first_ptr cs) = Inr (?h, ?q)"
    using m n1 t ne tl cs' by (simp add: enqueue_link_def set_next_Some load_node_Some)
  moreover have "chain ?h (pq_head q) (bs @ el # cs) None"
  proof -
    have "chain ?h1 (pq_head q) bs (Some el)"
      using chain_redirect_last [OF ch(1) bs _ m] ds by simp
    then have "chain ?h (pq_head q) bs (Some el)" using el by simp
    moreover have "chain ?h (Some el) (el # cs) None" using ch(2) k el ne by simp
    ultimately show ?thesis unfolding chain_append by blast
  qed
  then have "queue_nodes ?h ?q (bs @ el # cs)"
    using q el len cs by (simp add: queue_nodes_def add.commute)
  moreover have "linked h ?h1 (insert el (set (bs @ cs)))"
    using m bs by (intro linked_set_next) simp_all
  moreover have "linked ?h1 ?h (insert el (set (bs @ cs)))"
    using n1 by (intro linked_set_next) simp_all
  ultimately show ?thesis using linked_trans by blast
qed

section \<open>The abstract queue and the contract\<close>

text \<open>
  Abstractly a queue is the list of its requests. An enqueue inserts the request before
  the first one that is not smaller; a dequeue takes the first.
\<close>

definition enqueue_request :: "u32 \<Rightarrow> u32 list \<Rightarrow> u32 list" where
  "enqueue_request v rs = takeWhile (\<lambda>r. r < v) rs @ v # dropWhile (\<lambda>r. r < v) rs"

definition dequeue_request :: "u32 list \<Rightarrow> u32 option \<times> u32 list" where
  "dequeue_request rs = (case rs of [] \<Rightarrow> (None, []) | r # rs' \<Rightarrow> (Some r, rs'))"

lemma mset_enqueue_request [simp]: "mset (enqueue_request v rs) = add_mset v (mset rs)"
proof -
  have "mset (takeWhile (\<lambda>r. r < v) rs @ dropWhile (\<lambda>r. r < v) rs) = mset rs" by simp
  then show ?thesis unfolding enqueue_request_def mset_append by simp
qed

lemma length_enqueue_request [simp]: "length (enqueue_request v rs) = Suc (length rs)"
  using mset_enqueue_request [of v rs] by (metis size_add_mset size_mset)

lemma enqueue_request_insort: "sorted rs \<Longrightarrow> enqueue_request v rs = insort v rs"
  by (induction rs) (auto simp: enqueue_request_def)

lemma sorted_enqueue_request: "sorted rs \<Longrightarrow> sorted (enqueue_request v rs)"
  by (simp add: enqueue_request_insort sorted_insort)

definition queue_abs :: "node_store \<Rightarrow> addr list \<Rightarrow> u32 list" where
  "queue_abs h as = map (request_at h) as"

text \<open>Enqueueing a node refines the insertion of its request.\<close>

lemma enqueue_refines:
  assumes q: "queue_nodes h q as" and el: "h el = Some n" "el \<notin> set as"
    and len: "Suc (length as) < 2 ^ 31"
  shows "\<exists>h' q' as'. prio_queue_enqueue h q el = Some (Inr (h', q')) \<and> queue_nodes h' q' as' \<and>
           as' = takeWhile (\<lambda>a. request_at h a < request (node_value n)) as @ el #
                 dropWhile (\<lambda>a. request_at h a < request (node_value n)) as \<and>
           queue_abs h' as' = enqueue_request (request (node_value n)) (queue_abs h as) \<and>
           linked h h' (insert el (set as))"
proof -
  let ?v = "request (node_value n)"
  define bs where "bs = takeWhile (\<lambda>a. request_at h a < ?v) as"
  define cs where "cs = dropWhile (\<lambda>a. request_at h a < ?v) as"
  have as: "as = bs @ cs" by (simp add: bs_def cs_def)
  have v: "request_at h el = ?v" using el by (simp add: request_at_def)
  have "\<exists>h' q'. prio_queue_enqueue h q el = Some (Inr (h', q')) \<and>
          queue_nodes h' q' (bs @ el # cs) \<and> linked h h' (insert el (set as))"
  proof (cases "as = []")
    case True
    then have "pq_size q = 0" using q by (simp add: queue_nodes_def)
    then show ?thesis
      using q el True as
      by (auto simp: prio_queue_enqueue_def set_next_Some queue_nodes_def linked_set_next)
  next
    case False
    then have "pq_size q \<noteq> 0" using size_not_zero [OF q] by simp
    moreover have "enqueue_scan h ?v (pq_head q) None =
        Some (Inr (if bs = [] then None else Some (last bs), first_ptr cs))"
      using q enqueue_scan_chain [of h "pq_head q" as ?v None]
      unfolding queue_nodes_def bs_def cs_def by blast
    ultimately have eq: "prio_queue_enqueue h q el =
        Some (enqueue_link h q el (if bs = [] then None else Some (last bs)) (first_ptr cs))"
      using el by (simp add: prio_queue_enqueue_def load_node_Some)
    consider "bs = []" "cs \<noteq> []" | "bs \<noteq> []" "cs = []" | "bs \<noteq> []" "cs \<noteq> []"
      using False as by auto
    then show ?thesis
    proof cases
      case 1
      with enqueue_link_head [of h q cs el n] q el len as eq show ?thesis by auto
    next
      case 2
      with enqueue_link_tail [of h q bs el n] q el len as eq show ?thesis by auto
    next
      case 3
      with enqueue_link_middle [of h q bs cs el n] q el len as eq show ?thesis by auto
    qed
  qed
  then obtain h' q' where *: "prio_queue_enqueue h q el = Some (Inr (h', q'))"
    "queue_nodes h' q' (bs @ el # cs)" "linked h h' (insert el (set as))" by blast
  then have "request_at h' = request_at h" by (auto simp: linked_def)
  then have "queue_abs h' (bs @ el # cs) = enqueue_request ?v (queue_abs h as)"
    using v by (simp add: queue_abs_def enqueue_request_def bs_def cs_def takeWhile_map dropWhile_map o_def)
  with * show ?thesis unfolding bs_def cs_def by blast
qed

lemma dequeue_refines:
  assumes q: "queue_nodes h q as"
  shows "\<exists>q'. prio_queue_fifo_dequeue h q = Inr (first_ptr as, q') \<and> queue_nodes h q' (tl as)"
proof (cases as)
  case Nil
  then show ?thesis using q by (simp add: prio_queue_fifo_dequeue_def queue_nodes_def)
next
  case (Cons a bs)
  then have "pq_size q \<noteq> 0" using size_not_zero [OF q] by simp
  then show ?thesis using q Cons
    by (cases bs) (auto simp: prio_queue_fifo_dequeue_def queue_nodes_def load_node_def Let_def
        split: option.splits)
qed

section \<open>A queue with its allocator\<close>

text \<open>
  The callers of the queue (\<open>pronto_add_job\<close>, \<open>pronto_add_waiting_job\<close>,
  \<open>cluster_worker_add_job\<close>) calloc a node and a job, fill in the request and enqueue the
  node. The store below adds the allocator to the queue: \<open>next_free\<close> is the next address
  calloc returns.
\<close>

record queue_store =
  cells :: node_store
  next_free :: addr
  the_queue :: prio_queue

definition empty_store :: queue_store where
  "empty_store = \<lparr>cells = Map.empty, next_free = 0,
     the_queue = prio_queue_init \<lparr>pq_size = 0, pq_head = None, pq_tail = None\<rparr>\<rparr>"

definition calloc_node :: "u32 \<Rightarrow> queue_store \<Rightarrow> addr \<times> queue_store" where
  "calloc_node v st =
     (next_free st,
      st\<lparr>cells := (cells st)(next_free st \<mapsto> \<lparr>node_value = \<lparr>request = v\<rparr>, node_next = None\<rparr>),
         next_free := Suc (next_free st)\<rparr>)"

definition add_request :: "u32 \<Rightarrow> queue_store \<Rightarrow> queue_store result option" where
  "add_request v st =
     (let (el, st1) = calloc_node v st in
      map_option (\<lambda>r. and_then r (\<lambda>(h, q). Inr (st1\<lparr>cells := h, the_queue := q\<rparr>)))
        (prio_queue_enqueue (cells st1) (the_queue st1) el))"

definition take_request :: "queue_store \<Rightarrow> (u32 option \<times> queue_store) result" where
  "take_request st =
     and_then (prio_queue_fifo_dequeue (cells st) (the_queue st)) (\<lambda>(p, q).
       (case p of None \<Rightarrow> Inr (None, st\<lparr>the_queue := q\<rparr>)
        | Some a \<Rightarrow> and_then (load_node (cells st) p) (\<lambda>n.
            Inr (Some (request (node_value n)), st\<lparr>the_queue := q\<rparr>))))"

definition store_nodes :: "queue_store \<Rightarrow> addr list \<Rightarrow> bool" where
  "store_nodes st as \<longleftrightarrow> queue_nodes (cells st) (the_queue st) as \<and>
     (\<forall>a \<in> dom (cells st). a < next_free st)"

lemma store_nodes_fresh: "store_nodes st as \<Longrightarrow> next_free st \<notin> set as"
  using chain_valid by (fastforce simp: store_nodes_def queue_nodes_def dom_def)

lemma store_nodes_empty: "store_nodes empty_store []"
  by (simp add: store_nodes_def empty_store_def prio_queue_init_def queue_nodes_def)

lemma queue_nodes_frame:
  "queue_nodes h q as \<Longrightarrow> a \<notin> set as \<Longrightarrow> queue_nodes (h(a := c)) q as"
  by (simp add: queue_nodes_def)

lemma queue_abs_frame: "a \<notin> set as \<Longrightarrow> queue_abs (h(a := c)) as = queue_abs h as"
  by (auto simp: queue_abs_def intro!: request_at_upd_other)

lemma add_request_refines:
  assumes st: "store_nodes st as" and len: "Suc (length as) < 2 ^ 31"
  shows "\<exists>st' as'. add_request v st = Some (Inr st') \<and> store_nodes st' as' \<and>
           queue_abs (cells st') as' = enqueue_request v (queue_abs (cells st) as)"
proof -
  let ?el = "next_free st"
  let ?n = "\<lparr>node_value = \<lparr>request = v\<rparr>, node_next = None\<rparr>"
  let ?h = "(cells st)(?el \<mapsto> ?n)"
  have fresh: "?el \<notin> set as" by (rule store_nodes_fresh [OF st])
  have q: "queue_nodes ?h (the_queue st) as"
    using st fresh by (simp add: store_nodes_def queue_nodes_frame)
  from enqueue_refines [OF q _ fresh len, of ?n] obtain h' q' as' where e:
    "prio_queue_enqueue ?h (the_queue st) ?el = Some (Inr (h', q'))" "queue_nodes h' q' as'"
    "queue_abs h' as' = enqueue_request v (queue_abs ?h as)"
    "linked ?h h' (insert ?el (set as))" by auto
  have "\<forall>a \<in> dom h'. a < Suc ?el"
    using e(4) st by (auto simp: linked_def store_nodes_def less_Suc_eq)
  then show ?thesis
    using e fresh by (auto simp: add_request_def calloc_node_def store_nodes_def queue_abs_frame)
qed

lemma take_request_refines:
  assumes st: "store_nodes st as"
  shows "\<exists>st'. take_request st = Inr (fst (dequeue_request (queue_abs (cells st) as)), st') \<and>
           store_nodes st' (tl as) \<and> cells st' = cells st"
proof -
  from st have q: "queue_nodes (cells st) (the_queue st) as" by (simp add: store_nodes_def)
  from dequeue_refines [OF q] obtain q' where
    d: "prio_queue_fifo_dequeue (cells st) (the_queue st) = Inr (first_ptr as, q')"
    "queue_nodes (cells st) q' (tl as)" by blast
  show ?thesis
  proof (cases as)
    case Nil
    then show ?thesis using d st
      by (simp add: take_request_def store_nodes_def queue_abs_def dequeue_request_def)
  next
    case (Cons a bs)
    then obtain n where "cells st a = Some n"
      using q chain_valid [of "cells st" _ as None a] by (auto simp: queue_nodes_def split: option.splits)
    then show ?thesis using d st Cons
      by (simp add: take_request_def store_nodes_def queue_abs_def dequeue_request_def
          load_node_Some request_at_def)
  qed
qed

section \<open>The contract between the queue and its clients\<close>

text \<open>
  A client enqueues requests and dequeues them; it may rely on the queue holding exactly
  the requests it was given, in ascending order. \<open>limit\<close> is the number of requests the
  implementation's size counter can count.
\<close>

fun drain :: "('q \<Rightarrow> u32 option \<times> 'q) \<Rightarrow> nat \<Rightarrow> 'q \<Rightarrow> u32 list" where
  "drain deq 0 q = []"
| "drain deq (Suc n) q =
     (case deq q of (None, _) \<Rightarrow> [] | (Some v, q') \<Rightarrow> v # drain deq n q')"

locale request_queue =
  fixes start :: 'q
    and enq :: "u32 \<Rightarrow> 'q \<Rightarrow> 'q"
    and deq :: "'q \<Rightarrow> u32 option \<times> 'q"
    and reqs :: "'q \<Rightarrow> u32 list"
    and invar :: "'q \<Rightarrow> bool"
    and limit :: nat
  assumes invar_start: "invar start"
    and reqs_start: "reqs start = []"
    and invar_enq: "invar q \<Longrightarrow> Suc (length (reqs q)) < limit \<Longrightarrow> invar (enq v q)"
    and reqs_enq: "invar q \<Longrightarrow> Suc (length (reqs q)) < limit \<Longrightarrow>
      reqs (enq v q) = enqueue_request v (reqs q)"
    and invar_deq: "invar q \<Longrightarrow> invar (snd (deq q))"
    and reqs_deq: "invar q \<Longrightarrow> (fst (deq q), reqs (snd (deq q))) = dequeue_request (reqs q)"
begin

lemma fold_enq:
  assumes "invar q" and "length (reqs q) + length vs < limit" and "sorted (reqs q)"
  shows "invar (fold enq vs q) \<and> sorted (reqs (fold enq vs q)) \<and>
    mset (reqs (fold enq vs q)) = mset (reqs q) + mset vs"
  using assms
proof (induction vs arbitrary: q)
  case Nil
  then show ?case by simp
next
  case (Cons v vs)
  then have l: "Suc (length (reqs q)) < limit" by simp
  note enq = invar_enq [OF Cons.prems(1) l, of v] reqs_enq [OF Cons.prems(1) l, of v]
  have "length (reqs (enq v q)) + length vs < limit"
    and "sorted (reqs (enq v q))"
    using Cons.prems enq by (simp_all add: sorted_enqueue_request)
  from Cons.IH [OF enq(1) this] show ?case using enq by simp
qed

lemma drain_reqs: "invar q \<Longrightarrow> drain deq (length (reqs q)) q = reqs q"
proof (induction "length (reqs q)" arbitrary: q)
  case 0
  then show ?case by simp
next
  case (Suc n)
  then obtain r rs where rs: "reqs q = r # rs" by (metis length_Suc_conv)
  with reqs_deq [OF Suc.prems] have d: "fst (deq q) = Some r" "reqs (snd (deq q)) = rs"
    by (simp_all add: dequeue_request_def)
  have "drain deq (length rs) (snd (deq q)) = rs"
    using Suc.hyps(1) [of "snd (deq q)"] Suc.hyps(2) invar_deq [OF Suc.prems] d rs by simp
  then show ?case using d rs by (cases "deq q") simp
qed

lemma drain_sorts:
  assumes "length vs < limit"
  shows "drain deq (length vs) (fold enq vs start) = sort vs"
proof -
  let ?q = "fold enq vs start"
  have f: "invar ?q \<and> sorted (reqs ?q) \<and> mset (reqs ?q) = mset vs"
    using fold_enq [of start vs] assms by (simp add: invar_start reqs_start)
  then have "reqs ?q = sort vs" by (metis properties_for_sort)
  with f drain_reqs [of ?q] show ?thesis by simp
qed

end

text \<open>The abstract queue itself keeps the contract, without any size limit of its own.\<close>

interpretation list_queue: request_queue "[]" enqueue_request dequeue_request "\<lambda>rs. rs" "\<lambda>_. True" "2 ^ 31"
  by unfold_locales (simp_all add: dequeue_request_def split: list.splits)

text \<open>
  The linked list keeps it too. The operations below make the heap operations total: the
  fault branch is never taken by a store that satisfies the invariant, which the two
  refinement lemmas above show.
\<close>

definition store_enq :: "u32 \<Rightarrow> queue_store \<Rightarrow> queue_store" where
  "store_enq v st = (case add_request v st of Some (Inr st') \<Rightarrow> st' | _ \<Rightarrow> st)"

definition store_deq :: "queue_store \<Rightarrow> u32 option \<times> queue_store" where
  "store_deq st = (case take_request st of Inr r \<Rightarrow> r | Inl _ \<Rightarrow> (None, st))"

fun walk :: "node_store \<Rightarrow> nat \<Rightarrow> addr option \<Rightarrow> addr list" where
  "walk h 0 p = []"
| "walk h (Suc k) p =
     (case p of None \<Rightarrow> []
      | Some a \<Rightarrow> a # (case h a of None \<Rightarrow> [] | Some n \<Rightarrow> walk h k (node_next n)))"

definition store_reqs :: "queue_store \<Rightarrow> u32 list" where
  "store_reqs st =
     queue_abs (cells st) (walk (cells st) (unat (pq_size (the_queue st))) (pq_head (the_queue st)))"

lemma walk_chain: "chain h p as None \<Longrightarrow> walk h (length as) p = as"
  by (induction as arbitrary: p) (auto split: option.splits)

lemma store_reqs_nodes: "store_nodes st as \<Longrightarrow> store_reqs st = queue_abs (cells st) as"
  by (simp add: store_reqs_def store_nodes_def queue_nodes_def unat_of_nat walk_chain)

lemma store_enq_law:
  assumes "store_nodes st as" and "Suc (length as) < 2 ^ 31"
  shows "\<exists>as'. store_nodes (store_enq v st) as' \<and>
    queue_abs (cells (store_enq v st)) as' = enqueue_request v (queue_abs (cells st) as)"
  using add_request_refines [OF assms, of v] by (auto simp: store_enq_def)

lemma store_deq_law:
  assumes "store_nodes st as"
  shows "store_nodes (snd (store_deq st)) (tl as) \<and>
    (fst (store_deq st), queue_abs (cells (snd (store_deq st))) (tl as)) =
      dequeue_request (queue_abs (cells st) as)"
  using take_request_refines [OF assms]
  by (cases as) (auto simp: store_deq_def dequeue_request_def queue_abs_def)

interpretation heap_queue: request_queue empty_store store_enq store_deq store_reqs
  "\<lambda>st. \<exists>as. store_nodes st as" "2 ^ 31"
proof (unfold_locales, goal_cases)
  case 1
  then show ?case using store_nodes_empty by blast
next
  case 2
  then show ?case using store_reqs_nodes [OF store_nodes_empty] by (simp add: queue_abs_def)
next
  case (3 q v)
  then show ?case using store_enq_law store_reqs_nodes by (fastforce simp: queue_abs_def)
next
  case (4 q v)
  then obtain as where as: "store_nodes q as" "Suc (length as) < 2 ^ 31"
    using store_reqs_nodes by (fastforce simp: queue_abs_def)
  with store_enq_law [OF as, of v] show ?case using store_reqs_nodes by metis
next
  case (5 q)
  then show ?case using store_deq_law by blast
next
  case (6 q)
  then obtain as where as: "store_nodes q as" by blast
  with store_deq_law [OF as] show ?case using store_reqs_nodes by metis
qed

section \<open>Properties\<close>

text \<open>
  C27. Enqueueing a node that is not yet in a well-formed queue returns, without a fault
  and without failing the assertion on the tail; the chain of nodes from the head is the
  old one with the node put in front of the first node whose request is not smaller, the
  size and the tail pointer fit, no request changes and no node outside the queue is
  written.
\<close>

theorem enqueue_inserts_in_order:
  assumes "queue_nodes h q as" and "h el = Some n" and "el \<notin> set as"
    and "Suc (length as) < 2 ^ 31"
  shows "\<exists>h' q'. prio_queue_enqueue h q el = Some (Inr (h', q')) \<and>
    queue_nodes h' q' (takeWhile (\<lambda>a. request_at h a < request (node_value n)) as @ el #
      dropWhile (\<lambda>a. request_at h a < request (node_value n)) as) \<and>
    (\<forall>a. request_at h' a = request_at h a) \<and> (\<forall>a. a \<notin> insert el (set as) \<longrightarrow> h' a = h a)"
  using enqueue_refines [OF assms] unfolding linked_def by blast

definition two_nodes :: node_store where
  "two_nodes = [0 \<mapsto> \<lparr>node_value = \<lparr>request = 5\<rparr>, node_next = None\<rparr>,
     1 \<mapsto> \<lparr>node_value = \<lparr>request = 5\<rparr>, node_next = None\<rparr>]"

definition queue_of_one :: prio_queue where
  "queue_of_one = \<lparr>pq_size = 1, pq_head = Some 0, pq_tail = Some 0\<rparr>"

lemma queue_of_one_nodes: "queue_nodes two_nodes queue_of_one [0]"
  by (simp add: queue_nodes_def two_nodes_def queue_of_one_def)

theorem enqueue_inserts_in_order_witness:
  "\<exists>h' q'. prio_queue_enqueue two_nodes queue_of_one 1 = Some (Inr (h', q')) \<and>
     queue_nodes h' q' [1, 0]"
proof -
  have el: "two_nodes 1 = Some \<lparr>node_value = \<lparr>request = 5\<rparr>, node_next = None\<rparr>"
    and r: "request_at two_nodes 0 = 5" by (simp_all add: two_nodes_def request_at_def)
  show ?thesis
    using enqueue_inserts_in_order [OF queue_of_one_nodes el] r by auto
qed

text \<open>
  C26. A priority queue: enqueueing any list of requests into the empty linked list (each
  in a freshly allocated node) and dequeueing as many times gives them in ascending order.
\<close>

theorem queue_sorts_requests:
  assumes "length vs < 2 ^ 31"
  shows "drain store_deq (length vs) (fold store_enq vs empty_store) = sort vs"
  using assms by (rule heap_queue.drain_sorts)

theorem queue_sorts_requests_witness:
  "drain store_deq 4 (fold store_enq [7, 3, 9, 3] empty_store) = [3, 3, 7, 9]"
proof -
  have "sort [7, 3, 9, 3 :: u32] = [3, 3, 7, 9]" and "length [7, 3, 9, 3 :: u32] = 4" by simp_all
  with queue_sorts_requests [of "[7, 3, 9, 3]"] show ?thesis by (simp only: fold_simps) simp
qed

text \<open>
  The queue is not first-in-first-out among equal requests, in spite of the name
  \<open>prio_queue_fifo_dequeue\<close>: a node whose request is not larger than any queued one is
  the next to be dequeued, also when all the requests are equal.
\<close>

lemma equal_requests_lifo:
  assumes "queue_nodes h q as" and "h el = Some n" and "el \<notin> set as"
    and "Suc (length as) < 2 ^ 31"
    and "\<forall>a \<in> set as. request (node_value n) \<le> request_at h a"
  shows "\<exists>h' q' q''. prio_queue_enqueue h q el = Some (Inr (h', q')) \<and>
    prio_queue_fifo_dequeue h' q' = Inr (Some el, q'') \<and> queue_nodes h' q'' as"
proof -
  have tw: "takeWhile (\<lambda>a. request_at h a < request (node_value n)) as = []"
    and dw: "dropWhile (\<lambda>a. request_at h a < request (node_value n)) as = as"
    using assms(5) by (cases as; auto)+
  from enqueue_refines [OF assms(1-4)] obtain h' q' where
    e: "prio_queue_enqueue h q el = Some (Inr (h', q'))" "queue_nodes h' q' (el # as)"
    unfolding tw dw by auto
  with dequeue_refines [OF e(2)] show ?thesis by auto
qed

theorem equal_requests_lifo_witness:
  "\<exists>h' q' q''. prio_queue_enqueue two_nodes queue_of_one 1 = Some (Inr (h', q')) \<and>
     prio_queue_fifo_dequeue h' q' = Inr (Some 1, q'') \<and> queue_nodes h' q'' [0]"
proof -
  have el: "two_nodes 1 = Some \<lparr>node_value = \<lparr>request = 5\<rparr>, node_next = None\<rparr>"
    and r: "request_at two_nodes 0 = 5" by (simp_all add: two_nodes_def request_at_def)
  show ?thesis using equal_requests_lifo [OF queue_of_one_nodes el] r by simp
qed

end
