(* ===== verification/Pronto.thy ===== *)
theory Pronto
  imports Prio_Queue
begin

text \<open>
  The shared state of the service (h/pronto.h, h/cluster_worker.h, h/config.h) and the
  operations on it: lib/pronto.c, and of lib/cluster_worker.c the initialisation and
  \<open>cluster_worker_add_job\<close>. The job queues are the abstract queues of \<open>Prio_Queue\<close>
  (lists of requests), whose linked-list implementation is proved there.
  Operations that the code runs under one mutex are one definition here; which mutex is
  held when, and how threads interleave, is the subject of \<open>Scheduling\<close>.
\<close>

section \<open>Configuration\<close>

definition NUM_HANDLERS :: int where "NUM_HANDLERS = 6"
definition CLUSTER_WORKERS :: int where "CLUSTER_WORKERS = 2"
definition NUM_SCHEDULERS :: int where "NUM_SCHEDULERS = 1"
definition MAX_RESOURCES :: u64 where "MAX_RESOURCES = 15"

section \<open>State\<close>

record cluster_worker =
  max_resources :: u64
  current_resources :: u64
  scheduled_jobs :: u32
  worker_notify :: nat
  scheduler_jobs :: "u32 list"
  worker_active :: bool
  endpoint :: string
  worker_port :: u16
  worker_id :: int

record pronto =
  workers :: int
  schedulers :: int
  workers_instances :: "cluster_worker list"
  total_capacity :: i32
  current_capacity :: i32
  job_queue :: "u32 list"
  waiting_queue :: "u32 list"
  notify :: nat
  reschedule :: nat

text \<open>
  A \<open>for\<close> loop over the workers visits \<open>workers_instances[0 .. workers - 1]\<close>. The array
  is allocated with \<open>workers\<close> cells in \<open>pronto_init\<close> and never resized, which
  \<open>well_formed\<close> says.
\<close>

definition each_worker :: "pronto \<Rightarrow> cluster_worker list" where
  "each_worker p = take (nat (workers p)) (workers_instances p)"

definition well_formed :: "pronto \<Rightarrow> bool" where
  "well_formed p \<longleftrightarrow> workers p = int (length (workers_instances p))"

lemma each_worker_well_formed: "well_formed p \<Longrightarrow> each_worker p = workers_instances p"
  by (simp add: each_worker_def well_formed_def)

definition with_worker :: "pronto \<Rightarrow> nat \<Rightarrow> (cluster_worker \<Rightarrow> cluster_worker) \<Rightarrow> pronto" where
  "with_worker p i f =
     p\<lparr>workers_instances := (workers_instances p)[i := f (workers_instances p ! i)]\<rparr>"

section \<open>Initialisation\<close>

definition cluster_worker_init :: "int \<Rightarrow> u16 \<Rightarrow> cluster_worker" where
  "cluster_worker_init index port =
     \<lparr>max_resources = MAX_RESOURCES, current_resources = MAX_RESOURCES, scheduled_jobs = 0,
      worker_notify = 0, scheduler_jobs = [], worker_active = True,
      endpoint = ''http://srv-'' @ show_int index @ '':3000'',
      worker_port = port, worker_id = index\<rparr>"

text \<open>
  \<open>total_capacity += max_resources\<close> adds an int and an unsigned long: the sum is an
  unsigned long, cut to 32 bits when it is stored.
\<close>

definition add_capacity :: "cluster_worker \<Rightarrow> i32 \<Rightarrow> i32" where
  "add_capacity w capacity = ucast (scast capacity + max_resources w :: u64)"

definition pronto_init :: "int \<Rightarrow> int \<Rightarrow> pronto" where
  "pronto_init n_workers n_schedulers =
     (let ws = map (\<lambda>i. cluster_worker_init i 3000) [0..n_workers - 1];
          capacity = fold add_capacity ws 0
      in \<lparr>workers = n_workers, schedulers = n_schedulers, workers_instances = ws,
          total_capacity = capacity, current_capacity = capacity, job_queue = [],
          waiting_queue = [], notify = 0, reschedule = 0\<rparr>)"

section \<open>Admission and best fit\<close>

text \<open>
  \<open>value\<close> is an int. The first test compares ints; in the second it is converted to
  unsigned long, so a negative value becomes a huge one.
\<close>

definition pronto_is_schedulable :: "pronto \<Rightarrow> i32 \<Rightarrow> bool" where
  "pronto_is_schedulable p value \<longleftrightarrow>
     (if total_capacity p \<le>s value then False
      else list_ex (\<lambda>w. scast value \<le> max_resources w) (each_worker p))"

text \<open>
  One round of the best-fit loop, on the pair (\<open>capacity\<close>, \<open>worker_index\<close>).
  \<open>i_th_capacity\<close> is an int that takes the low 32 bits of the worker's counter.
\<close>

definition best_fit_step :: "u32 \<Rightarrow> int \<times> cluster_worker \<Rightarrow> i32 \<times> int \<Rightarrow> i32 \<times> int" where
  "best_fit_step value = (\<lambda>(i, worker) (capacity, worker_index).
     if ucast value \<le> current_resources worker then
       let i_th_capacity = (ucast (current_resources worker) :: i32) in
       if capacity <s i_th_capacity then (i_th_capacity, i) else (capacity, worker_index)
     else (capacity, worker_index))"

definition best_fit_loop :: "u32 \<Rightarrow> cluster_worker list \<Rightarrow> i32 \<times> int" where
  "best_fit_loop value ws =
     fold (best_fit_step value) (zip [0..int (length ws) - 1] ws) (-1, -1)"

text \<open>\<open>current_capacity < value\<close> compares an int with an unsigned int, so as unsigned.\<close>

definition pronto_best_current_fit :: "pronto \<Rightarrow> u32 \<Rightarrow> int" where
  "pronto_best_current_fit p value =
     (if current_capacity p < value then -1 else snd (best_fit_loop value (each_worker p)))"

section \<open>Jobs and capacity\<close>

definition pronto_add_job :: "pronto \<Rightarrow> u32 \<Rightarrow> pronto" where
  "pronto_add_job p value = p\<lparr>job_queue := enqueue_request value (job_queue p)\<rparr>"

definition pronto_add_waiting_job :: "pronto \<Rightarrow> u32 \<Rightarrow> pronto" where
  "pronto_add_waiting_job p value = p\<lparr>waiting_queue := enqueue_request value (waiting_queue p)\<rparr>"

definition cluster_worker_add_job :: "cluster_worker \<Rightarrow> u32 \<Rightarrow> cluster_worker" where
  "cluster_worker_add_job cw value =
     cw\<lparr>scheduler_jobs := enqueue_request value (scheduler_jobs cw)\<rparr>"

definition pronto_increase_current_capacity :: "pronto \<Rightarrow> u32 \<Rightarrow> pronto" where
  "pronto_increase_current_capacity p value = p\<lparr>current_capacity := current_capacity p + value\<rparr>"

definition pronto_decrease_current_capacity :: "pronto \<Rightarrow> u32 \<Rightarrow> pronto" where
  "pronto_decrease_current_capacity p value = p\<lparr>current_capacity := current_capacity p - value\<rparr>"

text \<open>
  Both take a pointer into \<open>workers_instances\<close>; the model takes the index, and a pointer
  past the array is a fault.
\<close>

definition pronto_free_capacity :: "pronto \<Rightarrow> nat \<Rightarrow> u32 \<Rightarrow> pronto result" where
  "pronto_free_capacity p worker qty =
     (if worker < length (workers_instances p) then
        Inr (with_worker (p\<lparr>current_capacity := current_capacity p + qty\<rparr>) worker
          (\<lambda>w. w\<lparr>current_resources := current_resources w + ucast qty,
                 scheduled_jobs := scheduled_jobs w - 1\<rparr>))
      else Inl OutOfBounds)"

definition pronto_reserve_capacity :: "pronto \<Rightarrow> nat \<Rightarrow> u32 \<Rightarrow> pronto result" where
  "pronto_reserve_capacity p worker qty =
     (if worker < length (workers_instances p) then
        Inr (with_worker (p\<lparr>current_capacity := current_capacity p - qty\<rparr>) worker
          (\<lambda>w. w\<lparr>current_resources := current_resources w - ucast qty,
                 scheduled_jobs := scheduled_jobs w + 1\<rparr>))
      else Inl OutOfBounds)"

section \<open>Frame facts\<close>

lemma with_worker_fields [simp]:
  "workers (with_worker p i f) = workers p"
  "total_capacity (with_worker p i f) = total_capacity p"
  "current_capacity (with_worker p i f) = current_capacity p"
  "job_queue (with_worker p i f) = job_queue p"
  "waiting_queue (with_worker p i f) = waiting_queue p"
  "notify (with_worker p i f) = notify p"
  "reschedule (with_worker p i f) = reschedule p"
  "workers_instances (with_worker p i f) =
     (workers_instances p)[i := f (workers_instances p ! i)]"
  by (simp_all add: with_worker_def)

lemma pronto_add_job_fields [simp]:
  "workers_instances (pronto_add_job p v) = workers_instances p"
  "workers (pronto_add_job p v) = workers p"
  "current_capacity (pronto_add_job p v) = current_capacity p"
  "job_queue (pronto_add_job p v) = enqueue_request v (job_queue p)"
  "waiting_queue (pronto_add_job p v) = waiting_queue p"
  "notify (pronto_add_job p v) = notify p"
  "reschedule (pronto_add_job p v) = reschedule p"
  by (simp_all add: pronto_add_job_def)

lemma pronto_add_waiting_job_fields [simp]:
  "workers_instances (pronto_add_waiting_job p v) = workers_instances p"
  "workers (pronto_add_waiting_job p v) = workers p"
  "current_capacity (pronto_add_waiting_job p v) = current_capacity p"
  "job_queue (pronto_add_waiting_job p v) = job_queue p"
  "waiting_queue (pronto_add_waiting_job p v) = enqueue_request v (waiting_queue p)"
  "notify (pronto_add_waiting_job p v) = notify p"
  "reschedule (pronto_add_waiting_job p v) = reschedule p"
  by (simp_all add: pronto_add_waiting_job_def)

section \<open>The capacity book-keeping\<close>

text \<open>
  \<open>books_balanced\<close>: the cluster's current capacity is the sum of the workers' current
  resources, as an int holds it. Every operation keeps it, even one that wraps a counter.
\<close>

definition resources32 :: "cluster_worker \<Rightarrow> i32" where
  "resources32 w = ucast (current_resources w)"

definition books_balanced :: "pronto \<Rightarrow> bool" where
  "books_balanced p \<longleftrightarrow> current_capacity p = sum_list (map resources32 (workers_instances p))"

lemma reserve_balanced:
  "books_balanced p \<Longrightarrow> pronto_reserve_capacity p i q = Inr p' \<Longrightarrow> books_balanced p'"
  by (auto simp: books_balanced_def pronto_reserve_capacity_def with_worker_def resources32_def
      sum_list_update_word low_diff split: if_splits)

lemma free_balanced:
  "books_balanced p \<Longrightarrow> pronto_free_capacity p i q = Inr p' \<Longrightarrow> books_balanced p'"
  by (auto simp: books_balanced_def pronto_free_capacity_def with_worker_def resources32_def
      sum_list_update_word low_add split: if_splits)

lemma add_capacity_low: "add_capacity w c = c + ucast (max_resources w)"
  by (simp add: add_capacity_def low_add)

lemma fold_add_capacity:
  "fold add_capacity ws c = c + sum_list (map (\<lambda>w. ucast (max_resources w)) ws)"
  by (induction ws arbitrary: c) (simp_all add: add_capacity_low add.assoc)

lemma init_balanced: "books_balanced (pronto_init n k)"
  by (simp add: books_balanced_def pronto_init_def fold_add_capacity o_def Let_def
      resources32_def cluster_worker_init_def)

lemma init_well_formed: "0 \<le> n \<Longrightarrow> well_formed (pronto_init n k)"
  by (simp add: well_formed_def pronto_init_def Let_def)

text \<open>The sums as numbers, when no counter is near its width.\<close>

definition spare :: "pronto \<Rightarrow> nat" where
  "spare p = sum_list (map (\<lambda>w. unat (current_resources w)) (workers_instances p))"

lemma sum_resources32:
  "sum_list (map (\<lambda>w. unat (current_resources w)) ws) < 2 ^ 32 \<Longrightarrow>
   unat (sum_list (map resources32 ws)) = sum_list (map (\<lambda>w. unat (current_resources w)) ws)"
proof (induction ws)
  case Nil
  then show ?case by simp
next
  case (Cons w ws)
  then have "unat (resources32 w) = unat (current_resources w)"
    by (simp add: resources32_def unat_low)
  with Cons show ?case by (simp add: unat_word_ariths)
qed

lemma current_capacity_spare:
  assumes "books_balanced p" and "spare p < 2 ^ 32"
  shows "unat (current_capacity p) = spare p"
  using assms sum_resources32 [of "workers_instances p"] by (simp add: books_balanced_def spare_def)

section \<open>Best fit\<close>

text \<open>
  The loop keeps, for the workers seen so far, the first one with the most resources
  among those that can take the job.
\<close>

definition can_take :: "u32 \<Rightarrow> cluster_worker \<Rightarrow> bool" where
  "can_take v w \<longleftrightarrow> unat v \<le> unat (current_resources w)"

definition first_roomiest :: "u32 \<Rightarrow> cluster_worker list \<Rightarrow> nat \<Rightarrow> bool" where
  "first_roomiest v ws i \<longleftrightarrow> i < length ws \<and> can_take v (ws ! i) \<and>
     (\<forall>j < length ws. unat (current_resources (ws ! j)) \<le> unat (current_resources (ws ! i))) \<and>
     (\<forall>j < i. unat (current_resources (ws ! j)) < unat (current_resources (ws ! i)))"

lemma best_fit_loop_snoc:
  "best_fit_loop v (ws @ [w]) = best_fit_step v (int (length ws), w) (best_fit_loop v ws)"
proof -
  have "[0..int (length (ws @ [w])) - 1] = [0..int (length ws) - 1] @ [int (length ws)]"
    by (simp add: upto_rec2)
  moreover have "length [0..int (length ws) - 1] = length ws" by simp
  ultimately have "zip [0..int (length (ws @ [w])) - 1] (ws @ [w]) =
      zip [0..int (length ws) - 1] ws @ [(int (length ws), w)]" by simp
  then show ?thesis unfolding best_fit_loop_def by simp
qed

lemma best_fit_loop_range:
  "snd (best_fit_loop v ws) = -1 \<or> (\<exists>i < length ws. snd (best_fit_loop v ws) = int i \<and> can_take v (ws ! i))"
proof (induction ws rule: rev_induct)
  case Nil
  then show ?case by (simp add: best_fit_loop_def)
next
  case (snoc w ws)
  show ?case
  proof (cases "snd (best_fit_step v (int (length ws), w) (best_fit_loop v ws)) = snd (best_fit_loop v ws)")
    case True
    with snoc show ?thesis by (auto simp: best_fit_loop_snoc nth_append less_Suc_eq)
  next
    case False
    then have "snd (best_fit_loop v (ws @ [w])) = int (length ws)" "can_take v w"
      by (auto simp: best_fit_loop_snoc best_fit_step_def Let_def can_take_def ucast_le_iff
          split: prod.splits if_splits)
    then show ?thesis by (intro disjI2 exI [of _ "length ws"]) simp
  qed
qed

definition loop_result :: "u32 \<Rightarrow> cluster_worker list \<Rightarrow> i32 \<times> int \<Rightarrow> bool" where
  "loop_result v ws r \<longleftrightarrow>
     (r = (-1, -1) \<and> (\<forall>w \<in> set ws. \<not> can_take v w)) \<or>
     (\<exists>i. r = (ucast (current_resources (ws ! i)), int i) \<and> first_roomiest v ws i)"

lemma first_roomiest_snoc_old:
  assumes "first_roomiest v ws i"
    and "unat (current_resources w) \<le> unat (current_resources (ws ! i))"
  shows "first_roomiest v (ws @ [w]) i"
  using assms by (auto simp: first_roomiest_def nth_append less_Suc_eq)

lemma first_roomiest_snoc_new:
  assumes "can_take v w"
    and "\<forall>x \<in> set ws. unat (current_resources x) < unat (current_resources w)"
  shows "first_roomiest v (ws @ [w]) (length ws)"
proof -
  have less: "unat (current_resources (ws ! j)) < unat (current_resources w)" if "j < length ws" for j
    using assms(2) that by simp
  show ?thesis
    using assms(1) less by (auto simp: first_roomiest_def nth_append less_Suc_eq less_imp_le)
qed

lemma first_roomiest_max:
  "first_roomiest v ws i \<Longrightarrow> x \<in> set ws \<Longrightarrow>
   unat (current_resources x) \<le> unat (current_resources (ws ! i))"
  by (auto simp: first_roomiest_def in_set_conv_nth)

lemma best_fit_loop_result:
  assumes "\<forall>w \<in> set ws. unat (current_resources w) < 2 ^ 31"
  shows "loop_result v ws (best_fit_loop v ws)"
  using assms
proof (induction ws rule: rev_induct)
  case Nil
  then show ?case by (simp add: best_fit_loop_def loop_result_def)
next
  case (snoc w ws)
  let ?r = "best_fit_loop v ws"
  let ?c = "\<lambda>w. unat (current_resources w)"
  have IH: "loop_result v ws ?r" and w: "?c w < 2 ^ 31" using snoc by auto
  note step = best_fit_loop_snoc best_fit_step_def Let_def ucast_le_iff can_take_def
  show ?case
  proof (cases "can_take v w")
    case False
    then have r: "best_fit_loop v (ws @ [w]) = ?r" by (simp add: step split: prod.splits)
    from IH consider (none) "?r = (-1, -1)" "\<forall>w \<in> set ws. \<not> can_take v w"
      | (some) i where "?r = (ucast (current_resources (ws ! i)), int i)" "first_roomiest v ws i"
      unfolding loop_result_def by blast
    then show ?thesis
    proof cases
      case none
      with False r show ?thesis by (simp add: loop_result_def)
    next
      case (some i)
      then have "?c w \<le> ?c (ws ! i)" using False by (auto simp: can_take_def first_roomiest_def)
      with some have "first_roomiest v (ws @ [w]) i" by (simp add: first_roomiest_snoc_old)
      with some r show ?thesis
        by (auto simp: loop_result_def nth_append first_roomiest_def intro!: exI [of _ i])
    qed
  next
    case True
    from IH consider (none) "?r = (-1, -1)" "\<forall>w \<in> set ws. \<not> can_take v w"
      | (some) i where "?r = (ucast (current_resources (ws ! i)), int i)" "first_roomiest v ws i"
      unfolding loop_result_def by blast
    then show ?thesis
    proof cases
      case none
      then have "best_fit_loop v (ws @ [w]) = (ucast (current_resources w), int (length ws))"
        using True w by (simp add: step minus_one_sless_low)
      moreover have "first_roomiest v (ws @ [w]) (length ws)"
        using none(2) True by (intro first_roomiest_snoc_new) (auto simp: can_take_def)
      ultimately show ?thesis by (auto simp: loop_result_def intro!: exI [of _ "length ws"])
    next
      case (some i)
      have i: "?c (ws ! i) < 2 ^ 31" using snoc.prems some(2) by (simp add: first_roomiest_def)
      show ?thesis
      proof (cases "?c (ws ! i) < ?c w")
        case gt: True
        then have "best_fit_loop v (ws @ [w]) = (ucast (current_resources w), int (length ws))"
          using True some(1) w i by (simp add: step sless_low)
        moreover have "first_roomiest v (ws @ [w]) (length ws)"
          using first_roomiest_max [OF some(2)] gt True
          by (intro first_roomiest_snoc_new) (auto intro: le_less_trans)
        ultimately show ?thesis by (auto simp: loop_result_def intro!: exI [of _ "length ws"])
      next
        case le: False
        then have "best_fit_loop v (ws @ [w]) = ?r"
          using True some(1) w i by (simp add: step sless_low)
        moreover have "first_roomiest v (ws @ [w]) i"
          using some(2) le by (simp add: first_roomiest_snoc_old)
        ultimately show ?thesis using some
          by (auto simp: loop_result_def nth_append first_roomiest_def intro!: exI [of _ i])
      qed
    qed
  qed
qed

text \<open>
  With balanced books the early exit on the cluster's capacity loses nothing: when it is
  taken no worker has room.
\<close>

lemma spare_small:
  assumes "spare p < 2 ^ 31" and "w \<in> set (workers_instances p)"
  shows "unat (current_resources w) < 2 ^ 31"
  using assms member_le_sum_list [of "unat (current_resources w)"
      "map (\<lambda>w. unat (current_resources w)) (workers_instances p)"]
  by (auto simp: spare_def)

lemma best_fit_spec:
  assumes wf: "well_formed p" and bal: "books_balanced p" and small: "spare p < 2 ^ 31"
  shows "(pronto_best_current_fit p v = -1 \<and> (\<forall>w \<in> set (workers_instances p). \<not> can_take v w)) \<or>
    (\<exists>i. pronto_best_current_fit p v = int i \<and> first_roomiest v (workers_instances p) i)"
proof -
  let ?ws = "workers_instances p"
  have "loop_result v ?ws (best_fit_loop v ?ws)"
    using spare_small [OF small] by (intro best_fit_loop_result) blast
  then have loop: "(snd (best_fit_loop v ?ws) = -1 \<and> (\<forall>w \<in> set ?ws. \<not> can_take v w)) \<or>
      (\<exists>i. snd (best_fit_loop v ?ws) = int i \<and> first_roomiest v ?ws i)"
    by (auto simp: loop_result_def)
  show ?thesis
  proof (cases "current_capacity p < v")
    case True
    then have "spare p < unat v"
      using current_capacity_spare [OF bal] small by (simp add: word_less_nat_alt)
    then have "\<not> can_take v w" if "w \<in> set ?ws" for w
      using that member_le_sum_list [of "unat (current_resources w)"
          "map (\<lambda>w. unat (current_resources w)) ?ws"] by (auto simp: can_take_def spare_def)
    with True show ?thesis by (simp add: pronto_best_current_fit_def)
  next
    case False
    then have "pronto_best_current_fit p v = snd (best_fit_loop v ?ws)"
      using wf by (simp add: pronto_best_current_fit_def each_worker_well_formed)
    with loop show ?thesis by simp
  qed
qed

text \<open>Whatever the counters hold, the answer is -1 or a worker of the array that has room.\<close>

lemma best_fit_range:
  assumes "well_formed p"
  shows "pronto_best_current_fit p v = -1 \<or>
    (\<exists>i < length (workers_instances p). pronto_best_current_fit p v = int i \<and>
       can_take v (workers_instances p ! i))"
  using best_fit_loop_range [of v "workers_instances p"] assms
  by (auto simp: pronto_best_current_fit_def each_worker_well_formed)

section \<open>Admission\<close>

lemma schedulable_spec:
  assumes "well_formed p" and "\<forall>w \<in> set (workers_instances p). unat (max_resources w) < 2 ^ 63"
  shows "pronto_is_schedulable p v \<longleftrightarrow>
    sint v < sint (total_capacity p) \<and> 0 \<le> sint v \<and>
    (\<exists>w \<in> set (workers_instances p). sint v \<le> int (unat (max_resources w)))"
  using assms by (auto simp: pronto_is_schedulable_def each_worker_well_formed list_ex_iff
      word_sle_eq scast_le_iff)

section \<open>Reserving and freeing\<close>

lemma free_after_reserve:
  assumes "pronto_reserve_capacity p i q = Inr p1"
  shows "pronto_free_capacity p1 i q = Inr p"
  using assms
  by (auto simp: pronto_reserve_capacity_def pronto_free_capacity_def with_worker_def split: if_splits)

definition within_limits :: "pronto \<Rightarrow> bool" where
  "within_limits p \<longleftrightarrow>
     (\<forall>w \<in> set (workers_instances p). current_resources w \<le> max_resources w)"

lemma reserve_within_limits:
  assumes lim: "within_limits p" and fit: "can_take q (workers_instances p ! i)"
    and res: "pronto_reserve_capacity p i q = Inr p'"
  shows "within_limits p'"
proof -
  let ?w = "workers_instances p ! i"
  have i: "i < length (workers_instances p)"
    using res by (simp add: pronto_reserve_capacity_def split: if_splits)
  have "unat (current_resources ?w - ucast q) = unat (current_resources ?w) - unat q"
    using fit by (subst unat_sub) (simp_all add: can_take_def ucast_le_iff)
  then have "current_resources ?w - ucast q \<le> max_resources ?w"
    using lim i by (auto simp: within_limits_def word_le_nat_alt dest!: nth_mem)
  then show ?thesis
    using lim res i by (auto simp: within_limits_def pronto_reserve_capacity_def
        all_set_conv_all_nth nth_list_update split: if_splits)
qed

section \<open>Properties\<close>

lemma two_workers:
  "workers_instances (pronto_init 2 1) = [cluster_worker_init 0 3000, cluster_worker_init 1 3000]"
  "workers_instances (pronto_init 1 1) = [cluster_worker_init 0 3000]"
  by (simp_all add: pronto_init_def Let_def upto.simps)

lemma fresh_worker [simp]:
  "max_resources (cluster_worker_init i port) = 15"
  "current_resources (cluster_worker_init i port) = 15"
  by (simp_all add: cluster_worker_init_def MAX_RESOURCES_def)

lemma two_workers_capacity:
  "total_capacity (pronto_init 2 1) = 30" "total_capacity (pronto_init 1 1) = 15"
  by (simp_all add: pronto_init_def Let_def upto.simps add_capacity_def)

text \<open>
  C28. Best fit: when the books are balanced and the cluster has less than \<open>2^31\<close> units
  free, \<open>pronto_best_current_fit\<close> answers -1 exactly when no worker can take the job, and
  otherwise the first worker with the most free resources, which can take it. The early
  exit on the cluster's capacity and the conversions of the counters to int lose nothing.
\<close>

theorem best_fit_is_roomiest:
  assumes "well_formed p" and "books_balanced p" and "spare p < 2 ^ 31"
  shows "if \<exists>w \<in> set (workers_instances p). can_take v w
    then \<exists>i. pronto_best_current_fit p v = int i \<and> first_roomiest v (workers_instances p) i
    else pronto_best_current_fit p v = -1"
proof (cases "\<exists>w \<in> set (workers_instances p). can_take v w")
  case True
  then show ?thesis using best_fit_spec [OF assms, of v] by auto
next
  case False
  have "\<not> first_roomiest v (workers_instances p) i" for i
    using False by (auto simp: first_roomiest_def)
  with False best_fit_spec [OF assms, of v] show ?thesis by auto
qed

theorem best_fit_is_roomiest_witness:
  "\<exists>i. pronto_best_current_fit (pronto_init 2 1) 10 = int i \<and>
     first_roomiest 10 (workers_instances (pronto_init 2 1)) i"
proof -
  have "spare (pronto_init 2 1) < 2 ^ 31" and
    "\<exists>w \<in> set (workers_instances (pronto_init 2 1)). can_take 10 w"
    by (simp_all add: spare_def two_workers can_take_def)
  with best_fit_is_roomiest [of "pronto_init 2 1" 10] show ?thesis
    by (simp add: init_balanced init_well_formed)
qed

text \<open>
  Admission: a request is schedulable exactly when it is not negative, strictly below
  the cluster's total capacity and at most the capacity of some worker. (A negative value
  passes the first test as an int and is refused by the second, where it is converted to
  unsigned long.)
\<close>

lemma admission_exact:
  assumes "well_formed p" and "\<forall>w \<in> set (workers_instances p). unat (max_resources w) < 2 ^ 63"
  shows "pronto_is_schedulable p v \<longleftrightarrow>
    0 \<le> sint v \<and> sint v < sint (total_capacity p) \<and>
    (\<exists>w \<in> set (workers_instances p). sint v \<le> int (unat (max_resources w)))"
  using schedulable_spec [OF assms] by auto

theorem admission_exact_witness:
  "pronto_is_schedulable (pronto_init 2 1) 15 \<and> \<not> pronto_is_schedulable (pronto_init 2 1) (- 1) \<and>
   \<not> pronto_is_schedulable (pronto_init 1 1) 15"
proof -
  have m: "\<forall>w \<in> set (workers_instances (pronto_init 2 1)). unat (max_resources w) < 2 ^ 63"
    "\<forall>w \<in> set (workers_instances (pronto_init 1 1)). unat (max_resources w) < 2 ^ 63"
    by (simp_all add: two_workers)
  have "0 \<le> (2 :: int)" "0 \<le> (1 :: int)" by simp_all
  then show ?thesis
    by (simp add: admission_exact [OF init_well_formed m(1)] admission_exact [OF init_well_formed m(2)]
        two_workers two_workers_capacity)
qed

text \<open>
  Reserving for a worker that can take the job keeps every worker's counter within its
  maximum, moves exactly \<open>q\<close> units and leaves the other workers alone; freeing the same
  units gives back the state before.
\<close>

lemma reserve_and_free:
  assumes "within_limits p" and "i < length (workers_instances p)"
    and "can_take q (workers_instances p ! i)"
  shows "\<exists>p'. pronto_reserve_capacity p i q = Inr p' \<and> within_limits p' \<and>
    unat (current_resources (workers_instances p' ! i)) + unat q =
      unat (current_resources (workers_instances p ! i)) \<and>
    (\<forall>j. j \<noteq> i \<longrightarrow> workers_instances p' ! j = workers_instances p ! j) \<and>
    pronto_free_capacity p' i q = Inr p"
proof -
  let ?w = "workers_instances p ! i"
  from assms(2) obtain p' where p': "pronto_reserve_capacity p i q = Inr p'"
    and w: "workers_instances p' = (workers_instances p)
      [i := ?w\<lparr>current_resources := current_resources ?w - ucast q,
               scheduled_jobs := scheduled_jobs ?w + 1\<rparr>]"
    by (auto simp: pronto_reserve_capacity_def)
  have "unat (current_resources ?w - ucast q) + unat q = unat (current_resources ?w)"
    using assms(3) by (subst unat_sub) (simp_all add: can_take_def ucast_le_iff)
  with w assms(2) have "unat (current_resources (workers_instances p' ! i)) + unat q =
      unat (current_resources ?w)" by simp
  moreover have "\<forall>j. j \<noteq> i \<longrightarrow> workers_instances p' ! j = workers_instances p ! j"
    using w by simp
  ultimately show ?thesis
    using p' reserve_within_limits [OF assms(1,3) p'] free_after_reserve [OF p'] by blast
qed

theorem reserve_and_free_witness:
  "\<exists>p'. pronto_reserve_capacity (pronto_init 2 1) 1 9 = Inr p' \<and> within_limits p' \<and>
     pronto_free_capacity p' 1 9 = Inr (pronto_init 2 1)"
proof -
  have "within_limits (pronto_init 2 1)" "1 < length (workers_instances (pronto_init 2 1))"
    "can_take 9 (workers_instances (pronto_init 2 1) ! 1)"
    by (simp_all add: within_limits_def two_workers can_take_def)
  from reserve_and_free [OF this] show ?thesis by blast
qed

end
