(* ===== verification/Handler.thy ===== *)
theory Handler
  imports Http_Request Http_Response Pronto
begin

text \<open>
  The handler of lib/handler.c: its routes, the callbacks \<open>schedule\<close> and \<open>job_done\<close>, and
  \<open>build_response\<close>. The shared state is passed through explicitly; the mutexes the callbacks
  take and how they interleave with the other threads are in \<open>Scheduling\<close>. \<open>junk\<close> is the
  content of fresh memory and \<open>date\<close> the date header, as in \<open>Http_Response\<close>.
\<close>

section \<open>Routes\<close>

datatype http_method = GET | POST

text \<open>A function pointer is the name of the function it points to.\<close>

datatype handler_callback = Callback_schedule | Callback_job_done

record handler_route_t =
  route_method :: block
  route_path :: block
  route_callback :: handler_callback

record handler =
  max_request_size :: nat
  max_body_size :: nat
  max_events :: int
  epoll_fd :: int
  request_buffer_size :: nat
  routes_idx :: nat
  routes :: "handler_route_t option list"
  handler_active :: bool

definition MAX_ROUTES :: nat where "MAX_ROUTES = 30"

definition handler_init :: "int \<Rightarrow> int \<Rightarrow> nat \<Rightarrow> nat \<Rightarrow> nat \<Rightarrow> handler" where
  "handler_init epoll max_evs buf_size max_request max_body =
     \<lparr>max_request_size = max_request, max_body_size = max_body, max_events = max_evs,
      epoll_fd = epoll, request_buffer_size = buf_size, routes_idx = 0,
      routes = replicate MAX_ROUTES None, handler_active = True\<rparr>"

fun method_name :: "http_method \<Rightarrow> string" where
  "method_name POST = ''POST''"
| "method_name GET = ''GET''"

text \<open>
  \<open>oks\<close> says which of the three callocs succeed; only the first is checked. The copies have
  one byte more than the text, which calloc has zeroed.
\<close>

definition calloc_text :: "string \<Rightarrow> allocs \<Rightarrow> (block \<times> allocs) result" where
  "calloc_text s oks =
     (let (ok, oks') = allocate oks in
      if ok then and_then (memcpy (calloc (length s + 1)) 0 (lit s) 0 (length s)) (\<lambda>b. Inr (b, oks'))
      else Inl InvalidPointer)"

definition handler_route ::
  "handler \<Rightarrow> http_method \<Rightarrow> string \<Rightarrow> handler_callback \<Rightarrow> allocs \<Rightarrow> (int \<times> handler) result" where
  "handler_route h m path cb oks =
     (if MAX_ROUTES \<le> routes_idx h then Inr (- 2, h)
      else let (ok, oks1) = allocate oks in
        if \<not> ok then Inr (- 1, h)
        else
          and_then (calloc_text path oks1) (\<lambda>(cpy_path, oks2).
          and_then (calloc_text (method_name m) oks2) (\<lambda>(cpy_method, _).
            if routes_idx h < length (routes h) then
              Inr (0, h\<lparr>routes := (routes h)[routes_idx h := Some \<lparr>route_method = cpy_method,
                           route_path = cpy_path, route_callback = cb\<rparr>],
                        routes_idx := routes_idx h + 1\<rparr>)
            else Inl OutOfBounds)))"

text \<open>The loop over the first \<open>n\<close> routes, with the status so far.\<close>

fun route_search_loop ::
  "handler_route_t option list \<Rightarrow> nat \<Rightarrow> block \<Rightarrow> block \<Rightarrow> int \<Rightarrow> (handler_callback option \<times> int) result" where
  "route_search_loop rs 0 m path status = Inr (None, status)"
| "route_search_loop [] (Suc n) m path status = Inl OutOfBounds"
| "route_search_loop (None # rs) (Suc n) m path status = Inl InvalidPointer"
| "route_search_loop (Some r # rs) (Suc n) m path status =
     and_then (strcmp_eq (route_path r) path) (\<lambda>same_path.
       if same_path then
         and_then (strcmp_eq (route_method r) m) (\<lambda>same_method.
           if same_method then Inr (Some (route_callback r), 0)
           else route_search_loop rs n m path 1)
       else route_search_loop rs n m path status)"

definition handler_route_search :: "handler \<Rightarrow> block \<Rightarrow> block \<Rightarrow> (handler_callback option \<times> int) result" where
  "handler_route_search h m path = route_search_loop (routes h) (routes_idx h) m path (- 1)"

text \<open>What \<open>handler_process_request\<close> does before its loop.\<close>

definition register_routes :: "handler \<Rightarrow> handler result" where
  "register_routes h =
     and_then (handler_route h POST ''/schedule'' Callback_schedule []) (\<lambda>(_, h1).
     and_then (handler_route h1 POST ''/done'' Callback_job_done []) (\<lambda>(_, h2).
       if routes_idx h2 \<le> MAX_ROUTES then Inr h2 else Inl AssertFailed))"

section \<open>The callbacks\<close>

definition quoted :: "string \<Rightarrow> string" where
  "quoted s = [CHR 0x22] @ s @ [CHR 0x22]"

definition success_body :: "string \<Rightarrow> string" where
  "success_body message =
     [CHR 0x7B] @ quoted ''success'' @ '': true, '' @ quoted ''message'' @ '': '' @ quoted message @
     [CHR 0x7D]"

definition INTO_RESPONSE :: "(nat \<Rightarrow> char) \<Rightarrow> string \<Rightarrow> string \<Rightarrow> int \<Rightarrow> int \<Rightarrow> http_response result" where
  "INTO_RESPONSE junk date body status socket =
     http_response_create junk date status (Some json_content_type) body socket"

text \<open>
  A callback answers its return value, the response and the shared state. \<open>reply\<close> is the way
  they all end.
\<close>

type_synonym callback_result = "(int \<times> http_response \<times> pronto) result"

definition reply ::
  "(nat \<Rightarrow> char) \<Rightarrow> string \<Rightarrow> int \<Rightarrow> int \<Rightarrow> int \<Rightarrow> string \<Rightarrow> pronto \<Rightarrow> callback_result" where
  "reply junk date socket ret status body p =
     and_then (INTO_RESPONSE junk date body status socket) (\<lambda>res. Inr (ret, res, p))"

definition sem_post_notify :: "pronto \<Rightarrow> pronto" where
  "sem_post_notify p = p\<lparr>notify := Suc (notify p)\<rparr>"

definition sem_post_reschedule :: "pronto \<Rightarrow> pronto" where
  "sem_post_reschedule p = p\<lparr>reschedule := Suc (reschedule p)\<rparr>"

text \<open>
  \<open>job_done\<close> prints the capacity of the worker before it frees, which reads the array at the
  index of the request; \<open>pronto_free_capacity\<close> has the same fault.
\<close>

definition job_done ::
  "(nat \<Rightarrow> char) \<Rightarrow> string \<Rightarrow> pronto \<Rightarrow> http_request \<Rightarrow> int \<Rightarrow> callback_result" where
  "job_done junk date p req socket =
     and_then (has_body req) (\<lambda>body.
       if \<not> body then reply junk date socket 1 400 (error_body ''bad_request'') p
       else
         and_then (req_json_body req) (\<lambda>json.
           case cJSON_GetObjectItem json (Some ''freed_qty'') of
             None \<Rightarrow> reply junk date socket 1 400 (error_body ''qty is missing'') p
           | Some freed_qty \<Rightarrow>
               (case cJSON_GetObjectItem json (Some ''worker'') of
                  None \<Rightarrow> reply junk date socket 1 400 (error_body ''worker is missing'') p
                | Some worker_idx \<Rightarrow>
                    let int_qty = item_valueint freed_qty; int_worker = item_valueint worker_idx in
                    and_then (pronto_free_capacity p (unat int_worker) int_qty) (\<lambda>p'.
                      reply junk date socket 0 200
                        (success_body (''freed '' @ show_int (sint int_qty) @ '' from worker '' @
                          show_int (sint int_worker)))
                        (sem_post_reschedule p')))))"

definition schedule ::
  "(nat \<Rightarrow> char) \<Rightarrow> string \<Rightarrow> pronto \<Rightarrow> http_request \<Rightarrow> int \<Rightarrow> callback_result" where
  "schedule junk date p req socket =
     and_then (has_body req) (\<lambda>body.
       if \<not> body then reply junk date socket 1 400 (error_body ''bad_request'') p
       else
         and_then (req_json_body req) (\<lambda>json.
           case cJSON_GetObjectItem json (Some ''qty'') of
             None \<Rightarrow> reply junk date socket 1 400 (error_body ''qty is missing'') p
           | Some qty \<Rightarrow>
               let into_qty = item_valueint qty in
               if \<not> pronto_is_schedulable p into_qty then
                 reply junk date socket 1 400
                   (error_body ''cannot schedule job (qty is too big for the cluster)'') p
               else
                 reply junk date socket 0 200 (success_body (show_int (sint into_qty)))
                   (sem_post_notify (pronto_add_job p into_qty))))"

fun run_callback :: "handler_callback \<Rightarrow> (nat \<Rightarrow> char) \<Rightarrow> string \<Rightarrow> pronto \<Rightarrow> http_request \<Rightarrow> int \<Rightarrow> callback_result" where
  "run_callback Callback_schedule = schedule"
| "run_callback Callback_job_done = job_done"

section \<open>Building the response\<close>

text \<open>The test of \<open>req->json_body\<close> before the request is printed reads the field.\<close>

definition build_response ::
  "(nat \<Rightarrow> char) \<Rightarrow> string \<Rightarrow> handler \<Rightarrow> pronto \<Rightarrow> http_request \<Rightarrow> bool \<Rightarrow> int \<Rightarrow> (http_response \<times> pronto) result" where
  "build_response junk date h p req is_bad_request socket =
     and_then (req_json_body req) (\<lambda>_.
       if is_bad_request then
         and_then (http_response_bad_request junk date socket) (\<lambda>res. Inr (res, p))
       else
         and_then (handler_route_search h (req_method req) (req_path req)) (\<lambda>(route_callback, status).
           if status = 0 \<and> route_callback \<noteq> None then
             and_then (run_callback (the route_callback) junk date p req socket) (\<lambda>(_, res, p'). Inr (res, p'))
           else if status = 1 then
             and_then (http_response_not_allowed junk date socket) (\<lambda>res. Inr (res, p))
           else and_then (http_response_not_found junk date socket) (\<lambda>res. Inr (res, p))))"

end
