(* ===== verification/Handler_Correct.thy ===== *)
theory Handler_Correct
  imports Handler
begin

text \<open>
  What the handler's operations do: which callback a request reaches, what each callback
  answers and does to the shared state on every branch, and what it fails to check.
\<close>

section \<open>The route table\<close>

type_synonym route_entry = "http_method \<times> string \<times> handler_callback"

definition table_entry :: "route_entry \<Rightarrow> handler_route_t option" where
  "table_entry e = (case e of (m, path, cb) \<Rightarrow>
     Some \<lparr>route_method = lit (method_name m), route_path = lit path, route_callback = cb\<rparr>)"

text \<open>The table the handler should implement: 0 found, 1 the path with another method, -1 no path.\<close>

definition route_lookup :: "route_entry list \<Rightarrow> string \<Rightarrow> string \<Rightarrow> handler_callback option \<times> int" where
  "route_lookup tbl m path =
     (case find (\<lambda>(m', path', cb). path' = path \<and> method_name m' = m) tbl of
        Some (_, _, cb) \<Rightarrow> (Some cb, 0)
      | None \<Rightarrow> (None, if list_ex (\<lambda>(m', path', cb). path' = path) tbl then 1 else - 1))"

fun route_all :: "handler \<Rightarrow> route_entry list \<Rightarrow> handler result" where
  "route_all h [] = Inr h"
| "route_all h ((m, path, cb) # tbl) =
     and_then (handler_route h m path cb []) (\<lambda>(_, h'). route_all h' tbl)"

definition holds_table :: "handler \<Rightarrow> route_entry list \<Rightarrow> bool" where
  "holds_table h tbl \<longleftrightarrow> length tbl \<le> MAX_ROUTES \<and> routes_idx h = length tbl \<and>
     routes h = map table_entry tbl @ replicate (MAX_ROUTES - length tbl) None"

lemma method_name_clean [simp]: "NUL \<notin> set (method_name m)"
  by (cases m) simp_all

lemma calloc_text_lit: "calloc_text s [] = Inr (lit s, [])"
proof -
  have "put_bytes (replicate (length s + 1) NUL) 0 s = Inr (lit s)"
    by (simp add: put_bytes_def lit_def del: replicate_Suc) (metis replicate_0 replicate_Suc Suc_diff_le diff_self_eq_0 le_refl)
  then show ?thesis by (simp add: calloc_text_def allocate_def memcpy_def read_bytes_def lit_def calloc_def)
qed

lemma handler_route_adds:
  assumes "holds_table h tbl" and "length tbl < MAX_ROUTES"
  shows "\<exists>h'. handler_route h m path cb [] = Inr (0, h') \<and> holds_table h' (tbl @ [(m, path, cb)])"
proof -
  have "replicate (MAX_ROUTES - length tbl) None =
      (None :: handler_route_t option) # replicate (MAX_ROUTES - length (tbl @ [(m, path, cb)])) None"
    using assms(2) by (simp flip: replicate_Suc add: Suc_diff_Suc)
  then show ?thesis
    using assms by (simp add: handler_route_def allocate_def calloc_text_lit holds_table_def
        table_entry_def list_update_append)
qed

lemma handler_route_full:
  "holds_table h tbl \<Longrightarrow> length tbl = MAX_ROUTES \<Longrightarrow> handler_route h m path cb [] = Inr (- 2, h)"
  by (simp add: handler_route_def holds_table_def)

lemma route_all_holds:
  "holds_table h tbl \<Longrightarrow> \<exists>h'. route_all h new = Inr h' \<and> holds_table h' (take MAX_ROUTES (tbl @ new))"
proof (induction new arbitrary: h tbl)
  case Nil
  then show ?case by (simp add: holds_table_def)
next
  case (Cons e new)
  obtain m path cb where e: "e = (m, path, cb)" by (cases e)
  show ?case
  proof (cases "length tbl < MAX_ROUTES")
    case True
    from handler_route_adds [OF Cons.prems True] obtain h'
      where "handler_route h m path cb [] = Inr (0, h')" "holds_table h' (tbl @ [(m, path, cb)])" by blast
    with Cons.IH [of h' "tbl @ [e]"] show ?thesis by (simp add: e)
  next
    case False
    then have full: "length tbl = MAX_ROUTES" using Cons.prems by (simp add: holds_table_def)
    with Cons.IH [OF Cons.prems] handler_route_full [OF Cons.prems full] show ?thesis by (simp add: e)
  qed
qed

lemma init_holds_nothing: "holds_table (handler_init ep ev bs rq bd) []"
  by (simp add: holds_table_def handler_init_def)

lemma route_search_loop_lookup:
  "NUL \<notin> set m \<Longrightarrow> NUL \<notin> set path \<Longrightarrow> \<forall>(m', p', cb) \<in> set tbl. NUL \<notin> set p' \<Longrightarrow>
   route_search_loop (map table_entry tbl @ rest) (length tbl) (lit m) (lit path) st =
     Inr (case find (\<lambda>(m', path', cb). path' = path \<and> method_name m' = m) tbl of
        Some (_, _, cb) \<Rightarrow> (Some cb, 0)
      | None \<Rightarrow> (None, if list_ex (\<lambda>(m', path', cb). path' = path) tbl then 1 else st))"
proof (induction tbl arbitrary: st)
  case (Cons e tbl)
  obtain m' p' cb where e: "e = (m', p', cb)" by (cases e)
  with Cons show ?case by (auto simp: table_entry_def block_simps)
qed simp

lemma search_lookup:
  assumes "holds_table h tbl" and "NUL \<notin> set m" and "NUL \<notin> set path"
    and "\<forall>(m', p', cb) \<in> set tbl. NUL \<notin> set p'"
  shows "handler_route_search h (lit m) (lit path) = Inr (route_lookup tbl m path)"
  using assms route_search_loop_lookup [OF assms(2-4)]
  by (simp add: handler_route_search_def holds_table_def route_lookup_def)

text \<open>
  The route table. After any list of routes has been registered on a fresh handler, a search
  behaves as the table of the first 30 of them: the callback of the first entry with this path
  and method (status 0); no callback and status 1 if the path occurs with other methods only;
  status -1 if it does not occur. Registrations beyond the thirtieth are ignored.
\<close>

lemma routes_are_found:
  assumes "route_all (handler_init ep ev bs rq bd) tbl = Inr h" and "NUL \<notin> set m"
    and "NUL \<notin> set path" and "\<forall>(m', p', cb) \<in> set tbl. NUL \<notin> set p'"
  shows "handler_route_search h (lit m) (lit path) = Inr (route_lookup (take MAX_ROUTES tbl) m path)"
proof (rule search_lookup)
  show "holds_table h (take MAX_ROUTES tbl)"
    using route_all_holds [OF init_holds_nothing, of ep ev bs rq bd tbl] assms(1) by simp
  show "\<forall>(m', p', cb) \<in> set (take MAX_ROUTES tbl). NUL \<notin> set p'"
    using assms(4) by (auto dest: in_set_takeD)
qed (use assms in simp_all)

lemma routes_are_found_witness:
  "\<exists>h. handler_route_search h (lit ''GET'') (lit ''/done'') =
    Inr (route_lookup (take MAX_ROUTES [(POST, ''/done'', Callback_job_done), (GET, ''/done'', Callback_schedule)])
      ''GET'' ''/done'')"
proof -
  obtain h where "route_all (handler_init 3 10 1 1 1)
      [(POST, ''/done'', Callback_job_done), (GET, ''/done'', Callback_schedule)] = Inr h"
    using route_all_holds [OF init_holds_nothing] by blast
  from routes_are_found [OF this, of "''GET''" "''/done''"] show ?thesis by auto
qed

section \<open>Which callback answers\<close>

definition service_table :: "route_entry list" where
  "service_table = [(POST, ''/schedule'', Callback_schedule), (POST, ''/done'', Callback_job_done)]"

lemma register_routes_run:
  "\<exists>h. register_routes (handler_init ep ev bs rq bd) = Inr h \<and> holds_table h service_table"
proof -
  obtain h1 where h1: "handler_route (handler_init ep ev bs rq bd) POST ''/schedule'' Callback_schedule [] = Inr (0, h1)"
    "holds_table h1 ([] @ [(POST, ''/schedule'', Callback_schedule)])"
    using handler_route_adds [OF init_holds_nothing, of ep ev bs rq bd POST "''/schedule''" Callback_schedule]
    by (auto simp: MAX_ROUTES_def)
  obtain h2 where h2: "handler_route h1 POST ''/done'' Callback_job_done [] = Inr (0, h2)"
    "holds_table h2 (([] @ [(POST, ''/schedule'', Callback_schedule)]) @ [(POST, ''/done'', Callback_job_done)])"
    using handler_route_adds [OF h1(2), of POST "''/done''" Callback_job_done] by (auto simp: MAX_ROUTES_def)
  then have "routes_idx h2 \<le> MAX_ROUTES" by (simp add: holds_table_def)
  with h1(1) h2 show ?thesis by (simp add: register_routes_def service_table_def)
qed

lemma register_routes_holds:
  "register_routes (handler_init ep ev bs rq bd) = Inr h \<Longrightarrow> holds_table h service_table"
  using register_routes_run [of ep ev bs rq bd] by auto

text \<open>The response to a well-formed request, whatever its method and path.\<close>

definition answer ::
  "(nat \<Rightarrow> char) \<Rightarrow> string \<Rightarrow> pronto \<Rightarrow> http_request \<Rightarrow> int \<Rightarrow> string \<Rightarrow> string \<Rightarrow> (http_response \<times> pronto) result" where
  "answer junk date p req socket m path =
     (if path = ''/schedule'' \<or> path = ''/done'' then
        (if m = ''POST'' then
           and_then ((if path = ''/schedule'' then schedule else job_done) junk date p req socket)
             (\<lambda>(_, res, p'). Inr (res, p'))
         else and_then (INTO_RESPONSE junk date (error_body ''method_not_allowed'') 405 socket) (\<lambda>res. Inr (res, p)))
      else and_then (INTO_RESPONSE junk date (error_body ''not_found'') 404 socket) (\<lambda>res. Inr (res, p)))"

lemma dispatch:
  assumes "register_routes (handler_init ep ev bs rq bd) = Inr h"
    and "req_method req = lit m" and "req_path req = lit path" and "req_json_body req = Inr json"
    and "NUL \<notin> set m" and "NUL \<notin> set path"
  shows "build_response junk date h p req False socket = answer junk date p req socket m path"
proof -
  have "handler_route_search h (lit m) (lit path) = Inr (route_lookup service_table m path)"
    using search_lookup [OF register_routes_holds [OF assms(1)] assms(5,6)] by (simp add: service_table_def)
  then show ?thesis
    using assms(2-4)
    by (auto simp: build_response_def answer_def route_lookup_def service_table_def INTO_RESPONSE_def
        http_response_not_allowed_def http_response_not_found_def)
qed

text \<open>
  C32. Dispatch, of a request as the event loop hands it over: with a parsed body if its method is
  POST or post, and with \<open>json_body\<close> never written otherwise. With registered routes, POST
  /schedule and POST /done are answered by their callbacks, which alone can change the shared
  state; post on these paths by 405, because the routes compare the method exactly; every other
  path by 404. For any other method the code reads the unwritten field before it looks at the
  route: the behaviour is undefined, and neither 405 nor 404 is an answer the program gives to a
  GET.
\<close>

theorem request_is_dispatched:
  assumes "register_routes (handler_init ep ev bs rq bd) = Inr h"
    and "req_method req = lit m" and "req_path req = lit path"
    and "req_json_body req = (if m = ''POST'' \<or> m = ''post'' then Inr json else Inl Uninitialised)"
    and "NUL \<notin> set m" and "NUL \<notin> set path"
  shows "build_response junk date h p req False socket =
    (if m = ''POST'' \<or> m = ''post'' then answer junk date p req socket m path else Inl Uninitialised)"
proof (cases "m = ''POST'' \<or> m = ''post''")
  case True
  then show ?thesis using dispatch [OF assms(1-3) _ assms(5,6), of json] assms(4) by simp
next
  case False
  then show ?thesis using assms(4) by (simp add: build_response_def)
qed

lemma request_is_dispatched_witness:
  "\<exists>h. register_routes (handler_init 3 4 5 6 7) = Inr h \<and>
    build_response (\<lambda>_. NUL) ''now'' h (pronto_init 2 1)
      \<lparr>req_method = lit ''post'', req_path = lit ''/done'', req_headers = [], req_json_body = Inr None,
       req_method_len = 4, req_path_len = 5, req_num_headers = 0\<rparr> False 7 =
      and_then (INTO_RESPONSE (\<lambda>_. NUL) ''now'' (error_body ''method_not_allowed'') 405 7) (\<lambda>res. Inr (res, pronto_init 2 1)) \<and>
    build_response (\<lambda>_. NUL) ''now'' h (pronto_init 2 1)
      \<lparr>req_method = lit ''GET'', req_path = lit ''/done'', req_headers = [], req_json_body = Inl Uninitialised,
       req_method_len = 3, req_path_len = 5, req_num_headers = 0\<rparr> False 7 = Inl Uninitialised"
proof -
  obtain h where h: "register_routes (handler_init 3 4 5 6 7) = Inr h" using register_routes_run by blast
  from request_is_dispatched [OF h, of "\<lparr>req_method = lit ''post'', req_path = lit ''/done'', req_headers = [],
      req_json_body = Inr None, req_method_len = 4, req_path_len = 5, req_num_headers = 0\<rparr>" "''post''" "''/done''" None]
    request_is_dispatched [OF h, of "\<lparr>req_method = lit ''GET'', req_path = lit ''/done'', req_headers = [],
      req_json_body = Inl Uninitialised, req_method_len = 3, req_path_len = 5, req_num_headers = 0\<rparr>" "''GET''" "''/done''" None]
  show ?thesis by (intro exI [of _ h]) (simp add: answer_def h)
qed

section \<open>What the callbacks answer\<close>

text \<open>
  \<open>roomy\<close>: the memory of malloc has a NUL early enough for responses to be built (see
  \<open>Http_Response\<close>). \<open>says\<close>: the response holds the text with this status and body, of which
  nothing has been sent.
\<close>

definition roomy :: "(nat \<Rightarrow> char) \<Rightarrow> string \<Rightarrow> bool" where
  "roomy junk date \<longleftrightarrow> NUL \<notin> set date \<and> header_room junk date json_content_type"

definition says :: "http_response \<Rightarrow> int \<Rightarrow> string \<Rightarrow> int \<Rightarrow> bool" where
  "says res status body socket \<longleftrightarrow>
     (let sent = stringify_status status @ json_content_type @ header_end @ body in
      c_string (res_stringified res) 0 = Inr sent \<and> res_full_length res = length sent \<and>
      res_stream_ptr res = 0 \<and> res_socket res = socket)"

lemma roomy_zeros: "roomy (\<lambda>_. NUL) ''now''"
  by (auto simp: roomy_def header_room_def intro!: exI [of _ 43])

text \<open>Both outcomes of a reply, and the response of the good one.\<close>

abbreviation json_response :: "string \<Rightarrow> int \<Rightarrow> string \<Rightarrow> int \<Rightarrow> http_response" where
  "json_response date status body fd \<equiv> built_response date status json_content_type body fd"

lemma INTO_RESPONSE_builds:
  assumes "NUL \<notin> set date" and "NUL \<notin> set body"
  shows "INTO_RESPONSE junk date body status socket =
    (if header_room junk date json_content_type then Inr (json_response date status body socket) else Inl OutOfBounds)"
  using create_builds [OF assms(1) literals_clean(5) assms(2)] by (simp add: INTO_RESPONSE_def)

lemma reply_builds:
  assumes "NUL \<notin> set date" and "NUL \<notin> set body"
  shows "reply junk date socket ret status body p =
    (if header_room junk date json_content_type then Inr (ret, json_response date status body socket, p)
     else Inl OutOfBounds)"
  by (simp add: reply_def INTO_RESPONSE_builds [OF assms])

lemma json_response_says: "NUL \<notin> set body \<Longrightarrow> says (json_response date status body fd) status body fd"
  using built_response_text [OF literals_clean(5), of body]
  by (simp add: says_def response_text_def Let_def)

lemma INTO_RESPONSE_says:
  assumes "roomy junk date" and "NUL \<notin> set body"
  obtains res where "INTO_RESPONSE junk date body status socket = Inr res" and "says res status body socket"
proof -
  have d: "NUL \<notin> set date" "header_room junk date json_content_type" using assms(1) by (simp_all add: roomy_def)
  show thesis
    using that INTO_RESPONSE_builds [OF d(1) assms(2)] json_response_says [OF assms(2)] d(2) by simp
qed

lemma reply_says:
  assumes "roomy junk date" and "NUL \<notin> set body"
  shows "\<exists>res. reply junk date socket ret status body p = Inr (ret, res, p) \<and> says res status body socket"
  by (rule INTO_RESPONSE_says [OF assms, of status socket]) (simp add: reply_def)

lemma show_int_clean [simp]: "NUL \<notin> set (show_int k)"
  by (simp add: show_int_def show_nat_clean)

lemma bodies_clean [simp]:
  "NUL \<notin> set s \<Longrightarrow> NUL \<notin> set (error_body s)" "NUL \<notin> set s \<Longrightarrow> NUL \<notin> set (success_body s)"
  by (simp_all add: error_body_def success_body_def quoted_def)

definition posts :: "http_request \<Rightarrow> cJSON \<Rightarrow> bool" where
  "posts req json \<longleftrightarrow> req_method req = lit ''POST'' \<and> req_json_body req = Inr (Some json)"

lemma has_body_posts: "posts req json \<Longrightarrow> has_body req = Inr True"
  by (simp add: posts_def has_body_def block_simps)

text \<open>The int in a member of the JSON body, if it has this member.\<close>

definition int_member :: "cJSON \<Rightarrow> string \<Rightarrow> i32 option" where
  "int_member json name = map_option item_valueint (cJSON_GetObjectItem (Some json) (Some name))"

lemma schedule_spec:
  assumes "posts req json" and "roomy junk date" and "sorted (job_queue p)"
  shows "\<exists>ret res p'. schedule junk date p req socket = Inr (ret, res, p') \<and>
    (case int_member json ''qty'' of
       None \<Rightarrow> ret = 1 \<and> p' = p \<and> says res 400 (error_body ''qty is missing'') socket
     | Some v \<Rightarrow>
         if pronto_is_schedulable p v then
           ret = 0 \<and> p' = p\<lparr>job_queue := insort v (job_queue p), notify := Suc (notify p)\<rparr> \<and>
           says res 200 (success_body (show_int (sint v))) socket
         else ret = 1 \<and> p' = p \<and>
           says res 400 (error_body ''cannot schedule job (qty is too big for the cluster)'') socket)"
proof -
  note run = schedule_def has_body_posts [OF assms(1)] posts_def int_member_def
  show ?thesis
  proof (cases "cJSON_GetObjectItem (Some json) (Some ''qty'')")
    case None
    obtain res where "reply junk date socket 1 400 (error_body ''qty is missing'') p = Inr (1, res, p)"
      "says res 400 (error_body ''qty is missing'') socket"
      using reply_says [OF assms(2), of "error_body ''qty is missing''" socket 1 400 p] by auto
    then show ?thesis using assms(1) None by (simp add: run)
  next
    case (Some q)
    let ?v = "item_valueint q"
    let ?p = "sem_post_notify (pronto_add_job p ?v)"
    show ?thesis
    proof (cases "pronto_is_schedulable p ?v")
      case True
      obtain res where "reply junk date socket 0 200 (success_body (show_int (sint ?v))) ?p = Inr (0, res, ?p)"
        "says res 200 (success_body (show_int (sint ?v))) socket"
        using reply_says [OF assms(2), of "success_body (show_int (sint ?v))" socket 0 200 ?p] by auto
      then show ?thesis using assms(1,3) Some True
        by (simp add: run sem_post_notify_def pronto_add_job_def enqueue_request_insort Let_def)
    next
      case False
      let ?e = "error_body ''cannot schedule job (qty is too big for the cluster)''"
      obtain res where "reply junk date socket 1 400 ?e p = Inr (1, res, p)" "says res 400 ?e socket"
        using reply_says [OF assms(2), of ?e socket 1 400 p] by auto
      then show ?thesis using assms(1) Some False by (simp add: run Let_def)
    qed
  qed
qed

text \<open>The same with the exact response, whatever the memory holds that its headers are built in.\<close>

lemma schedule_builds:
  assumes "posts req json" and "NUL \<notin> set date" and "sorted (job_queue p)" and "int_member json ''qty'' = Some v"
  shows "schedule junk date p req socket =
    (if header_room junk date json_content_type then
       Inr (if pronto_is_schedulable p v
            then (0, json_response date 200 (success_body (show_int (sint v))) socket,
              p\<lparr>job_queue := insort v (job_queue p), notify := Suc (notify p)\<rparr>)
            else (1, json_response date 400
              (error_body ''cannot schedule job (qty is too big for the cluster)'') socket, p))
     else Inl OutOfBounds)"
proof -
  obtain qty where "cJSON_GetObjectItem (Some json) (Some ''qty'') = Some qty" "item_valueint qty = v"
    using assms(4) by (auto simp: int_member_def)
  then show ?thesis
    using assms(1,3) has_body_posts [OF assms(1)] reply_builds [OF assms(2)]
    by (simp add: schedule_def posts_def sem_post_notify_def pronto_add_job_def enqueue_request_insort Let_def)
qed

text \<open>
  The schedule callback on a POST with a JSON body. If the body has a member "qty" whose int
  value \<open>v\<close> is schedulable, \<open>v\<close> is inserted into the job queue at its place, the scheduler's
  semaphore is posted, nothing else changes and the answer is 200; in every other case the
  answer is 400 and the shared state is untouched.
\<close>

lemma schedule_answers:
  assumes "posts req json" and "roomy junk date" and "sorted (job_queue p)"
  shows "\<exists>ret res p'. schedule junk date p req socket = Inr (ret, res, p') \<and>
    (case int_member json ''qty'' of
       None \<Rightarrow> ret = 1 \<and> p' = p \<and> says res 400 (error_body ''qty is missing'') socket
     | Some v \<Rightarrow>
         if pronto_is_schedulable p v then
           ret = 0 \<and> p' = p\<lparr>job_queue := insort v (job_queue p), notify := Suc (notify p)\<rparr> \<and>
           says res 200 (success_body (show_int (sint v))) socket
         else ret = 1 \<and> p' = p \<and>
           says res 400 (error_body ''cannot schedule job (qty is too big for the cluster)'') socket)"
  by (rule schedule_spec [OF assms])

definition sample_request :: "string \<Rightarrow> cJSON \<Rightarrow> http_request" where
  "sample_request path json = \<lparr>req_method = lit ''POST'', req_path = lit path, req_headers = [],
     req_json_body = Inr (Some json), req_method_len = 4, req_path_len = length path, req_num_headers = 0\<rparr>"

definition number_member :: "string \<Rightarrow> int \<Rightarrow> cJSON" where
  "number_member name k = CJSON cJSON_Number None (word_of_int k) (Finite (of_int k)) (Some name) []"

definition object_of :: "cJSON list \<Rightarrow> cJSON" where
  "object_of members = CJSON cJSON_Object None 0 (Finite 0) None members"

lemma sample_posts: "posts (sample_request path json) json"
  by (simp add: posts_def sample_request_def)

lemma schedule_answers_witness:
  "\<exists>ret res p'. schedule (\<lambda>_. NUL) ''now'' (pronto_init 2 1)
      (sample_request ''/schedule'' (object_of [number_member ''qty'' 5])) 7 = Inr (ret, res, p') \<and>
    (case int_member (object_of [number_member ''qty'' 5]) ''qty'' of
       None \<Rightarrow> ret = 1 \<and> p' = pronto_init 2 1 \<and> says res 400 (error_body ''qty is missing'') 7
     | Some v \<Rightarrow>
         if pronto_is_schedulable (pronto_init 2 1) v then
           ret = 0 \<and> p' = (pronto_init 2 1)\<lparr>job_queue := insort v (job_queue (pronto_init 2 1)),
             notify := Suc (notify (pronto_init 2 1))\<rparr> \<and>
           says res 200 (success_body (show_int (sint v))) 7
         else ret = 1 \<and> p' = pronto_init 2 1 \<and>
           says res 400 (error_body ''cannot schedule job (qty is too big for the cluster)'') 7)"
  by (rule schedule_answers [OF sample_posts roomy_zeros]) (simp add: pronto_init_def Let_def)

text \<open>
  The completion callback on a POST with a JSON body that names a quantity and an existing
  worker: the quantity is given back to that worker and to the cluster, the rescheduler's
  semaphore is posted and the answer is 200; a missing member is answered with 400 and no change.
\<close>

lemma job_done_answers:
  assumes "posts req json" and "roomy junk date"
    and "\<And>q w. int_member json ''freed_qty'' = Some q \<Longrightarrow> int_member json ''worker'' = Some w \<Longrightarrow>
      unat w < length (workers_instances p)"
  shows "\<exists>ret res p'. job_done junk date p req socket = Inr (ret, res, p') \<and>
    (case (int_member json ''freed_qty'', int_member json ''worker'') of
       (None, _) \<Rightarrow> ret = 1 \<and> p' = p \<and> says res 400 (error_body ''qty is missing'') socket
     | (Some _, None) \<Rightarrow> ret = 1 \<and> p' = p \<and> says res 400 (error_body ''worker is missing'') socket
     | (Some q, Some w) \<Rightarrow>
         ret = 0 \<and> reschedule p' = Suc (reschedule p) \<and> current_capacity p' = current_capacity p + q \<and>
         workers_instances p' = (workers_instances p)[unat w := (workers_instances p ! unat w)
           \<lparr>current_resources := current_resources (workers_instances p ! unat w) + ucast q,
            scheduled_jobs := scheduled_jobs (workers_instances p ! unat w) - 1\<rparr>] \<and>
         job_queue p' = job_queue p \<and> waiting_queue p' = waiting_queue p \<and> notify p' = notify p \<and>
         says res 200 (success_body (''freed '' @ show_int (sint q) @ '' from worker '' @ show_int (sint w))) socket)"
proof -
  note run = job_done_def has_body_posts [OF assms(1)] posts_def int_member_def
  have miss: "\<exists>res. reply junk date socket 1 400 (error_body s) p = Inr (1, res, p) \<and> says res 400 (error_body s) socket"
    if "NUL \<notin> set s" for s
    by (rule reply_says [OF assms(2)]) (use that in simp)
  show ?thesis
  proof (cases "cJSON_GetObjectItem (Some json) (Some ''freed_qty'')")
    case None
    then show ?thesis using assms(1) miss [of "''qty is missing''"] by (auto simp: run)
  next
    case q: (Some q)
    show ?thesis
    proof (cases "cJSON_GetObjectItem (Some json) (Some ''worker'')")
      case None
      then show ?thesis using assms(1) q miss [of "''worker is missing''"] by (auto simp: run)
    next
      case w: (Some w)
      let ?q = "item_valueint q" and ?w = "item_valueint w"
      let ?b = "success_body (''freed '' @ show_int (sint ?q) @ '' from worker '' @ show_int (sint ?w))"
      have "unat ?w < length (workers_instances p)"
        using assms(3) q w by (simp add: int_member_def)
      then obtain p1 where p1: "pronto_free_capacity p (unat ?w) ?q = Inr p1"
        "p1 = with_worker (p\<lparr>current_capacity := current_capacity p + ?q\<rparr>) (unat ?w)
          (\<lambda>w. w\<lparr>current_resources := current_resources w + ucast ?q, scheduled_jobs := scheduled_jobs w - 1\<rparr>)"
        by (simp add: pronto_free_capacity_def)
      obtain res where "reply junk date socket 0 200 ?b (sem_post_reschedule p1) = Inr (0, res, sem_post_reschedule p1)"
        "says res 200 ?b socket"
        using reply_says [OF assms(2), of ?b socket 0 200 "sem_post_reschedule p1"] by auto
      then show ?thesis using assms(1) q w p1(1)
        by (simp add: run Let_def) (simp add: p1(2) sem_post_reschedule_def)
    qed
  qed
qed

lemma job_done_builds:
  assumes "posts req json" and "NUL \<notin> set date" and "pronto_free_capacity p (unat w) q = Inr p'"
    and "int_member json ''freed_qty'' = Some q" and "int_member json ''worker'' = Some w"
  shows "job_done junk date p req socket =
    (if header_room junk date json_content_type then
       Inr (0, json_response date 200
         (success_body (''freed '' @ show_int (sint q) @ '' from worker '' @ show_int (sint w))) socket,
         sem_post_reschedule p')
     else Inl OutOfBounds)"
proof -
  obtain freed_qty worker where "cJSON_GetObjectItem (Some json) (Some ''freed_qty'') = Some freed_qty" "item_valueint freed_qty = q"
    "cJSON_GetObjectItem (Some json) (Some ''worker'') = Some worker" "item_valueint worker = w"
    using assms(4,5) by (auto simp: int_member_def)
  then show ?thesis
    using assms(1,3) has_body_posts [OF assms(1)] reply_builds [OF assms(2)]
    by (simp add: job_done_def posts_def Let_def)
qed

lemma job_done_answers_witness:
  "\<exists>ret res p'. job_done (\<lambda>_. NUL) ''now'' (pronto_init 2 1)
      (sample_request ''/done'' (object_of [number_member ''freed_qty'' 3, number_member ''worker'' 1])) 7 =
    Inr (ret, res, p')"
proof -
  have "int_member (object_of [number_member ''freed_qty'' 3, number_member ''worker'' 1]) ''worker'' = Some 1"
    "length (workers_instances (pronto_init 2 1)) = 2" by code_simp+
  then have "unat w < length (workers_instances (pronto_init 2 1))"
    if "int_member (object_of [number_member ''freed_qty'' 3, number_member ''worker'' 1]) ''worker'' = Some w" for w
    using that by simp
  from job_done_answers [OF sample_posts [of "''/done''"] roomy_zeros this] show ?thesis by blast
qed

section \<open>What a request can do to the shared state\<close>

text \<open>The three changes a request can make: none, a new job, or freed capacity.\<close>

definition request_effect :: "pronto \<Rightarrow> pronto \<Rightarrow> bool" where
  "request_effect p p' \<longleftrightarrow> p' = p \<or>
     (\<exists>v. pronto_is_schedulable p v \<and> p' = sem_post_notify (pronto_add_job p v)) \<or>
     (\<exists>w q p1. pronto_free_capacity p w q = Inr p1 \<and> p' = sem_post_reschedule p1)"

lemma request_effect_refl [simp]: "request_effect p p"
  by (simp add: request_effect_def)

lemma reply_state: "reply junk date socket ret status body p = Inr (ret', res, p') \<Longrightarrow> p' = p"
  by (auto simp: reply_def and_then_Inr_iff)

lemma schedule_effect:
  assumes "schedule junk date p req socket = Inr (ret, res, p')"
  shows "request_effect p p'"
proof -
  have "p' = p \<or> (\<exists>v. pronto_is_schedulable p v \<and> p' = sem_post_notify (pronto_add_job p v))"
    using assms unfolding schedule_def
    by (elim and_then_InrE) (auto simp: Let_def dest!: reply_state elim!: and_then_InrE split: if_splits option.split_asm)
  then show ?thesis by (auto simp: request_effect_def)
qed

lemma job_done_effect:
  assumes "job_done junk date p req socket = Inr (ret, res, p')"
  shows "request_effect p p'"
proof -
  have "p' = p \<or> (\<exists>w q p1. pronto_free_capacity p w q = Inr p1 \<and> p' = sem_post_reschedule p1)"
    using assms unfolding job_done_def
    by (elim and_then_InrE)
      (auto simp: Let_def dest!: reply_state elim!: and_then_InrE split: if_splits option.split_asm; blast)
  then show ?thesis by (auto simp: request_effect_def)
qed

text \<open>Every response is built for the socket it is asked for, with nothing sent of it.\<close>

definition unsent_for :: "int \<Rightarrow> http_response \<Rightarrow> bool" where
  "unsent_for fd res \<longleftrightarrow> res_socket res = fd \<and> res_stream_ptr res = 0"

lemma create_unsent: "http_response_create junk date status hdrs body fd = Inr res \<Longrightarrow> unsent_for fd res"
  by (auto simp: http_response_create_def unsent_for_def Let_def elim!: and_then_InrE)

lemma reply_unsent: "reply junk date fd ret status body p = Inr (ret', res, p') \<Longrightarrow> unsent_for fd res"
  by (auto simp: reply_def INTO_RESPONSE_def elim!: and_then_InrE dest: create_unsent)

lemma schedule_unsent: "schedule junk date p req fd = Inr (ret, res, p') \<Longrightarrow> unsent_for fd res"
  by (auto simp: schedule_def Let_def elim!: and_then_InrE dest!: reply_unsent split: if_splits option.splits)

lemma job_done_unsent: "job_done junk date p req fd = Inr (ret, res, p') \<Longrightarrow> unsent_for fd res"
  by (auto simp: job_done_def Let_def elim!: and_then_InrE dest!: reply_unsent split: if_splits option.splits)

text \<open>
  The contract of a route callback, which is all that the dispatch through the function pointer and
  the event loop rely on.
\<close>

locale route_callback =
  fixes callback :: "(nat \<Rightarrow> char) \<Rightarrow> string \<Rightarrow> pronto \<Rightarrow> http_request \<Rightarrow> int \<Rightarrow> callback_result"
  assumes answers_socket: "callback junk date p req fd = Inr (ret, res, p') \<Longrightarrow> unsent_for fd res"
    and changes_state: "callback junk date p req fd = Inr (ret, res, p') \<Longrightarrow> request_effect p p'"
begin

lemma called:
  assumes "and_then (callback junk date p req fd) (\<lambda>(_, res, p'). Inr (res, p')) = Inr (res, p')"
  shows "unsent_for fd res \<and> request_effect p p'"
  using assms by (auto elim!: and_then_InrE dest: answers_socket changes_state)

end

interpretation schedule_route: route_callback schedule
  by unfold_locales (fact schedule_unsent schedule_effect)+

interpretation job_done_route: route_callback job_done
  by unfold_locales (fact job_done_unsent job_done_effect)+

interpretation any_route: route_callback "run_callback cb" for cb
  by unfold_locales (cases cb; simp add: schedule_unsent job_done_unsent schedule_effect job_done_effect)+

lemma build_response_contract:
  assumes "build_response junk date h p req bad socket = Inr (res, p')"
  shows "unsent_for socket res \<and> request_effect p p'"
proof -
  have error: "unsent_for socket res \<and> request_effect p p'"
    if "and_then (http_response_create junk date status hdrs body socket) (\<lambda>res. Inr (res, p)) = Inr (res, p')"
    for status hdrs body
    using that by (auto elim!: and_then_InrE dest: create_unsent)
  note responses = http_response_bad_request_def http_response_not_allowed_def http_response_not_found_def
  obtain json where json: "req_json_body req = Inr json"
    using assms by (auto simp: build_response_def elim: and_then_InrE)
  show ?thesis
  proof (cases bad)
    case True
    then show ?thesis using assms json error by (simp add: build_response_def responses)
  next
    case False
    then obtain route status where found: "handler_route_search h (req_method req) (req_path req) = Inr (route, status)"
      using assms json by (auto simp: build_response_def elim: and_then_InrE)
    then show ?thesis
      using assms json False error any_route.called by (auto simp: build_response_def responses split: if_splits)
  qed
qed

lemmas build_response_unsent = build_response_contract [THEN conjunct1]
lemmas build_response_effect = build_response_contract [THEN conjunct2]

text \<open>
  No request upsets the books: whatever a client sends, if the capacity of the cluster is the
  sum of the workers' resources and the job queue is sorted, this is so after the response has
  been built, and the waiting queue, the number of workers and their maxima are as before.
\<close>

lemma requests_keep_books:
  assumes "build_response junk date h p req bad socket = Inr (res, p')"
    and "books_balanced p" and "sorted (job_queue p)"
  shows "books_balanced p' \<and> sorted (job_queue p') \<and> waiting_queue p' = waiting_queue p \<and>
    map max_resources (workers_instances p') = map max_resources (workers_instances p)"
proof -
  consider (same) "p' = p" | (job) v where "p' = sem_post_notify (pronto_add_job p v)"
    | (freed) w q p1 where "pronto_free_capacity p w q = Inr p1" "p' = sem_post_reschedule p1"
    using build_response_effect [OF assms(1)] by (auto simp: request_effect_def)
  then show ?thesis
  proof cases
    case same
    then show ?thesis using assms by simp
  next
    case job
    then show ?thesis using assms(2,3)
      by (simp add: sem_post_notify_def pronto_add_job_def books_balanced_def sorted_enqueue_request)
  next
    case freed
    have "books_balanced p1" by (rule free_balanced [OF assms(2) freed(1)])
    moreover have "map max_resources (workers_instances p1) = map max_resources (workers_instances p)"
      "job_queue p1 = job_queue p" "waiting_queue p1 = waiting_queue p"
      using freed(1) by (auto simp: pronto_free_capacity_def with_worker_def map_update
          list_update_same_conv split: if_splits)
    ultimately show ?thesis using assms(3) freed(2)
      by (simp add: sem_post_reschedule_def books_balanced_def)
  qed
qed

text \<open>What happens to an idle cluster when a client claims to free 100 units at worker 0.\<close>

definition done_100 :: http_request where
  "done_100 = sample_request ''/done'' (object_of [number_member ''freed_qty'' 100, number_member ''worker'' 0])"

definition freed_100 :: pronto where
  "freed_100 = (case pronto_free_capacity (pronto_init 2 1) 0 100 of Inr p \<Rightarrow> sem_post_reschedule p)"

lemma done_100_runs: "\<exists>res. job_done (\<lambda>_. NUL) ''now'' (pronto_init 2 1) done_100 7 = Inr (0, res, freed_100)"
proof -
  let ?j = "object_of [number_member ''freed_qty'' 100, number_member ''worker'' 0]"
  let ?b = "success_body (''freed '' @ show_int (sint (100 :: i32)) @ '' from worker '' @ show_int (sint (0 :: i32)))"
  have b: "has_body done_100 = Inr True"
    unfolding done_100_def by (rule has_body_posts [OF sample_posts])
  have m: "cJSON_GetObjectItem (Some ?j) (Some ''freed_qty'') = Some (number_member ''freed_qty'' 100)"
    "cJSON_GetObjectItem (Some ?j) (Some ''worker'') = Some (number_member ''worker'' 0)"
    by code_simp+
  have f: "pronto_free_capacity (pronto_init 2 1) 0 100 \<noteq> Inl e" for e
    by (simp add: pronto_free_capacity_def pronto_init_def Let_def)
  then obtain p1 where p1: "pronto_free_capacity (pronto_init 2 1) 0 100 = Inr p1"
    by (cases "pronto_free_capacity (pronto_init 2 1) 0 100") auto
  obtain res where "reply (\<lambda>_. NUL) ''now'' 7 0 200 ?b freed_100 = Inr (0, res, freed_100)"
    using reply_says [OF roomy_zeros, of ?b 7 0 200 freed_100] by auto
  then show ?thesis
    using b m p1 by (simp add: job_done_def done_100_def sample_request_def number_member_def freed_100_def Let_def)
qed

lemma requests_keep_books_witness:
  "\<exists>res p'. build_response (\<lambda>_. NUL) ''now'' (handler_init 3 4 5 6 7) (pronto_init 2 1)
      (sample_request ''/x'' (object_of [])) False 7 = Inr (res, p') \<and> books_balanced p' \<and> sorted (job_queue p')"
proof -
  obtain res where "INTO_RESPONSE (\<lambda>_. NUL) ''now'' (error_body ''not_found'') 404 7 = Inr res"
    by (rule INTO_RESPONSE_says [OF roomy_zeros, of "error_body ''not_found''" 404 7]) simp
  then have r: "build_response (\<lambda>_. NUL) ''now'' (handler_init 3 4 5 6 7) (pronto_init 2 1)
      (sample_request ''/x'' (object_of [])) False 7 = Inr (res, pronto_init 2 1)"
    by (simp add: build_response_def sample_request_def handler_route_search_def handler_init_def
        http_response_not_found_def INTO_RESPONSE_def)
  have "sorted (job_queue (pronto_init 2 1))" by (simp add: pronto_init_def Let_def)
  from requests_keep_books [OF r init_balanced this] r show ?thesis by blast
qed

text \<open>
  The completion callback trusts the client: a worker number outside the cluster makes it use
  memory past the array of workers.
\<close>

lemma done_overruns_workers:
  assumes "posts req json" and "int_member json ''freed_qty'' = Some q"
    and "int_member json ''worker'' = Some w" and "length (workers_instances p) \<le> unat w"
  shows "job_done junk date p req socket = Inl OutOfBounds"
  using assms has_body_posts [OF assms(1)]
  by (auto simp: job_done_def posts_def int_member_def pronto_free_capacity_def Let_def)

lemma done_overruns_workers_witness:
  "job_done (\<lambda>_. NUL) ''now'' (pronto_init 2 1)
     (sample_request ''/done'' (object_of [number_member ''freed_qty'' 1, number_member ''worker'' 2])) 7 = Inl OutOfBounds"
proof -
  have "int_member (object_of [number_member ''freed_qty'' 1, number_member ''worker'' 2]) ''freed_qty'' = Some 1"
    "int_member (object_of [number_member ''freed_qty'' 1, number_member ''worker'' 2]) ''worker'' = Some 2"
    "length (workers_instances (pronto_init 2 1)) \<le> unat (2 :: i32)" by code_simp+
  then show ?thesis by (rule done_overruns_workers [OF sample_posts])
qed

text \<open>
  And it trusts the quantity: on an idle cluster, a single completion request that claims 100
  freed units leaves worker 0 with more current resources (115) than it has at most (15).
\<close>

lemma done_exceeds_maximum:
  "(\<exists>res. job_done (\<lambda>_. NUL) ''now'' (pronto_init 2 1) done_100 7 = Inr (0, res, freed_100)) \<and>
   max_resources (workers_instances freed_100 ! 0) = 15 \<and>
   current_resources (workers_instances freed_100 ! 0) = 115"
proof (intro conjI done_100_runs)
  show "max_resources (workers_instances freed_100 ! 0) = 15" by code_simp
  show "current_resources (workers_instances freed_100 ! 0) = 115" by code_simp
qed

end
