(* ===== verification/CJson_Parse.thy ===== *)
theory CJson_Parse
  imports CJson "HOL-Library.Log_Nat"
begin

text \<open>
  The JSON parser of lib/c_json.c. Its input is a block of bytes together with the length
  the caller claims; every read is checked against the block, so that reading past it is a
  fault of the model. The mutually recursive functions take a fuel argument; \<open>None\<close> means
  that it ran out, which for enough fuel never happens.
\<close>

section \<open>Doubles from decimal strings\<close>

text \<open>
  strtod on the characters \<open>parse_number\<close> passes to it: an optional sign, digits with an
  optional point, and an optional exponent; the second component is how many characters
  were used (0 when there is no number). The value is rounded to the nearest double, to
  the one with the even significand in case of a tie.
\<close>

definition binary_exponent :: "rat \<Rightarrow> int" where
  "binary_exponent a =
     (let (n, d) = quotient_of a; k = bitlen n - bitlen d
      in if (if 0 \<le> k then of_int (2 ^ nat k) \<le> a else 1 \<le> a * of_int (2 ^ nat (- k))) then k else k - 1)"

definition round_half_even :: "rat \<Rightarrow> int" where
  "round_half_even x =
     (let f = \<lfloor>x\<rfloor>; r = x - of_int f in
      if r < 1 / 2 then f else if 1 / 2 < r then f + 1 else if even f then f else f + 1)"

definition scale2 :: "int \<Rightarrow> rat \<Rightarrow> rat" where
  "scale2 k x = (if 0 \<le> k then x * of_int (2 ^ nat k) else x / of_int (2 ^ nat (- k)))"

definition round_double :: "rat \<Rightarrow> dbl" where
  "round_double q =
     (if q = 0 then Finite 0
      else let e = max (binary_exponent \<bar>q\<bar>) (- 1022);
               v = scale2 (e - 52) (of_int (round_half_even (scale2 (52 - e) \<bar>q\<bar>)))
           in if of_int (2 ^ 1024) \<le> v then Infinity (q < 0)
              else Finite (if q < 0 then - v else v))"

definition scale10 :: "int \<Rightarrow> rat \<Rightarrow> rat" where
  "scale10 k x = (if 0 \<le> k then x * of_int (10 ^ nat k) else x / of_int (10 ^ nat (- k)))"

definition strtod_exponent :: "string \<Rightarrow> int \<times> nat" where
  "strtod_exponent s =
     (case s of
        [] \<Rightarrow> (0, 0)
      | c # r \<Rightarrow>
          if c = CHR ''e'' \<or> c = CHR ''E'' then
            (let signed = (case r of d # _ \<Rightarrow> d = CHR ''+'' \<or> d = CHR ''-'' | [] \<Rightarrow> False);
                 ds = takeWhile is_digit (if signed then tl r else r)
             in if ds = [] then (0, 0)
                else (if signed \<and> hd r = CHR ''-'' then - int (digits_value ds) else int (digits_value ds),
                      1 + (if signed then 1 else 0) + length ds))
          else (0, 0))"

definition strtod :: "string \<Rightarrow> dbl \<times> nat" where
  "strtod s =
     (let signed = (case s of c # _ \<Rightarrow> c = CHR ''+'' \<or> c = CHR ''-'' | [] \<Rightarrow> False);
          s1 = (if signed then tl s else s);
          ds1 = takeWhile is_digit s1; s2 = dropWhile is_digit s1;
          point = (case s2 of c # _ \<Rightarrow> c = CHR ''.'' | [] \<Rightarrow> False);
          ds2 = (if point then takeWhile is_digit (tl s2) else []);
          s3 = (if point then dropWhile is_digit (tl s2) else s2)
      in if ds1 = [] \<and> ds2 = [] then (Finite 0, 0)
         else let (ex, k) = strtod_exponent s3;
                  v = scale10 (ex - int (length ds2)) (of_nat (digits_value (ds1 @ ds2)))
              in (round_double (if signed \<and> hd s = CHR ''-'' then - v else v),
                  (if signed then 1 else 0) + length ds1 + (if point then 1 else 0) + length ds2 + k))"

section \<open>The parse buffer\<close>

record parse_buffer =
  pb_content :: block
  pb_length :: nat
  pb_offset :: nat
  pb_depth :: nat
  pb_allocs :: allocs

definition CJSON_NESTING_LIMIT :: nat where "CJSON_NESTING_LIMIT = 1000"

definition peek_at :: "parse_buffer \<Rightarrow> nat \<Rightarrow> char result" where
  "peek_at b p = (if p < length (pb_content b) then Inr (pb_content b ! p) else Inl OutOfBounds)"

definition can_read :: "parse_buffer \<Rightarrow> nat \<Rightarrow> bool" where
  "can_read b n \<longleftrightarrow> pb_offset b + n \<le> pb_length b"

definition can_access_at_index :: "parse_buffer \<Rightarrow> nat \<Rightarrow> bool" where
  "can_access_at_index b index \<longleftrightarrow> pb_offset b + index < pb_length b"

definition forward :: "nat \<Rightarrow> parse_buffer \<Rightarrow> parse_buffer" where
  "forward n b = b\<lparr>pb_offset := pb_offset b + n\<rparr>"

text \<open>\<open>next_is c b\<close>: \<open>can_access_at_index(b, 0) && (buffer_at_offset(b)[0] == c)\<close>.\<close>

definition next_is :: "char \<Rightarrow> parse_buffer \<Rightarrow> bool result" where
  "next_is c b =
     (if can_access_at_index b 0 then and_then (peek_at b (pb_offset b)) (\<lambda>d. Inr (d = c))
      else Inr False)"

text \<open>\<open>strncmp(content + p, s, strlen(s)) == 0\<close>, which stops at the first difference.\<close>

fun text_at :: "parse_buffer \<Rightarrow> nat \<Rightarrow> string \<Rightarrow> bool result" where
  "text_at b p [] = Inr True"
| "text_at b p (c # cs) =
     and_then (peek_at b p) (\<lambda>d. if d = c then text_at b (Suc p) cs else Inr False)"

function skip_blanks :: "parse_buffer \<Rightarrow> nat \<Rightarrow> nat result" where
  "skip_blanks b p =
     (if p < pb_length b then
        and_then (peek_at b p) (\<lambda>c. if of_char c \<le> (32 :: nat) then skip_blanks b (Suc p) else Inr p)
      else Inr p)"
  by pat_completeness auto
termination by (relation "measure (\<lambda>(b, p). pb_length b - p)") auto

declare skip_blanks.simps [simp del]

definition buffer_skip_whitespace :: "parse_buffer \<Rightarrow> parse_buffer result" where
  "buffer_skip_whitespace b =
     (if \<not> can_access_at_index b 0 then Inr b
      else and_then (skip_blanks b (pb_offset b)) (\<lambda>p.
        Inr (b\<lparr>pb_offset := if p = pb_length b then p - 1 else p\<rparr>)))"

definition skip_utf8_bom :: "parse_buffer \<Rightarrow> parse_buffer result" where
  "skip_utf8_bom b =
     (if can_access_at_index b 4 then
        and_then (text_at b (pb_offset b) [CHR 0xEF, CHR 0xBB, CHR 0xBF]) (\<lambda>bom.
          Inr (if bom then forward 3 b else b))
      else Inr b)"

section \<open>Numbers\<close>

definition number_char :: "char \<Rightarrow> bool" where
  "number_char c \<longleftrightarrow> is_digit c \<or> c \<in> set ''+-eE.''"

text \<open>
  The loop that copies to \<open>number_c_string[64]\<close>: at most 63 characters. Without
  \<open>ENABLE_LOCALES\<close> the decimal point is the point.
\<close>

fun number_text :: "parse_buffer \<Rightarrow> nat \<Rightarrow> nat \<Rightarrow> string result" where
  "number_text b 0 i = Inr []"
| "number_text b (Suc k) i =
     (if can_access_at_index b i then
        and_then (peek_at b (pb_offset b + i)) (\<lambda>c.
          if number_char c then and_then (number_text b k (Suc i)) (\<lambda>cs. Inr (c # cs)) else Inr [])
      else Inr [])"

definition parse_number :: "cJSON \<Rightarrow> parse_buffer \<Rightarrow> (cJSON option \<times> parse_buffer) result" where
  "parse_number item b =
     and_then (number_text b 63 0) (\<lambda>s.
       let (number, used) = strtod s in
       if used = 0 then Inr (None, b)
       else and_then (saturated_int number) (\<lambda>i.
         Inr (Some (set_type cJSON_Number (set_number i number item)), forward used b)))"

section \<open>Strings\<close>

unbundle bit_operations_syntax

text \<open>The value of a hexadecimal digit; \<open>None\<close> for another character.\<close>

definition hex_digit :: "char \<Rightarrow> u32 option" where
  "hex_digit c =
     (let n = of_char c :: nat in
      if n \<in> {48..57} then Some (of_nat (n - 48))
      else if n \<in> {65..70} then Some (of_nat (10 + n - 65))
      else if n \<in> {97..102} then Some (of_nat (10 + n - 97))
      else None)"

fun parse_hex4_loop :: "parse_buffer \<Rightarrow> nat \<Rightarrow> nat \<Rightarrow> u32 \<Rightarrow> u32 result" where
  "parse_hex4_loop b p 0 h = Inr h"
| "parse_hex4_loop b p (Suc k) h =
     and_then (peek_at b p) (\<lambda>c.
       case hex_digit c of
         None \<Rightarrow> Inr 0
       | Some d \<Rightarrow> parse_hex4_loop b (Suc p) k (if k > 0 then push_bit 4 (h + d) else h + d))"

definition parse_hex4 :: "parse_buffer \<Rightarrow> nat \<Rightarrow> u32 result" where
  "parse_hex4 b p = parse_hex4_loop b p 4 0"

text \<open>
  The UTF-8 bytes of a code point: the loop over \<open>utf8_position\<close> fills the bytes from the
  last one down, then the first byte gets its mark.
\<close>

fun utf8_tail :: "nat \<Rightarrow> u64 \<Rightarrow> char list \<Rightarrow> u64 \<times> char list" where
  "utf8_tail 0 codepoint out = (codepoint, out)"
| "utf8_tail (Suc k) codepoint out =
     utf8_tail k (drop_bit 6 codepoint)
       (char_of (unat ((codepoint OR 0x80) AND 0xBF)) # out)"

definition utf8_bytes :: "u64 \<Rightarrow> char list option" where
  "utf8_bytes codepoint =
     (if codepoint < 0x80 then Some [char_of (unat (codepoint AND 0x7F))]
      else if codepoint \<le> 0x10FFFF then
        (let (utf8_length, first_byte_mark) =
               (if codepoint < 0x800 then (2, 0xC0) else if codepoint < 0x10000 then (3, 0xE0)
                else (4, 0xF0 :: u64));
             (rest, tl_bytes) = utf8_tail (utf8_length - 1) codepoint []
         in Some (char_of (unat ((rest OR first_byte_mark) AND 0xFF)) # tl_bytes))
      else None)"

text \<open>
  The literal at \<open>p\<close>, before \<open>input_end\<close>: the bytes it stands for and the length of the
  sequence; \<open>None\<close> where the code returns 0.
\<close>

definition utf16_literal_to_utf8 ::
  "parse_buffer \<Rightarrow> nat \<Rightarrow> nat \<Rightarrow> (char list \<times> nat) option result" where
  "utf16_literal_to_utf8 b p input_end =
     (if input_end < p + 6 then Inr None
      else and_then (parse_hex4 b (p + 2)) (\<lambda>first_code.
        if 0xDC00 \<le> first_code \<and> first_code \<le> 0xDFFF then Inr None
        else if 0xD800 \<le> first_code \<and> first_code \<le> 0xDBFF then
          (if input_end < p + 12 then Inr None
           else and_then (peek_at b (p + 6)) (\<lambda>c0.
             if c0 \<noteq> CHR 0x5C then Inr None
             else and_then (peek_at b (p + 7)) (\<lambda>c1.
               if c1 \<noteq> CHR ''u'' then Inr None
               else and_then (parse_hex4 b (p + 8)) (\<lambda>second_code.
                 if second_code < 0xDC00 \<or> 0xDFFF < second_code then Inr None
                 else Inr (map_option (\<lambda>bytes. (bytes, 12)) (utf8_bytes
                   (0x10000 + ucast (push_bit 10 (first_code AND 0x3FF) OR (second_code AND 0x3FF)))))))))
        else Inr (map_option (\<lambda>bytes. (bytes, 6)) (utf8_bytes (ucast first_code)))))"

text \<open>
  The first loop of \<open>parse_string\<close>: the position of the closing quote and the number of
  skipped bytes; \<open>None\<close> where it fails.
\<close>

function find_string_end :: "parse_buffer \<Rightarrow> nat \<Rightarrow> nat \<Rightarrow> (nat \<times> nat) option result" where
  "find_string_end b p skipped =
     (if p < pb_length b then
        and_then (peek_at b p) (\<lambda>c.
          if c = CHR 0x22 then Inr (Some (p, skipped))
          else if c = CHR 0x5C then
            (if pb_length b \<le> p + 1 then Inr None else find_string_end b (p + 2) (Suc skipped))
          else find_string_end b (p + 1) skipped)
      else Inr None)"
  by pat_completeness auto
termination by (relation "measure (\<lambda>(b, p, _). pb_length b - p)") auto

declare find_string_end.simps [simp del]

definition simple_escape :: "char \<Rightarrow> char option" where
  "simple_escape c =
     (if c = CHR ''b'' then Some (CHR 0x08)
      else if c = CHR ''f'' then Some (CHR 0x0C)
      else if c = CHR ''n'' then Some (CHR 0x0A)
      else if c = CHR ''r'' then Some (CHR 0x0D)
      else if c = CHR ''t'' then Some (CHR 0x09)
      else if c = CHR 0x22 \<or> c = CHR 0x5C \<or> c = CHR ''/'' then Some c
      else None)"

text \<open>
  The second loop. \<open>room\<close> is the size of the allocated output; writing more is a fault.
  The result is the position where the loop stopped and, unless it failed, the output.
  (A sequence length is 6 or 12; the maximum with 1 only helps the termination proof.)
\<close>

definition push :: "nat \<Rightarrow> char list \<Rightarrow> char list \<Rightarrow> char list result" where
  "push room out bytes =
     (if length out + length bytes \<le> room then Inr (out @ bytes) else Inl OutOfBounds)"

function unescape :: "parse_buffer \<Rightarrow> nat \<Rightarrow> nat \<Rightarrow> nat \<Rightarrow> char list \<Rightarrow> (nat \<times> char list option) result" where
  "unescape b room input_end p out =
     (if p < input_end then
        and_then (peek_at b p) (\<lambda>c.
          if c \<noteq> CHR 0x5C then
            and_then (push room out [c]) (\<lambda>out'. unescape b room input_end (p + 1) out')
          else and_then (peek_at b (p + 1)) (\<lambda>e.
            case simple_escape e of
              Some x \<Rightarrow> and_then (push room out [x]) (\<lambda>out'. unescape b room input_end (p + 2) out')
            | None \<Rightarrow>
                if e = CHR ''u'' then
                  and_then (utf16_literal_to_utf8 b p input_end) (\<lambda>r.
                    case r of
                      None \<Rightarrow> Inr (p, None)
                    | Some (bytes, sequence_length) \<Rightarrow>
                        and_then (push room out bytes) (\<lambda>out'.
                          unescape b room input_end (p + max 1 sequence_length) out'))
                else Inr (p, None)))
      else and_then (push room out [NUL]) (\<lambda>_. Inr (p, Some out)))"
  by pat_completeness auto
termination by (relation "measure (\<lambda>(b, room, input_end, p, _). input_end - p)") auto

declare unescape.simps [simp del]

text \<open>\<open>valuestring\<close> is read as a C string, so up to the first NUL of the output.\<close>

definition parse_string :: "cJSON \<Rightarrow> parse_buffer \<Rightarrow> (cJSON option \<times> parse_buffer) result" where
  "parse_string item b =
     and_then (peek_at b (pb_offset b)) (\<lambda>c.
       if c \<noteq> CHR 0x22 then Inr (None, forward 1 b)
       else and_then (find_string_end b (pb_offset b + 1) 0) (\<lambda>r.
         case r of
           None \<Rightarrow> Inr (None, forward 1 b)
         | Some (input_end, skipped_bytes) \<Rightarrow>
             let allocation_length = input_end - pb_offset b - skipped_bytes;
                 (ok, oks') = allocate (pb_allocs b);
                 b1 = b\<lparr>pb_allocs := oks'\<rparr>
             in if \<not> ok then Inr (None, forward 1 b1)
                else and_then (unescape b1 (allocation_length + 1) input_end (pb_offset b + 1) []) (\<lambda>(p, output).
                  case output of
                    None \<Rightarrow> Inr (None, b1\<lparr>pb_offset := p\<rparr>)
                  | Some s \<Rightarrow>
                      Inr (Some (set_valuestring (Some (takeWhile (\<lambda>c. c \<noteq> NUL) s)) (set_type cJSON_String item)),
                           b1\<lparr>pb_offset := input_end + 1\<rparr>))))"

section \<open>Values\<close>

text \<open>Which branch of \<open>parse_value\<close> is taken.\<close>

datatype value_kind =
  Literal i32 nat | StringValue | NumberValue | ArrayValue | ObjectValue | NoValue

definition literal_at :: "parse_buffer \<Rightarrow> string \<Rightarrow> bool result" where
  "literal_at b s = (if can_read b (length s) then text_at b (pb_offset b) s else Inr False)"

definition kind_of_char :: "char \<Rightarrow> value_kind" where
  "kind_of_char c =
     (if c = CHR 0x22 then StringValue
      else if c = CHR ''-'' \<or> is_digit c then NumberValue
      else if c = CHR ''['' then ArrayValue
      else if c = CHR 0x7B then ObjectValue
      else NoValue)"

definition value_kind_at :: "parse_buffer \<Rightarrow> value_kind result" where
  "value_kind_at b =
     and_then (literal_at b ''null'') (\<lambda>n. if n then Inr (Literal cJSON_NULL 4) else
     and_then (literal_at b ''false'') (\<lambda>f. if f then Inr (Literal cJSON_False 5) else
     and_then (literal_at b ''true'') (\<lambda>t. if t then Inr (Literal cJSON_True 4) else
     if can_access_at_index b 0 then
       and_then (peek_at b (pb_offset b)) (\<lambda>c. Inr (kind_of_char c))
     else Inr NoValue)))"

definition set_literal :: "i32 \<Rightarrow> cJSON \<Rightarrow> cJSON" where
  "set_literal t item = set_type t (if t = cJSON_True then set_valueint 1 item else item)"

text \<open>\<open>and_step\<close> sequences computations that may run out of fuel.\<close>

definition and_step :: "'a result option \<Rightarrow> ('a \<Rightarrow> 'b result option) \<Rightarrow> 'b result option" where
  "and_step r f = (case r of None \<Rightarrow> None | Some (Inl e) \<Rightarrow> Some (Inl e) | Some (Inr x) \<Rightarrow> f x)"

text \<open>
  What \<open>parse_array\<close> and \<open>parse_object\<close> do before their loops: check the depth, step over
  the opening character, skip blanks, and step back. \<open>Inl\<close> of the inner sum is a failure,
  \<open>Inr (b, True)\<close> an empty container.
\<close>

definition enter_container ::
  "char \<Rightarrow> char \<Rightarrow> parse_buffer \<Rightarrow> (parse_buffer + parse_buffer \<times> bool) result" where
  "enter_container opening closing b =
     (if CJSON_NESTING_LIMIT \<le> pb_depth b then Inr (Inl b)
      else let b1 = b\<lparr>pb_depth := pb_depth b + 1\<rparr> in
        and_then (next_is opening b1) (\<lambda>open_here.
          if \<not> open_here then Inr (Inl b1)
          else and_then (buffer_skip_whitespace (forward 1 b1)) (\<lambda>b2.
            and_then (next_is closing b2) (\<lambda>close_here.
              if close_here then Inr (Inr (b2, True))
              else let b3 = b2\<lparr>pb_offset := pb_offset b2 - 1\<rparr> in
                if \<not> can_access_at_index b2 0 then Inr (Inl b3)
                else Inr (Inr (b3, False))))))"

definition leave_container ::
  "i32 \<Rightarrow> cJSON \<Rightarrow> cJSON list \<Rightarrow> parse_buffer \<Rightarrow> cJSON option \<times> parse_buffer" where
  "leave_container t item children b =
     (Some (set_child children (set_type t item)),
      b\<lparr>pb_depth := pb_depth b - 1, pb_offset := pb_offset b + 1\<rparr>)"

text \<open>
  The name of an object member: \<open>parse_string\<close> into the item, then the swap of
  \<open>valuestring\<close> and \<open>string\<close>, then the colon.
\<close>

definition parse_name :: "cJSON \<Rightarrow> parse_buffer \<Rightarrow> (cJSON option \<times> parse_buffer) result" where
  "parse_name item b =
     and_then (parse_string item b) (\<lambda>(named, b1).
       case named of
         None \<Rightarrow> Inr (None, b1)
       | Some it \<Rightarrow>
           and_then (buffer_skip_whitespace b1) (\<lambda>b2.
             let it1 = set_valuestring None (set_string (item_valuestring it) it) in
             and_then (next_is (CHR '':'') b2) (\<lambda>colon.
               if colon then
                 and_then (buffer_skip_whitespace (forward 1 b2)) (\<lambda>b3. Inr (Some it1, b3))
               else Inr (None, b2))))"

definition element_name :: "bool \<Rightarrow> cJSON \<Rightarrow> parse_buffer \<Rightarrow> (cJSON option \<times> parse_buffer) result" where
  "element_name is_object item b = (if is_object then parse_name item b else Inr (Some item, b))"

text \<open>
  The start of one round of a container loop: a new item, step over the opening character
  or the comma, skip blanks.
\<close>

definition next_element :: "parse_buffer \<Rightarrow> (cJSON option \<times> parse_buffer) result" where
  "next_element b =
     (let (item, oks') = cJSON_New_Item (pb_allocs b); b1 = b\<lparr>pb_allocs := oks'\<rparr> in
      case item of
        None \<Rightarrow> Inr (None, b1)
      | Some it \<Rightarrow> and_then (buffer_skip_whitespace (forward 1 b1)) (\<lambda>b2. Inr (Some it, b2)))"

text \<open>
  \<open>parse_array\<close> and \<open>parse_object\<close> are the same code but for the brackets, the type and
  the loop over the elements, which is the argument \<open>els\<close>.
\<close>

definition parse_container ::
  "char \<Rightarrow> char \<Rightarrow> i32 \<Rightarrow> (parse_buffer \<Rightarrow> (cJSON list option \<times> parse_buffer) result option) \<Rightarrow>
   cJSON \<Rightarrow> parse_buffer \<Rightarrow> (cJSON option \<times> parse_buffer) result option" where
  "parse_container opening closing t els item b =
     and_step (Some (enter_container opening closing b)) (\<lambda>entered.
       case entered of
         Inl b1 \<Rightarrow> Some (Inr (None, b1))
       | Inr (b1, True) \<Rightarrow> Some (Inr (leave_container t item [] b1))
       | Inr (b1, False) \<Rightarrow>
           and_step (els b1) (\<lambda>(children, b2).
             case children of
               None \<Rightarrow> Some (Inr (None, b2))
             | Some cs \<Rightarrow>
                 and_step (Some (next_is closing b2)) (\<lambda>closed.
                   Some (Inr (if closed then leave_container t item cs b2 else (None, b2))))))"

fun parse_value :: "nat \<Rightarrow> cJSON \<Rightarrow> parse_buffer \<Rightarrow> (cJSON option \<times> parse_buffer) result option"
and parse_elements ::
  "nat \<Rightarrow> bool \<Rightarrow> cJSON list \<Rightarrow> parse_buffer \<Rightarrow> (cJSON list option \<times> parse_buffer) result option" where
  "parse_value 0 item b = None"
| "parse_value (Suc n) item b =
     (case value_kind_at b of
        Inl e \<Rightarrow> Some (Inl e)
      | Inr (Literal t len) \<Rightarrow> Some (Inr (Some (set_literal t item), forward len b))
      | Inr StringValue \<Rightarrow> Some (parse_string item b)
      | Inr NumberValue \<Rightarrow> Some (parse_number item b)
      | Inr ArrayValue \<Rightarrow>
          parse_container (CHR ''['') (CHR '']'') cJSON_Array (parse_elements n False []) item b
      | Inr ObjectValue \<Rightarrow>
          parse_container (CHR 0x7B) (CHR 0x7D) cJSON_Object (parse_elements n True []) item b
      | Inr NoValue \<Rightarrow> Some (Inr (None, b)))"
| "parse_elements 0 is_object children b = None"
| "parse_elements (Suc n) is_object children b =
     and_step (Some (next_element b)) (\<lambda>(new_item, b1).
       case new_item of
         None \<Rightarrow> Some (Inr (None, b1))
       | Some it \<Rightarrow>
           and_step (Some (element_name is_object it b1)) (\<lambda>(named, b2).
             case named of
               None \<Rightarrow> Some (Inr (None, b2))
             | Some it1 \<Rightarrow>
                 and_step (parse_value n it1 b2) (\<lambda>(parsed, b3).
                   case parsed of
                     None \<Rightarrow> Some (Inr (None, b3))
                   | Some it2 \<Rightarrow>
                       and_step (Some (buffer_skip_whitespace b3)) (\<lambda>b4.
                         and_step (Some (next_is (CHR '','') b4)) (\<lambda>comma.
                           if comma then parse_elements n is_object (children @ [it2]) b4
                           else Some (Inr (Some (children @ [it2]), b4)))))))"

section \<open>The entry points\<close>

text \<open>
  The result is the item and the offset at which parsing stopped (\<open>return_parse_end\<close>, and
  on failure the position recorded in \<open>global_error\<close>). The fuel covers the recursion, as
  is proved below.
\<close>

definition parse_fuel :: "nat \<Rightarrow> nat" where
  "parse_fuel buffer_length = 2 * buffer_length + 2"

definition error_position :: "parse_buffer \<Rightarrow> nat" where
  "error_position b = (if pb_offset b < pb_length b then pb_offset b else pb_length b - 1)"

definition cJSON_ParseWithLengthOpts ::
  "block \<Rightarrow> nat \<Rightarrow> bool \<Rightarrow> allocs \<Rightarrow> (cJSON option \<times> nat) result option" where
  "cJSON_ParseWithLengthOpts val buffer_length require_null_terminated oks =
     (if buffer_length = 0 then Some (Inr (None, 0))
      else let (item, oks') = cJSON_New_Item oks;
               buffer = \<lparr>pb_content = val, pb_length = buffer_length, pb_offset = 0, pb_depth = 0,
                 pb_allocs = oks'\<rparr>
           in case item of
             None \<Rightarrow> Some (Inr (None, 0))
           | Some it \<Rightarrow>
               and_step (Some (and_then (skip_utf8_bom buffer) buffer_skip_whitespace)) (\<lambda>b1.
               and_step (parse_value (parse_fuel buffer_length) it b1) (\<lambda>(parsed, b2).
                 case parsed of
                   None \<Rightarrow> Some (Inr (None, error_position b2))
                 | Some it' \<Rightarrow>
                     if require_null_terminated then
                       and_step (Some (buffer_skip_whitespace b2)) (\<lambda>b3.
                       and_step (Some (next_is NUL b3)) (\<lambda>ended.
                         Some (Inr (if ended then (Some it', pb_offset b3) else (None, error_position b3)))))
                     else Some (Inr (Some it', pb_offset b2)))))"

definition cJSON_ParseWithOpts ::
  "string \<Rightarrow> bool \<Rightarrow> allocs \<Rightarrow> (cJSON option \<times> nat) result option" where
  "cJSON_ParseWithOpts val require_null_terminated oks =
     cJSON_ParseWithLengthOpts (lit val) (length val + 1) require_null_terminated oks"

definition cJSON_Parse :: "string \<Rightarrow> (cJSON option \<times> nat) result option" where
  "cJSON_Parse val = cJSON_ParseWithOpts val False []"

definition cJSON_ParseWithLength :: "block \<Rightarrow> nat \<Rightarrow> (cJSON option \<times> nat) result option" where
  "cJSON_ParseWithLength val buffer_length = cJSON_ParseWithLengthOpts val buffer_length False []"

end
