(* ===== verification/Handler_Loop.thy ===== *)
theory Handler_Loop
  imports Handler_Correct CJson_Parse
begin

text \<open>
  The event loop of \<open>handler_process_request\<close> (lib/handler.c): receiving a request, parsing
  its body, and streaming the response. What \<open>read\<close>, \<open>send\<close> and \<open>epoll_ctl\<close> answer is the
  environment's choice and a parameter. EWOULDBLOCK is EAGAIN, as on Linux.
\<close>

section \<open>Receiving\<close>

datatype errno = Errno0 | EINTR | EAGAIN | EOther

text \<open>\<open>ReadBytes []\<close> is the end of the stream.\<close>

datatype read_outcome = ReadBytes "char list" | ReadError errno

record reader =
  request_buffer :: block
  buflen :: nat
  prevbuflen :: nat
  request_size :: nat
  retries :: nat
  last_errno :: errno

text \<open>
  How the \<open>while(1)\<close> ends: \<open>Broken\<close> and \<open>TooLarge\<close> are the two flags, \<open>Drained\<close> is the break
  after five times EAGAIN, and \<open>Parsed\<close> carries \<open>request_length\<close>, \<open>incoming_req\<close> and
  \<open>with_body\<close>.
\<close>

datatype receive_end = Broken | TooLarge | Drained | Parsed nat http_request bool

definition MAX_HEADERS :: nat where "MAX_HEADERS = 100"

definition is_post :: "http_request \<Rightarrow> bool result" where
  "is_post req =
     and_then (strcmp_eq (req_method req) (lit ''POST'')) (\<lambda>upper.
       if upper then Inr True else strcmp_eq (req_method req) (lit ''post''))"

text \<open>After a successful read: the attempt to parse. \<open>None\<close> is "incomplete, read on".\<close>

definition try_parse :: "(nat \<Rightarrow> char) \<Rightarrow> reader \<Rightarrow> receive_end option result" where
  "try_parse junk rd =
     (case phr_parse_request (request_buffer rd) (buflen rd) MAX_HEADERS (prevbuflen rd) of
        Inl e \<Rightarrow> Inl e
      | Inr (Inr (rq, request_length)) \<Rightarrow>
          if 0 < request_length then
            and_then (http_request_from junk (request_buffer rd) (phr_method rq) (phr_path rq)
              (phr_headers rq) (phr_method_len rq) (phr_path_len rq) (length (phr_headers rq))) (\<lambda>req.
            and_then (is_post req) (\<lambda>with_body. Inr (Some (Parsed request_length req with_body))))
          else Inr (Some Broken)
      | Inr (Inl ret) \<Rightarrow> if ret = - 2 then Inr None else Inr (Some Broken))"

text \<open>
  One answer of \<open>read\<close>. An interrupted read is repeated. The test for EAGAIN looks at \<open>errno\<close>
  also when the read has succeeded, and nothing resets \<open>errno\<close> after a failure.
\<close>

definition check_errno :: "reader \<Rightarrow> (reader \<Rightarrow> (receive_end option \<times> reader) result) \<Rightarrow>
    (receive_end option \<times> reader) result" where
  "check_errno rd continue =
     (if last_errno rd = EAGAIN then
        (let rd' = rd\<lparr>retries := retries rd + 1\<rparr> in
         Inr (if 5 \<le> retries rd' then Some Drained else None, rd'))
      else continue rd)"

definition receive_step ::
  "(nat \<Rightarrow> char) \<Rightarrow> nat \<Rightarrow> reader \<Rightarrow> read_outcome \<Rightarrow> (receive_end option \<times> reader) result" where
  "receive_step junk max_size rd outcome =
     (case outcome of
        ReadError e \<Rightarrow>
          if e = EINTR then Inr (None, rd\<lparr>last_errno := EINTR\<rparr>)
          else check_errno (rd\<lparr>last_errno := e\<rparr>) (\<lambda>rd'. Inr (Some Broken, rd'))
      | ReadBytes bs \<Rightarrow>
          and_then (put_bytes (request_buffer rd) (buflen rd) bs) (\<lambda>b.
          check_errno (rd\<lparr>request_buffer := b\<rparr>) (\<lambda>rd1.
            let rd2 = rd1\<lparr>prevbuflen := buflen rd1, buflen := buflen rd1 + length bs\<rparr> in
            if bs = [] then Inr (Some Broken, rd2)
            else
              let rd3 = rd2\<lparr>request_size := request_size rd2 + length bs\<rparr> in
              if max_size < request_size rd3 then Inr (Some TooLarge, rd3)
              else and_then (try_parse junk rd3) (\<lambda>r. Inr (r, rd3)))))"

text \<open>\<open>None\<close>: the answers of \<open>read\<close> given so far do not end the loop.\<close>

fun receive ::
  "(nat \<Rightarrow> char) \<Rightarrow> nat \<Rightarrow> reader \<Rightarrow> read_outcome list \<Rightarrow> (receive_end \<times> reader) option result" where
  "receive junk max_size rd [] = Inr None"
| "receive junk max_size rd (outcome # os) =
     and_then (receive_step junk max_size rd outcome) (\<lambda>(r, rd').
       case r of None \<Rightarrow> receive junk max_size rd' os | Some stop_reason \<Rightarrow> Inr (Some (stop_reason, rd')))"

text \<open>The buffer is a local array of \<open>max_request_size\<close> bytes.\<close>

definition new_reader :: "(nat \<Rightarrow> char) \<Rightarrow> nat \<Rightarrow> reader" where
  "new_reader stack max_size =
     \<lparr>request_buffer = malloc stack max_size, buflen = 0, prevbuflen = 0, request_size = 0,
      retries = 0, last_errno = Errno0\<rparr>"

section \<open>The body\<close>

text \<open>
  \<open>stack_room\<close> is what the thread's stack has left for \<open>body\<close>; a larger array, or one of a
  negative size, overruns it. \<open>None\<close> is a request that is skipped.
\<close>

definition run_parser :: "(cJSON option \<times> nat) result option \<Rightarrow> cJSON option result" where
  "run_parser r = (case r of None \<Rightarrow> Inl Diverged | Some x \<Rightarrow> and_then x (\<lambda>(item, _). Inr item))"

definition read_body ::
  "(nat \<Rightarrow> char) \<Rightarrow> nat \<Rightarrow> block \<Rightarrow> nat \<Rightarrow> i32 \<Rightarrow> block result" where
  "read_body junk stack_room buf request_length content_length =
     (if sint content_length < 0 \<or> stack_room < nat (sint content_length) + 1 then Inl OutOfBounds
      else let n = nat (sint content_length) in
        and_then (strncpy (malloc junk (n + 1)) 0 buf request_length n) (\<lambda>b. put_bytes b n [NUL]))"

definition parse_body ::
  "(nat \<Rightarrow> char) \<Rightarrow> block \<Rightarrow> nat \<Rightarrow> allocs \<Rightarrow> block \<Rightarrow> nat \<Rightarrow> http_request \<Rightarrow> http_request option result" where
  "parse_body junk slack stack_room oks buf request_length req =
     and_then (get_header junk slack buf (req_headers req) (req_num_headers req) ''Content-Length'')
       (\<lambda>str_content_length.
       case str_content_length of
         None \<Rightarrow> Inr None
       | Some v \<Rightarrow>
           and_then (c_string v 0) (\<lambda>s.
           let content_length = atoi s in
           and_then (read_body junk stack_room buf request_length content_length) (\<lambda>body.
           and_then (run_parser
             (cJSON_ParseWithLengthOpts body (nat (sint content_length) + 1) True oks)) (\<lambda>item.
             case item of
               None \<Rightarrow> Inr None
             | Some json \<Rightarrow> Inr (Some (req\<lparr>req_json_body := Inr (Some json)\<rparr>))))))"

section \<open>Events\<close>

text \<open>
  What a readable event leads to: the request is skipped (\<open>continue\<close>), the response waits for the socket,
  or \<open>epoll_ctl\<close> failed and the connection was closed. A loop that was left because the
  socket was drained goes on with an \<open>incoming_req\<close> nobody has written.
\<close>

datatype readable_end = Skipped | Responding http_response | Closed

definition unwritten_request :: http_request where
  "unwritten_request = \<lparr>req_method = [], req_path = [], req_headers = [],
     req_json_body = Inl Uninitialised, req_method_len = 0, req_path_len = 0, req_num_headers = 0\<rparr>"

definition respond ::
  "(nat \<Rightarrow> char) \<Rightarrow> string \<Rightarrow> handler \<Rightarrow> pronto \<Rightarrow> http_request \<Rightarrow> int \<Rightarrow> bool \<Rightarrow> (readable_end \<times> pronto) result" where
  "respond junk date h p req fd epoll_ok =
     and_then (build_response junk date h p req False fd) (\<lambda>(res, p').
       Inr (if epoll_ok then Responding res else Closed, p'))"

definition after_receive ::
  "(nat \<Rightarrow> char) \<Rightarrow> string \<Rightarrow> block \<Rightarrow> nat \<Rightarrow> allocs \<Rightarrow> handler \<Rightarrow> pronto \<Rightarrow> int \<Rightarrow> bool \<Rightarrow>
   receive_end \<times> reader \<Rightarrow> (readable_end \<times> pronto) result" where
  "after_receive junk date slack stack_room oks h p fd epoll_ok = (\<lambda>(r, rd).
     case r of
       Broken \<Rightarrow> Inr (Skipped, p)
     | TooLarge \<Rightarrow> Inr (Skipped, p)
     | Drained \<Rightarrow> respond junk date h p unwritten_request fd epoll_ok
     | Parsed request_length req with_body \<Rightarrow>
         if with_body then
           and_then (parse_body junk slack stack_room oks (request_buffer rd) request_length req) (\<lambda>r.
             case r of None \<Rightarrow> Inr (Skipped, p) | Some req' \<Rightarrow> respond junk date h p req' fd epoll_ok)
         else respond junk date h p req fd epoll_ok)"

text \<open>The whole EPOLLIN branch; \<open>None\<close> while the answers of \<open>read\<close> are not enough.\<close>

definition on_readable ::
  "(nat \<Rightarrow> char) \<Rightarrow> string \<Rightarrow> block \<Rightarrow> nat \<Rightarrow> allocs \<Rightarrow> handler \<Rightarrow> pronto \<Rightarrow> int \<Rightarrow> bool \<Rightarrow>
   read_outcome list \<Rightarrow> (readable_end \<times> pronto) option result" where
  "on_readable junk date slack stack_room oks h p fd epoll_ok os =
     and_then (receive junk (max_request_size h) (new_reader junk (max_request_size h)) os) (\<lambda>r.
       case r of
         None \<Rightarrow> Inr None
       | Some x \<Rightarrow> and_then (after_receive junk date slack stack_room oks h p fd epoll_ok x) (\<lambda>y. Inr (Some y)))"

section \<open>Streaming\<close>

text \<open>
  What \<open>send\<close> answers: a number of bytes it has taken, or an error. \<open>Sent\<close>: the bytes that went
  out with the response as it is stored then; \<open>Finished\<close>: the connection is closed behind them.
\<close>

datatype send_outcome = Taken nat | SendError errno

datatype writable_end = Sent "char list" http_response | Finished "char list" | Waiting | SendFailed

definition on_writable :: "http_response \<Rightarrow> send_outcome \<Rightarrow> writable_end result" where
  "on_writable res outcome =
     (case outcome of
        Taken n \<Rightarrow>
          and_then (read_bytes (res_stringified res) (res_stream_ptr res) n) (\<lambda>bs.
            let res' = res\<lparr>res_stream_ptr := res_stream_ptr res + n\<rparr> in
            Inr (if res_full_length res \<le> res_stream_ptr res' then Finished bs else Sent bs res'))
      | SendError e \<Rightarrow> Inr (if e = EAGAIN then Waiting else SendFailed))"

text \<open>
  Successive events, and what the client has received in total. \<open>send\<close> is asked for
  \<open>full_length\<close> bytes each time and may take that many.
\<close>

fun stream :: "http_response \<Rightarrow> send_outcome list \<Rightarrow> (char list \<times> bool) result" where
  "stream res [] = Inr ([], False)"
| "stream res (outcome # os) =
     and_then (on_writable res outcome) (\<lambda>r.
       case r of
         Sent bs res' \<Rightarrow> and_then (stream res' os) (\<lambda>(rest, fin). Inr (bs @ rest, fin))
       | Finished bs \<Rightarrow> Inr (bs, True)
       | Waiting \<Rightarrow> stream res os
       | SendFailed \<Rightarrow> stream res os)"

text \<open>An event that is neither readable nor writable alone ends the connection.\<close>

datatype connection_event = Readable | Writable | OtherEvent

definition EPOLLIN :: u32 where "EPOLLIN = 1"
definition EPOLLOUT :: u32 where "EPOLLOUT = 4"

definition event_kind :: "u32 \<Rightarrow> connection_event" where
  "event_kind events =
     (if events = EPOLLIN then Readable else if events = EPOLLOUT then Writable else OtherEvent)"

end
