(* ===== verification/Handler_Loop_Correct.thy ===== *)
theory Handler_Loop_Correct
  imports Handler_Loop
begin

text \<open>
  The event loop: what the client receives when a response is streamed, that receiving ends,
  and what goes wrong on the ways through the loop that the code does not guard.
\<close>

section \<open>Streaming\<close>

definition taken :: "send_outcome list \<Rightarrow> nat" where
  "taken os = sum_list (map (\<lambda>r. case r of Taken n \<Rightarrow> n | SendError e \<Rightarrow> 0) os)"

lemma taken_simps [simp]:
  "taken [] = 0" "taken (Taken n # os) = n + taken os" "taken (SendError e # os) = taken os"
  by (simp_all add: taken_def)

text \<open>The text of a response: what its buffer holds before the first NUL.\<close>

definition holds_text :: "http_response \<Rightarrow> string \<Rightarrow> bool" where
  "holds_text res sent \<longleftrightarrow> c_string (res_stringified res) 0 = Inr sent \<and> res_full_length res = length sent"

lemma holds_text_prefix:
  assumes "holds_text res sent"
  shows "take (length sent) (res_stringified res) = sent" and "length sent < length (res_stringified res)"
proof -
  have t: "takeWhile (\<lambda>c. c \<noteq> NUL) (res_stringified res) = sent"
    and l: "length sent < length (res_stringified res)"
    using assms by (auto simp: holds_text_def c_string_def Let_def split: if_splits)
  show "take (length sent) (res_stringified res) = sent"
    using takeWhile_eq_take [of "\<lambda>c. c \<noteq> NUL" "res_stringified res"] unfolding t by (rule sym)
  show "length sent < length (res_stringified res)" by (rule l)
qed

lemma on_writable_takes:
  assumes "holds_text res sent" and "res_stream_ptr res + n \<le> length sent"
  shows "on_writable res (Taken n) =
    Inr (if res_stream_ptr res + n = length sent then Finished (take n (drop (res_stream_ptr res) sent))
         else Sent (take n (drop (res_stream_ptr res) sent)) (res\<lparr>res_stream_ptr := res_stream_ptr res + n\<rparr>))"
proof -
  let ?k = "res_stream_ptr res"
  note b = holds_text_prefix [OF assms(1)]
  have "take n (drop ?k (res_stringified res)) = take n (drop ?k (take (length sent) (res_stringified res)))"
    using assms(2) by (simp add: drop_take min_def)
  then have "read_bytes (res_stringified res) ?k n = Inr (take n (drop ?k sent))"
    using b assms(2) by (simp add: read_bytes_def)
  then show ?thesis
    using assms by (auto simp: on_writable_def holds_text_def Let_def)
qed

lemma stream_from:
  "holds_text res sent \<Longrightarrow> res_stream_ptr res < length sent \<Longrightarrow>
   res_stream_ptr res + taken os \<le> length sent \<Longrightarrow>
   stream res os = Inr (take (taken os) (drop (res_stream_ptr res) sent),
     res_stream_ptr res + taken os = length sent)"
proof (induction os arbitrary: res)
  case (Cons r os)
  show ?case
  proof (cases r)
    case (Taken n)
    let ?k = "res_stream_ptr res" and ?res = "res\<lparr>res_stream_ptr := res_stream_ptr res + n\<rparr>"
    note w = on_writable_takes [OF Cons.prems(1), of n]
    show ?thesis
    proof (cases "?k + n = length sent")
      case True
      then have "taken os = 0" using Cons.prems(3) Taken by simp
      then show ?thesis using True w Taken by simp
    next
      case False
      have "stream ?res os = Inr (take (taken os) (drop (?k + n) sent), ?k + n + taken os = length sent)"
        using Cons.IH [of ?res] Cons.prems False Taken by (simp add: holds_text_def)
      then show ?thesis
        using False w Cons.prems(3) Taken by (simp add: take_add add.commute add.left_commute)
    qed
  next
    case (SendError e)
    then show ?thesis using Cons by (simp add: on_writable_def)
  qed
qed simp

text \<open>
  Streaming. When the socket never takes more than what is left of the response, the client
  receives the text from its start, in order and without gaps, as much of it as the socket has
  taken, through any number of partial sends and errors in between; the connection is closed
  exactly when all of it has been sent.
\<close>

lemma client_receives_text:
  assumes "says res status body socket" and "c_string (res_stringified res) 0 = Inr sent"
    and "taken os \<le> length sent"
  shows "stream res os = Inr (take (taken os) sent, taken os = length sent)"
proof -
  have h: "holds_text res sent" "res_stream_ptr res = 0"
    using assms(1,2) by (simp_all add: says_def holds_text_def Let_def)
  have "sent \<noteq> []" using assms(1,2) by (auto simp: says_def stringify_status_def Let_def)
  then show ?thesis using stream_from [OF h(1), of os] h(2) assms(3) by simp
qed

text \<open>A response to stream.\<close>

lemma sample_response:
  "\<exists>res. says res 404 (error_body ''not_found'') 7 \<and>
    c_string (res_stringified res) 0 =
      Inr (stringify_status 404 @ json_content_type @ header_end @ error_body ''not_found'')"
proof -
  obtain res where "says res 404 (error_body ''not_found'') 7"
    by (rule INTO_RESPONSE_says [OF roomy_zeros, of "error_body ''not_found''" 404 7]) simp
  then show ?thesis by (auto simp: says_def Let_def)
qed

lemma client_receives_text_witness:
  "\<exists>res sent. stream res [Taken 5, SendError EAGAIN, Taken 3] = Inr (take 8 sent, False) \<and> 8 < length sent"
proof -
  let ?sent = "stringify_status 404 @ json_content_type @ header_end @ error_body ''not_found''"
  obtain res where res: "says res 404 (error_body ''not_found'') 7" "c_string (res_stringified res) 0 = Inr ?sent"
    using sample_response by blast
  have len: "8 < length ?sent" by (simp add: stringify_status_def)
  then have "taken [Taken 5, SendError EAGAIN, Taken 3] \<le> length ?sent" by simp
  from client_receives_text [OF res this] len
  show ?thesis by (intro exI [of _ res] exI [of _ ?sent]) simp
qed

text \<open>
  \<open>send\<close> is always asked for the full length. If the socket has taken only \<open>m\<close> bytes and the
  next \<open>send\<close> takes all it is asked for, the client gets \<open>m\<close> bytes more than the response: what
  stands behind it in the buffer, or past the end of the buffer.
\<close>

lemma partial_send_overruns:
  assumes "says res status body socket" and "c_string (res_stringified res) 0 = Inr sent"
    and "0 < m" and "m < length sent"
  shows "stream res [Taken m, Taken (length sent)] =
    (if length sent + m \<le> length (res_stringified res)
     then Inr (sent @ take m (drop (length sent) (res_stringified res)), True) else Inl OutOfBounds)"
proof -
  have h: "holds_text res sent" "res_stream_ptr res = 0"
    using assms(1,2) by (simp_all add: says_def holds_text_def Let_def)
  let ?b = "res_stringified res"
  note b = holds_text_prefix [OF h(1)]
  have "on_writable res (Taken m) = Inr (Sent (take m sent) (res\<lparr>res_stream_ptr := m\<rparr>))"
    using on_writable_takes [OF h(1), of m] h(2) assms(4) by simp
  moreover have "on_writable (res\<lparr>res_stream_ptr := m\<rparr>) (Taken (length sent)) =
      (if length sent + m \<le> length ?b then Inr (Finished (take (length sent) (drop m ?b))) else Inl OutOfBounds)"
    using h by (simp add: on_writable_def read_bytes_def holds_text_def Let_def add.commute)
  moreover have "take m sent @ take (length sent) (drop m ?b) = sent @ take m (drop (length sent) ?b)"
  proof -
    have "take m sent = take m ?b" using b(1) assms(4) by (metis min.absorb1 less_imp_le take_take)
    then have "take m sent @ take (length sent) (drop m ?b) = take (m + length sent) ?b"
      by (simp add: take_add)
    also have "\<dots> = take (length sent) ?b @ take m (drop (length sent) ?b)"
      by (metis take_add add.commute)
    finally show ?thesis by (simp add: b(1))
  qed
  ultimately show ?thesis by simp
qed

lemma partial_send_overruns_witness:
  "\<exists>res sent. stream res [Taken 1, Taken (length sent)] =
    (if length sent + 1 \<le> length (res_stringified res)
     then Inr (sent @ take 1 (drop (length sent) (res_stringified res)), True) else Inl OutOfBounds)"
proof -
  let ?sent = "stringify_status 404 @ json_content_type @ header_end @ error_body ''not_found''"
  obtain res where res: "says res 404 (error_body ''not_found'') 7" "c_string (res_stringified res) 0 = Inr ?sent"
    using sample_response by blast
  have "1 < length ?sent" by (simp add: stringify_status_def)
  then show ?thesis by (intro exI) (rule partial_send_overruns [OF res zero_less_one])
qed

section \<open>Receiving ends\<close>

definition interrupted :: "read_outcome \<Rightarrow> bool" where
  "interrupted r \<longleftrightarrow> r = ReadError EINTR"

text \<open>What bounds the loop: the room for data and the retries that are left.\<close>

definition patience :: "nat \<Rightarrow> reader \<Rightarrow> nat" where
  "patience max_size rd = (max_size - request_size rd) + (5 - retries rd)"

lemma receive_step_patience:
  assumes "receive_step junk max_size rd r = Inr (None, rd')" and "\<not> interrupted r"
  shows "patience max_size rd' < patience max_size rd"
proof (cases r)
  case (ReadError e)
  with assms show ?thesis
    by (auto simp: receive_step_def interrupted_def check_errno_def patience_def Let_def split: if_splits)
next
  case (ReadBytes bs)
  with assms(1) obtain b where "check_errno (rd\<lparr>request_buffer := b\<rparr>) (\<lambda>rd1.
      let rd2 = rd1\<lparr>prevbuflen := buflen rd1, buflen := buflen rd1 + length bs\<rparr> in
      if bs = [] then Inr (Some Broken, rd2)
      else let rd3 = rd2\<lparr>request_size := request_size rd2 + length bs\<rparr> in
        if max_size < request_size rd3 then Inr (Some TooLarge, rd3)
        else and_then (try_parse junk rd3) (\<lambda>r. Inr (r, rd3))) = Inr (None, rd')"
    by (auto simp: receive_step_def elim: and_then_InrE)
  then show ?thesis
    by (cases bs) (auto simp: check_errno_def patience_def Let_def elim!: and_then_InrE split: if_splits)
qed

lemma receive_step_retries:
  assumes "receive_step junk max_size rd r = Inr (None, rd')" and "retries rd < 5"
  shows "retries rd' < 5"
proof (cases r)
  case (ReadError e)
  with assms show ?thesis
    by (auto simp: receive_step_def check_errno_def Let_def split: if_splits)
next
  case (ReadBytes bs)
  with assms show ?thesis
    by (auto simp: receive_step_def check_errno_def Let_def elim!: and_then_InrE split: if_splits)
qed

text \<open>A loop that has not ended has a retry left, so that the last answer it bears ends it.\<close>

lemma receive_ends:
  "retries rd < 5 \<Longrightarrow> patience max_size rd \<le> length (filter (\<lambda>r. \<not> interrupted r) os) \<Longrightarrow>
   receive junk max_size rd os \<noteq> Inr None"
proof (induction os arbitrary: rd)
  case Nil
  then show ?case by (simp add: patience_def)
next
  case (Cons r os)
  show ?case
  proof (cases "receive_step junk max_size rd r")
    case (Inr x)
    obtain e rd' where x: "x = (e, rd')" by (cases x)
    show ?thesis
    proof (cases e)
      case None
      have "patience max_size rd' \<le> length (filter (\<lambda>r. \<not> interrupted r) os)"
      proof (cases "interrupted r")
        case True
        then have "rd' = rd\<lparr>last_errno := EINTR\<rparr>"
          using Inr x by (auto simp: interrupted_def receive_step_def)
        then show ?thesis using Cons.prems True by (simp add: patience_def)
      next
        case False
        have "patience max_size rd' < patience max_size rd"
          using receive_step_patience [OF _ False] Inr x None by blast
        then show ?thesis using Cons.prems False by simp
      qed
      moreover have "retries rd' < 5" using receive_step_retries Cons.prems(1) Inr x None by blast
      ultimately show ?thesis using Cons.IH Inr x None by simp
    next
      case (Some s)
      then show ?thesis using Inr x by simp
    qed
  qed simp
qed

text \<open>
  C33. Receiving a request terminates: with \<open>max_size + 5\<close> answers of \<open>read\<close> that are not
  interruptions the loop has ended (or faulted), whatever the client sends, however often the
  socket is empty and however many interruptions there are in between.
\<close>

theorem receiving_terminates:
  assumes "max_size + 5 \<le> length (filter (\<lambda>r. \<not> interrupted r) os)"
  shows "receive junk max_size (new_reader junk max_size) os \<noteq> Inr None"
  by (rule receive_ends) (use assms in \<open>simp_all add: patience_def new_reader_def\<close>)

lemma receiving_terminates_witness:
  "receive (\<lambda>_. NUL) 2 (new_reader (\<lambda>_. NUL) 2) (ReadError EINTR # replicate 7 (ReadError EAGAIN)) \<noteq> Inr None"
  by (rule receiving_terminates) (simp add: interrupted_def eval_nat_numeral)

section \<open>An empty socket\<close>

text \<open>Once \<open>errno\<close> is EAGAIN, data that arrives is thrown away and counted as a retry.\<close>

lemma receive_stuck:
  "last_errno rd = EAGAIN \<Longrightarrow> retries rd + length dat = 5 \<Longrightarrow> 0 < length dat \<Longrightarrow>
   \<forall>bs \<in> set dat. buflen rd + length bs \<le> length (request_buffer rd) \<Longrightarrow>
   \<exists>rd'. receive junk max_size rd (map ReadBytes dat @ os) = Inr (Some (Drained, rd'))"
proof (induction dat arbitrary: rd)
  case (Cons bs dat)
  obtain b where b: "put_bytes (request_buffer rd) (buflen rd) bs = Inr b"
    using Cons.prems(4) by (simp add: put_bytes_def)
  then have len: "length b = length (request_buffer rd)" by (rule put_bytes_length)
  let ?rd = "rd\<lparr>request_buffer := b, retries := retries rd + 1\<rparr>"
  have step: "receive_step junk max_size rd (ReadBytes bs) = Inr (if 4 \<le> retries rd then Some Drained else None, ?rd)"
    using b Cons.prems(1) by (simp add: receive_step_def check_errno_def Let_def)
  show ?case
  proof (cases dat)
    case Nil
    then show ?thesis using Cons.prems(2) step by simp
  next
    case (Cons c cs)
    then have "\<not> 4 \<le> retries rd" using Cons.prems(2) by simp
    moreover have "\<exists>rd'. receive junk max_size ?rd (map ReadBytes dat @ os) = Inr (Some (Drained, rd'))"
      by (rule Cons.IH) (use Cons.prems len Cons in simp_all)
    ultimately show ?thesis using step by simp
  qed
qed simp

text \<open>
  C40. One answer "try again" is fatal. When the first \<open>read\<close> finds the socket empty, the next four
  reads are ignored although they deliver data; then the loop ends as if the request had been
  drained, and the code goes on with a request structure nobody has written.
\<close>

theorem one_eagain_is_fatal:
  assumes "length dat = 4" and "\<forall>bs \<in> set dat. length bs \<le> max_request_size h"
  shows "on_readable junk date slack stack_room oks h p fd epoll_ok (ReadError EAGAIN # map ReadBytes dat @ os) =
    Inl Uninitialised"
proof -
  let ?rd = "new_reader junk (max_request_size h)"
  have "receive_step junk (max_request_size h) ?rd (ReadError EAGAIN) =
      Inr (None, ?rd\<lparr>last_errno := EAGAIN, retries := 1\<rparr>)"
    by (simp add: receive_step_def check_errno_def new_reader_def Let_def)
  moreover have "\<exists>rd'. receive junk (max_request_size h) (?rd\<lparr>last_errno := EAGAIN, retries := 1\<rparr>)
      (map ReadBytes dat @ os) = Inr (Some (Drained, rd'))"
    by (rule receive_stuck) (use assms in \<open>auto simp: new_reader_def\<close>)
  ultimately show ?thesis
    by (auto simp: on_readable_def after_receive_def respond_def build_response_def unwritten_request_def)
qed

lemma one_eagain_is_fatal_witness:
  "on_readable (\<lambda>_. NUL) ''now'' [] 0 [] (handler_init 3 4 10 10 10) (pronto_init 2 1) 7 True
     (ReadError EAGAIN # map ReadBytes [''GET '', ''/ '', ''HTTP'', ''/1.0''] @ []) = Inl Uninitialised"
  by (rule one_eagain_is_fatal) (simp_all add: handler_init_def)

end
