(* ===== verification/Picohttp_Chunks.thy ===== *)
theory Picohttp_Chunks
  imports Picohttp_Roundtrip
begin

text \<open>
  Parsing a request that arrives in pieces. Each call passes the length of the previous
  attempt, and the parser then first looks, from three bytes before that point on, whether the
  empty line has arrived (\<open>is_complete\<close>). For printed requests this shortcut never gives a
  wrong verdict.
\<close>

section \<open>The shape of a printed request\<close>

text \<open>Every carriage return is followed by a line feed.\<close>

fun crlf :: "string \<Rightarrow> bool" where
  "crlf [] \<longleftrightarrow> True"
| "crlf (c # s) \<longleftrightarrow> (c = CR \<longrightarrow> s \<noteq> [] \<and> hd s = LF) \<and> crlf s"

lemma crlf_append: "crlf s \<Longrightarrow> crlf t \<Longrightarrow> crlf (s @ t)"
  by (induction s) (auto simp: hd_append)

lemma crlf_free: "list_all (\<lambda>c. c \<noteq> CR) s \<Longrightarrow> crlf s"
  by (induction s) auto

lemma crlf_occurs:
  "occurs b p s \<Longrightarrow> crlf s \<Longrightarrow> p \<le> i \<Longrightarrow> i < p + length s \<Longrightarrow> b ! i = CR \<Longrightarrow>
   b ! (i + 1) = LF \<and> i + 1 < p + length s"
proof (induction s arbitrary: p)
  case (Cons c s)
  show ?case
  proof (cases "i = p")
    case True
    then have "s \<noteq> []" "hd s = LF" using Cons.prems by auto
    then show ?thesis using Cons.prems(1) True by (cases s) auto
  next
    case False
    with Cons.IH [of "p + 1"] Cons.prems show ?thesis by auto
  qed
qed simp

lemma digit_char_not_CR: "v \<le> 9 \<Longrightarrow> digit_char v \<noteq> CR"
proof
  assume v: "v \<le> 9" and cr: "digit_char v = CR"
  have "of_char (digit_char v) = (48 + v :: nat)" using v by (simp add: of_char_digit_char)
  with cr show False by simp
qed

lemma header_text_crlf:
  assumes "good_header h"
  shows "crlf (header_text h)"
proof -
  have n: "list_all (\<lambda>c. c \<noteq> CR) (fst h @ '': '' @ snd h)"
    using assms token_char_not(3) line_end_control(1)
    by (auto simp: good_header_def good_token_def good_value_def list_all_iff)
  have "crlf ((fst h @ '': '' @ snd h) @ [CR, LF])"
    by (rule crlf_append [OF crlf_free [OF n]]) simp
  then show ?thesis by (simp add: header_text_def)
qed

lemma concat_crlf: "list_all crlf ss \<Longrightarrow> crlf (concat ss)"
  by (induction ss) (auto intro: crlf_append)

lemma control_char_CR: "control_char CR"
  by (simp add: control_char_def)

lemma request_text_crlf:
  assumes "good_token m" and "good_path path" and "v \<le> 9" and "list_all good_header hs"
  shows "crlf (request_text m path v hs)"
proof -
  have "list_all (\<lambda>c. c \<noteq> CR) (m @ '' '' @ path @ '' HTTP/1.'' @ [digit_char v])"
    using assms(1-3) token_char_not(3) control_char_CR digit_char_not_CR
    by (auto simp: good_token_def good_path_def list_all_iff)
  note 1 = crlf_free [OF this]
  have "list_all crlf (map header_text hs)" using assms(4) header_text_crlf by (auto simp: list_all_iff)
  then have "crlf ((m @ '' '' @ path @ '' HTTP/1.'' @ [digit_char v]) @ [CR, LF] @
      concat (map header_text hs) @ [CR, LF])"
    by (intro crlf_append 1 concat_crlf) simp_all
  then show ?thesis by (simp add: request_text_def)
qed

lemma header_text_end:
  assumes "good_header h"
  shows "\<exists>w x. header_text h = w @ [x, CR, LF] \<and> x \<noteq> CR"
proof (cases "snd h" rule: rev_cases)
  case Nil
  then show ?thesis by (intro exI [of _ "fst h @ '':''"] exI [of _ "CHR '' ''"]) (simp add: header_text_def)
next
  case (snoc u x)
  then have "x \<noteq> CR" using assms by (auto simp: good_header_def good_value_def)
  with snoc show ?thesis by (intro exI [of _ "fst h @ '': '' @ u"] exI [of _ x]) (simp add: header_text_def)
qed

lemma request_text_end:
  assumes "v \<le> 9" and "list_all good_header hs"
  shows "\<exists>w x. request_text m path v hs = w @ [x] @ [CR, LF, CR, LF] \<and> x \<noteq> CR"
proof (cases hs rule: rev_cases)
  case Nil
  then show ?thesis
    by (intro exI [of _ "m @ '' '' @ path @ '' HTTP/1.''"] exI [of _ "digit_char v"])
      (simp add: request_text_def digit_char_not_CR [OF assms(1)])
next
  case (snoc gs g)
  then obtain w x where "header_text g = w @ [x, CR, LF]" "x \<noteq> CR"
    using header_text_end [of g] assms(2) by auto
  with snoc show ?thesis
    by (intro exI [of _ "m @ '' '' @ path @ '' HTTP/1.'' @ [digit_char v] @ [CR, LF] @ concat (map header_text gs) @ w"]
        exI [of _ x]) (simp add: request_text_def)
qed

section \<open>The completeness test\<close>

lemma is_complete_loop_not_rejecting:
  "p \<le> e \<Longrightarrow> e \<le> length b \<Longrightarrow> (\<And>i. p \<le> i \<Longrightarrow> i + 1 < e \<Longrightarrow> b ! i = CR \<Longrightarrow> b ! (i + 1) = LF) \<Longrightarrow>
   is_complete_loop b e k p \<noteq> stop (- 1)"
proof (induction b e k p rule: is_complete_loop.induct)
  case (1 b e k p)
  show ?case
  proof (cases "p < e")
    case True
    then have p: "p < length b" using 1(5) by simp
    show ?thesis
    proof (cases "b ! p = CR")
      case cr: True
      show ?thesis
      proof (cases "p + 1 < e")
        case e: True
        then have "b ! (p + 1) = LF" using 1(6) cr by simp
        then have x: "EXPECT_CHAR b e (p + 1) LF = accept (p + 2)"
          using e 1(5) EXPECT_CHAR_reads [of b "p + 1" LF e] by simp
        have "is_complete_loop b e (k + 1) (p + 2) \<noteq> stop (- 1)" if "k \<noteq> 1"
          by (rule 1(1)) (use True p cr e x that 1(5,6) in \<open>auto simp: CHECK_EOF_def\<close>)
        then show ?thesis
          using True p cr e x by (subst is_complete_loop.simps) (simp add: CHECK_EOF_def)
      next
        case False
        then show ?thesis using True p cr by (subst is_complete_loop.simps) (simp add: CHECK_EOF_def)
      qed
    next
      case ncr: False
      have "is_complete_loop b e (k + 1) (p + 1) \<noteq> stop (- 1)" if "b ! p = LF" "k \<noteq> 1"
        by (rule 1(2)) (use True p ncr that 1(5,6) in \<open>auto simp: CHECK_EOF_def\<close>)
      moreover have "is_complete_loop b e 0 (p + 1) \<noteq> stop (- 1)" if "b ! p \<noteq> LF"
        by (rule 1(3)) (use True p ncr that 1(5,6) in \<open>auto simp: CHECK_EOF_def\<close>)
      ultimately show ?thesis
        using True p ncr by (subst is_complete_loop.simps) (simp add: CHECK_EOF_def)
    qed
  next
    case False
    then show ?thesis using 1(4) by (subst is_complete_loop.simps) (simp add: CHECK_EOF_def)
  qed
qed

text \<open>The empty line at the end is found from every position before it.\<close>

lemma is_complete_loop_finds:
  "p + 4 \<le> t \<Longrightarrow> t \<le> e \<Longrightarrow> e \<le> length b \<Longrightarrow> k \<le> 1 \<Longrightarrow> occurs b (t - 4) [CR, LF, CR, LF] \<Longrightarrow>
   (p + 4 < t \<longrightarrow> b ! (t - 5) \<noteq> CR) \<Longrightarrow>
   (\<And>i. p \<le> i \<Longrightarrow> i + 1 < t \<Longrightarrow> b ! i = CR \<Longrightarrow> b ! (i + 1) = LF) \<Longrightarrow>
   \<exists>q. is_complete_loop b e k p = accept q"
proof (induction b e k p rule: is_complete_loop.induct)
  case (1 b e k p)
  then have e: "p < e" "p + 1 < e" "p < length b" "p + 1 < length b" by simp_all
  show ?case
  proof (cases "b ! p = CR")
    case cr: True
    then have lf: "b ! (p + 1) = LF" using 1(4,10) by simp
    then have x: "EXPECT_CHAR b e (p + 1) LF = accept (p + 2)"
      using e EXPECT_CHAR_reads [of b "p + 1" LF e] by simp
    have go: "\<exists>q. is_complete_loop b e (k + 1) (p + 2) = accept q" if k: "k \<noteq> 1"
    proof (cases "p + 4 = t")
      case True
      then have "b ! (p + 2) = CR" "b ! (p + 3) = LF" "p + 3 < length b" "p + 3 < e"
        using 1(5,6,8) by (simp_all add: numeral_eq_Suc flip: True)
      moreover from this have "EXPECT_CHAR b e (p + 3) LF = accept (p + 4)"
        using EXPECT_CHAR_reads [of b "p + 3" LF e] by simp
      moreover have "k = 0" using k 1(7) by simp
      ultimately show ?thesis
        by (subst is_complete_loop.simps) (simp add: CHECK_EOF_def numeral_eq_Suc)
    next
      case False
      moreover have "p + 5 \<noteq> t" using 1(9) cr False 1(4) by auto
      ultimately have t: "p + 2 + 4 \<le> t" using 1(4) by simp
      show ?thesis
        by (rule 1(1) [OF e(3) cr]) (use e x k t 1(5-10) in \<open>auto simp: CHECK_EOF_def\<close>)
    qed
    show ?thesis
    proof (cases "k = 1")
      case True
      then show ?thesis using e cr x by (subst is_complete_loop.simps) (simp add: CHECK_EOF_def)
    next
      case False
      then show ?thesis using go e cr x by (subst is_complete_loop.simps) (simp add: CHECK_EOF_def)
    qed
  next
    case ncr: False
    then have "p + 4 \<noteq> t" using 1(8) by auto
    then have t: "p + 1 + 4 \<le> t" using 1(4) by simp
    have "\<exists>q. is_complete_loop b e (k + 1) (p + 1) = accept q" if "b ! p = LF" "k \<noteq> 1"
      by (rule 1(2) [OF e(3) ncr that]) (use e t that 1(5-10) in \<open>auto simp: CHECK_EOF_def\<close>)
    moreover have "\<exists>q. is_complete_loop b e 0 (p + 1) = accept q" if "b ! p \<noteq> LF"
      by (rule 1(3) [OF e(3) ncr that]) (use e t 1(5-10) in \<open>auto simp: CHECK_EOF_def\<close>)
    ultimately show ?thesis
      using e ncr by (subst is_complete_loop.simps) (simp add: CHECK_EOF_def)
  qed
qed

section \<open>Parsing in pieces\<close>

text \<open>
  What a call answers that has \<open>len\<close> bytes of a buffer in which a printed request stands, after
  an attempt with \<open>last_len\<close> bytes.
\<close>

definition parsed_as ::
  "block \<Rightarrow> phr_request \<Rightarrow> string \<Rightarrow> string \<Rightarrow> nat \<Rightarrow> (string \<times> string) list \<Rightarrow> bool" where
  "parsed_as b rq m path v hs \<longleftrightarrow>
     slice b (phr_method rq) (phr_method_len rq) = m \<and> slice b (phr_path rq) (phr_path_len rq) = path \<and>
     phr_minor_version rq = v \<and> map (header_strings b) (phr_headers rq) = hs"

lemma incomplete_prefix:
  assumes occ: "occurs b 0 (request_text m path v hs)"
    and good: "good_token m" "good_path path" "v \<le> 9" "list_all good_header hs" "length hs \<le> n"
    and len: "len < length (request_text m path v hs)" "length (request_text m path v hs) \<le> length b"
  shows "parse_request b len 0 n = stop (- 2)"
proof (rule ccontr)
  let ?t = "length (request_text m path v hs)"
  assume "parse_request b len 0 n \<noteq> stop (- 2)"
  moreover have "continues b len b ?t" using len by (simp add: continues_def)
  ultimately have same: "parse_request b ?t 0 n = parse_request b len 0 n"
    using parse_request_ext [of b len b ?t 0 n] by (simp add: extends_def)
  obtain rq where "parse_request b ?t 0 n = accept (rq, ?t)"
    using parse_request_reads [OF occ good] len(2) by auto
  then have "parse_request b len 0 n = accept (rq, ?t)" using same by simp
  with parse_request_ok [of 0 len b n] len show False by simp
qed

lemma incomplete_piece:
  assumes same: "take len b = take len (request_text m path v hs)"
    and good: "good_token m" "good_path path" "v \<le> 9" "list_all good_header hs" "length hs \<le> n"
    and len: "last_len \<le> len" "len \<le> length b" "len < length (request_text m path v hs)"
  shows "phr_parse_request b len n last_len = stop (- 2)"
proof -
  let ?t = "request_text m path v hs"
  have nth: "b ! i = ?t ! i" if "i < len" for i
    using same that by (metis nth_take)
  then have "continues ?t len b len" using len by (simp add: continues_def)
  then have "parse_request b len 0 n = parse_request ?t len 0 n" by (rule parse_request_local) simp
  also have "\<dots> = stop (- 2)"
    using incomplete_prefix [OF _ good len(3)] occurs_prefix [of ?t "[]"] by simp
  finally have req: "parse_request b len 0 n = stop (- 2)" .
  have cr: "b ! (i + 1) = LF" if "i + 1 < len" "b ! i = CR" for i
    using crlf_occurs [of ?t 0 ?t i] request_text_crlf [OF good(1-4)] occurs_prefix [of ?t "[]"] nth that len(3)
    by simp
  have "is_complete b len last_len \<noteq> stop (- 1)"
    unfolding is_complete_def
    by (rule is_complete_loop_not_rejecting) (use len cr in auto)
  then have "is_complete b len last_len = stop (- 2) \<or> (\<exists>q. is_complete b len last_len = accept q)"
    using is_complete_ok [OF len(1,2)] by (cases "is_complete b len last_len" rule: scan_cases) auto
  then show ?thesis using req by (auto simp: phr_parse_request_def)
qed

lemma complete_piece:
  assumes occ: "occurs b 0 (request_text m path v hs)"
    and good: "good_token m" "good_path path" "v \<le> 9" "list_all good_header hs" "length hs \<le> n"
    and len: "length (request_text m path v hs) \<le> len" "len \<le> length b" "last_len < length (request_text m path v hs)"
  shows "\<exists>rq. phr_parse_request b len n last_len = accept (rq, length (request_text m path v hs)) \<and>
      parsed_as b rq m path v hs"
proof -
  let ?t = "length (request_text m path v hs)" and ?p = "if last_len < 3 then 0 else last_len - 3"
  have cr: "b ! (i + 1) = LF" if "i < ?t" "b ! i = CR" for i
    using crlf_occurs [OF occ request_text_crlf [OF good(1-4)], of i] that by simp
  obtain w x where wx: "request_text m path v hs = w @ [x] @ [CR, LF, CR, LF]" "x \<noteq> CR"
    using request_text_end [OF good(3,4)] by blast
  then have t: "?t = length w + 5" by simp
  have tail: "occurs b (?t - 4) [CR, LF, CR, LF]" "b ! (?t - 5) \<noteq> CR"
    using occ wx unfolding wx(1) by simp_all
  obtain rq where rq: "parse_request b len 0 n = accept (rq, ?t)" "parsed_as b rq m path v hs"
    using parse_request_reads [OF occ good, of len] len by (auto simp: parsed_as_def)
  have "\<exists>q. is_complete b len last_len = accept q" if "last_len \<noteq> 0"
    unfolding is_complete_def
    by (rule is_complete_loop_finds [where t = ?t]) (use len tail cr t in auto)
  then have "phr_parse_request b len n last_len = accept (rq, ?t)"
    using rq(1) by (auto simp: phr_parse_request_def)
  with rq(2) show ?thesis by auto
qed

lemma occurs_take: "take (length t) b = t \<Longrightarrow> occurs b 0 t"
  using occurs_prefix [of t "drop (length t) b"] append_take_drop_id [of "length t" b] by simp

text \<open>
  C13. Parsing in pieces. While a printed request arrives, every call of the parser that passes the
  length of the previous attempt answers "incomplete" as long as a byte of the request is
  missing, and the first call that has all of it gives back the request, however the pieces are
  cut and whatever follows in the buffer: the completeness test with \<open>last_len\<close> never changes the
  verdict.
\<close>

theorem request_in_pieces:
  assumes "take len b = take len (request_text m path v hs @ rest)"
    and "good_token m" and "good_path path" and "v \<le> 9" and "list_all good_header hs" and "length hs \<le> n"
    and "last_len \<le> len" and "len \<le> length b" and "last_len < length (request_text m path v hs)"
    and "len \<le> length (request_text m path v hs @ rest)"
  shows "if len < length (request_text m path v hs) then phr_parse_request b len n last_len = stop (- 2)
    else \<exists>rq. phr_parse_request b len n last_len = accept (rq, length (request_text m path v hs)) \<and>
      parsed_as b rq m path v hs"
proof (cases "len < length (request_text m path v hs)")
  case True
  then have "take len b = take len (request_text m path v hs)" using assms(1) by simp
  from incomplete_piece [OF this assms(2-8) True] True show ?thesis by simp
next
  case False
  have "take (length (request_text m path v hs)) b = take (length (request_text m path v hs)) (take len b)"
    using False by (simp add: min_def)
  also have "\<dots> = request_text m path v hs" using False unfolding assms(1) by simp
  finally have "occurs b 0 (request_text m path v hs)" by (rule occurs_take)
  from complete_piece [OF this assms(2-6) _ assms(8,9)] False show ?thesis by simp
qed

lemma request_in_pieces_witness:
  "\<exists>rq. phr_parse_request (request_text ''GET'' ''/'' 0 [(''a'', ''b'')] @ ''zz'') 24 5 20 = accept (rq, 24) \<and>
    parsed_as (request_text ''GET'' ''/'' 0 [(''a'', ''b'')] @ ''zz'') rq ''GET'' ''/'' 0 [(''a'', ''b'')]"
proof -
  have len: "length (request_text ''GET'' ''/'' 0 [(''a'', ''b'')]) = 24" by code_simp
  have good: "good_token ''GET''" "good_path ''/''" "list_all good_header [(''a'', ''b'')]" by code_simp+
  show ?thesis
    using request_in_pieces [OF refl good(1,2) _ good(3), where n = 5 and last_len = 20 and len = 24 and v = 0
        and rest = "''zz''"] len by simp
qed

end
