(* ===== verification/CJson_Roundtrip.thy ===== *)
theory CJson_Roundtrip
  imports CJson_Parse
begin

text \<open>
  The JSON parser reads what clients of the service write: objects whose members are
  non-negative integers. A printer for them, and the proof that the parser gives back the
  object, names and values, from its text.
\<close>

section \<open>Printing flat objects\<close>

type_synonym int_members = "(string \<times> nat) list"

definition member_text :: "string \<times> nat \<Rightarrow> string" where
  "member_text m = [CHR 0x22] @ fst m @ [CHR 0x22, CHR '':''] @ show_nat (snd m)"

fun members_text :: "int_members \<Rightarrow> string" where
  "members_text [] = []"
| "members_text [m] = member_text m"
| "members_text (m # ms) = member_text m @ '','' @ members_text ms"

definition object_text :: "int_members \<Rightarrow> string" where
  "object_text ms = [CHR 0x7B] @ members_text ms @ [CHR 0x7D]"

text \<open>Names that need no escapes, and values a C int and a double hold.\<close>

definition plain_char :: "char \<Rightarrow> bool" where
  "plain_char c \<longleftrightarrow> c \<noteq> CHR 0x22 \<and> c \<noteq> CHR 0x5C \<and> c \<noteq> NUL"

definition good_member :: "string \<times> nat \<Rightarrow> bool" where
  "good_member m \<longleftrightarrow> list_all plain_char (fst m) \<and> snd m < 2 ^ 31"

definition member_item :: "string \<times> nat \<Rightarrow> cJSON" where
  "member_item m = CJSON cJSON_Number None (word_of_nat (snd m)) (Finite (of_nat (snd m))) (Some (fst m)) []"

definition object_item :: "int_members \<Rightarrow> cJSON" where
  "object_item ms = CJSON cJSON_Object None 0 (Finite 0) None (map member_item ms)"

section \<open>Numbers\<close>

lemma digits_rev_length: "n < 10 ^ Suc k \<Longrightarrow> length (digits_rev n) \<le> Suc k"
proof (induction k arbitrary: n)
  case 0
  then show ?case by (simp add: digits_rev.simps [of n])
next
  case (Suc k)
  have "length (digits_rev (n div 10)) \<le> Suc k" if "\<not> n < 10"
    by (rule Suc.IH) (use Suc.prems in \<open>simp add: div_less_iff_less_mult\<close>)
  then show ?case by (simp add: digits_rev.simps [of n])
qed

lemma show_nat_length: "n < 2 ^ 31 \<Longrightarrow> length (show_nat n) \<le> 10"
  using digits_rev_length [of n 9] by (simp add: show_nat_def)

lemma round_half_even_int: "round_half_even (of_int k) = k"
  by (simp add: round_half_even_def Let_def)

lemma bitlen_le: "n < 2 ^ 32 \<Longrightarrow> bitlen (int n) \<le> 32"
proof -
  assume "n < 2 ^ 32"
  then have "int n < int (2 ^ 32)" by (simp only: of_nat_less_iff)
  then have "int n < 2 ^ nat 32" by simp
  then show ?thesis using bitlen_le_iff_power [of "int n" 32] by simp
qed

lemma binary_exponent_le:
  assumes "n < 2 ^ 32"
  shows "binary_exponent (of_nat n) \<le> 32"
proof -
  have "quotient_of (of_nat n :: rat) = (int n, 1)" using quotient_of_int [of "int n"] by simp
  then show ?thesis using bitlen_le [OF assms] bitlen_nonneg [of 1] by (simp add: binary_exponent_def Let_def)
qed

lemma round_double_nat:
  assumes "n < 2 ^ 32"
  shows "round_double (of_nat n) = Finite (of_nat n)"
proof (cases "n = 0")
  case True
  then show ?thesis by (simp add: round_double_def)
next
  case False
  let ?e = "max (binary_exponent (of_nat n)) (- 1022)"
  define k where "k = int n * 2 ^ nat (52 - ?e)"
  have e: "?e \<le> 32" using binary_exponent_le [OF assms] by simp
  have up: "scale2 (52 - ?e) (of_nat n) = of_int k"
    using e by (simp add: scale2_def k_def)
  have down: "scale2 (?e - 52) (of_int k) = of_nat n"
    using e by (simp add: scale2_def k_def)
  have "n < 2 ^ 1024" using assms by (rule less_le_trans) (rule power_increasing; simp)
  then have "(of_nat n :: rat) < of_nat (2 ^ 1024)" by (simp only: of_nat_less_iff)
  then have lt: "\<not> of_int (2 ^ 1024) \<le> (of_nat n :: rat)" by simp
  have "(of_nat n :: rat) \<noteq> 0" "\<not> (of_nat n :: rat) < 0" using False by simp_all
  then show ?thesis
    unfolding round_double_def Let_def abs_of_nat up round_half_even_int down
    by (simp only: lt if_False)
qed

lemma strtod_show_nat:
  assumes "n < 2 ^ 32"
  shows "strtod (show_nat n) = (Finite (of_nat n), length (show_nat n))"
proof -
  obtain c s where s: "show_nat n = c # s" by (cases "show_nat n") auto
  then have "is_digit c" using show_nat_digits [of c n] by simp
  then have c: "c \<noteq> CHR ''+''" "c \<noteq> CHR ''-''" using digit_not by auto
  have "dropWhile is_digit (show_nat n) = []" using show_nat_digits by (simp add: dropWhile_eq_Nil_conv)
  then show ?thesis
    using c round_double_nat [OF assms] takeWhile_digits_show [of n] digits_value_show [of n]
    by (simp add: strtod_def strtod_exponent_def scale10_def s)
qed

lemma saturated_int_nat:
  assumes "n < 2 ^ 31"
  shows "saturated_int (Finite (of_nat n)) = Inr (word_of_nat n)"
proof (cases "n = 2147483647")
  case True
  then show ?thesis by (simp add: saturated_int_def INT_MAX_def)
next
  case False
  then have "n < 2147483647" using assms by simp
  then have "\<not> (2147483647 :: rat) \<le> of_nat n" by (simp add: not_le)
  moreover have "\<not> of_nat n \<le> (- 2147483648 :: rat)"
    using of_nat_0_le_iff [of n, where 'a = rat] by linarith
  ultimately show ?thesis
    by (simp add: saturated_int_def INT_MAX_def INT_MIN_def CJson.truncate_def)
qed

section \<open>The buffer at an offset\<close>

text \<open>The parse buffer over the whole block \<open>c\<close>, when every allocation succeeds.\<close>

definition buf_at :: "block \<Rightarrow> nat \<Rightarrow> nat \<Rightarrow> parse_buffer" where
  "buf_at c p d = \<lparr>pb_content = c, pb_length = length c, pb_offset = p, pb_depth = d, pb_allocs = []\<rparr>"

lemma buf_at_simps [simp]:
  "pb_content (buf_at c p d) = c" "pb_length (buf_at c p d) = length c" "pb_offset (buf_at c p d) = p"
  "pb_depth (buf_at c p d) = d" "pb_allocs (buf_at c p d) = []" "forward n (buf_at c p d) = buf_at c (p + n) d"
  "(buf_at c p d)\<lparr>pb_offset := q\<rparr> = buf_at c q d" "(buf_at c p d)\<lparr>pb_allocs := []\<rparr> = buf_at c p d"
  "(buf_at c p d)\<lparr>pb_depth := e\<rparr> = buf_at c p e"
  by (simp_all add: buf_at_def forward_def)

lemma peek_at_at [simp]: "q < length c \<Longrightarrow> peek_at (buf_at c p d) q = Inr (c ! q)"
  by (simp add: peek_at_def)

lemma next_is_at: "p < length c \<Longrightarrow> next_is x (buf_at c p d) = Inr (c ! p = x)"
  by (simp add: next_is_def can_access_at_index_def)

text \<open>A byte above the blank: whitespace skipping stays.\<close>

definition dark :: "char \<Rightarrow> bool" where
  "dark c \<longleftrightarrow> (32 :: nat) < of_char c"

lemma dark_chars [simp]:
  "dark (CHR 0x22)" "dark (CHR '':'')" "dark (CHR '','')" "dark (CHR 0x7B)" "dark (CHR 0x7D)"
  by (simp_all add: dark_def)

lemma dark_digit: "is_digit c \<Longrightarrow> dark c"
  by (simp add: dark_def is_digit_def)

lemma skip_at: "p < length c \<Longrightarrow> dark (c ! p) \<Longrightarrow> buffer_skip_whitespace (buf_at c p d) = Inr (buf_at c p d)"
  by (simp add: buffer_skip_whitespace_def can_access_at_index_def skip_blanks.simps [of "buf_at c p d"] dark_def)

section \<open>Names\<close>

lemma find_string_end_plain:
  "occurs c p (s @ [CHR 0x22]) \<Longrightarrow> list_all plain_char s \<Longrightarrow>
   find_string_end (buf_at c q d) p k = Inr (Some (p + length s, k))"
proof (induction s arbitrary: p)
  case (Cons x s)
  then show ?case by (subst find_string_end.simps) (simp add: plain_char_def)
qed (simp add: find_string_end.simps)

lemma unescape_plain:
  "occurs c p s \<Longrightarrow> list_all plain_char s \<Longrightarrow> length out + length s < room \<Longrightarrow>
   unescape (buf_at c q d) room (p + length s) p out = Inr (p + length s, Some (out @ s))"
proof (induction s arbitrary: p out)
  case (Cons x s)
  then have "unescape (buf_at c q d) room (p + 1 + length s) (p + 1) (out @ [x]) =
      Inr (p + 1 + length s, Some ((out @ [x]) @ s))" by (intro Cons.IH) auto
  then show ?case using Cons.prems
    by (subst unescape.simps) (simp add: plain_char_def push_def)
qed (simp add: unescape.simps push_def)

lemma parse_string_plain:
  assumes "occurs c p ([CHR 0x22] @ s @ [CHR 0x22])" and "list_all plain_char s"
  shows "parse_string item (buf_at c p d) =
    Inr (Some (set_valuestring (Some s) (set_type cJSON_String item)), buf_at c (p + length s + 2) d)"
proof -
  have "find_string_end (buf_at c p d) (p + 1) 0 = Inr (Some (p + 1 + length s, 0))"
    by (rule find_string_end_plain) (use assms in simp_all)
  moreover have "unescape (buf_at c p d) (1 + length s + 1) (p + 1 + length s) (p + 1) [] =
      Inr (p + 1 + length s, Some ([] @ s))"
    by (rule unescape_plain) (use assms in simp_all)
  moreover have "NUL \<notin> set s" using assms(2) by (auto simp: list_all_iff plain_char_def)
  ultimately show ?thesis
    using assms(1) by (simp add: parse_string_def allocate_def Let_def takeWhile_clean_all)
qed

section \<open>Members\<close>

lemma number_text_digits:
  "occurs c (p + i) (ds @ [x]) \<Longrightarrow> list_all is_digit ds \<Longrightarrow> \<not> number_char x \<Longrightarrow> length ds < k \<Longrightarrow>
   number_text (buf_at c p d) k i = Inr ds"
proof (induction ds arbitrary: k i)
  case Nil
  then obtain k' where "k = Suc k'" by (cases k) auto
  with Nil show ?case by (simp add: can_access_at_index_def)
next
  case (Cons y ds)
  then obtain k' where k: "k = Suc k'" by (cases k) auto
  with Cons have "number_text (buf_at c p d) k' (Suc i) = Inr ds" by (intro Cons.IH) auto
  with k Cons.prems show ?case by (simp add: can_access_at_index_def number_char_def)
qed

lemma parse_number_digits:
  assumes "occurs c p (show_nat n @ [x])" and "\<not> number_char x" and "n < 2 ^ 31"
  shows "parse_number item (buf_at c p d) =
    Inr (Some (set_type cJSON_Number (set_number (word_of_nat n) (Finite (of_nat n)) item)),
      buf_at c (p + length (show_nat n)) d)"
proof -
  have "number_text (buf_at c p d) 63 0 = Inr (show_nat n)"
    by (rule number_text_digits)
      (use assms show_nat_length [OF assms(3)] show_nat_digits in \<open>auto simp: list_all_iff\<close>)
  then show ?thesis
    using strtod_show_nat [of n] saturated_int_nat [OF assms(3)] assms(3) by (simp add: parse_number_def)
qed

lemma text_at_other: "p < length c \<Longrightarrow> c ! p \<noteq> x \<Longrightarrow> text_at (buf_at c q d) p (x # xs) = Inr False"
  by simp

lemma value_kind_digits:
  assumes "p < length c" and "is_digit (c ! p)"
  shows "value_kind_at (buf_at c p d) = Inr NumberValue"
proof -
  have "c ! p \<noteq> CHR ''n''" "c ! p \<noteq> CHR ''f''" "c ! p \<noteq> CHR ''t''" "c ! p \<noteq> CHR 0x22"
    using assms(2) by (auto simp: is_digit_def)
  then show ?thesis
    using assms by (simp add: value_kind_at_def literal_at_def can_access_at_index_def kind_of_char_def)
qed

lemma value_kind_object:
  assumes "p < length c" and "c ! p = CHR 0x7B"
  shows "value_kind_at (buf_at c p d) = Inr ObjectValue"
proof -
  have "\<not> is_digit (CHR 0x7B)" by (simp add: is_digit_def)
  then show ?thesis
    using assms by (simp add: value_kind_at_def literal_at_def can_access_at_index_def kind_of_char_def)
qed

text \<open>The item a member's name leaves behind.\<close>

definition named_item :: "string \<Rightarrow> cJSON" where
  "named_item name = CJSON cJSON_String None 0 (Finite 0) (Some name) []"

lemma parse_name_plain:
  assumes "occurs c p ([CHR 0x22] @ s @ [CHR 0x22, CHR '':'', x])" and "list_all plain_char s" and "dark x"
  shows "parse_name zero_item (buf_at c p d) = Inr (Some (named_item s), buf_at c (p + length s + 3) d)"
proof -
  have o: "occurs c p ([CHR 0x22] @ s @ [CHR 0x22])" "occurs c (p + length s + 2) [CHR '':'', x]"
    using assms(1) by simp_all
  then have "buffer_skip_whitespace (buf_at c (p + length s + 2) d) = Inr (buf_at c (p + length s + 2) d)"
    "next_is (CHR '':'') (buf_at c (p + length s + 2) d) = Inr True"
    "buffer_skip_whitespace (buf_at c (p + length s + 3) d) = Inr (buf_at c (p + length s + 3) d)"
    using assms(3) by (simp_all add: skip_at next_is_at eval_nat_numeral)
  then show ?thesis
    using parse_string_plain [OF o(1) assms(2), of zero_item d]
    by (simp add: parse_name_def zero_item_def named_item_def Let_def eval_nat_numeral)
qed

lemma show_nat_first: "\<exists>y ys. show_nat n = y # ys \<and> is_digit y"
  using show_nat_digits [of "hd (show_nat n)" n] by (cases "show_nat n") auto

text \<open>One round of the loop, up to the character behind the member.\<close>

lemma member_parsed:
  assumes occ: "occurs c (p + 1) (member_text m @ [x])" and m: "good_member m"
    and x: "\<not> number_char x" "dark x"
  shows "\<exists>b1 b2. next_element (buf_at c p d) = Inr (Some zero_item, b1) \<and>
    element_name True zero_item b1 = Inr (Some (named_item (fst m)), b2) \<and>
    parse_value (Suc n) (named_item (fst m)) b2 =
      Some (Inr (Some (member_item m), buf_at c (p + 1 + length (member_text m)) d)) \<and>
    buffer_skip_whitespace (buf_at c (p + 1 + length (member_text m)) d) =
      Inr (buf_at c (p + 1 + length (member_text m)) d) \<and>
    next_is (CHR '','') (buf_at c (p + 1 + length (member_text m)) d) = Inr (x = CHR '','')"
proof -
  obtain name k where mk: "m = (name, k)" by (cases m)
  obtain y ys where y: "show_nat k = y # ys" "is_digit y" using show_nat_first by blast
  let ?q = "p + 1 + length name + 3"
  have o: "occurs c (p + 1) ([CHR 0x22] @ name @ [CHR 0x22, CHR '':'', y])"
    "occurs c ?q (show_nat k @ [x])" "occurs c (p + 1) [CHR 0x22]"
    using occ by (simp_all add: mk member_text_def y(1) eval_nat_numeral)
  have len: "p + 1 + length (member_text m) = ?q + length (show_nat k)"
    by (simp add: mk member_text_def)
  have "buffer_skip_whitespace (buf_at c (p + 1) d) = Inr (buf_at c (p + 1) d)"
    using o(3) by (simp add: skip_at)
  then have "next_element (buf_at c p d) = Inr (Some zero_item, buf_at c (p + 1) d)"
    by (simp add: next_element_def cJSON_New_Item_def allocate_def)
  moreover have "element_name True zero_item (buf_at c (p + 1) d) = Inr (Some (named_item name), buf_at c ?q d)"
    using parse_name_plain [OF o(1) _ dark_digit [OF y(2)]] m by (simp add: element_name_def good_member_def mk)
  moreover have "parse_value (Suc n) (named_item name) (buf_at c ?q d) =
      Some (Inr (Some (member_item m), buf_at c (?q + length (show_nat k)) d))"
  proof -
    have "?q < length c" "is_digit (c ! ?q)" using o(2) y by auto
    then show ?thesis
      using value_kind_digits [of ?q c d] parse_number_digits [OF o(2) x(1)] m
      by (simp add: good_member_def mk named_item_def member_item_def)
  qed
  moreover have "?q + length (show_nat k) < length c" "c ! (?q + length (show_nat k)) = x"
    using o(2) by simp_all
  ultimately show ?thesis
    unfolding len using x(2) by (auto simp: mk skip_at next_is_at)
qed

lemma not_number_chars [simp]: "\<not> number_char (CHR '','')" "\<not> number_char (CHR 0x7D)"
  by (simp_all add: number_char_def is_digit_def)

lemma parse_elements_members:
  "occurs c (p + 1) (members_text ms @ [CHR 0x7D]) \<Longrightarrow> list_all good_member ms \<Longrightarrow> ms \<noteq> [] \<Longrightarrow>
   length ms < n \<Longrightarrow>
   parse_elements n True acc (buf_at c p d) =
     Some (Inr (Some (acc @ map member_item ms), buf_at c (p + 1 + length (members_text ms)) d))"
proof (induction ms arbitrary: p n acc rule: members_text.induct)
  case (2 m)
  obtain k where n: "n = Suc (Suc k)" using 2(4) by (cases n; cases "n - 1") auto
  have "occurs c (p + 1) (member_text m @ [CHR 0x7D])" using 2(1) by simp
  from member_parsed [OF this, of d k] 2(2) show ?case
    by (auto simp: n and_step_def simp del: parse_value.simps)
next
  case (3 m m' ms)
  obtain k where n: "n = Suc (Suc k)" using 3(5) by (cases n; cases "n - 1") auto
  let ?q = "p + 1 + length (member_text m)"
  have "occurs c (p + 1) (member_text m @ [CHR '',''])" using 3(2) by simp
  from member_parsed [OF this, of d k] 3(3)
  have "parse_elements n True acc (buf_at c p d) = parse_elements (Suc k) True (acc @ [member_item m]) (buf_at c ?q d)"
    by (auto simp: n and_step_def simp del: parse_value.simps parse_elements.simps(2)
        simp: parse_elements.simps(2) [of "Suc k" True acc])
  also have "\<dots> = Some (Inr (Some ((acc @ [member_item m]) @ map member_item (m' # ms)),
      buf_at c (?q + 1 + length (members_text (m' # ms))) d))"
    by (rule 3(1)) (use 3(2-5) n in auto)
  finally show ?case by simp
qed simp

section \<open>Objects\<close>

lemma lit_nth: "i < length s \<Longrightarrow> lit s ! i = s ! i" "lit s ! length s = NUL" "length (lit s) = length s + 1"
  by (simp_all add: lit_def nth_append)

lemma occurs_lit: "occurs (lit s) 0 s"
  by (simp add: lit_def occurs_prefix)

lemma enter_object:
  assumes "occurs c p [CHR 0x7B, x]" and "dark x" and "d < CJSON_NESTING_LIMIT"
  shows "enter_container (CHR 0x7B) (CHR 0x7D) (buf_at c p d) =
    Inr (Inr (if x = CHR 0x7D then (buf_at c (p + 1) (d + 1), True) else (buf_at c p (d + 1), False)))"
  using assms by (auto simp: enter_container_def next_is_at skip_at can_access_at_index_def Let_def)

lemma parse_object_value:
  assumes "occurs c p (object_text ms)" and "list_all good_member ms" and "length ms + 1 < n"
  shows "parse_value n zero_item (buf_at c p 0) =
    Some (Inr (Some (object_item ms), buf_at c (p + length (object_text ms)) 0))"
proof -
  obtain k where n: "n = Suc k" using assms(3) by (cases n) auto
  have o: "p < length c" "c ! p = CHR 0x7B" using assms(1) by (simp_all add: object_text_def)
  have lim: "(0::nat) < CJSON_NESTING_LIMIT" by (simp add: CJSON_NESTING_LIMIT_def)
  show ?thesis
  proof (cases "ms = []")
    case True
    then have "occurs c p [CHR 0x7B, CHR 0x7D]" using assms(1) by (simp add: object_text_def)
    from enter_object [OF this _ lim] value_kind_object [OF o, of 0] show ?thesis
      by (simp add: n True parse_container_def and_step_def leave_container_def object_item_def
          zero_item_def object_text_def)
  next
    case False
    obtain r where r: "members_text ms = CHR 0x22 # r"
      using False by (cases ms rule: members_text.cases) (auto simp: member_text_def)
    have "occurs c p [CHR 0x7B, CHR 0x22]" using assms(1) by (simp add: object_text_def r)
    from enter_object [OF this _ lim]
    have enter: "enter_container (CHR 0x7B) (CHR 0x7D) (buf_at c p 0) = Inr (Inr (buf_at c p 1, False))" by simp
    have body: "occurs c (p + 1) (members_text ms @ [CHR 0x7D])" using assms(1) by (simp add: object_text_def)
    have els: "parse_elements k True [] (buf_at c p 1) =
        Some (Inr (Some (map member_item ms), buf_at c (p + 1 + length (members_text ms)) 1))"
      using parse_elements_members [OF body assms(2) False, of k "[]" 1] assms(3) n by simp
    have "next_is (CHR 0x7D) (buf_at c (p + 1 + length (members_text ms)) 1) = Inr True"
      using body by (simp add: next_is_at)
    with enter els value_kind_object [OF o, of 0] show ?thesis
      by (simp add: n parse_container_def and_step_def leave_container_def object_item_def
          zero_item_def object_text_def)
  qed
qed

lemma parse_object_lit:
  assumes "list_all good_member ms"
  shows "cJSON_ParseWithLengthOpts (lit (object_text ms)) (length (object_text ms) + 1) True [] =
    Some (Inr (Some (object_item ms), length (object_text ms)))"
proof -
  let ?s = "object_text ms"
  let ?c = "lit ?s"
  have o: "occurs ?c 0 ?s" by (rule occurs_lit)
  then have first: "0 < length ?c" "?c ! 0 = CHR 0x7B" by (simp_all add: object_text_def)
  have b: "\<lparr>pb_content = ?c, pb_length = Suc (length ?s), pb_offset = 0, pb_depth = 0, pb_allocs = []\<rparr> = buf_at ?c 0 0"
    by (simp add: buf_at_def lit_nth)
  have start: "and_then (skip_utf8_bom (buf_at ?c 0 0)) buffer_skip_whitespace = Inr (buf_at ?c 0 0)"
    using first by (simp add: skip_utf8_bom_def skip_at)
  have "length ms + 1 < parse_fuel (Suc (length ?s))"
  proof -
    have "length ms \<le> length (members_text ms)"
      by (induction ms rule: members_text.induct) (auto simp: member_text_def)
    then show ?thesis by (simp add: parse_fuel_def object_text_def)
  qed
  from parse_object_value [OF o assms this]
  have v: "parse_value (parse_fuel (Suc (length ?s))) zero_item (buf_at ?c 0 0) =
      Some (Inr (Some (object_item ms), buf_at ?c (length ?s) 0))" by simp
  have stay: "buffer_skip_whitespace (buf_at ?c (length ?s) 0) = Inr (buf_at ?c (length ?s) 0)"
    by (simp add: buffer_skip_whitespace_def can_access_at_index_def skip_blanks.simps lit_nth)
  have "next_is NUL (buf_at ?c (length ?s) 0) = Inr True"
    by (simp add: next_is_at lit_nth)
  then show ?thesis
    unfolding cJSON_ParseWithLengthOpts_def
    by (simp add: cJSON_New_Item_def allocate_def Let_def b start v stay and_step_def)
qed

text \<open>
  JSON round trip. The text of an object with any number of members, each with a name free of
  quotes, backslashes and NULs and a value below 2^31, parses to the object with these members,
  in order, each with its exact value as an int and as a double; the parser stops at the NUL
  behind the text.
\<close>

lemma printed_object_is_parsed:
  assumes "list_all good_member ms"
  shows "cJSON_ParseWithLengthOpts (lit (object_text ms)) (length (object_text ms) + 1) True [] =
    Some (Inr (Some (object_item ms), length (object_text ms)))"
  by (rule parse_object_lit [OF assms])

lemma printed_object_is_parsed_witness:
  "cJSON_ParseWithLengthOpts (lit (object_text [(''freed_qty'', 12), (''worker'', 1)]))
     (length (object_text [(''freed_qty'', 12), (''worker'', 1)]) + 1) True [] =
   Some (Inr (Some (object_item [(''freed_qty'', 12), (''worker'', 1)]),
     length (object_text [(''freed_qty'', 12), (''worker'', 1)])))"
  by (rule printed_object_is_parsed) (simp add: good_member_def plain_char_def)

end
