(* ===== verification/Handler_Serve.thy ===== *)
theory Handler_Serve
  imports Handler_Loop_Correct Picohttp_Chunks CJson_Roundtrip
begin

text \<open>
  From bytes on a socket to a response: a printed POST request that arrives in pieces reaches
  its callback with its body; what happens to other requests, and to those that do not fit.
\<close>

section \<open>Receiving data\<close>

text \<open>The reader has received the bytes \<open>d\<close> and no error; the rest of the buffer is untouched.\<close>

definition holding :: "(nat \<Rightarrow> char) \<Rightarrow> nat \<Rightarrow> reader \<Rightarrow> char list \<Rightarrow> bool" where
  "holding junk cap rd d \<longleftrightarrow> length (request_buffer rd) = cap \<and> take (length d) (request_buffer rd) = d \<and>
     drop (length d) (request_buffer rd) = drop (length d) (malloc junk cap) \<and> length d \<le> cap \<and> buflen rd = length d \<and> request_size rd = length d \<and> last_errno rd \<noteq> EAGAIN"

lemma holding_new: "holding junk cap (new_reader junk cap) []"
  by (simp add: holding_def new_reader_def)

lemma put_bytes_after:
  assumes "take p b = d" and "length d = p" and "p + length bs \<le> length b"
  shows "\<exists>b'. put_bytes b p bs = Inr b' \<and> length b' = length b \<and> take (p + length bs) b' = d @ bs \<and>
    drop (p + length bs) b' = drop (p + length bs) b"
  using assms by (simp add: put_bytes_def)

lemma receive_step_data:
  assumes "holding junk cap rd d" and "bs \<noteq> []" and "length d + length bs \<le> cap"
  shows "\<exists>rd'. receive_step junk cap rd (ReadBytes bs) = and_then (try_parse junk rd') (\<lambda>r. Inr (r, rd')) \<and>
    holding junk cap rd' (d @ bs) \<and> prevbuflen rd' = length d"
proof -
  obtain b' where b: "put_bytes (request_buffer rd) (length d) bs = Inr b'" "length b' = cap"
    "take (length d + length bs) b' = d @ bs"
    "drop (length d + length bs) b' = drop (length d + length bs) (request_buffer rd)"
    using put_bytes_after [of "length d" "request_buffer rd" d bs] assms by (auto simp: holding_def)
  let ?rd = "rd\<lparr>request_buffer := b', prevbuflen := length d, buflen := length d + length bs,
    request_size := length d + length bs\<rparr>"
  have "receive_step junk cap rd (ReadBytes bs) = and_then (try_parse junk ?rd) (\<lambda>r. Inr (r, ?rd))"
    using assms b(1) by (simp add: receive_step_def check_errno_def holding_def Let_def)
  moreover have "drop (length d + length bs) (request_buffer rd) = drop (length d + length bs) (malloc junk cap)"
  proof -
    have "drop (length d) (request_buffer rd) = drop (length d) (malloc junk cap)"
      using assms(1) by (simp add: holding_def)
    from arg_cong [OF this, of "drop (length bs)"] show ?thesis by (simp add: add.commute)
  qed
  then have "holding junk cap ?rd (d @ bs)"
    using assms b by (simp add: holding_def)
  ultimately show ?thesis by (intro exI [of _ ?rd]) simp
qed

lemma receive_step_overflow:
  assumes "holding junk cap rd d" and "cap < length d + length bs"
  shows "receive_step junk cap rd (ReadBytes bs) = Inl OutOfBounds"
  using assms by (simp add: receive_step_def put_bytes_def holding_def)

section \<open>The size check comes too late\<close>

definition reader_fits :: "nat \<Rightarrow> reader \<Rightarrow> bool" where
  "reader_fits cap rd \<longleftrightarrow> length (request_buffer rd) = cap \<and> request_size rd = buflen rd"

lemma receive_step_fits:
  assumes "reader_fits cap rd" and "receive_step junk cap rd r = Inr (e, rd')"
  shows "reader_fits cap rd' \<and> e \<noteq> Some TooLarge"
proof (cases r)
  case (ReadError err)
  with assms show ?thesis
    by (auto simp: receive_step_def check_errno_def reader_fits_def Let_def split: if_splits)
next
  case (ReadBytes bs)
  then obtain b where b: "put_bytes (request_buffer rd) (buflen rd) bs = Inr b"
    using assms(2) by (auto simp: receive_step_def elim: and_then_InrE)
  then have len: "length b = cap" "buflen rd + length bs \<le> cap"
    using assms(1) put_bytes_length [OF b] by (auto simp: put_bytes_def reader_fits_def split: if_splits)
  have "x \<noteq> Some TooLarge" if "try_parse junk rd'' = Inr x" for x rd''
    using that by (auto simp: try_parse_def elim!: and_then_InrE split: sum.splits if_splits)
  with assms b len ReadBytes show ?thesis
    by (auto simp: receive_step_def check_errno_def reader_fits_def Let_def elim!: and_then_InrE split: if_splits)
qed

lemma receive_fits:
  "reader_fits cap rd \<Longrightarrow> receive junk cap rd os \<noteq> Inr (Some (TooLarge, rd'))"
proof (induction os arbitrary: rd)
  case (Cons r os)
  show ?case
  proof (cases "receive_step junk cap rd r")
    case (Inr x)
    obtain e rd1 where x: "x = (e, rd1)" by (cases x)
    with receive_step_fits [OF Cons.prems] Inr have "reader_fits cap rd1" "e \<noteq> Some TooLarge" by auto
    then show ?thesis using Cons.IH [of rd1] Inr x by (cases e) auto
  qed simp
qed simp

text \<open>
  The test for a request that is too large can never succeed: whatever the answers of \<open>read\<close>,
  the loop does not end with \<open>request_too_large\<close>, because bytes beyond the limit have been written
  past the end of the buffer before the test is reached.
\<close>

lemma size_check_is_dead:
  "receive junk cap (new_reader junk cap) os \<noteq> Inr (Some (TooLarge, rd))"
  by (rule receive_fits) (simp add: reader_fits_def new_reader_def)

text \<open>A request of letters only is incomplete at any length.\<close>

lemma letters_incomplete:
  assumes "\<forall>i < len. b ! i = CHR ''a''" and "len \<le> length b" and "last_len \<le> len"
  shows "phr_parse_request b len n last_len = stop (- 2)"
proof -
  have tok: "token_loop b len (CHR '' '') p = stop (- 2)" if "p < len" for p
    using that
  proof (induction "len - p" arbitrary: p)
    case (Suc k)
    have "token_char (CHR ''a'')" by code_simp
    then have "token_loop b len (CHR '' '') p = scan_then (CHECK_EOF len (p + 1)) (\<lambda>_. token_loop b len (CHR '' '') (p + 1))"
      using Suc.prems assms(1,2) by (subst token_loop.simps) simp
    then show ?case using Suc by (cases "p + 1 = len") (simp_all add: CHECK_EOF_def)
  qed simp
  have com: "is_complete_loop b len k p = stop (- 2)" if "p \<le> len" for k p
    using that
  proof (induction "len - p" arbitrary: k p)
    case 0
    then show ?case by (subst is_complete_loop.simps) (simp add: CHECK_EOF_def)
  next
    case (Suc j)
    then show ?case using assms(1,2) by (subst is_complete_loop.simps) (simp add: CHECK_EOF_def)
  qed
  have "parse_request b len 0 n = stop (- 2)"
  proof (cases "len = 0")
    case True
    then show ?thesis by (simp add: parse_request_def skip_empty_line_def CHECK_EOF_def)
  next
    case False
    then have "skip_empty_line b len 0 = accept 0"
      using assms(1,2) by (intro skip_empty_line_reads) auto
    moreover have "parse_token b len 0 (CHR '' '') = stop (- 2)"
      using False tok [of 0] by (simp add: parse_token_def CHECK_EOF_def)
    ultimately show ?thesis by (simp add: parse_request_def)
  qed
  then show ?thesis
    using com assms(3) by (simp add: phr_parse_request_def is_complete_def)
qed

lemma receive_letters:
  "holding junk cap rd d \<Longrightarrow> \<forall>c \<in> set d. c = CHR ''a'' \<Longrightarrow> \<forall>bs \<in> set dat. bs \<noteq> [] \<and> (\<forall>c \<in> set bs. c = CHR ''a'') \<Longrightarrow>
   cap < length d + length (concat dat) \<Longrightarrow>
   receive junk cap rd (map ReadBytes dat @ os) = Inl OutOfBounds"
proof (induction dat arbitrary: rd d)
  case Nil
  then show ?case by (simp add: holding_def)
next
  case (Cons bs dat)
  show ?case
  proof (cases "cap < length d + length bs")
    case True
    then show ?thesis using receive_step_overflow [OF Cons.prems(1) True] by simp
  next
    case False
    then obtain rd' where rd: "receive_step junk cap rd (ReadBytes bs) = and_then (try_parse junk rd') (\<lambda>r. Inr (r, rd'))"
      "holding junk cap rd' (d @ bs)" "prevbuflen rd' = length d"
      using receive_step_data [OF Cons.prems(1), of bs] Cons.prems(3) by auto
    have "request_buffer rd' ! i = CHR ''a''" if "i < length (d @ bs)" for i
    proof -
      have "request_buffer rd' ! i = take (length (d @ bs)) (request_buffer rd') ! i" using that by simp
      also have "\<dots> = (d @ bs) ! i" using rd(2) by (simp only: holding_def)
      also have "\<dots> = CHR ''a''"
        using nth_mem [OF that] Cons.prems(2,3) by auto
      finally show ?thesis .
    qed
    then have "try_parse junk rd' = Inr None"
      using letters_incomplete [of "length (d @ bs)" "request_buffer rd'" "length d"] rd(2,3)
      by (simp add: try_parse_def holding_def)
    moreover have "receive junk cap rd' (map ReadBytes dat @ os) = Inl OutOfBounds"
      by (rule Cons.IH [OF rd(2)]) (use Cons.prems in auto)
    ultimately show ?thesis using rd(1) by simp
  qed
qed

text \<open>
  A client can write past the request buffer: a request line that never ends, sent in any
  pieces, overruns the buffer with the read that carries it beyond \<open>cap\<close> bytes.
\<close>

lemma endless_line_overflows:
  assumes "\<forall>bs \<in> set dat. bs \<noteq> [] \<and> (\<forall>c \<in> set bs. c = CHR ''a'')" and "cap < length (concat dat)"
  shows "receive junk cap (new_reader junk cap) (map ReadBytes dat @ os) = Inl OutOfBounds"
  by (rule receive_letters [OF holding_new]) (use assms in simp_all)

lemma endless_line_overflows_witness:
  "receive (\<lambda>_. NUL) 5 (new_reader (\<lambda>_. NUL) 5) (map ReadBytes [''aaa'', ''aaa''] @ []) = Inl OutOfBounds"
  by (rule endless_line_overflows) simp_all

section \<open>A request in pieces\<close>

text \<open>What the request structure holds after a printed request has been parsed.\<close>

definition request_is ::
  "block \<Rightarrow> http_request \<Rightarrow> string \<Rightarrow> string \<Rightarrow> (string \<times> string) list \<Rightarrow> bool" where
  "request_is buf req m path hs \<longleftrightarrow>
     req_method req = lit m \<and> req_path req = lit path \<and> req_json_body req = Inl Uninitialised \<and>
     req_num_headers req = length (req_headers req) \<and> map (header_strings buf) (req_headers req) = hs \<and>
     (\<forall>h \<in> set (req_headers req). header_clean buf h)"

lemma token_clean: "good_token s \<Longrightarrow> NUL \<notin> set s"
proof -
  have "\<not> token_char NUL" by code_simp
  then show "good_token s \<Longrightarrow> NUL \<notin> set s" by (auto simp: good_token_def list_all_iff)
qed

lemma path_clean: "good_path s \<Longrightarrow> NUL \<notin> set s"
proof -
  have "control_char NUL" by code_simp
  then show "good_path s \<Longrightarrow> NUL \<notin> set s" unfolding good_path_def list_all_iff by blast
qed

lemma value_clean: "good_value s \<Longrightarrow> NUL \<notin> set s"
proof -
  have "line_control NUL" by code_simp
  then show "good_value s \<Longrightarrow> NUL \<notin> set s" unfolding good_value_def list_all_iff by blast
qed

lemma header_inside_mono: "header_inside e h \<Longrightarrow> e \<le> e' \<Longrightarrow> header_inside e' h"
  by (auto simp: header_inside_def split: option.splits)

lemma is_post_name:
  "req_method req = lit m \<Longrightarrow> NUL \<notin> set m \<Longrightarrow> is_post req = Inr (m = ''POST'' \<or> m = ''post'')"
  by (simp add: is_post_def block_simps)

lemma try_parse_complete:
  assumes hold: "holding junk cap rd d" and d: "d = request_text m path v hs @ body"
    and good: "good_token m" "good_path path" "v \<le> 9" "list_all good_header hs" "length hs \<le> MAX_HEADERS"
    and last: "prevbuflen rd < length (request_text m path v hs)"
  shows "\<exists>req. try_parse junk rd =
      Inr (Some (Parsed (length (request_text m path v hs)) req (m = ''POST'' \<or> m = ''post''))) \<and>
    request_is (request_buffer rd) req m path hs"
proof -
  let ?b = "request_buffer rd" and ?t = "length (request_text m path v hs)"
  have b: "take (length d) ?b = d" "length d \<le> length ?b" "buflen rd = length d"
    using hold by (auto simp: holding_def)
  have "take ?t ?b = take ?t (take (length d) ?b)" by (simp add: d min_def)
  also have "\<dots> = request_text m path v hs" unfolding b(1) by (simp add: d)
  finally have "occurs ?b 0 (request_text m path v hs)" by (rule occurs_take)
  from complete_piece [OF this good, of "length d" "prevbuflen rd"] obtain rq
    where rq: "phr_parse_request ?b (length d) MAX_HEADERS (prevbuflen rd) = accept (rq, ?t)"
      "parsed_as ?b rq m path v hs" using b(2) last d by auto
  have last': "prevbuflen rd \<le> length d" using last d by simp
  have "scan_ok (\<lambda>(rq, consumed). 0 < consumed \<and> consumed \<le> length d \<and> request_inside (length d) MAX_HEADERS rq)
      (phr_parse_request ?b (length d) MAX_HEADERS (prevbuflen rd))"
    unfolding phr_parse_request_def
    by (rule after_complete_ok [OF last' b(2)], rule parse_request_ok) (use b(2) in simp_all)
  then have t: "0 < ?t" and inside: "request_inside (length d) MAX_HEADERS rq"
    by (simp_all add: rq(1))
  have m: "phr_method rq + phr_method_len rq \<le> length ?b" "slice ?b (phr_method rq) (phr_method_len rq) = m"
    and p: "phr_path rq + phr_path_len rq \<le> length ?b" "slice ?b (phr_path rq) (phr_path_len rq) = path"
    using inside rq(2) b(2) by (simp_all add: request_inside_def parsed_as_def)
  let ?req = "\<lparr>req_method = lit m, req_path = lit path, req_headers = phr_headers rq,
    req_json_body = Inl Uninitialised, req_method_len = phr_method_len rq, req_path_len = phr_path_len rq,
    req_num_headers = length (phr_headers rq)\<rparr>"
  have from_rq: "http_request_from junk ?b (phr_method rq) (phr_path rq) (phr_headers rq)
      (phr_method_len rq) (phr_path_len rq) (length (phr_headers rq)) = Inr ?req"
    using copy_out_slice [OF m(1), of junk] copy_out_slice [OF p(1), of junk] m(2) p(2)
      token_clean [OF good(1)] path_clean [OF good(2)] by (simp add: http_request_from_def)
  have "header_clean ?b h" if h: "h \<in> set (phr_headers rq)" for h
  proof -
    have "header_strings ?b h \<in> set hs" using rq(2) h by (auto simp: parsed_as_def)
    then have "good_header (header_strings ?b h)" using good(4) by (auto simp: list_all_iff)
    then have "NUL \<notin> set (fst (header_strings ?b h))" "NUL \<notin> set (snd (header_strings ?b h))"
      using token_clean value_clean by (simp_all add: good_header_def)
    moreover have "header_inside (length ?b) h"
      using inside h b(2) header_inside_mono by (auto simp: request_inside_def)
    ultimately show ?thesis by (simp add: header_clean_def)
  qed
  then have "request_is ?b ?req m path hs" using rq(2) by (simp add: request_is_def parsed_as_def)
  moreover have "try_parse junk rd = Inr (Some (Parsed ?t ?req (m = ''POST'' \<or> m = ''post'')))"
    using rq(1) b(3) t from_rq is_post_name [of ?req m] token_clean [OF good(1)] by (simp add: try_parse_def)
  ultimately show ?thesis by blast
qed

lemma try_parse_incomplete:
  assumes hold: "holding junk cap rd d" and d: "d @ rest = request_text m path v hs"
    and good: "good_token m" "good_path path" "v \<le> 9" "list_all good_header hs" "length hs \<le> MAX_HEADERS"
    and more: "rest \<noteq> []" and last: "prevbuflen rd \<le> length d"
  shows "try_parse junk rd = Inr None"
proof -
  have "take (length d) (request_buffer rd) = take (length d) (request_text m path v hs)"
    using hold by (simp add: holding_def flip: d)
  moreover have "length d \<le> length (request_buffer rd)" "length d < length (request_text m path v hs)"
    using hold more by (auto simp: holding_def simp flip: d)
  ultimately have "phr_parse_request (request_buffer rd) (length d) MAX_HEADERS (prevbuflen rd) = stop (- 2)"
    using incomplete_piece [OF _ good last] by blast
  then show ?thesis using hold by (simp add: try_parse_def holding_def)
qed

text \<open>
  The last piece brings the end of the request; what it has beyond that is the start of the
  body.
\<close>

lemma receive_printed:
  assumes good: "good_token m" "good_path path" "v \<le> 9" "list_all good_header hs" "length hs \<le> MAX_HEADERS"
  shows "holding junk cap rd d \<Longrightarrow> dat \<noteq> [] \<Longrightarrow> [] \<notin> set dat \<Longrightarrow>
    d @ concat dat = request_text m path v hs @ body \<Longrightarrow> length d + length (concat dat) \<le> cap \<Longrightarrow>
    length d + length (concat (butlast dat)) < length (request_text m path v hs) \<Longrightarrow>
    \<exists>req rd'. receive junk cap rd (map ReadBytes dat @ os) =
        Inr (Some (Parsed (length (request_text m path v hs)) req (m = ''POST'' \<or> m = ''post''), rd')) \<and>
      holding junk cap rd' (request_text m path v hs @ body) \<and> request_is (request_buffer rd') req m path hs"
proof (induction dat arbitrary: rd d)
  case (Cons bs dat)
  let ?t = "request_text m path v hs"
  obtain rd' where rd: "receive_step junk cap rd (ReadBytes bs) = and_then (try_parse junk rd') (\<lambda>r. Inr (r, rd'))"
    "holding junk cap rd' (d @ bs)" "prevbuflen rd' = length d"
    using receive_step_data [OF Cons.prems(1), of bs] Cons.prems(3,5) by auto
  show ?case
  proof (cases "dat = []")
    case True
    then have all: "d @ bs = ?t @ body" using Cons.prems(4) by simp
    have "length d < length ?t" using Cons.prems(6) True by simp
    then obtain req where "try_parse junk rd' = Inr (Some (Parsed (length ?t) req (m = ''POST'' \<or> m = ''post'')))"
      "request_is (request_buffer rd') req m path hs"
      using try_parse_complete [OF rd(2) all good] rd(3) by auto
    then show ?thesis using rd all by (intro exI [of _ req] exI [of _ rd']) simp
  next
    case False
    have len: "length (d @ bs) < length ?t" using Cons.prems(6) False by simp
    then have "take (length (d @ bs)) (?t @ body) = take (length (d @ bs)) ?t" by simp
    moreover have "take (length (d @ bs)) (?t @ body) = d @ bs"
      using Cons.prems(4) by (metis append.assoc append_eq_conv_conj concat.simps(2))
    ultimately have pre: "(d @ bs) @ drop (length (d @ bs)) ?t = ?t"
      by (metis append_take_drop_id)
    have "try_parse junk rd' = Inr None"
      by (rule try_parse_incomplete [OF rd(2) pre good]) (use len rd(3) in simp_all)
    moreover have "\<exists>req rd''. receive junk cap rd' (map ReadBytes dat @ os) =
        Inr (Some (Parsed (length ?t) req (m = ''POST'' \<or> m = ''post''), rd'')) \<and>
      holding junk cap rd'' (?t @ body) \<and> request_is (request_buffer rd'') req m path hs"
      by (rule Cons.IH [OF rd(2)]) (use Cons.prems False in auto)
    ultimately show ?thesis using rd(1) by simp
  qed
qed simp

section \<open>Serving a POST\<close>

lemma lower_content_length: "map tolower ''Content-Length'' = ''content-length''"
  by code_simp

lemma sint_word_of_nat:
  assumes "n < 2 ^ 31"
  shows "sint (word_of_nat n :: i32) = int n"
proof -
  have "unat (word_of_nat n :: i32) = n" using assms by (simp add: unsigned_of_nat take_bit_nat_eq_self)
  then show ?thesis using sint_small [of "word_of_nat n :: i32"] assms by simp
qed

text \<open>The body that is copied when \<open>n\<close> bytes are wanted and the buffer holds \<open>w\<close> from its start on.\<close>

definition copied_body :: "block \<Rightarrow> nat \<Rightarrow> block result" where
  "copied_body w n =
     (let s = takeWhile (\<lambda>c. c \<noteq> NUL) (take n w) in
      if length s = n \<or> length s < length w then Inr (s @ replicate (n + 1 - length s) NUL) else Inl OutOfBounds)"

lemma read_body_copies:
  assumes "n < 2 ^ 31" and "n < stack_room" and "p \<le> length buf"
  shows "read_body junk stack_room buf p (word_of_nat n) = copied_body (drop p buf) n"
proof -
  let ?s = "takeWhile (\<lambda>c. c \<noteq> NUL) (take n (drop p buf))"
  have len: "length ?s \<le> n" using length_takeWhile_le [of _ "take n (drop p buf)"] by (metis length_take min.boundedE)
  have "put_bytes (malloc junk (n + 1)) 0 (?s @ replicate (n - length ?s) NUL) =
      Inr ((?s @ replicate (n - length ?s) NUL) @ [junk n])"
    using put_bytes_prefix [of "?s @ replicate (n - length ?s) NUL" "malloc junk (n + 1)"] len drop_malloc_one [of n junk]
    by simp
  moreover have "put_bytes ((?s @ replicate (n - length ?s) NUL) @ [junk n]) n [NUL] =
      Inr (?s @ replicate (n + 1 - length ?s) NUL)"
    using put_last [of "?s @ replicate (n - length ?s) NUL" n "junk n" NUL] len
    by (simp add: Suc_diff_le replicate_append_same)
  ultimately show ?thesis
    using sint_word_of_nat [OF assms(1)] assms(2,3)
    by (simp add: read_body_def copied_body_def strncpy_def read_upto_def less_diff_conv add.commute Let_def)
qed

lemma copied_body_all: "NUL \<notin> set body \<Longrightarrow> copied_body (body @ r) (length body) = Inr (lit body)"
  by (simp add: copied_body_def lit_def takeWhile_clean_all)

text \<open>The parse of a body, with the bytes behind the clone of the header name as they are.\<close>

definition parsed_body :: "block \<Rightarrow> block \<Rightarrow> nat \<Rightarrow> allocs \<Rightarrow> cJSON option result" where
  "parsed_body slack w n oks =
     (case slack of
        [] \<Rightarrow> Inl OutOfBounds
      | c # r \<Rightarrow>
          if c \<noteq> NUL then Inr None
          else and_then (copied_body w n) (\<lambda>b. run_parser (cJSON_ParseWithLengthOpts b (n + 1) True oks)))"

lemma parse_body_parses:
  assumes req: "request_is buf req m path hs" and cl: "find_header ''content-length'' hs = Some (show_nat n)"
    and longer: "no_longer_name ''content-length'' hs"
    and n: "n < 2 ^ 31" "n < stack_room" and p: "p \<le> length buf"
  shows "parse_body junk slack stack_room oks buf p req =
    and_then (parsed_body slack (drop p buf) n oks)
      (\<lambda>item. Inr (map_option (\<lambda>json. req\<lparr>req_json_body := Inr (Some json)\<rparr>) item))"
proof -
  have key: "NUL \<notin> set ''Content-Length''" by simp
  have clean: "\<forall>h \<in> set (req_headers req). header_clean buf h" "map (header_strings buf) (req_headers req) = hs"
    "req_num_headers req = length (req_headers req)"
    using req by (simp_all add: request_is_def)
  have get: "get_header junk slack buf (req_headers req) (req_num_headers req) ''Content-Length'' =
      (case slack of [] \<Rightarrow> Inl OutOfBounds | c # r \<Rightarrow> Inr (if c = NUL then Some (lit (show_nat n)) else None))"
    using get_header_slack [OF clean(1) key, of junk slack, unfolded clean(2) lower_content_length] longer
    by (simp add: clean(3) cl split: list.split)
  have s: "c_string (lit (show_nat n)) 0 = Inr (show_nat n)" by (simp add: c_string_lit show_nat_clean)
  show ?thesis
  proof (cases slack)
    case (Cons c r)
    show ?thesis
      using get s read_body_copies [OF n p, of junk] atoi_show_nat [OF n(1)] sint_word_of_nat [OF n(1)] Cons
      by (cases "copied_body (drop p buf) n"; cases "run_parser (cJSON_ParseWithLengthOpts (projr (copied_body (drop p buf) n)) (n + 1) True oks)")
        (auto simp: parse_body_def parsed_body_def Let_def split: option.splits)
  next
    case Nil
    then show ?thesis using get by (simp add: parse_body_def parsed_body_def)
  qed
qed

lemma registered_sizes:
  "register_routes (handler_init ep ev bs rq bd) = Inr h \<Longrightarrow> max_request_size h = rq"
  by (auto simp: register_routes_def handler_route_def handler_init_def Let_def
      elim!: and_then_InrE split: if_splits prod.splits)

text \<open>What has been read when the first \<open>n\<close> bytes are there: whole pieces.\<close>

fun read_until :: "nat \<Rightarrow> char list list \<Rightarrow> char list" where
  "read_until n [] = []"
| "read_until n (bs # dat) = (if n \<le> length bs then bs else bs @ read_until (n - length bs) dat)"

lemma read_until_split:
  "n \<le> length (concat dat) \<Longrightarrow> 0 < n \<Longrightarrow>
   \<exists>pre post. dat = pre @ post \<and> pre \<noteq> [] \<and> concat pre = read_until n dat \<and> length (concat (butlast pre)) < n"
proof (induction dat arbitrary: n)
  case (Cons bs dat)
  show ?case
  proof (cases "n \<le> length bs")
    case True
    then show ?thesis using Cons.prems by (intro exI [of _ "[bs]"] exI [of _ dat]) simp
  next
    case False
    then have "n - length bs \<le> length (concat dat)" "0 < n - length bs" using Cons.prems(1) by auto
    from Cons.IH [OF this] obtain pre post where "dat = pre @ post" "pre \<noteq> []" "concat pre = read_until (n - length bs) dat"
      "length (concat (butlast pre)) < n - length bs" by blast
    then show ?thesis using False by (intro exI [of _ "bs # pre"] exI [of _ post]) auto
  qed
qed simp

lemma read_until_prefix: "n \<le> length (concat dat) \<Longrightarrow> n \<le> length (read_until n dat) \<and> (\<exists>r. concat dat = read_until n dat @ r)"
proof (induction dat arbitrary: n)
  case (Cons bs dat)
  have "n - length bs \<le> length (read_until (n - length bs) dat) \<and> (\<exists>r. concat dat = read_until (n - length bs) dat @ r)"
    by (rule Cons.IH) (use Cons.prems in simp)
  then show ?case by (auto; linarith)
qed simp

lemma read_until_all:
  "length (concat (butlast dat)) < n \<Longrightarrow> n \<le> length (concat dat) \<Longrightarrow> read_until n dat = concat dat"
proof (induction dat arbitrary: n)
  case (Cons bs dat)
  show ?case
  proof (cases "dat = []")
    case False
    then have "\<not> n \<le> length bs" using Cons.prems(1) by simp
    then show ?thesis using Cons.IH [of "n - length bs"] Cons.prems False by auto
  qed (use Cons.prems in simp)
qed simp

text \<open>
  A POST however it is cut into pieces: the piece that ends the headers ends the reading, and what
  the buffer holds behind the headers then is taken for the body.
\<close>

lemma serve_post:
  assumes reg: "register_routes (handler_init ep ev bs cap bd) = Inr h"
    and good: "good_path path" "v \<le> 9" "list_all good_header hs" "length hs \<le> MAX_HEADERS"
    and cl: "find_header ''content-length'' hs = Some (show_nat n)" "no_longer_name ''content-length'' hs"
    and n: "n < 2 ^ 31" "n < stack_room"
    and dat: "[] \<notin> set dat" "concat dat = request_text ''POST'' path v hs @ body"
    and d: "d = read_until (length (request_text ''POST'' path v hs)) dat" "length d \<le> cap"
  shows "\<exists>req. req_method req = lit ''POST'' \<and> (\<forall>json. posts (req\<lparr>req_json_body := Inr (Some json)\<rparr>) json) \<and>
    on_readable junk date slack stack_room oks h p fd epoll_ok (map ReadBytes dat @ os) =
      and_then (parsed_body slack
        (drop (length (request_text ''POST'' path v hs)) d @ drop (length d) (malloc junk cap)) n oks) (\<lambda>item.
      case item of
        None \<Rightarrow> Inr (Some (Skipped, p))
      | Some json \<Rightarrow>
          and_then (answer junk date p (req\<lparr>req_json_body := Inr (Some json)\<rparr>) fd ''POST'' path) (\<lambda>(res, p').
            Inr (Some (if epoll_ok then Responding res else Closed, p'))))"
proof -
  let ?t = "request_text ''POST'' path v hs"
  have post: "good_token ''POST''" by code_simp
  have t: "0 < length ?t" "length ?t \<le> length (concat dat)" by (simp add: request_text_def, simp add: dat(2) del: length_concat)
  obtain pre post' where cut: "dat = pre @ post'" "pre \<noteq> []" "concat pre = d" "length (concat (butlast pre)) < length ?t"
    using read_until_split [OF t(2,1)] d(1) by blast
  obtain r where "concat dat = d @ r" "length ?t \<le> length d" using read_until_prefix [OF t(2)] d(1) by auto
  then obtain b1 where b1: "d = ?t @ b1" using dat(2) by (metis append_eq_append_conv2 append_Nil2 le_antisym
        append_eq_conv_conj length_append le_add1 append_take_drop_id take_all_iff append_assoc same_append_eq)
  obtain req rd where r: "receive junk cap (new_reader junk cap) (map ReadBytes dat @ os) =
      Inr (Some (Parsed (length ?t) req True, rd))" "holding junk cap rd (?t @ b1)"
    "request_is (request_buffer rd) req ''POST'' path hs"
    using receive_printed [OF post good holding_new [of junk cap] cut(2), where body = b1 and os = "map ReadBytes post' @ os"]
      cut dat(1) d(2) b1 by auto
  have buf: "drop (length ?t) (request_buffer rd) = drop (length ?t) d @ drop (length d) (malloc junk cap)"
    "length ?t \<le> length (request_buffer rd)"
  proof -
    have h: "take (length d) (request_buffer rd) = d" "drop (length d) (request_buffer rd) = drop (length d) (malloc junk cap)"
      "length d \<le> length (request_buffer rd)"
      using r(2) b1 by (simp_all add: holding_def)
    then have "request_buffer rd = d @ drop (length d) (malloc junk cap)" by (metis append_take_drop_id)
    then show "drop (length ?t) (request_buffer rd) = drop (length ?t) d @ drop (length d) (malloc junk cap)"
      using \<open>length ?t \<le> length d\<close> by simp
    show "length ?t \<le> length (request_buffer rd)" using h(3) \<open>length ?t \<le> length d\<close> by simp
  qed
  have parse: "parse_body junk slack stack_room oks (request_buffer rd) (length ?t) req =
      and_then (parsed_body slack (drop (length ?t) d @ drop (length d) (malloc junk cap)) n oks)
        (\<lambda>item. Inr (map_option (\<lambda>json. req\<lparr>req_json_body := Inr (Some json)\<rparr>) item))"
    using parse_body_parses [OF r(3) cl n buf(2), of junk slack oks] by (simp only: buf(1))
  have req: "req_method req = lit ''POST''" "req_path req = lit path" using r(3) by (simp_all add: request_is_def)
  have "build_response junk date h p (req\<lparr>req_json_body := Inr (Some json)\<rparr>) False fd =
      answer junk date p (req\<lparr>req_json_body := Inr (Some json)\<rparr>) fd ''POST'' path" for json
    by (rule dispatch [OF reg]) (use req path_clean [OF good(1)] token_clean [OF post] in auto)
  then have "on_readable junk date slack stack_room oks h p fd epoll_ok (map ReadBytes dat @ os) =
      and_then (parsed_body slack (drop (length ?t) d @ drop (length d) (malloc junk cap)) n oks) (\<lambda>item.
      case item of
        None \<Rightarrow> Inr (Some (Skipped, p))
      | Some json \<Rightarrow>
          and_then (answer junk date p (req\<lparr>req_json_body := Inr (Some json)\<rparr>) fd ''POST'' path) (\<lambda>(res, p').
            Inr (Some (if epoll_ok then Responding res else Closed, p'))))"
    using r(1) registered_sizes [OF reg] parse
    by (cases "parsed_body slack (drop (length ?t) d @ drop (length d) (malloc junk cap)) n oks")
      (auto simp: on_readable_def after_receive_def respond_def and_then_def split: option.splits sum.splits)
  then show ?thesis using req by (intro exI [of _ req]) (simp add: posts_def)
qed

lemma serve_post_whole:
  assumes reg: "register_routes (handler_init ep ev bs cap bd) = Inr h"
    and good: "good_path path" "v \<le> 9" "list_all good_header hs" "length hs \<le> MAX_HEADERS"
    and cl: "find_header ''content-length'' hs = Some (show_nat (length body))" "no_longer_name ''content-length'' hs"
    and body: "NUL \<notin> set body" "length body < 2 ^ 31" "length body < stack_room"
    and dat: "[] \<notin> set dat" "concat dat = request_text ''POST'' path v hs @ body"
      "length (concat (butlast dat)) < length (request_text ''POST'' path v hs)" "length (concat dat) \<le> cap"
    and json: "cJSON_ParseWithLengthOpts (lit body) (length body + 1) True oks = Some (Inr (item, k))"
  shows "\<exists>req. (\<forall>json. posts (req\<lparr>req_json_body := Inr (Some json)\<rparr>) json) \<and>
    on_readable junk date slack stack_room oks h p fd epoll_ok (map ReadBytes dat @ os) =
      (case slack of
         [] \<Rightarrow> Inl OutOfBounds
       | c # r \<Rightarrow>
           if c \<noteq> NUL then Inr (Some (Skipped, p))
           else (case item of
               None \<Rightarrow> Inr (Some (Skipped, p))
             | Some json \<Rightarrow>
                 and_then (answer junk date p (req\<lparr>req_json_body := Inr (Some json)\<rparr>) fd ''POST'' path) (\<lambda>(res, p').
                   Inr (Some (if epoll_ok then Responding res else Closed, p')))))"
proof -
  let ?t = "request_text ''POST'' path v hs"
  have "read_until (length ?t) dat = concat dat" by (rule read_until_all) (use dat(2,3) in simp_all)
  then have d: "?t @ body = read_until (length ?t) dat" "length (?t @ body) \<le> cap"
    using dat(2,4) by (simp_all del: length_concat)
  have parsed: "parsed_body slack (drop (length ?t) (?t @ body) @ drop (length (?t @ body)) (malloc junk cap)) (length body) oks =
      (case slack of [] \<Rightarrow> Inl OutOfBounds | c # r \<Rightarrow> if c \<noteq> NUL then Inr None else Inr item)"
    using json copied_body_all [OF body(1)] by (simp add: parsed_body_def run_parser_def split: list.split)
  show ?thesis
    using serve_post [OF reg good cl body(2,3) dat(1,2) d, of junk date slack oks p fd epoll_ok os]
    unfolding parsed by (force split: list.splits)
qed


text \<open>
  C23. What comes after the headers is not waited for. However a POST with a Content-Length of \<open>n\<close>
  is cut into pieces, the handler stops reading with the piece that ends the headers and never
  looks at the pieces behind it. For the body it takes the \<open>n\<close> bytes that stand in its buffer
  behind the headers: what that piece has brought of the body, and then whatever the stack held
  there before (an access outside the buffer if it ends first without a NUL). The answer is that
  of the callback of the path to the JSON value of these bytes; no value, and the request is
  skipped.
\<close>

theorem late_body_is_not_read:
  assumes "register_routes (handler_init ep ev bs cap bd) = Inr h"
    and "good_path path" and "v \<le> 9" and "list_all good_header hs" and "length hs \<le> MAX_HEADERS"
    and "find_header ''content-length'' hs = Some (show_nat n)" and "no_longer_name ''content-length'' hs"
    and "n < 2 ^ 31" and "n < stack_room"
    and "[] \<notin> set dat" and "concat dat = request_text ''POST'' path v hs @ body"
    and "d = read_until (length (request_text ''POST'' path v hs)) dat" and "length d \<le> cap"
  shows "\<exists>req. req_method req = lit ''POST'' \<and> (\<forall>json. posts (req\<lparr>req_json_body := Inr (Some json)\<rparr>) json) \<and>
    on_readable junk date slack stack_room oks h p fd epoll_ok (map ReadBytes dat @ os) =
      and_then (parsed_body slack
        (drop (length (request_text ''POST'' path v hs)) d @ drop (length d) (malloc junk cap)) n oks) (\<lambda>item.
      case item of
        None \<Rightarrow> Inr (Some (Skipped, p))
      | Some json \<Rightarrow>
          and_then (answer junk date p (req\<lparr>req_json_body := Inr (Some json)\<rparr>) fd ''POST'' path) (\<lambda>(res, p').
            Inr (Some (if epoll_ok then Responding res else Closed, p'))))"
  by (rule serve_post [OF assms])

text \<open>
  A client's request, and the conditions under which it arrives well: the pieces may cut the headers
  anywhere, but the last of them brings the end of the headers and the whole body.
\<close>

definition json_request :: "string \<Rightarrow> (string \<times> string) list \<Rightarrow> int_members \<Rightarrow> string" where
  "json_request path hs ms = request_text ''POST'' path 1 hs @ object_text ms"

definition arrives :: "char list list \<Rightarrow> string \<Rightarrow> (string \<times> string) list \<Rightarrow> int_members \<Rightarrow> nat \<Rightarrow> bool" where
  "arrives dat path hs ms cap \<longleftrightarrow>
     [] \<notin> set dat \<and> dat \<noteq> [] \<and> concat dat = json_request path hs ms \<and> length (concat dat) \<le> cap \<and>
     length (concat (butlast dat)) < length (request_text ''POST'' path 1 hs)"

definition json_headers :: "(string \<times> string) list \<Rightarrow> int_members \<Rightarrow> bool" where
  "json_headers hs ms \<longleftrightarrow> list_all good_header hs \<and> length hs \<le> MAX_HEADERS \<and>
     find_header ''content-length'' hs = Some (show_nat (length (object_text ms))) \<and>
     no_longer_name ''content-length'' hs"

lemma member_text_clean: "good_member m \<Longrightarrow> NUL \<notin> set (member_text m)"
  by (auto simp: member_text_def good_member_def list_all_iff plain_char_def show_nat_clean)

lemma members_text_clean: "list_all good_member ms \<Longrightarrow> NUL \<notin> set (members_text ms)"
  by (induction ms rule: members_text.induct) (simp_all add: member_text_clean)

lemma serve_json:
  assumes "register_routes (handler_init ep ev bs cap bd) = Inr h" and "good_path path"
    and "list_all good_member ms" and "json_headers hs ms" and "arrives dat path hs ms cap"
    and "length (object_text ms) < 2 ^ 31" and "length (object_text ms) < stack_room"
  shows "\<exists>req. posts req (object_item ms) \<and>
    on_readable junk date slack stack_room [] h p fd True (map ReadBytes dat @ os) =
      (case slack of
         [] \<Rightarrow> Inl OutOfBounds
       | c # r \<Rightarrow>
           if c \<noteq> NUL then Inr (Some (Skipped, p))
           else and_then (answer junk date p req fd ''POST'' path) (\<lambda>(res, p'). Inr (Some (Responding res, p'))))"
proof -
  let ?b = "object_text ms"
  have clean: "NUL \<notin> set ?b"
    using members_text_clean [OF assms(3)] by (simp add: object_text_def)
  have json: "cJSON_ParseWithLengthOpts (lit ?b) (length ?b + 1) True [] = Some (Inr (Some (object_item ms), length ?b))"
    by (rule parse_object_lit [OF assms(3)])
  have "list_all good_header hs" "length hs \<le> MAX_HEADERS" "find_header ''content-length'' hs = Some (show_nat (length ?b))"
    "no_longer_name ''content-length'' hs" "[] \<notin> set dat" "concat dat = request_text ''POST'' path 1 hs @ ?b"
    "length (concat (butlast dat)) < length (request_text ''POST'' path 1 hs)" "length (concat dat) \<le> cap"
    using assms(4,5) by (auto simp: json_headers_def arrives_def json_request_def simp del: length_concat)
  from serve_post_whole [OF assms(1,2) _ this(1-4) clean assms(6,7) this(5-8) json, of junk date slack p fd True os,
      unfolded option.case if_True]
  obtain req where "\<forall>json. posts (req\<lparr>req_json_body := Inr (Some json)\<rparr>) json"
    "on_readable junk date slack stack_room [] h p fd True (map ReadBytes dat @ os) =
      (case slack of
         [] \<Rightarrow> Inl OutOfBounds
       | c # r \<Rightarrow>
           if c \<noteq> NUL then Inr (Some (Skipped, p))
           else and_then (answer junk date p (req\<lparr>req_json_body := Inr (Some (object_item ms))\<rparr>) fd ''POST'' path)
             (\<lambda>(res, p'). Inr (Some (Responding res, p'))))"
    by auto
  then show ?thesis by (intro exI [of _ "req\<lparr>req_json_body := Inr (Some (object_item ms))\<rparr>"]) simp
qed

lemma int_member_qty: "int_member (object_item [(''qty'', q)]) ''qty'' = Some (word_of_nat q)"
  by (simp add: int_member_def object_item_def member_item_def cJSON_GetObjectItem_def get_object_item_def
      case_insensitive_equal_def)

lemma show_small: "n < 2 ^ 31 \<Longrightarrow> show_int (sint (word_of_nat n :: i32)) = show_nat n"
  using sint_word_of_nat by (simp add: show_int_def)

text \<open>What /schedule answers to \<open>q\<close> (status and body), and what the cluster becomes.\<close>

definition schedule_reply :: "pronto \<Rightarrow> nat \<Rightarrow> int \<times> string" where
  "schedule_reply p q =
     (if pronto_is_schedulable p (word_of_nat q) then (200, success_body (show_nat q))
      else (400, error_body ''cannot schedule job (qty is too big for the cluster)''))"

definition scheduled :: "pronto \<Rightarrow> nat \<Rightarrow> pronto" where
  "scheduled p q =
     (if pronto_is_schedulable p (word_of_nat q)
      then p\<lparr>job_queue := insort (word_of_nat q) (job_queue p), notify := Suc (notify p)\<rparr> else p)"

text \<open>
  What the memory that the code does not own decides about a JSON request that arrives well: the
  byte behind the clone of the header name, and where the block for the headers of the response
  holds a NUL.
\<close>

definition served ::
  "block \<Rightarrow> (nat \<Rightarrow> char) \<Rightarrow> string \<Rightarrow> int \<Rightarrow> pronto \<Rightarrow> int \<times> string \<Rightarrow> pronto \<Rightarrow> (readable_end \<times> pronto) option result" where
  "served slack junk date fd p = (\<lambda>(status, body) p'.
     case slack of
       [] \<Rightarrow> Inl OutOfBounds
     | c # r \<Rightarrow>
         if c \<noteq> NUL then Inr (Some (Skipped, p))
         else if header_room junk date json_content_type
         then Inr (Some (Responding (json_response date status body fd), p')) else Inl OutOfBounds)"

text \<open>
  Scheduling end to end: POST /schedule with \<open>{"qty": q}\<close>.
\<close>

lemma schedule_end_to_end:
  assumes "register_routes (handler_init ep ev bs cap bd) = Inr h" and "q < 2 ^ 31"
    and "json_headers hs [(''qty'', q)]" and "arrives dat ''/schedule'' hs [(''qty'', q)] cap"
    and "100 \<le> stack_room" and "NUL \<notin> set date" and "sorted (job_queue p)"
  shows "on_readable junk date slack stack_room [] h p fd True (map ReadBytes dat @ os) =
    served slack junk date fd p (schedule_reply p q) (scheduled p q)"
proof -
  let ?ms = "[(''qty'', q)]"
  have good: "list_all good_member ?ms" using assms(2) by (simp add: good_member_def plain_char_def)
  have path: "good_path ''/schedule''" by code_simp
  have len: "length (object_text ?ms) < 2 ^ 31" "length (object_text ?ms) < stack_room"
    using show_nat_length [OF assms(2)] assms(5) by (simp_all add: object_text_def member_text_def)
  obtain req where req: "posts req (object_item ?ms)"
    "on_readable junk date slack stack_room [] h p fd True (map ReadBytes dat @ os) =
      (case slack of
         [] \<Rightarrow> Inl OutOfBounds
       | c # r \<Rightarrow>
           if c \<noteq> NUL then Inr (Some (Skipped, p))
           else and_then (answer junk date p req fd ''POST'' ''/schedule'') (\<lambda>(res, p'). Inr (Some (Responding res, p'))))"
    using serve_json [OF assms(1) path good assms(3,4) len, of junk date slack p fd os] by blast
  show ?thesis
    using req(2) schedule_builds [OF req(1) assms(6,7) int_member_qty, of junk fd] show_small [OF assms(2)]
    by (auto simp: answer_def served_def schedule_reply_def scheduled_def split: list.splits)
qed

text \<open>A sample client.\<close>

definition sample_headers :: "(string \<times> string) list" where
  "sample_headers = [(''Host'', ''a:1''), (''Content-length'', ''9'')]"

definition sample_pieces :: "char list list" where
  "sample_pieces = [take 7 (json_request ''/schedule'' sample_headers [(''qty'', 5)]),
     drop 7 (json_request ''/schedule'' sample_headers [(''qty'', 5)])]"

lemma sample_arrives: "arrives sample_pieces ''/schedule'' sample_headers [(''qty'', 5)] 200"
  by code_simp

lemma sample_json: "json_headers sample_headers [(''qty'', 5)]"
  by code_simp

lemma sample_schedulable: "pronto_is_schedulable (pronto_init 2 1) 5"
  by code_simp

lemma schedule_end_to_end_witness:
  "\<exists>h. on_readable (\<lambda>_. NUL) ''now'' [NUL] 1000 [] h (pronto_init 2 1) 7 True (map ReadBytes sample_pieces @ []) =
    Inr (Some (Responding (json_response ''now'' 200 (success_body ''5'') 7), (pronto_init 2 1)\<lparr>job_queue := [5], notify := 1\<rparr>))"
proof -
  obtain h where h: "register_routes (handler_init 3 4 50 200 50) = Inr h" using register_routes_run by blast
  have q: "sorted (job_queue (pronto_init 2 1))" "job_queue (pronto_init 2 1) = []" "notify (pronto_init 2 1) = 0"
    "show_nat 5 = ''5''"
    by (simp_all add: pronto_init_def Let_def show_nat_def digits_rev.simps digit_char_def) code_simp
  have "header_room (\<lambda>_. NUL) ''now'' json_content_type" using roomy_zeros by (simp add: roomy_def)
  then show ?thesis
    using schedule_end_to_end [OF h _ sample_json sample_arrives _ _ q(1), of 1000 "''now''" "\<lambda>_. NUL" "[NUL]" 7 "[]"]
      sample_schedulable q(2-4) by (intro exI [of _ h]) (simp add: served_def schedule_reply_def scheduled_def)
qed

lemma sample_facts:
  shows "good_path ''/schedule''" and "list_all good_header sample_headers" and "length sample_headers \<le> MAX_HEADERS"
    and "find_header ''content-length'' sample_headers = Some (show_nat (length (object_text [(''qty'', 5)])))"
    and "no_longer_name ''content-length'' sample_headers" and "NUL \<notin> set (object_text [(''qty'', 5)])"
    and "length (object_text [(''qty'', 5)]) < 1000"
  by code_simp+


text \<open>The same request, with the body in a piece of its own: it is skipped.\<close>

lemma late_body_is_not_read_witness:
  "\<exists>h. on_readable (\<lambda>_. NUL) ''now'' [NUL] 1000 [] h (pronto_init 2 1) 7 True
     (map ReadBytes [request_text ''POST'' ''/schedule'' 1 sample_headers, object_text [(''qty'', 5)]] @ []) =
    Inr (Some (Skipped, pronto_init 2 1))"
proof -
  let ?b = "object_text [(''qty'', 5)]" and ?t = "request_text ''POST'' ''/schedule'' 1 sample_headers"
  obtain h where h: "register_routes (handler_init 3 4 50 200 50) = Inr h" using register_routes_run by blast
  have d: "[] \<notin> set [?t, ?b]" "?t = read_until (length ?t) [?t, ?b]" "length ?t \<le> 200" by code_simp+
  have len: "length ?b < 2 ^ 31" using sample_facts(7) by simp
  have parsed: "parsed_body [NUL] (drop (length ?t) ?t @ drop (length ?t) (malloc (\<lambda>_. NUL) 200)) (length ?b) [] = Inr None"
    by code_simp
  from late_body_is_not_read [OF h sample_facts(1) _ sample_facts(2-5) len sample_facts(7) d(1) _ d(2,3),
      of ?b "\<lambda>_. NUL" "''now''" "[NUL]" "[]" "pronto_init 2 1" 7 True "[]"]
  show ?thesis unfolding parsed by auto
qed

section \<open>Other requests\<close>

text \<open>
  Every request that is not a POST has undefined behaviour: \<open>json_body\<close> of the request
  structure is written only for a POST, and \<open>build_response\<close> reads it for every request before
  it looks at the route. A well-formed GET is never answered with a defined value.
\<close>

lemma other_methods_are_undefined:
  assumes "good_token m" and "m \<noteq> ''POST''" and "m \<noteq> ''post''" and "good_path path" and "v \<le> 9"
    and "list_all good_header hs" and "length hs \<le> MAX_HEADERS"
    and "request_text m path v hs = concat dat" and "[] \<notin> set dat" and "length (concat dat) \<le> max_request_size h"
  shows "on_readable junk date slack stack_room oks h p fd epoll_ok (map ReadBytes dat @ os) = Inl Uninitialised"
proof -
  have ne: "dat \<noteq> []" using assms(8) by (auto simp: request_text_def)
  then have "length (concat dat) = length (concat (butlast dat)) + length (last dat)"
    by (metis append_butlast_last_id concat.simps(1) concat.simps(2) concat_append append_Nil2 length_append)
  moreover have "0 < length (last dat)" using ne assms(9) by (metis last_in_set length_greater_0_conv)
  ultimately have short: "length (concat (butlast dat)) < length (request_text m path v hs)"
    using assms(8) by simp
  obtain req rd where "receive junk (max_request_size h) (new_reader junk (max_request_size h)) (map ReadBytes dat @ os) =
      Inr (Some (Parsed (length (request_text m path v hs)) req False, rd))" "request_is (request_buffer rd) req m path hs"
    using receive_printed [OF assms(1,4,5,6,7) holding_new [of junk "max_request_size h"] ne assms(9),
        where body = "[]" and os = os] short assms(2,3,8,10)
    by (auto simp del: length_concat)
  then show ?thesis
    by (simp add: on_readable_def after_receive_def respond_def build_response_def request_is_def)
qed

lemma other_methods_are_undefined_witness:
  "on_readable (\<lambda>_. NUL) ''now'' [NUL] 1000 [] (handler_init 3 4 50 200 50) (pronto_init 2 1) 7 True
     (map ReadBytes [request_text ''GET'' ''/'' 1 []] @ []) = Inl Uninitialised"
proof -
  have g: "good_token ''GET''" "good_path ''/''" "length (concat [request_text ''GET'' ''/'' 1 []]) \<le> 200"
    "[] \<notin> set [request_text ''GET'' ''/'' 1 []]" by code_simp+
  show ?thesis
    by (rule other_methods_are_undefined [where m = "''GET''" and path = "''/''" and v = 1 and hs = "[]"])
      (use g in \<open>simp_all add: handler_init_def\<close>)
qed

text \<open>
  A POST without a Content-Length gets no answer: the code marks it as a bad request, but
  then goes on to the next event instead of building the 400 response, and the connection is
  left open. (The heap behind the name of the wanted header starts with a NUL, as above.)
\<close>

lemma no_length_no_answer:
  assumes "good_path path" and "v \<le> 9" and "list_all good_header hs" and "length hs \<le> MAX_HEADERS"
    and "find_header ''content-length'' hs = None" and "[] \<notin> set dat" and "dat \<noteq> []"
    and "concat dat = request_text ''POST'' path v hs @ body"
    and "length (concat (butlast dat)) < length (request_text ''POST'' path v hs)"
    and "length (concat dat) \<le> max_request_size h"
  shows "on_readable junk date (NUL # slack) stack_room oks h p fd epoll_ok (map ReadBytes dat @ os) =
    Inr (Some (Skipped, p))"
proof -
  have post: "good_token ''POST''" by code_simp
  have key: "NUL \<notin> set ''content-length''" by simp
  have clone: "wanted_clone junk ''Content-Length'' = Inr ''content-length''"
    by (simp only: wanted_clone_string lower_content_length)
  obtain req rd where r: "receive junk (max_request_size h) (new_reader junk (max_request_size h)) (map ReadBytes dat @ os) =
      Inr (Some (Parsed (length (request_text ''POST'' path v hs)) req True, rd))"
    "request_is (request_buffer rd) req ''POST'' path hs"
    using receive_printed [OF post assms(1-4) holding_new [of junk "max_request_size h"] assms(7,6),
        where body = body and os = os] assms(8-10)
    by (auto simp del: length_concat)
  then have "get_header junk (NUL # slack) (request_buffer rd) (req_headers req) (req_num_headers req) ''Content-Length'' = Inr None"
    using get_header_loop_finds [OF _ key, of "req_headers req" "request_buffer rd" junk slack] assms(5)
    by (simp add: get_header_def clone request_is_def)
  then show ?thesis
    using r(1) by (simp add: on_readable_def after_receive_def parse_body_def)
qed

lemma no_length_no_answer_witness:
  "on_readable (\<lambda>_. NUL) ''now'' [NUL] 1000 [] (handler_init 3 4 50 200 50) (pronto_init 2 1) 7 True
     (map ReadBytes [request_text ''POST'' ''/done'' 1 [] @ object_text []] @ []) = Inr (Some (Skipped, pronto_init 2 1))"
proof -
  have g: "good_path ''/done''" "length (concat [request_text ''POST'' ''/done'' 1 [] @ object_text []]) \<le> 200"
    "[] \<notin> set [request_text ''POST'' ''/done'' 1 [] @ object_text []]"
    "length (concat (butlast [request_text ''POST'' ''/done'' 1 [] @ object_text []])) < length (request_text ''POST'' ''/done'' 1 [])"
    by code_simp+
  show ?thesis
    by (rule no_length_no_answer [where path = "''/done''" and v = 1 and hs = "[]" and body = "object_text []"])
      (use g in \<open>simp_all add: handler_init_def\<close>)
qed

end
