(* ===== verification/Server.thy ===== *)
theory Server
  imports Handler
begin

text \<open>
  The server of lib/server.c: setting up the listening socket and the handlers, accepting
  connections, and handing them to the handlers in turn. What the system calls return is a
  parameter; \<open>exit(-1)\<close> is the fault \<open>ExitFailure\<close>. On Linux EWOULDBLOCK is EAGAIN.
\<close>

section \<open>Configuration and state\<close>

definition MAX_EVENTS :: int where "MAX_EVENTS = 128"
definition PORT :: int where "PORT = 8080"
definition MAX_EPOLL_HANDLER_QUEUE_SIZE :: int where "MAX_EPOLL_HANDLER_QUEUE_SIZE = 2048"
definition REQUEST_BUFFER_SIZE :: nat where "REQUEST_BUFFER_SIZE = 32368"
definition MAX_REQUEST_SIZE :: nat where "MAX_REQUEST_SIZE = 122880"
definition MAX_BODY_SIZE :: nat where "MAX_BODY_SIZE = 122880"

record server =
  srv_socket_fd :: int
  srv_epoll_fd :: int
  srv_max_connection_events :: int
  srv_num_handlers :: int
  srv_max_body_size :: nat
  srv_selector :: int
  srv_handlers :: "handler list"
  srv_active :: bool

section \<open>Initialisation\<close>

text \<open>The two calls of fcntl return \<open>flags\<close> and \<open>set\<close>.\<close>

definition make_nonblocking :: "int \<Rightarrow> int \<Rightarrow> unit result" where
  "make_nonblocking flags setfl =
     (if flags = - 1 then Inl ExitFailure else if setfl = - 1 then Inl ExitFailure else Inr ())"

text \<open>What the calls of \<open>create_socket\<close> and \<open>server_init\<close> return, in order.\<close>

record startup =
  ret_socket :: int
  ret_setsockopt :: int
  ret_bind :: int
  ret_listen :: int
  ret_getfl :: int
  ret_setfl :: int
  ret_epoll_create :: int
  ret_epoll_ctl :: int
  ret_handler_epolls :: "nat \<Rightarrow> int"

definition create_socket :: "startup \<Rightarrow> int result" where
  "create_socket env =
     (if ret_socket env < 0 then Inl ExitFailure
      else if ret_setsockopt env < 0 then Inl ExitFailure
      else if ret_bind env < 0 then Inl ExitFailure
      else if ret_listen env < 0 then Inl ExitFailure
      else and_then (make_nonblocking (ret_getfl env) (ret_setfl env)) (\<lambda>_. Inr (ret_socket env)))"

definition server_init ::
  "startup \<Rightarrow> int \<Rightarrow> int \<Rightarrow> int \<Rightarrow> nat \<Rightarrow> nat \<Rightarrow> nat \<Rightarrow> server result" where
  "server_init env max_evs num_handlers max_queue request_buf max_request max_body =
     and_then (create_socket env) (\<lambda>socket_fd.
       if ret_epoll_create env < 0 then Inl ExitFailure
       else if ret_epoll_ctl env < 0 then Inl ExitFailure
       else Inr \<lparr>srv_socket_fd = socket_fd, srv_epoll_fd = ret_epoll_create env,
         srv_max_connection_events = max_evs, srv_num_handlers = num_handlers,
         srv_max_body_size = max_body, srv_selector = 0,
         srv_handlers = map (\<lambda>i. handler_init (ret_handler_epolls env i) max_queue request_buf
           max_request max_body) [0..<nat num_handlers],
         srv_active = False\<rparr>)"

text \<open>The call in \<open>pronto_init\<close>.\<close>

definition start_server :: "startup \<Rightarrow> server result" where
  "start_server env =
     server_init env MAX_EVENTS NUM_HANDLERS MAX_EPOLL_HANDLER_QUEUE_SIZE REQUEST_BUFFER_SIZE
       MAX_REQUEST_SIZE MAX_BODY_SIZE"

section \<open>Accepting connections\<close>

text \<open>
  What accept, fcntl and \<open>epoll_ctl\<close> return for a connection; \<open>again\<close> says that \<open>errno\<close> is
  EAGAIN when accept fails.
\<close>

record accept_outcome =
  client_fd :: int
  again :: bool
  client_getfl :: int
  client_setfl :: int
  client_epoll_ctl :: int

text \<open>\<open>Some (e, fd)\<close>: the client \<open>fd\<close> was added to the epoll instance \<open>e\<close> of a handler.\<close>

definition server_on_connection :: "server \<Rightarrow> accept_outcome \<Rightarrow> (server \<times> (int \<times> int) option) result" where
  "server_on_connection s a =
     (if client_fd a < 0 then
        (if \<not> again a then Inl ExitFailure else Inr (s, None))
      else
        and_then (make_nonblocking (client_getfl a) (client_setfl a)) (\<lambda>_.
          if srv_selector s < 0 \<or> int (length (srv_handlers s)) \<le> srv_selector s \<or> srv_num_handlers s = 0
          then Inl OutOfBounds
          else
            let selected_handler = srv_handlers s ! nat (srv_selector s);
                s' = s\<lparr>srv_selector := (srv_selector s + 1) mod srv_num_handlers s\<rparr> in
            if client_epoll_ctl a < 0 then Inl ExitFailure
            else Inr (s', Some (epoll_fd selected_handler, client_fd a))))"

text \<open>
  \<open>server_loop\<close> on the descriptors that \<open>epoll_wait\<close> reports, in order, with what accept answers
  for each; only events of the listening socket lead to an accept.
\<close>

fun server_loop :: "server \<Rightarrow> (int \<times> accept_outcome) list \<Rightarrow> (server \<times> (int \<times> int) list) result" where
  "server_loop s [] = Inr (s, [])"
| "server_loop s ((fd, a) # evs) =
     (if fd = srv_socket_fd s then
        and_then (server_on_connection s a) (\<lambda>(s', added).
        and_then (server_loop s' evs) (\<lambda>(s'', rest).
          Inr (s'', (case added of None \<Rightarrow> rest | Some x \<Rightarrow> x # rest))))
      else server_loop s evs)"

section \<open>Round robin\<close>

text \<open>A server with \<open>n\<close> handlers whose next handler is \<open>k\<close>.\<close>

definition next_handler :: "server \<Rightarrow> nat \<Rightarrow> nat \<Rightarrow> bool" where
  "next_handler s n k \<longleftrightarrow> 0 < n \<and> k < n \<and> srv_selector s = int k \<and> srv_num_handlers s = int n \<and>
     length (srv_handlers s) = n"

definition good_accept :: "accept_outcome \<Rightarrow> bool" where
  "good_accept a \<longleftrightarrow> 0 \<le> client_fd a \<and> client_getfl a \<noteq> - 1 \<and> client_setfl a \<noteq> - 1 \<and> 0 \<le> client_epoll_ctl a"

lemma init_next_handler:
  assumes "server_init env me (int n) mq rb mr mb = Inr s" and "0 < n"
  shows "next_handler s n 0"
  using assms by (auto simp: server_init_def next_handler_def elim!: and_then_InrE split: if_splits)

lemma init_handlers:
  assumes "server_init env me nh mq rb mr mb = Inr s"
  shows "srv_handlers s = map (\<lambda>i. handler_init (ret_handler_epolls env i) mq rb mr mb) [0..<nat nh]"
  using assms by (auto simp: server_init_def elim!: and_then_InrE split: if_splits)

lemma connection_step:
  assumes "next_handler s n k" and "good_accept a"
  shows "\<exists>s'. server_on_connection s a = Inr (s', Some (epoll_fd (srv_handlers s ! k), client_fd a)) \<and>
    next_handler s' n ((k + 1) mod n) \<and> srv_handlers s' = srv_handlers s \<and> srv_socket_fd s' = srv_socket_fd s"
  using assms
  by (auto simp: server_on_connection_def next_handler_def good_accept_def make_nonblocking_def Let_def
      zmod_int add.commute)

lemma connections_from:
  "next_handler s n k \<Longrightarrow> \<forall>a \<in> set cs. good_accept a \<Longrightarrow>
   \<exists>s'. server_loop s (map (Pair (srv_socket_fd s)) cs) =
     Inr (s', map (\<lambda>i. (epoll_fd (srv_handlers s ! ((k + i) mod n)), client_fd (cs ! i))) [0..<length cs])"
proof (induction cs arbitrary: s k)
  case (Cons a cs)
  obtain s1 where s1: "server_on_connection s a = Inr (s1, Some (epoll_fd (srv_handlers s ! k), client_fd a))"
    "next_handler s1 n ((k + 1) mod n)" "srv_handlers s1 = srv_handlers s" "srv_socket_fd s1 = srv_socket_fd s"
    using connection_step [OF Cons.prems(1), of a] Cons.prems(2) by auto
  have "\<forall>a \<in> set cs. good_accept a" using Cons.prems(2) by simp
  from Cons.IH [OF s1(2) this] obtain s2 where "server_loop s1 (map (Pair (srv_socket_fd s)) cs) =
      Inr (s2, map (\<lambda>i. (epoll_fd (srv_handlers s ! (((k + 1) mod n + i) mod n)), client_fd (cs ! i))) [0..<length cs])"
    using s1(3,4) by auto
  moreover have "((k + 1) mod n + i) mod n = (k + Suc i) mod n" for i
    by (metis add.assoc add.commute mod_add_left_eq plus_1_eq_Suc)
  moreover have "[0..<length (a # cs)] = 0 # map Suc [0..<length cs]"
    by (simp add: map_Suc_upt upt_conv_Cons del: upt_Suc)
  moreover have "k mod n = k" using Cons.prems(1) by (simp add: next_handler_def)
  ultimately show ?case using s1(1) by (simp add: o_def)
qed simp

text \<open>
  Connections go round the handlers. On a freshly initialised server with \<open>n > 0\<close> handlers, if
  every connection is accepted, the \<open>i\<close>-th client is added to the epoll instance of handler
  \<open>i mod n\<close>, each client once and in order.
\<close>

lemma connections_round_robin:
  assumes "server_init env me (int n) mq rb mr mb = Inr s" and "0 < n" and "\<forall>a \<in> set cs. good_accept a"
  shows "\<exists>s'. server_loop s (map (Pair (srv_socket_fd s)) cs) =
    Inr (s', map (\<lambda>i. (ret_handler_epolls env (i mod n), client_fd (cs ! i))) [0..<length cs])"
proof -
  have "epoll_fd (srv_handlers s ! (i mod n)) = ret_handler_epolls env (i mod n)" for i
    using init_handlers [OF assms(1)] assms(2) by (simp add: handler_init_def)
  then show ?thesis
    using connections_from [OF init_next_handler [OF assms(1,2)] assms(3)] by simp
qed

definition sample_startup :: startup where
  "sample_startup = \<lparr>ret_socket = 3, ret_setsockopt = 0, ret_bind = 0, ret_listen = 0, ret_getfl = 0,
     ret_setfl = 0, ret_epoll_create = 4, ret_epoll_ctl = 0, ret_handler_epolls = (\<lambda>i. 5 + int i)\<rparr>"

definition sample_client :: "int \<Rightarrow> accept_outcome" where
  "sample_client fd = \<lparr>client_fd = fd, again = False, client_getfl = 0, client_setfl = 0, client_epoll_ctl = 0\<rparr>"

lemma connections_round_robin_witness:
  "\<exists>s s'. server_init sample_startup 8 (int 2) 8 8 8 8 = Inr s \<and>
    server_loop s (map (Pair (srv_socket_fd s)) [sample_client 20, sample_client 21, sample_client 22]) =
      Inr (s', [(5, 20), (6, 21), (5, 22)])"
proof -
  obtain s where s: "server_init sample_startup 8 (int 2) 8 8 8 8 = Inr s"
    by (auto simp: server_init_def create_socket_def make_nonblocking_def sample_startup_def)
  have "\<forall>a \<in> set [sample_client 20, sample_client 21, sample_client 22]. good_accept a"
    by (simp add: good_accept_def sample_client_def)
  from connections_round_robin [OF s _ this] s show ?thesis
    by (auto simp: sample_startup_def sample_client_def upt_rec)
qed

end
