(* ===== verification/Handler_Epoll.thy ===== *)
theory Handler_Epoll
  imports Handler_Serve Server
begin

text \<open>
  The loop of \<open>handler_process_request\<close> (lib/handler.c) over the events of many connections, with
  the epoll instance it shares with the server thread. The kernel's side is written down as
  documented: the descriptors registered with the instance, each with its event mask and its
  data, and which events can be reported for them. \<open>epoll_data\<close> is a union: the same bytes are a
  descriptor or the address of a response, and which of the two the code reads depends on the
  event alone.
\<close>

section \<open>The state\<close>

datatype epoll_data = DataFd int | DataPtr u64

text \<open>Reading \<open>data.fd\<close> of an address gives its low half.\<close>

fun data_fd :: "epoll_data \<Rightarrow> int" where
  "data_fd (DataFd fd) = fd"
| "data_fd (DataPtr a) = sint (ucast a :: i32)"

definition EPOLLET :: u32 where "EPOLLET = 2147483648"
definition EPOLLERR :: u32 where "EPOLLERR = 8"
definition EPOLLHUP :: u32 where "EPOLLHUP = 16"

text \<open>
  \<open>pending\<close> are the events of the last \<open>epoll_wait\<close> that are not handled yet; \<open>responses\<close> the
  allocated structures by their address. \<open>gone\<close> are the descriptors whose connection is over
  (EPOLLHUP holds for them).
  \<open>received\<close> is not part of the program: it records what the client behind a descriptor has been
  sent.
\<close>

record loop_state =
  epoll_set :: "int \<rightharpoonup> u32 \<times> epoll_data"
  open_fds :: "int set"
  responses :: "u64 \<rightharpoonup> http_response"
  pending :: "(u32 \<times> epoll_data) list"
  shared :: pronto
  gone :: "int set"
  received :: "int \<Rightarrow> char list"

text \<open>Closing the only descriptor of a socket also removes it from the instance.\<close>

definition epoll_del :: "int \<Rightarrow> loop_state \<Rightarrow> loop_state" where
  "epoll_del fd s = s\<lparr>epoll_set := (epoll_set s)(fd := None)\<rparr>"

definition close_fd :: "int \<Rightarrow> loop_state \<Rightarrow> loop_state" where
  "close_fd fd s = (epoll_del fd s)\<lparr>open_fds := open_fds s - {fd}\<rparr>"

definition http_response_destroy :: "u64 \<Rightarrow> loop_state \<Rightarrow> loop_state" where
  "http_response_destroy a s = s\<lparr>responses := (responses s)(a := None)\<rparr>"

section \<open>One event\<close>

text \<open>
  What the environment answers while an event is handled: the reads, the allocations of the JSON
  parser, the address of the new response, whether \<open>epoll_ctl\<close> succeeds, the send; and what
  fresh memory, the clock and the stack give.
\<close>

record answers =
  ans_reads :: "read_outcome list"
  ans_allocs :: allocs
  ans_address :: u64
  ans_ctl :: bool
  ans_send :: send_outcome
  ans_junk :: "nat \<Rightarrow> char"
  ans_date :: string
  ans_slack :: block
  ans_stack :: nat

text \<open>\<open>epoll_ctl\<close> also fails for a descriptor that is not registered.\<close>

definition readable_event ::
  "handler \<Rightarrow> int \<Rightarrow> answers \<Rightarrow> loop_state \<Rightarrow> loop_state option result" where
  "readable_event h fd ans s =
     and_then (on_readable (ans_junk ans) (ans_date ans) (ans_slack ans) (ans_stack ans) (ans_allocs ans)
       h (shared s) fd (ans_ctl ans \<and> epoll_set s fd \<noteq> None) (ans_reads ans)) (\<lambda>r. Inr (
         case r of
           None \<Rightarrow> None
         | Some (Skipped, p) \<Rightarrow> Some (s\<lparr>shared := p\<rparr>)
         | Some (Responding res, p) \<Rightarrow>
             Some (s\<lparr>shared := p, responses := (responses s)(ans_address ans \<mapsto> res),
               epoll_set := (epoll_set s)(fd \<mapsto> (EPOLLOUT, DataPtr (ans_address ans)))\<rparr>)
         | Some (Closed, p) \<Rightarrow> Some (close_fd fd (s\<lparr>shared := p\<rparr>))))"

text \<open>Sending on a closed descriptor fails. A send that fails otherwise leaves everything as it is.\<close>

definition deliver :: "int \<Rightarrow> char list \<Rightarrow> loop_state \<Rightarrow> loop_state" where
  "deliver fd bs s = s\<lparr>received := (received s)(fd := received s fd @ bs)\<rparr>"

definition writable_event :: "u64 \<Rightarrow> answers \<Rightarrow> loop_state \<Rightarrow> loop_state result" where
  "writable_event a ans s =
     (case responses s a of
        None \<Rightarrow> Inl InvalidPointer
      | Some res \<Rightarrow>
          let fd = res_socket res in
          and_then (on_writable res (if fd \<in> open_fds s then ans_send ans else SendError EOther)) (\<lambda>r. Inr (
            case r of
              Sent bs res' \<Rightarrow> deliver fd bs (s\<lparr>responses := (responses s)(a \<mapsto> res')\<rparr>)
            | Finished bs \<Rightarrow> http_response_destroy a (close_fd fd (epoll_del fd (deliver fd bs s)))
            | Waiting \<Rightarrow> s
            | SendFailed \<Rightarrow> s)))"

text \<open>
  The body of the loop over the events. Where the data is a descriptor, \<open>data.ptr\<close> is no address
  of a response. \<open>None\<close> while the answers of read are not enough.
\<close>

definition handle_event ::
  "handler \<Rightarrow> u32 \<times> epoll_data \<Rightarrow> answers \<Rightarrow> loop_state \<Rightarrow> loop_state option result" where
  "handle_event h ev ans s =
     (case ev of (events, d) \<Rightarrow>
        (case event_kind events of
           Readable \<Rightarrow> readable_event h (data_fd d) ans s
         | Writable \<Rightarrow>
             (case d of DataFd fd \<Rightarrow> Inl InvalidPointer
              | DataPtr a \<Rightarrow> and_then (writable_event a ans s) (\<lambda>s'. Inr (Some s')))
         | OtherEvent \<Rightarrow> Inr (Some (close_fd (data_fd d) (epoll_del (data_fd d) s)))))"

section \<open>The steps\<close>

text \<open>
  An event the kernel can report: bits of the mask, an error or a hang-up, and at least one; with
  the hang-up if the peer is gone, which cannot be masked.
\<close>

definition reported :: "loop_state \<Rightarrow> int \<Rightarrow> u32 \<times> epoll_data \<Rightarrow> bool" where
  "reported s fd = (\<lambda>(events, d).
     \<exists>interest. epoll_set s fd = Some (interest, d) \<and> events \<noteq> 0 \<and>
       events AND NOT (interest OR EPOLLERR OR EPOLLHUP) = 0 \<and> (fd \<in> gone s \<longrightarrow> events AND EPOLLHUP \<noteq> 0))"

text \<open>
  What \<open>epoll_wait\<close> can return: at most one event for a descriptor, at most \<open>max_events\<close>, and
  at least one, that is at once, while the peer of a descriptor that is registered without EPOLLET
  is gone.
\<close>

definition hung_up :: "loop_state \<Rightarrow> int \<Rightarrow> bool" where
  "hung_up s fd \<longleftrightarrow> fd \<in> gone s \<and> (\<exists>interest d. epoll_set s fd = Some (interest, d) \<and> interest AND EPOLLET = 0)"

definition wait_returns :: "handler \<Rightarrow> loop_state \<Rightarrow> (u32 \<times> epoll_data) list \<Rightarrow> bool" where
  "wait_returns h s evs \<longleftrightarrow>
     (\<exists>fs. distinct fs \<and> list_all2 (reported s) fs evs) \<and> int (length evs) \<le> max_events h \<and>
     ((\<exists>fd. hung_up s fd) \<longrightarrow> evs \<noteq> [])"

definition add_client :: "int \<Rightarrow> loop_state \<Rightarrow> loop_state" where
  "add_client fd s =
     s\<lparr>open_fds := insert fd (open_fds s), epoll_set := (epoll_set s)(fd \<mapsto> (EPOLLIN OR EPOLLET, DataFd fd)),
       gone := gone s - {fd}, received := (received s)(fd := [])\<rparr>"

text \<open>
  The handler waits and handles events; the server thread adds clients; peers hang up; other
  threads change the cluster. accept returns a descriptor that is not open, malloc an address that
  is not in use. A step that handles an event is labelled with it; where its code has
  undefined behaviour there is no step, and the run ends.
\<close>

inductive loop_step :: "handler \<Rightarrow> loop_state \<Rightarrow> (u32 \<times> epoll_data) option \<Rightarrow> loop_state \<Rightarrow> bool" for h where
  step_accept:
    "server_on_connection srv out = Inr (srv', Some (epoll_fd h, fd)) \<Longrightarrow> fd \<notin> open_fds s \<Longrightarrow>
     loop_step h s None (add_client fd s)"
| step_hang_up: "fd \<in> open_fds s \<Longrightarrow> loop_step h s None (s\<lparr>gone := insert fd (gone s)\<rparr>)"
| step_wait: "pending s = [] \<Longrightarrow> wait_returns h s evs \<Longrightarrow> loop_step h s None (s\<lparr>pending := evs\<rparr>)"
| step_event:
    "pending s = ev # evs \<Longrightarrow> responses s (ans_address ans) = None \<Longrightarrow>
     handle_event h ev ans (s\<lparr>pending := evs\<rparr>) = Inr (Some s') \<Longrightarrow> loop_step h s (Some ev) s'"
| step_others: "loop_step h s None (s\<lparr>shared := p\<rparr>)"

text \<open>The handler starts with an empty instance.\<close>

definition loop_start :: "loop_state \<Rightarrow> bool" where
  "loop_start s \<longleftrightarrow> epoll_set s = Map.empty \<and> responses s = Map.empty \<and> pending s = []"

inductive loop_reachable :: "handler \<Rightarrow> loop_state \<Rightarrow> bool" for h where
  start: "loop_start s \<Longrightarrow> loop_reachable h s"
| step: "loop_reachable h s \<Longrightarrow> loop_step h s l s' \<Longrightarrow> loop_reachable h s'"

section \<open>The data of events\<close>

text \<open>
  What holds in every run: a registered descriptor waits for a request or has an allocated
  response of its own attached, and the address in an event not yet handled is that of an
  allocated response, which no other such event carries.
\<close>

definition attached_ok :: "loop_state \<Rightarrow> bool" where
  "attached_ok s \<longleftrightarrow>
     (\<forall>fd interest fd'. epoll_set s fd = Some (interest, DataFd fd') \<longrightarrow>
        fd \<in> open_fds s \<and> interest = EPOLLIN OR EPOLLET \<and> fd' = fd) \<and>
     (\<forall>fd interest a. epoll_set s fd = Some (interest, DataPtr a) \<longrightarrow>
        fd \<in> open_fds s \<and> interest = EPOLLOUT \<and> (\<exists>res. responses s a = Some res \<and> res_socket res = fd))"

fun pointers :: "(u32 \<times> epoll_data) list \<Rightarrow> u64 list" where
  "pointers [] = []"
| "pointers ((events, DataFd fd) # evs) = pointers evs"
| "pointers ((events, DataPtr a) # evs) = a # pointers evs"

definition event_ok :: "u32 \<times> epoll_data \<Rightarrow> bool" where
  "event_ok = (\<lambda>(events, d). case d of
     DataFd fd \<Rightarrow> event_kind events \<noteq> Writable | DataPtr a \<Rightarrow> event_kind events \<noteq> Readable)"

definition events_ok :: "loop_state \<Rightarrow> bool" where
  "events_ok s \<longleftrightarrow> list_all event_ok (pending s) \<and> distinct (pointers (pending s)) \<and>
     set (pointers (pending s)) \<subseteq> dom (responses s)"

lemmas state_changes = epoll_del_def close_fd_def http_response_destroy_def deliver_def add_client_def

lemma masks:
  "EPOLLIN OR EPOLLET \<noteq> EPOLLOUT" "EPOLLIN \<noteq> EPOLLOUT" "EPOLLIN \<noteq> 0" "EPOLLOUT \<noteq> 0"
  "EPOLLIN AND NOT ((EPOLLIN OR EPOLLET) OR EPOLLERR OR EPOLLHUP) = 0"
  "EPOLLIN AND NOT (EPOLLOUT OR EPOLLERR OR EPOLLHUP) \<noteq> 0"
  "EPOLLOUT AND NOT (EPOLLOUT OR EPOLLERR OR EPOLLHUP) = 0"
  "EPOLLOUT AND NOT ((EPOLLIN OR EPOLLET) OR EPOLLERR OR EPOLLHUP) \<noteq> 0"
  "EPOLLOUT AND EPOLLHUP = 0"
  by (simp_all add: EPOLLIN_def EPOLLOUT_def EPOLLET_def EPOLLERR_def EPOLLHUP_def)

lemma kind_readable: "event_kind events = Readable \<longleftrightarrow> events = EPOLLIN"
  and kind_writable: "event_kind events = Writable \<longleftrightarrow> events = EPOLLOUT"
  and kind_other: "event_kind events = OtherEvent \<longleftrightarrow> events \<noteq> EPOLLIN \<and> events \<noteq> EPOLLOUT"
  using masks(2) by (auto simp: event_kind_def)

lemma reported_event_ok:
  assumes "attached_ok s" and "reported s fd ev"
  shows "event_ok ev"
proof -
  obtain events d interest where ev: "ev = (events, d)" "epoll_set s fd = Some (interest, d)"
    "events AND NOT (interest OR EPOLLERR OR EPOLLHUP) = 0"
    using assms(2) by (cases ev) (auto simp: reported_def)
  show ?thesis
  proof (cases d)
    case (DataFd fd')
    then have "interest = EPOLLIN OR EPOLLET" using assms(1) ev(2) by (auto simp: attached_ok_def)
    then have "events \<noteq> EPOLLOUT" using ev(3) masks(8) by metis
    then show ?thesis using ev(1) DataFd by (simp add: event_ok_def kind_writable)
  next
    case (DataPtr a)
    then have "interest = EPOLLOUT" using assms(1) ev(2) by (auto simp: attached_ok_def)
    then have "events \<noteq> EPOLLIN" using ev(3) masks(6) by metis
    then show ?thesis using ev(1) DataPtr by (simp add: event_ok_def kind_readable)
  qed
qed

lemma reported_registered: "reported s fd (events, d) \<Longrightarrow> \<exists>interest. epoll_set s fd = Some (interest, d)"
  by (auto simp: reported_def)

lemma attached_response:
  "attached_ok s \<Longrightarrow> epoll_set s fd = Some (m, DataPtr a) \<Longrightarrow> \<exists>res. responses s a = Some res \<and> res_socket res = fd"
  by (auto simp: attached_ok_def)

lemma attached_open: "attached_ok s \<Longrightarrow> epoll_set s fd \<noteq> None \<Longrightarrow> fd \<in> open_fds s"
proof -
  assume a: "attached_ok s" and "epoll_set s fd \<noteq> None"
  then obtain interest d where "epoll_set s fd = Some (interest, d)" by auto
  then show "fd \<in> open_fds s" using a by (cases d) (auto simp: attached_ok_def)
qed

lemma pointer_reported:
  assumes "attached_ok s"
  shows "list_all2 (reported s) fs evs \<Longrightarrow> a \<in> set (pointers evs) \<Longrightarrow>
    \<exists>fd \<in> set fs. \<exists>res. responses s a = Some res \<and> res_socket res = fd"
proof (induction rule: list_all2_induct)
  case (Cons fd fs ev evs)
  obtain events d where ev: "ev = (events, d)" by (cases ev)
  show ?case
  proof (cases "d = DataPtr a")
    case True
    then show ?thesis using Cons.hyps(1) ev assms by (auto simp: reported_def attached_ok_def)
  next
    case False
    then have "a \<in> set (pointers evs)" using Cons.prems ev by (cases d) auto
    then show ?thesis using Cons.IH by auto
  qed
qed simp

lemma distinct_reported:
  assumes "attached_ok s"
  shows "list_all2 (reported s) fs evs \<Longrightarrow> distinct fs \<Longrightarrow> distinct (pointers evs)"
proof (induction rule: list_all2_induct)
  case (Cons fd fs ev evs)
  obtain events d where ev: "ev = (events, d)" by (cases ev)
  show ?case
  proof (cases d)
    case (DataPtr a)
    then obtain res where "responses s a = Some res" "res_socket res = fd"
      using attached_response [OF assms] reported_registered Cons.hyps(1) ev by blast
    then have "a \<notin> set (pointers evs)"
      using pointer_reported [OF assms Cons.hyps(2), of a] Cons.prems by auto
    then show ?thesis using Cons ev DataPtr by simp
  qed (use Cons ev in simp)
qed simp

section \<open>What an event does\<close>

lemma respond_unsent:
  "respond junk date h p req fd ok = Inr (Responding res, p') \<Longrightarrow> ok \<and> unsent_for fd res"
  by (auto simp: respond_def elim!: and_then_InrE dest: build_response_unsent split: if_splits)

lemma readable_unsent:
  "on_readable junk date slack room oks h p fd ok os = Inr (Some (Responding res, p')) \<Longrightarrow> ok \<and> unsent_for fd res"
  by (auto simp: on_readable_def after_receive_def elim!: and_then_InrE dest!: respond_unsent
      split: option.splits receive_end.splits if_splits)

lemma on_writable_socket: "on_writable res out = Inr (Sent bs res') \<Longrightarrow> res_socket res' = res_socket res"
  by (auto simp: on_writable_def Let_def elim!: and_then_InrE split: send_outcome.splits if_splits)

lemma close_deregisters: "close_fd fd (epoll_del fd s) = close_fd fd s"
  by (simp add: state_changes)

lemma handle_event_effect:
  assumes "handle_event h (events, d) ans s = Inr (Some s')"
  obtains (skip) p where "s' = s\<lparr>shared := p\<rparr>"
  | (attach) p res where "events = EPOLLIN" and "epoll_set s (data_fd d) \<noteq> None" and "unsent_for (data_fd d) res"
      and "s' = s\<lparr>shared := p, responses := (responses s)(ans_address ans \<mapsto> res),
        epoll_set := (epoll_set s)(data_fd d \<mapsto> (EPOLLOUT, DataPtr (ans_address ans)))\<rparr>"
  | (shut) p where "events \<noteq> EPOLLOUT" and "s' = close_fd (data_fd d) (s\<lparr>shared := p\<rparr>)"
  | (sent) a res out bs res' where "events = EPOLLOUT" and "d = DataPtr a" and "responses s a = Some res"
      and "on_writable res out = Inr (Sent bs res')"
      and "s' = deliver (res_socket res) bs (s\<lparr>responses := (responses s)(a \<mapsto> res')\<rparr>)"
  | (finish) a res bs where "events = EPOLLOUT" and "d = DataPtr a" and "responses s a = Some res"
      and "s' = http_response_destroy a (close_fd (res_socket res) (deliver (res_socket res) bs s))"
proof (cases "event_kind events")
  case Readable
  then obtain e p where r: "on_readable (ans_junk ans) (ans_date ans) (ans_slack ans) (ans_stack ans) (ans_allocs ans)
      h (shared s) (data_fd d) (ans_ctl ans \<and> epoll_set s (data_fd d) \<noteq> None) (ans_reads ans) = Inr (Some (e, p))"
    using assms by (auto simp: handle_event_def readable_event_def elim!: and_then_InrE split: option.splits)
  show thesis
  proof (cases e)
    case (Responding res)
    then show thesis using attach [of res p] assms r Readable readable_unsent [OF r [unfolded Responding]]
      by (simp add: handle_event_def readable_event_def kind_readable)
  next
    case Skipped
    then show thesis using skip [of p] assms r Readable by (simp add: handle_event_def readable_event_def)
  next
    case Closed
    then show thesis using shut [of p] assms r Readable masks(2)
      by (simp add: handle_event_def readable_event_def kind_readable)
  qed
next
  case Writable
  then obtain a where d: "d = DataPtr a" "writable_event a ans s = Inr s'"
    using assms by (auto simp: handle_event_def elim!: and_then_InrE split: epoll_data.splits)
  then obtain res where res: "responses s a = Some res" by (auto simp: writable_event_def split: option.splits)
  let ?out = "if res_socket res \<in> open_fds s then ans_send ans else SendError EOther"
  obtain r where r: "on_writable res ?out = Inr r"
    using d(2) res by (auto simp: writable_event_def Let_def elim!: and_then_InrE)
  have s': "s' = (case r of
      Sent bs res' \<Rightarrow> deliver (res_socket res) bs (s\<lparr>responses := (responses s)(a \<mapsto> res')\<rparr>)
    | Finished bs \<Rightarrow> http_response_destroy a (close_fd (res_socket res)
        (epoll_del (res_socket res) (deliver (res_socket res) bs s)))
    | Waiting \<Rightarrow> s | SendFailed \<Rightarrow> s)"
    using d(2) res r by (simp add: writable_event_def Let_def)
  show thesis
  proof (cases r)
    case (Sent bs res')
    then show thesis using sent [OF _ d(1) res] s' r Writable by (simp add: kind_writable)
  next
    case (Finished bs)
    then show thesis using finish [OF _ d(1) res] s' Writable by (simp add: kind_writable close_deregisters)
  qed (use skip [of "shared s"] s' in simp_all)
next
  case OtherEvent
  then have "s' = close_fd (data_fd d) s" using assms by (simp add: handle_event_def close_deregisters)
  moreover have "events \<noteq> EPOLLOUT" using OtherEvent by (simp add: kind_other)
  ultimately show thesis using shut [of "shared s"] by simp
qed

section \<open>The data of events are sound in every run\<close>

lemma handle_event_attached:
  assumes "attached_ok s" and "responses s (ans_address ans) = None" and "handle_event h ev ans s = Inr (Some s')"
  shows "attached_ok s'"
proof -
  obtain events d where "ev = (events, d)" by (cases ev)
  with assms(3) have "handle_event h (events, d) ans s = Inr (Some s')" by simp
  then show ?thesis
  proof (cases rule: handle_event_effect)
    case (skip p)
    then show ?thesis using assms(1) by (simp add: attached_ok_def)
  next
    case (attach p res)
    have keep: "((responses s)(ans_address ans \<mapsto> res)) a = Some r" if "responses s a = Some r" for a r
      using that assms(2) by auto
    have "data_fd d \<in> open_fds s" by (rule attached_open [OF assms(1) attach(2)])
    show ?thesis
      unfolding attached_ok_def
    proof (intro conjI allI impI)
      fix fd interest fd' assume "epoll_set s' fd = Some (interest, DataFd fd')"
      then have "epoll_set s fd = Some (interest, DataFd fd')" using attach(4) by (simp split: if_splits)
      then show "fd \<in> open_fds s'" "interest = EPOLLIN OR EPOLLET" "fd' = fd"
        using assms(1) attach(4) by (auto simp: attached_ok_def)
    next
      fix fd interest a assume e: "epoll_set s' fd = Some (interest, DataPtr a)"
      have "fd \<in> open_fds s \<and> interest = EPOLLOUT \<and>
        (\<exists>r. ((responses s)(ans_address ans \<mapsto> res)) a = Some r \<and> res_socket r = fd)"
      proof (cases "fd = data_fd d")
        case True
        then show ?thesis using e attach(3,4) \<open>data_fd d \<in> open_fds s\<close> by (simp add: unsent_for_def)
      next
        case False
        then have old: "epoll_set s fd = Some (interest, DataPtr a)" using e attach(4) by simp
        then obtain r where "responses s a = Some r" "res_socket r = fd" using attached_response [OF assms(1)] by blast
        then show ?thesis using keep [of a r] old assms(1) by (auto simp: attached_ok_def)
      qed
      then show "fd \<in> open_fds s'" "interest = EPOLLOUT" "\<exists>r. responses s' a = Some r \<and> res_socket r = fd"
        using attach(4) by simp_all
    qed
  next
    case (shut p)
    then show ?thesis using assms(1) by (auto simp: attached_ok_def state_changes)
  next
    case (sent a res out bs res')
    then show ?thesis using assms(1) on_writable_socket [OF sent(4)]
      by (fastforce simp: attached_ok_def state_changes)
  next
    case (finish a res bs)
    have "fd = res_socket res" if "epoll_set s fd = Some (m, DataPtr a)" for fd m
      using attached_response [OF assms(1) that] finish(3) by simp
    then show ?thesis using finish(4) assms(1)
      by (fastforce simp: attached_ok_def state_changes)
  qed
qed

lemma handle_event_responses:
  assumes "handle_event h (events, d) ans s = Inr (Some s')" and "b \<in> dom (responses s)" and "d \<noteq> DataPtr b"
  shows "b \<in> dom (responses s')"
  using assms(1)
  by (cases rule: handle_event_effect) (use assms(2,3) in \<open>auto simp: state_changes\<close>)

lemma handle_event_pending: "handle_event h (events, d) ans s = Inr (Some s') \<Longrightarrow> pending s' = pending s"
  by (cases rule: handle_event_effect) (auto simp: state_changes)

lemma handle_event_events:
  assumes "events_ok s" and "pending s = ev # evs" and "handle_event h ev ans (s\<lparr>pending := evs\<rparr>) = Inr (Some s')"
  shows "events_ok s'"
proof -
  obtain events d where ev: "ev = (events, d)" by (cases ev)
  have "pending s' = evs" using handle_event_pending assms(3) ev by fastforce
  moreover have "b \<in> dom (responses s')" if "b \<in> set (pointers evs)" for b
  proof (rule handle_event_responses [OF assms(3) [unfolded ev]])
    show "b \<in> dom (responses (s\<lparr>pending := evs\<rparr>))"
      using assms(1,2) that ev by (cases d) (auto simp: events_ok_def)
    show "d \<noteq> DataPtr b" using assms(1,2) that ev by (auto simp: events_ok_def)
  qed
  moreover have "list_all event_ok evs \<and> distinct (pointers evs)"
    using assms(1,2) ev by (cases d) (auto simp: events_ok_def)
  ultimately show ?thesis by (auto simp: events_ok_def)
qed

lemma wait_events:
  assumes "attached_ok s" and "distinct fs" and "list_all2 (reported s) fs evs"
  shows "events_ok (s\<lparr>pending := evs\<rparr>)"
proof -
  have "list_all event_ok evs" using assms(3)
    by (induction rule: list_all2_induct) (auto intro: reported_event_ok [OF assms(1)])
  moreover have "set (pointers evs) \<subseteq> dom (responses s)" using pointer_reported [OF assms(1,3)] by blast
  ultimately show ?thesis using distinct_reported [OF assms(1,3,2)] by (simp add: events_ok_def)
qed

lemma loop_step_sound:
  "loop_step h s l s' \<Longrightarrow> attached_ok s \<and> events_ok s \<Longrightarrow> attached_ok s' \<and> events_ok s'"
proof (induction rule: loop_step.induct)
  case (step_accept srv out srv' fd s)
  then show ?case by (auto simp: attached_ok_def events_ok_def add_client_def)
next
  case (step_wait s evs)
  then show ?case using wait_events [of s _ evs] by (auto simp: attached_ok_def wait_returns_def)
next
  case (step_event s ev evs ans s')
  have "attached_ok (s\<lparr>pending := evs\<rparr>)" using step_event.prems by (simp add: attached_ok_def)
  then show ?case using handle_event_attached [OF _ _ step_event.hyps(3)] step_event
      handle_event_events [OF _ step_event.hyps(1,3)] by simp
qed (simp_all add: attached_ok_def events_ok_def)

lemma loop_reachable_sound: "loop_reachable h s \<Longrightarrow> attached_ok s \<and> events_ok s"
proof (induction rule: loop_reachable.induct)
  case (start s)
  then show ?case by (simp add: loop_start_def attached_ok_def events_ok_def)
next
  case (step s l s')
  show ?case by (rule loop_step_sound [OF step.hyps(2) step.IH])
qed

end
