(* ===== verification/Handler_Streams.thy ===== *)
theory Handler_Streams
  imports Handler_Epoll
begin

text \<open>
  The responses of the event loop and their clients: a stronger invariant, which holds as long as
  no event has been misread. \<open>handler_process_request\<close> takes the data of every event that is
  neither EPOLLIN nor EPOLLOUT alone for a descriptor; when it is the address of a response and its
  low half is an open descriptor, another connection is closed, and its response with it is lost.
\<close>

definition misread :: "loop_state \<Rightarrow> u32 \<times> epoll_data \<Rightarrow> bool" where
  "misread s = (\<lambda>(events, d).
     case d of DataFd fd \<Rightarrow> False | DataPtr a \<Rightarrow> event_kind events = OtherEvent \<and> data_fd d \<in> open_fds s)"

definition clean_step :: "handler \<Rightarrow> loop_state \<Rightarrow> loop_state \<Rightarrow> bool" where
  "clean_step h s s' \<longleftrightarrow> (\<exists>l. loop_step h s l s' \<and> (\<forall>ev. l = Some ev \<longrightarrow> \<not> misread s ev))"

definition clean_run :: "handler \<Rightarrow> loop_state \<Rightarrow> loop_state \<Rightarrow> bool" where
  "clean_run h = rtranclp (clean_step h)"

definition clean_reachable :: "handler \<Rightarrow> loop_state \<Rightarrow> bool" where
  "clean_reachable h s \<longleftrightarrow> (\<exists>s0. loop_start s0 \<and> clean_run h s0 s)"

lemma clean_run_reachable: "clean_run h s s' \<Longrightarrow> loop_reachable h s \<Longrightarrow> loop_reachable h s'"
  unfolding clean_run_def
proof (induction rule: rtranclp_induct)
  case (step s s')
  then show ?case by (auto simp: clean_step_def intro: loop_reachable.step)
qed

lemma clean_reachable_reachable: "clean_reachable h s \<Longrightarrow> loop_reachable h s"
  by (auto simp: clean_reachable_def intro: clean_run_reachable loop_reachable.start)

lemma clean_reachable_run: "clean_reachable h s \<Longrightarrow> clean_run h s s' \<Longrightarrow> clean_reachable h s'"
  unfolding clean_reachable_def clean_run_def by (meson rtranclp_trans)

lemma clean_reachable_step:
  "clean_reachable h s \<Longrightarrow> loop_step h s l s' \<Longrightarrow> (\<forall>ev. l = Some ev \<longrightarrow> \<not> misread s ev) \<Longrightarrow> clean_reachable h s'"
proof -
  assume c: "clean_reachable h s" and "loop_step h s l s'" and "\<forall>ev. l = Some ev \<longrightarrow> \<not> misread s ev"
  then have "clean_step h s s'" unfolding clean_step_def by blast
  then show "clean_reachable h s'" by (intro clean_reachable_run [OF c]) (simp add: clean_run_def r_into_rtranclp)
qed

section \<open>The invariant\<close>

text \<open>
  A registered descriptor waits for a request, or a response is attached to it, and its client
  has received the response up to \<open>stream_ptr\<close>.
\<close>

definition streaming :: "loop_state \<Rightarrow> int \<Rightarrow> http_response \<Rightarrow> bool" where
  "streaming s fd res \<longleftrightarrow> res_socket res = fd \<and> res_stream_ptr res \<le> length (res_stringified res) \<and>
     received s fd = take (res_stream_ptr res) (res_stringified res)"

definition client_ok :: "loop_state \<Rightarrow> int \<Rightarrow> u32 \<times> epoll_data \<Rightarrow> bool" where
  "client_ok s fd = (\<lambda>(interest, d).
     case d of
       DataFd fd' \<Rightarrow> interest = EPOLLIN OR EPOLLET \<and> fd' = fd \<and> received s fd = []
     | DataPtr a \<Rightarrow> interest = EPOLLOUT \<and> (\<exists>res. responses s a = Some res \<and> streaming s fd res))"

definition clients_ok :: "loop_state \<Rightarrow> bool" where
  "clients_ok s \<longleftrightarrow>
     (\<forall>fd x. epoll_set s fd = Some x \<longrightarrow> fd \<in> open_fds s \<and> client_ok s fd x)"

definition responses_ok :: "loop_state \<Rightarrow> bool" where
  "responses_ok s \<longleftrightarrow>
     (\<forall>a res. responses s a = Some res \<longrightarrow>
        epoll_set s (res_socket res) = Some (EPOLLOUT, DataPtr a))"

text \<open>Where an event comes from: an entry with its data, and a mask that admits it.\<close>

definition carried :: "loop_state \<Rightarrow> int \<Rightarrow> u32 \<times> epoll_data \<Rightarrow> bool" where
  "carried s fd = (\<lambda>(events, d).
     \<exists>interest. epoll_set s fd = Some (interest, d) \<and> events AND NOT (interest OR EPOLLERR OR EPOLLHUP) = 0)"

definition pending_ok :: "loop_state \<Rightarrow> bool" where
  "pending_ok s \<longleftrightarrow> (\<exists>fs. distinct fs \<and> list_all2 (carried s) fs (pending s))"

definition loop_ok :: "loop_state \<Rightarrow> bool" where
  "loop_ok s \<longleftrightarrow> clients_ok s \<and> responses_ok s \<and> pending_ok s"

lemmas loop_invariants = loop_ok_def clients_ok_def responses_ok_def client_ok_def streaming_def

text \<open>Where an event comes from depends on the entry of its descriptor only.\<close>

lemma reported_carried: "reported s fd ev \<Longrightarrow> carried s fd ev"
  by (auto simp: reported_def carried_def)

lemma carried_registered: "carried s fd (events, d) \<Longrightarrow> \<exists>interest. epoll_set s fd = Some (interest, d)"
  by (auto simp: carried_def)

lemma carried_cong: "epoll_set s' fd = epoll_set s fd \<Longrightarrow> carried s' fd ev = carried s fd ev"
  by (simp add: carried_def)

lemma pending_others:
  assumes "list_all2 (carried s) fs evs" and "\<And>fd. fd \<in> set fs \<Longrightarrow> epoll_set s' fd = epoll_set s fd"
  shows "list_all2 (carried s') fs evs"
  using assms(1)
proof (rule list.rel_mono_strong)
  fix fd ev assume "fd \<in> set fs" and "carried s fd ev"
  then show "carried s' fd ev" using carried_cong [OF assms(2)] by blast
qed

lemma client_entry: "clients_ok s \<Longrightarrow> epoll_set s fd = Some x \<Longrightarrow> client_ok s fd x"
  by (cases x) (simp add: clients_ok_def)

lemma client_open: "clients_ok s \<Longrightarrow> epoll_set s fd = Some x \<Longrightarrow> fd \<in> open_fds s"
  by (cases x) (simp add: clients_ok_def)

lemma pending_registered:
  "list_all2 (carried s) fs evs \<Longrightarrow> fd \<in> set fs \<Longrightarrow> epoll_set s fd \<noteq> None"
  by (induction rule: list_all2_induct) (auto simp: carried_def)

text \<open>Each kind of event comes with the data that its branch of the code expects.\<close>

lemma readable_data:
  assumes "clients_ok s" and "carried s fd (EPOLLIN, d)"
  shows "d = DataFd fd"
proof -
  obtain interest where e: "epoll_set s fd = Some (interest, d)"
    "EPOLLIN AND NOT (interest OR EPOLLERR OR EPOLLHUP) = 0"
    using assms(2) by (auto simp: carried_def)
  then show ?thesis using client_entry [OF assms(1) e(1)] masks(6) by (cases d) (auto simp: client_ok_def)
qed

lemma writable_data:
  assumes "clients_ok s" and "carried s fd (EPOLLOUT, d)"
  obtains a res where "d = DataPtr a" and "responses s a = Some res" and "streaming s fd res"
proof -
  obtain interest where e: "epoll_set s fd = Some (interest, d)"
    "EPOLLOUT AND NOT (interest OR EPOLLERR OR EPOLLHUP) = 0"
    using assms(2) by (auto simp: carried_def)
  show ?thesis
  proof (cases d)
    case (DataFd fd')
    then show ?thesis using client_entry [OF assms(1) e(1)] e(2) masks(8) by (auto simp: client_ok_def)
  next
    case (DataPtr a)
    then show ?thesis using client_entry [OF assms(1) e(1)] that by (auto simp: client_ok_def)
  qed
qed

section \<open>Every step keeps the invariant\<close>

text \<open>While an event of \<open>fd\<close> is handled, the events behind it belong to other descriptors.\<close>

definition handling :: "int \<Rightarrow> loop_state \<Rightarrow> bool" where
  "handling fd s \<longleftrightarrow> clients_ok s \<and> responses_ok s \<and>
     (\<exists>fs. distinct fs \<and> fd \<notin> set fs \<and> list_all2 (carried s) fs (pending s))"

lemma handling_done: "handling fd s \<Longrightarrow> loop_ok s"
  by (auto simp: handling_def loop_ok_def pending_ok_def)

lemma handling_changes:
  assumes "handling fd s" and "pending s' = pending s"
    and "\<And>fd'. fd' \<noteq> fd \<Longrightarrow> epoll_set s' fd' = epoll_set s fd'"
    and "clients_ok s'" and "responses_ok s'"
  shows "loop_ok s'"
proof -
  obtain fs where fs: "distinct fs" "fd \<notin> set fs" "list_all2 (carried s) fs (pending s)"
    using assms(1) by (auto simp: handling_def)
  have "list_all2 (carried s') fs (pending s)"
    by (rule pending_others [OF fs(3)]) (metis assms(3) fs(2))
  then show ?thesis using assms fs(1) by (auto simp: loop_ok_def pending_ok_def)
qed

lemma handling_shared: "handling fd s \<Longrightarrow> handling fd (s\<lparr>shared := p\<rparr>)"
proof -
  have "carried (s\<lparr>shared := p\<rparr>) = carried s" by (intro ext) (simp add: carried_def)
  then show "handling fd s \<Longrightarrow> handling fd (s\<lparr>shared := p\<rparr>)"
    by (simp add: handling_def clients_ok_def responses_ok_def client_ok_def streaming_def)
qed

text \<open>A descriptor that waits for a request is closed.\<close>

lemma close_waiting:
  assumes "handling fd s" and "epoll_set s fd = Some (m, DataFd fd)"
  shows "loop_ok (close_fd fd s)"
proof (rule handling_changes [OF assms(1)])
  have c: "clients_ok s" "responses_ok s" using assms(1) by (simp_all add: handling_def)
  show "clients_ok (close_fd fd s)"
    using c(1) by (auto simp: clients_ok_def client_ok_def streaming_def state_changes split: epoll_data.splits)
  have "res_socket res \<noteq> fd" if "responses s a = Some res" for a res
    using c(2) that assms(2) by (auto simp: responses_ok_def)
  then show "responses_ok (close_fd fd s)"
    using c(2) by (auto simp: responses_ok_def state_changes)
qed (simp_all add: state_changes)

text \<open>A response takes the place of the request.\<close>

lemma attach_response:
  assumes "handling fd s" and "epoll_set s fd = Some (m, DataFd fd)" and "responses s a = None"
    and "unsent_for fd res"
  shows "loop_ok (s\<lparr>responses := (responses s)(a \<mapsto> res), epoll_set := (epoll_set s)(fd \<mapsto> (EPOLLOUT, DataPtr a))\<rparr>)"
    (is "loop_ok ?s")
proof (rule handling_changes [OF assms(1)])
  have c: "clients_ok s" "responses_ok s" using assms(1) by (simp_all add: handling_def)
  have "received s fd = []" using client_entry [OF c(1) assms(2)] by (simp add: client_ok_def)
  then show "clients_ok ?s"
    using c(1) assms(2-4)
    by (fastforce simp: unsent_for_def clients_ok_def client_ok_def streaming_def split: epoll_data.splits)
  have "res_socket res' \<noteq> fd" if "responses s a' = Some res'" for a' res'
    using c(2) that assms(2) by (auto simp: responses_ok_def)
  then show "responses_ok ?s"
    using c(2) assms(4) by (auto simp: responses_ok_def unsent_for_def)
qed simp_all

lemma readable_event_ok:
  assumes "handling fd s" and "epoll_set s fd = Some (m, DataFd fd)"
    and "responses s (ans_address ans) = None"
    and "readable_event h fd ans s = Inr (Some s')"
  shows "loop_ok s'"
proof -
  obtain e p where r: "on_readable (ans_junk ans) (ans_date ans) (ans_slack ans) (ans_stack ans) (ans_allocs ans)
      h (shared s) fd (ans_ctl ans \<and> epoll_set s fd \<noteq> None) (ans_reads ans) = Inr (Some (e, p))"
    using assms(4) by (auto simp: readable_event_def elim!: and_then_InrE split: option.splits)
  note h = handling_shared [OF assms(1), of p]
  show ?thesis
  proof (cases e)
    case Skipped
    then show ?thesis using assms(4) r handling_done [OF h] by (simp add: readable_event_def)
  next
    case (Responding res)
    have "loop_ok ((s\<lparr>shared := p\<rparr>)\<lparr>responses := (responses s)(ans_address ans \<mapsto> res),
        epoll_set := (epoll_set s)(fd \<mapsto> (EPOLLOUT, DataPtr (ans_address ans)))\<rparr>)"
      using attach_response [OF h, of m "ans_address ans" res] assms(2,3) readable_unsent [OF r [unfolded Responding]]
      by simp
    then show ?thesis using assms(4) r Responding by (simp add: readable_event_def)
  next
    case Closed
    have "loop_ok (close_fd fd (s\<lparr>shared := p\<rparr>))" by (rule close_waiting [OF h]) (simp add: assms(2))
    then show ?thesis using assms(4) r Closed by (simp add: readable_event_def)
  qed
qed

text \<open>A send that took some bytes, and one after which everything has been sent.\<close>

lemma on_writable_sent:
  assumes "on_writable res out = Inr (Sent bs res')" and "streaming s fd res"
  shows "streaming (deliver fd bs s) fd res'"
  using assms
  by (auto simp: on_writable_def read_bytes_def streaming_def deliver_def take_add Let_def elim!: and_then_InrE
      split: send_outcome.splits if_splits)

lemma streaming_other: "fd' \<noteq> fd \<Longrightarrow> streaming (deliver fd bs s) fd' res = streaming s fd' res"
  by (simp add: streaming_def deliver_def)

lemma sent_ok:
  assumes "handling fd s" and "responses s a = Some res" and "streaming s fd res"
    and "on_writable res out = Inr (Sent bs res')"
  shows "loop_ok (deliver fd bs (s\<lparr>responses := (responses s)(a \<mapsto> res')\<rparr>))" (is "loop_ok ?s")
proof (rule handling_changes [OF assms(1)])
  have c: "clients_ok s" "responses_ok s" using assms(1) by (simp_all add: handling_def)
  have fd: "epoll_set s fd = Some (EPOLLOUT, DataPtr a)" "res_socket res = fd"
    using c(2) assms(2,3) by (auto simp: responses_ok_def streaming_def)
  note new = on_writable_sent [OF assms(4,3)]
  then have fd': "res_socket res' = fd" by (simp add: streaming_def)
  show "clients_ok ?s"
    unfolding clients_ok_def
  proof (intro allI impI conjI)
    fix fd2 x assume x: "epoll_set ?s fd2 = Some x"
    then have e: "epoll_set s fd2 = Some x" by (simp add: deliver_def)
    then show "fd2 \<in> open_fds ?s" using client_open [OF c(1) e] by (simp_all add: deliver_def)
    show "client_ok ?s fd2 x"
    proof (cases "fd2 = fd")
      case True
      then have "x = (EPOLLOUT, DataPtr a)" using e fd(1) by simp
      then show ?thesis using new True by (simp add: client_ok_def streaming_def deliver_def)
    next
      case False
      have "snd x \<noteq> DataPtr a"
      proof
        assume "snd x = DataPtr a"
        then have "res_socket res = fd2"
          using client_entry [OF c(1) e] assms(2) by (cases x) (auto simp: client_ok_def streaming_def)
        then show False using fd(2) False by simp
      qed
      then show ?thesis using client_entry [OF c(1) e] False
        by (cases x) (auto simp: client_ok_def streaming_def deliver_def split: epoll_data.splits)
    qed
  qed
  show "responses_ok ?s"
    using c(2) fd fd' by (auto simp: responses_ok_def deliver_def)
qed (simp_all add: deliver_def)

lemma finished_ok:
  assumes "handling fd s" and "responses s a = Some res" and "streaming s fd res"
  shows "loop_ok (http_response_destroy a (close_fd fd (epoll_del fd (deliver fd bs s))))" (is "loop_ok ?s")
proof (rule handling_changes [OF assms(1)])
  have c: "clients_ok s" "responses_ok s" using assms(1) by (simp_all add: handling_def)
  have fd: "epoll_set s fd = Some (EPOLLOUT, DataPtr a)" "res_socket res = fd"
    using c(2) assms(2,3) by (auto simp: responses_ok_def streaming_def)
  show "clients_ok ?s"
    unfolding clients_ok_def
  proof (intro allI impI conjI)
    fix fd2 x assume x: "epoll_set ?s fd2 = Some x"
    then have e: "epoll_set s fd2 = Some x" "fd2 \<noteq> fd" by (auto simp: state_changes split: if_splits)
    then show "fd2 \<in> open_fds ?s" using client_open [OF c(1) e(1)] by (simp_all add: state_changes)
    have "snd x \<noteq> DataPtr a"
    proof
      assume "snd x = DataPtr a"
      then have "res_socket res = fd2"
        using client_entry [OF c(1) e(1)] assms(2) by (cases x) (auto simp: client_ok_def streaming_def)
      then show False using fd(2) e(2) by simp
    qed
    then show "client_ok ?s fd2 x" using client_entry [OF c(1) e(1)] e(2)
      by (cases x) (auto simp: client_ok_def streaming_def state_changes split: epoll_data.splits)
  qed
  have "res_socket res' \<noteq> fd" if "responses s a' = Some res'" and "a' \<noteq> a" for a' res'
    using c(2) that fd(1) by (auto simp: responses_ok_def)
  then show "responses_ok ?s"
    using c(2) by (auto simp: responses_ok_def state_changes)
qed (simp_all add: state_changes)

lemma writable_event_ok:
  assumes "handling fd s" and "responses s a = Some res" and "streaming s fd res"
    and "writable_event a ans s = Inr s'"
  shows "loop_ok s'"
proof -
  have "res_socket res = fd" using assms(3) by (simp add: streaming_def)
  then obtain r where r: "on_writable res (if fd \<in> open_fds s then ans_send ans else SendError EOther) = Inr r"
    using assms(2,4) by (auto simp: writable_event_def Let_def elim!: and_then_InrE)
  show ?thesis
    using assms(4) sent_ok [OF assms(1-3)] finished_ok [OF assms(1-3)] handling_done [OF assms(1)] r
      \<open>res_socket res = fd\<close> assms(2)
    by (cases r) (auto simp: writable_event_def Let_def)
qed

text \<open>
  The data of any other event. If it is an address, its low half is no open descriptor: nothing
  happens.
\<close>

lemma close_stranger:
  assumes "attached_ok s" and "fd \<notin> open_fds s"
  shows "close_fd fd s = s"
proof -
  have "epoll_set s fd = None" using attached_open [OF assms(1)] assms(2) by blast
  then show ?thesis using assms(2) by (simp add: state_changes fun_upd_idem)
qed

lemma clients_attached: "clients_ok s \<Longrightarrow> attached_ok s"
proof -
  assume c: "clients_ok s"
  have "fd \<in> open_fds s \<and> interest = EPOLLIN OR EPOLLET \<and> fd' = fd" if "epoll_set s fd = Some (interest, DataFd fd')"
    for fd interest fd'
    using client_entry [OF c that] client_open [OF c that] by (simp add: client_ok_def)
  moreover have "fd \<in> open_fds s \<and> interest = EPOLLOUT \<and> (\<exists>res. responses s a = Some res \<and> res_socket res = fd)"
    if "epoll_set s fd = Some (interest, DataPtr a)" for fd interest a
    using client_entry [OF c that] client_open [OF c that] by (auto simp: client_ok_def streaming_def)
  ultimately show "attached_ok s" by (auto simp: attached_ok_def)
qed

lemma other_event_ok:
  assumes "handling fd s" and "epoll_set s fd = Some (m, d)" and "\<forall>a. d = DataPtr a \<longrightarrow> data_fd d \<notin> open_fds s"
  shows "loop_ok (close_fd (data_fd d) (epoll_del (data_fd d) s))"
proof -
  have c: "clients_ok s" using assms(1) by (simp add: handling_def)
  show ?thesis
  proof (cases d)
    case (DataFd fd')
    then have "fd' = fd" using client_entry [OF c assms(2)] by (simp add: client_ok_def)
    then show ?thesis using close_waiting [OF assms(1)] assms(2) DataFd by (simp add: close_deregisters)
  next
    case (DataPtr a)
    then have "close_fd (data_fd d) s = s" using close_stranger [OF clients_attached [OF c]] assms(3) by blast
    then show ?thesis using handling_done [OF assms(1)] by (simp add: close_deregisters)
  qed
qed

lemma handle_event_ok:
  assumes "handling fd s" and "carried s fd ev"
    and "responses s (ans_address ans) = None" and "\<not> misread s ev"
    and "handle_event h ev ans s = Inr (Some s')"
  shows "loop_ok s'"
proof -
  have c: "clients_ok s" using assms(1) by (simp add: handling_def)
  obtain events d where ev: "ev = (events, d)" by (cases ev)
  obtain m where m: "epoll_set s fd = Some (m, d)" using carried_registered assms(2) ev by blast
  show ?thesis
  proof (cases "event_kind events")
    case Readable
    then have "events = EPOLLIN" by (simp add: event_kind_def split: if_splits)
    then have "d = DataFd fd" using readable_data [OF c] assms(2) ev by simp
    then show ?thesis using readable_event_ok [OF assms(1) _ assms(3)] m assms(5) ev Readable
      by (simp add: handle_event_def)
  next
    case Writable
    then have "events = EPOLLOUT" by (simp add: event_kind_def split: if_splits)
    then obtain a res where r: "d = DataPtr a" "responses s a = Some res" "streaming s fd res"
      using writable_data [OF c] assms(2) ev by metis
    then show ?thesis using writable_event_ok [OF assms(1) r(2,3)] assms(5) ev Writable
      by (auto simp: handle_event_def elim!: and_then_InrE)
  next
    case OtherEvent
    then have "\<forall>a. d = DataPtr a \<longrightarrow> data_fd d \<notin> open_fds s" using assms(4) ev by (auto simp: misread_def)
    then show ?thesis using other_event_ok [OF assms(1) m] assms(5) ev OtherEvent by (simp add: handle_event_def)
  qed
qed

lemma add_client_ok:
  assumes "loop_ok s" and "fd \<notin> open_fds s"
  shows "loop_ok (add_client fd s)"
proof -
  have c: "clients_ok s" "responses_ok s" using assms(1) by (simp_all add: loop_ok_def)
  have new: "epoll_set s fd = None" using client_open [OF c(1)] assms(2) by (cases "epoll_set s fd") auto
  obtain fs where fs: "distinct fs" "list_all2 (carried s) fs (pending s)"
    using assms(1) by (auto simp: loop_ok_def pending_ok_def)
  have "fd \<notin> set fs" using pending_registered [OF fs(2)] new by blast
  then have "list_all2 (carried (add_client fd s)) fs (pending s)"
    by (intro pending_others [OF fs(2)]) (auto simp: add_client_def)
  moreover have "clients_ok (add_client fd s)"
    using c(1) by (auto simp: clients_ok_def client_ok_def streaming_def add_client_def split: epoll_data.splits)
  moreover have "responses_ok (add_client fd s)"
    using c(2) new by (auto simp: responses_ok_def add_client_def)
  ultimately show ?thesis using fs(1) by (auto simp: loop_ok_def pending_ok_def add_client_def)
qed

lemma carried_pending: "carried (s\<lparr>pending := evs\<rparr>) = carried s"
  by (intro ext) (simp add: carried_def)

lemma ok_pending [simp]:
  "clients_ok (s\<lparr>pending := evs\<rparr>) = clients_ok s" "responses_ok (s\<lparr>pending := evs\<rparr>) = responses_ok s"
  by (simp_all add: clients_ok_def responses_ok_def client_ok_def streaming_def)

lemma next_event:
  assumes "loop_ok s" and "pending s = ev # evs"
  obtains fd where "handling fd (s\<lparr>pending := evs\<rparr>)" and "carried (s\<lparr>pending := evs\<rparr>) fd ev"
proof -
  obtain fs where fs: "distinct fs" "list_all2 (carried s) fs (ev # evs)"
    using assms by (auto simp: loop_ok_def pending_ok_def)
  obtain fd fs' where "fs = fd # fs'" using fs(2) by (cases fs) auto
  then show ?thesis using that fs assms(1) by (auto simp: handling_def loop_ok_def carried_pending)
qed

lemma loop_step_ok: "loop_step h s l s' \<Longrightarrow> (\<forall>ev. l = Some ev \<longrightarrow> \<not> misread s ev) \<Longrightarrow> loop_ok s \<Longrightarrow> loop_ok s'"
proof (induction rule: loop_step.induct)
  case (step_accept srv out srv' fd s)
  then show ?case by (simp add: add_client_ok)
next
  case (step_hang_up fd s)
  have "carried (s\<lparr>gone := insert fd (gone s)\<rparr>) = carried s" by (intro ext) (simp add: carried_def)
  then show ?case using step_hang_up
    by (simp add: loop_ok_def pending_ok_def clients_ok_def responses_ok_def client_ok_def streaming_def)
next
  case (step_wait s evs)
  then obtain fs where fs: "distinct fs" "list_all2 (reported s) fs evs" by (auto simp: wait_returns_def)
  have "list_all2 (carried s) fs evs" by (rule list_all2_mono [OF fs(2)]) (rule reported_carried)
  then show ?case using fs(1) step_wait.prems by (auto simp: loop_ok_def pending_ok_def carried_pending)
next
  case (step_event s ev evs ans s')
  obtain fd where "handling fd (s\<lparr>pending := evs\<rparr>)" "carried (s\<lparr>pending := evs\<rparr>) fd ev"
    using next_event [OF step_event.prems(2) step_event.hyps(1)] .
  moreover have "\<not> misread (s\<lparr>pending := evs\<rparr>) ev" using step_event.prems(1)
    by (cases ev) (auto simp: misread_def split: epoll_data.splits)
  ultimately show ?case using handle_event_ok step_event.hyps(2,3) by fastforce
next
  case (step_others s p)
  have "carried (s\<lparr>shared := p\<rparr>) = carried s" by (intro ext) (simp add: carried_def)
  then show ?case using step_others
    by (simp add: loop_ok_def pending_ok_def clients_ok_def responses_ok_def client_ok_def streaming_def)
qed

lemma loop_start_ok: "loop_start s \<Longrightarrow> loop_ok s"
  by (auto simp: loop_start_def loop_ok_def clients_ok_def responses_ok_def pending_ok_def intro: exI [of _ "[]"])

lemma clean_run_ok: "clean_run h s s' \<Longrightarrow> loop_ok s \<Longrightarrow> loop_ok s'"
  unfolding clean_run_def
proof (induction rule: rtranclp_induct)
  case (step s s')
  then show ?case using loop_step_ok by (auto simp: clean_step_def)
qed

lemma clean_reachable_ok: "clean_reachable h s \<Longrightarrow> loop_ok s"
  using clean_run_ok loop_start_ok by (auto simp: clean_reachable_def)

section \<open>A response whose client is gone\<close>

definition stuck :: "loop_state \<Rightarrow> int \<Rightarrow> u64 \<Rightarrow> bool" where
  "stuck s fd a \<longleftrightarrow>
     fd \<in> gone s \<and> epoll_set s fd = Some (EPOLLOUT, DataPtr a) \<and> (EPOLLOUT, DataPtr a) \<notin> set (pending s)"

text \<open>The response of an address belongs to one descriptor.\<close>

lemma attached_once:
  assumes "attached_ok s" and "epoll_set s fd = Some (m, DataPtr a)" and "epoll_set s fd' = Some (m', DataPtr a)"
  shows "fd' = fd"
  using attached_response [OF assms(1,2)] attached_response [OF assms(1,3)] by auto

lemma list_all2_member: "list_all2 P xs ys \<Longrightarrow> y \<in> set ys \<Longrightarrow> \<exists>x \<in> set xs. P x y"
  by (induction rule: list_all2_induct) auto

lemma gone_reported:
  assumes "attached_ok s" and "fd \<in> gone s" and "epoll_set s fd = Some (EPOLLOUT, DataPtr a)" and "reported s fd' (events, DataPtr a)"
  shows "fd' = fd \<and> event_kind events = OtherEvent"
proof -
  obtain m where "epoll_set s fd' = Some (m, DataPtr a)" using reported_registered [OF assms(4)] by blast
  then have fd: "fd' = fd" by (rule attached_once [OF assms(1,3)])
  then have "events AND EPOLLHUP \<noteq> 0" using assms(2,4) by (auto simp: reported_def)
  moreover have "event_ok (events, DataPtr a)" by (rule reported_event_ok [OF assms(1,4)])
  ultimately show ?thesis using masks(9) fd by (cases "event_kind events") (auto simp: event_ok_def kind_writable)
qed

lemma stuck_event:
  assumes ok: "loop_ok s" and st: "stuck s fd a" and ev: "pending s = (events, d) # evs" "\<not> misread s (events, d)"
    and new: "responses s (ans_address ans) = None"
    and run: "handle_event h (events, d) ans (s\<lparr>pending := evs\<rparr>) = Inr (Some s')"
  shows "stuck s' fd a \<and> responses s' a = responses s a \<and> received s' fd = received s fd"
proof -
  let ?s = "s\<lparr>pending := evs\<rparr>"
  have c: "clients_ok s" "responses_ok s" using ok by (simp_all add: loop_ok_def)
  have a: "fd \<in> gone s" "epoll_set s fd = Some (EPOLLOUT, DataPtr a)" "(EPOLLOUT, DataPtr a) \<notin> set (pending s)"
    using st by (simp_all add: stuck_def)
  obtain fd' where fd': "carried s fd' (events, d)" using next_event [OF ok ev(1)] by (metis carried_pending)
  obtain m where m: "epoll_set s fd' = Some (m, d)" using carried_registered fd' by blast
  have other: "data_fd d \<noteq> fd" if "events \<noteq> EPOLLOUT"
  proof (cases d)
    case (DataFd x)
    then show ?thesis using client_entry [OF c(1) m] m a(2) by (auto simp: client_ok_def)
  next
    case (DataPtr x)
    then have "events \<noteq> EPOLLIN" using readable_data [OF c(1)] fd' by auto
    then have "data_fd d \<notin> open_fds s" using that ev(2) DataPtr by (auto simp: misread_def kind_other)
    then show ?thesis using client_open [OF c(1) a(2)] by blast
  qed
  have pend: "(EPOLLOUT, DataPtr a) \<notin> set (pending s')"
    using handle_event_pending [OF run] a(3) ev(1) by simp
  have far: "res_socket res \<noteq> fd \<and> a \<noteq> b" if "responses s b = Some res" "d = DataPtr b" "events = EPOLLOUT" for b res
  proof -
    have "a \<noteq> b" using a(3) ev(1) that by auto
    moreover have "epoll_set s (res_socket res) = Some (EPOLLOUT, DataPtr b)" using c(2) that(1) by (simp add: responses_ok_def)
    ultimately show ?thesis using a(2) by auto
  qed
  have alloc: "responses s a \<noteq> None" using attached_response [OF clients_attached [OF c(1)] a(2)] by auto
  from run show ?thesis
  proof (cases rule: handle_event_effect)
    case (skip p)
    then show ?thesis using a pend by (simp add: stuck_def)
  next
    case (attach p res)
    then have "data_fd d \<noteq> fd" using other masks(2) by metis
    moreover have "ans_address ans \<noteq> a" using new alloc by metis
    ultimately show ?thesis using a pend attach(4) by (simp add: stuck_def)
  next
    case (shut p)
    then show ?thesis using a pend other by (simp add: stuck_def state_changes)
  next
    case (sent b res out bs res')
    then show ?thesis using a pend far [of b res] by (simp add: stuck_def state_changes)
  next
    case (finish b res bs)
    then show ?thesis using a pend far [of b res] by (simp add: stuck_def state_changes)
  qed
qed

lemma stuck_step:
  "loop_step h s l s' \<Longrightarrow> (\<forall>ev. l = Some ev \<longrightarrow> \<not> misread s ev) \<Longrightarrow> loop_ok s \<Longrightarrow> stuck s fd a \<Longrightarrow>
   stuck s' fd a \<and> responses s' a = responses s a \<and> received s' fd = received s fd"
proof (induction rule: loop_step.induct)
  case (step_accept srv out srv' fd2 s)
  have "clients_ok s" using step_accept.prems(2) by (simp add: loop_ok_def)
  then have "fd \<in> open_fds s" using client_open step_accept.prems(3) by (auto simp: stuck_def)
  then have "fd2 \<noteq> fd" using step_accept.hyps(2) by blast
  then show ?case using step_accept.prems(3) by (simp add: stuck_def add_client_def)
next
  case (step_wait s evs)
  have att: "attached_ok s" using step_wait.prems(2) clients_attached by (simp add: loop_ok_def)
  obtain fs where fs: "list_all2 (reported s) fs evs" using step_wait.hyps(2) by (auto simp: wait_returns_def)
  have "(EPOLLOUT, DataPtr a) \<notin> set evs"
  proof
    assume "(EPOLLOUT, DataPtr a) \<in> set evs"
    then obtain fd' where "reported s fd' (EPOLLOUT, DataPtr a)"
      using list_all2_member [OF fs] by blast
    then have "event_kind EPOLLOUT = OtherEvent"
      using gone_reported [OF att] step_wait.prems(3) by (auto simp: stuck_def)
    then show False by (simp add: kind_other)
  qed
  then show ?case using step_wait.prems(3) by (simp add: stuck_def)
next
  case (step_event s ev evs ans s')
  obtain events d where "ev = (events, d)" by (cases ev)
  then show ?case using stuck_event [OF step_event.prems(2,3)] step_event.hyps step_event.prems(1) by blast
qed (simp_all add: stuck_def)

lemma stuck_run:
  "clean_run h s s' \<Longrightarrow> loop_ok s \<Longrightarrow> stuck s fd a \<Longrightarrow>
   loop_ok s' \<and> stuck s' fd a \<and> responses s' a = responses s a \<and> received s' fd = received s fd"
  unfolding clean_run_def
proof (induction rule: rtranclp_induct)
  case (step s' s'')
  then obtain l where l: "loop_step h s' l s''" "\<forall>ev. l = Some ev \<longrightarrow> \<not> misread s' ev" by (auto simp: clean_step_def)
  then show ?case using stuck_step [OF l] loop_step_ok [OF l] step by auto
qed simp

lemma stuck_waits:
  assumes "loop_ok s" and "stuck s fd a" and "wait_returns h s evs"
  shows "evs \<noteq> []" and "(events, DataPtr a) \<in> set evs \<Longrightarrow> event_kind events = OtherEvent"
    and "dom (epoll_set s) = {fd} \<Longrightarrow> \<exists>events. evs = [(events, DataPtr a)]"
proof -
  have st: "fd \<in> gone s" "epoll_set s fd = Some (EPOLLOUT, DataPtr a)" using assms(2) by (simp_all add: stuck_def)
  have att: "attached_ok s" using assms(1) clients_attached by (simp add: loop_ok_def)
  obtain fs where fs: "distinct fs" "list_all2 (reported s) fs evs" using assms(3) by (auto simp: wait_returns_def)
  have "EPOLLOUT AND EPOLLET = 0" by (simp add: EPOLLOUT_def EPOLLET_def)
  then have "hung_up s fd" using st by (simp add: hung_up_def)
  then show ne: "evs \<noteq> []" using assms(3) by (auto simp: wait_returns_def)
  show "event_kind events = OtherEvent" if mem: "(events, DataPtr a) \<in> set evs"
  proof -
    obtain fd' where "reported s fd' (events, DataPtr a)"
      using list_all2_member [OF fs(2) mem] by blast
    then show ?thesis using gone_reported [OF att st] by blast
  qed
  show "\<exists>events. evs = [(events, DataPtr a)]" if "dom (epoll_set s) = {fd}"
  proof -
    have one: "fd' = fd" if "reported s fd' ev" for fd' ev
      using reported_registered [of s fd' "fst ev" "snd ev"] that \<open>dom (epoll_set s) = {fd}\<close> by auto
    obtain ev evs' where evs: "evs = ev # evs'" using ne by (cases evs) auto
    then obtain fd' fs' where fs': "fs = fd' # fs'" "reported s fd' ev" "list_all2 (reported s) fs' evs'"
      using fs(2) by (auto simp: list_all2_Cons2)
    have "evs' = []"
    proof (rule ccontr)
      assume "evs' \<noteq> []"
      then obtain fd2 fs2 ev2 where "fs' = fd2 # fs2" "reported s fd2 ev2"
        using fs'(3) by (cases evs') (auto simp: list_all2_Cons2)
      then show False using one fs'(1,2) fs(1) by (metis distinct_length_2_or_more)
    qed
    moreover have "snd ev = DataPtr a" using one [OF fs'(2)] fs'(2) st(2) by (cases ev) (auto simp: reported_def)
    ultimately show ?thesis using evs by (metis prod.collapse)
  qed
qed

end
