(* ===== verification/Scheduling.thy ===== *)
theory Scheduling
  imports Pronto
begin

text \<open>
  The threads of the service and their interleaving: the scheduler threads
  (lib/scheduler_worker.c), the rescheduler thread (lib/rescheduler.c), one dispatcher
  thread per cluster worker (lib/cluster_worker.c) and the handler threads, of which only
  the two requests that touch the shared state are visible here (lib/handler.c,
  \<open>schedule\<close> and \<open>job_done\<close>).
  Each thread is a program counter with its local variables. One step of a thread is one
  action on the shared state: a mutex taken or released, a semaphore waited for or
  posted, or the code inside a critical section. Threads interleave at these steps.
\<close>

section \<open>Threads, mutexes and the shared state\<close>

datatype thread = SchedulerThread nat | ReschedulerThread | WorkerThread nat | HandlerThread nat

datatype mutex = QueueMutex | WaitingMutex | Bookkeeper | WorkerMutex nat

text \<open>
  Three ghost fields record what has happened to jobs: the requests accepted into the job
  queue, those posted to a cluster worker, and those a dispatcher gave up on.
\<close>

record shared =
  the_pronto :: pronto
  held :: "mutex \<Rightarrow> thread option"
  accepted :: "u32 multiset"
  delivered :: "(nat \<times> u32) multiset"
  dropped :: "u32 multiset"

definition pthread_mutex_lock :: "thread \<Rightarrow> mutex \<Rightarrow> shared \<Rightarrow> shared option" where
  "pthread_mutex_lock t m sh =
     (if held sh m = None then Some (sh\<lparr>held := (held sh)(m := Some t)\<rparr>) else None)"

definition pthread_mutex_unlock :: "mutex \<Rightarrow> shared \<Rightarrow> shared" where
  "pthread_mutex_unlock m sh = sh\<lparr>held := (held sh)(m := None)\<rparr>"

definition set_pronto :: "pronto \<Rightarrow> shared \<Rightarrow> shared" where
  "set_pronto p sh = sh\<lparr>the_pronto := p\<rparr>"

section \<open>Handing a job to a worker\<close>

text \<open>
  What the schedulers and the rescheduler do once a best fit \<open>b\<close> is found:
  \<open>pronto_reserve_capacity\<close>, \<open>cluster_worker_add_job\<close>, \<open>sem_post(&best_fit->notify)\<close>.
  \<open>None\<close> as the next counter means that the sequence is over.
\<close>

datatype dispatch_pc =
  D_ReserveLock | D_Reserve | D_ReserveUnlock | D_AddLock | D_Add | D_AddUnlock | D_Post

fun dispatch_step ::
  "thread \<Rightarrow> dispatch_pc \<Rightarrow> u32 \<Rightarrow> nat \<Rightarrow> shared \<Rightarrow> (dispatch_pc option \<times> shared) option" where
  "dispatch_step t D_ReserveLock v b sh =
     map_option (Pair (Some D_Reserve)) (pthread_mutex_lock t Bookkeeper sh)"
| "dispatch_step t D_Reserve v b sh =
     (case pronto_reserve_capacity (the_pronto sh) b v of
        Inl _ \<Rightarrow> None
      | Inr p \<Rightarrow> Some (Some D_ReserveUnlock, set_pronto p sh))"
| "dispatch_step t D_ReserveUnlock v b sh =
     Some (Some D_AddLock, pthread_mutex_unlock Bookkeeper sh)"
| "dispatch_step t D_AddLock v b sh =
     map_option (Pair (Some D_Add)) (pthread_mutex_lock t (WorkerMutex b) sh)"
| "dispatch_step t D_Add v b sh =
     Some (Some D_AddUnlock,
       set_pronto (with_worker (the_pronto sh) b (\<lambda>w. cluster_worker_add_job w v)) sh)"
| "dispatch_step t D_AddUnlock v b sh =
     Some (Some D_Post, pthread_mutex_unlock (WorkerMutex b) sh)"
| "dispatch_step t D_Post v b sh =
     Some (None,
       set_pronto (with_worker (the_pronto sh) b (\<lambda>w. w\<lparr>worker_notify := Suc (worker_notify w)\<rparr>)) sh)"

section \<open>The scheduler loop\<close>

text \<open>
  \<open>S_Wait\<close> is the \<open>sem_wait\<close> at the top of the loop of \<open>_scheduler_loop\<close>; the later
  counters follow its body. \<open>S_UnlockQ node\<close> carries the dequeued node (\<open>None\<close> for
  NULL).
\<close>

datatype sched_pc =
    S_Wait | S_LockQ | S_Dequeue | S_UnlockQ "u32 option"
  | S_FitLock u32 | S_Fit u32 | S_FitUnlock u32 int
  | S_WaitLock u32 | S_WaitAdd u32 | S_WaitUnlock
  | S_Dispatch dispatch_pc u32 nat

fun sched_step :: "thread \<Rightarrow> sched_pc \<Rightarrow> shared \<Rightarrow> (sched_pc \<times> shared) option" where
  "sched_step t S_Wait sh =
     (case notify (the_pronto sh) of
        0 \<Rightarrow> None
      | Suc n \<Rightarrow> Some (S_LockQ, set_pronto ((the_pronto sh)\<lparr>notify := n\<rparr>) sh))"
| "sched_step t S_LockQ sh = map_option (Pair S_Dequeue) (pthread_mutex_lock t QueueMutex sh)"
| "sched_step t S_Dequeue sh =
     (let (node, q) = dequeue_request (job_queue (the_pronto sh))
      in Some (S_UnlockQ node, set_pronto ((the_pronto sh)\<lparr>job_queue := q\<rparr>) sh))"
| "sched_step t (S_UnlockQ node) sh =
     Some (case node of None \<Rightarrow> S_Wait | Some v \<Rightarrow> S_FitLock v, pthread_mutex_unlock QueueMutex sh)"
| "sched_step t (S_FitLock v) sh =
     map_option (Pair (S_Fit v)) (pthread_mutex_lock t Bookkeeper sh)"
| "sched_step t (S_Fit v) sh =
     Some (S_FitUnlock v (pronto_best_current_fit (the_pronto sh) v), sh)"
| "sched_step t (S_FitUnlock v b) sh =
     Some (if b = -1 then S_WaitLock v else S_Dispatch D_ReserveLock v (nat b),
       pthread_mutex_unlock Bookkeeper sh)"
| "sched_step t (S_WaitLock v) sh =
     map_option (Pair (S_WaitAdd v)) (pthread_mutex_lock t WaitingMutex sh)"
| "sched_step t (S_WaitAdd v) sh =
     Some (S_WaitUnlock, set_pronto (pronto_add_waiting_job (the_pronto sh) v) sh)"
| "sched_step t S_WaitUnlock sh = Some (S_Wait, pthread_mutex_unlock WaitingMutex sh)"
| "sched_step t (S_Dispatch d v b) sh =
     map_option (\<lambda>(d', sh'). (case d' of None \<Rightarrow> S_Wait | Some d'' \<Rightarrow> S_Dispatch d'' v b, sh'))
       (dispatch_step t d v b sh)"

section \<open>The rescheduler loop\<close>

text \<open>
  The waiting mutex is held from \<open>R_Head\<close> to \<open>R_Unlock\<close>. \<open>R_Head\<close> is the test at the
  top of the inner \<open>while(1)\<close>; \<open>R_Crash\<close> would be the dereference of a NULL node after
  the pop.
\<close>

datatype resched_pc =
    R_Wait | R_Lock | R_Head | R_FitLock u32 | R_Fit u32 | R_FitUnlock u32 int
  | R_Pop u32 nat | R_Dispatch dispatch_pc u32 nat | R_Unlock | R_Crash

fun resched_step :: "thread \<Rightarrow> resched_pc \<Rightarrow> shared \<Rightarrow> (resched_pc \<times> shared) option" where
  "resched_step t R_Wait sh =
     (case reschedule (the_pronto sh) of
        0 \<Rightarrow> None
      | Suc n \<Rightarrow> Some (R_Lock, set_pronto ((the_pronto sh)\<lparr>reschedule := n\<rparr>) sh))"
| "resched_step t R_Lock sh = map_option (Pair R_Head) (pthread_mutex_lock t WaitingMutex sh)"
| "resched_step t R_Head sh =
     Some (case waiting_queue (the_pronto sh) of [] \<Rightarrow> R_Unlock | v # _ \<Rightarrow> R_FitLock v, sh)"
| "resched_step t (R_FitLock v) sh =
     map_option (Pair (R_Fit v)) (pthread_mutex_lock t Bookkeeper sh)"
| "resched_step t (R_Fit v) sh =
     Some (R_FitUnlock v (pronto_best_current_fit (the_pronto sh) v), sh)"
| "resched_step t (R_FitUnlock v b) sh =
     Some (if b = -1 then R_Unlock else R_Pop v (nat b), pthread_mutex_unlock Bookkeeper sh)"
| "resched_step t (R_Pop v b) sh =
     (let (node, q) = dequeue_request (waiting_queue (the_pronto sh))
      in Some (case node of None \<Rightarrow> R_Crash | Some r \<Rightarrow> R_Dispatch D_ReserveLock r b,
           set_pronto ((the_pronto sh)\<lparr>waiting_queue := q\<rparr>) sh))"
| "resched_step t (R_Dispatch d v b) sh =
     map_option (\<lambda>(d', sh'). (case d' of None \<Rightarrow> R_Head | Some d'' \<Rightarrow> R_Dispatch d'' v b, sh'))
       (dispatch_step t d v b sh)"
| "resched_step t R_Unlock sh = Some (R_Wait, pthread_mutex_unlock WaitingMutex sh)"
| "resched_step t R_Crash sh = None"

section \<open>The dispatcher loop of a cluster worker\<close>

text \<open>
  What curl and cJSON answer is the environment's choice. Every answer but \<open>Posted\<close>
  ends the round of \<open>_cluster_loop\<close> without the job having been sent; the node is read
  (and a NULL node crashes) only once the JSON object exists.
\<close>

datatype post_outcome =
  CurlInitFailed | JsonCreateFailed | AddValueFailed | AddWorkerFailed | PerformFailed | Posted

datatype worker_pc =
  W_Wait | W_Lock | W_Dequeue | W_Unlock "u32 option" | W_Curl "u32 option" | W_Crash

definition drop_job :: "u32 option \<Rightarrow> shared \<Rightarrow> shared" where
  "drop_job node sh =
     (case node of None \<Rightarrow> sh | Some v \<Rightarrow> sh\<lparr>dropped := add_mset v (dropped sh)\<rparr>)"

fun worker_step ::
  "nat \<Rightarrow> post_outcome \<Rightarrow> worker_pc \<Rightarrow> shared \<Rightarrow> (worker_pc \<times> shared) option" where
  "worker_step i out W_Wait sh =
     (case worker_notify (workers_instances (the_pronto sh) ! i) of
        0 \<Rightarrow> None
      | Suc n \<Rightarrow> Some (W_Lock,
          set_pronto (with_worker (the_pronto sh) i (\<lambda>w. w\<lparr>worker_notify := n\<rparr>)) sh))"
| "worker_step i out W_Lock sh =
     map_option (Pair W_Dequeue) (pthread_mutex_lock (WorkerThread i) (WorkerMutex i) sh)"
| "worker_step i out W_Dequeue sh =
     (let (node, q) = dequeue_request (scheduler_jobs (workers_instances (the_pronto sh) ! i))
      in Some (W_Unlock node,
           set_pronto (with_worker (the_pronto sh) i (\<lambda>w. w\<lparr>scheduler_jobs := q\<rparr>)) sh))"
| "worker_step i out (W_Unlock node) sh =
     Some (W_Curl node, pthread_mutex_unlock (WorkerMutex i) sh)"
| "worker_step i out (W_Curl node) sh =
     (if out = CurlInitFailed \<or> out = JsonCreateFailed then Some (W_Wait, drop_job node sh)
      else case node of
        None \<Rightarrow> Some (W_Crash, sh)
      | Some v \<Rightarrow>
          if out = Posted then Some (W_Wait, sh\<lparr>delivered := add_mset (i, v) (delivered sh)\<rparr>)
          else Some (W_Wait, drop_job node sh))"
| "worker_step i out W_Crash sh = None"

section \<open>The two requests that reach the shared state\<close>

text \<open>
  \<open>/schedule\<close> with a quantity, and \<open>/done\<close> with a quantity and a worker number. The
  callbacks with their responses are in \<open>Handler\<close>; a worker number past the array is
  undefined behaviour there and starts no step here.
\<close>

datatype request = ReqSchedule i32 | ReqDone u32 nat

datatype handler_pc =
    H_Idle
  | H_AddLock u32 | H_Add u32 | H_AddUnlock | H_PostNotify
  | H_FreeLock u32 nat | H_Free u32 nat | H_FreeUnlock | H_PostReschedule

fun handler_accept :: "request \<Rightarrow> handler_pc \<Rightarrow> shared \<Rightarrow> handler_pc option" where
  "handler_accept (ReqSchedule v) H_Idle sh =
     Some (if pronto_is_schedulable (the_pronto sh) v then H_AddLock v else H_Idle)"
| "handler_accept (ReqDone q w) H_Idle sh =
     (if w < length (workers_instances (the_pronto sh)) then Some (H_FreeLock q w) else None)"
| "handler_accept r pc sh = None"

fun handler_step :: "thread \<Rightarrow> handler_pc \<Rightarrow> shared \<Rightarrow> (handler_pc \<times> shared) option" where
  "handler_step t H_Idle sh = None"
| "handler_step t (H_AddLock v) sh =
     map_option (Pair (H_Add v)) (pthread_mutex_lock t QueueMutex sh)"
| "handler_step t (H_Add v) sh =
     Some (H_AddUnlock,
       set_pronto (pronto_add_job (the_pronto sh) v) (sh\<lparr>accepted := add_mset v (accepted sh)\<rparr>))"
| "handler_step t H_AddUnlock sh = Some (H_PostNotify, pthread_mutex_unlock QueueMutex sh)"
| "handler_step t H_PostNotify sh =
     Some (H_Idle,
       set_pronto ((the_pronto sh)\<lparr>notify := Suc (notify (the_pronto sh))\<rparr>) sh)"
| "handler_step t (H_FreeLock q w) sh =
     map_option (Pair (H_Free q w)) (pthread_mutex_lock t Bookkeeper sh)"
| "handler_step t (H_Free q w) sh =
     (case pronto_free_capacity (the_pronto sh) w q of
        Inl _ \<Rightarrow> None
      | Inr p \<Rightarrow> Some (H_FreeUnlock, set_pronto p sh))"
| "handler_step t H_FreeUnlock sh = Some (H_PostReschedule, pthread_mutex_unlock Bookkeeper sh)"
| "handler_step t H_PostReschedule sh =
     Some (H_Idle,
       set_pronto ((the_pronto sh)\<lparr>reschedule := Suc (reschedule (the_pronto sh))\<rparr>) sh)"

section \<open>The system\<close>

record sys =
  sh :: shared
  scheds :: "sched_pc list"
  resched :: resched_pc
  wthreads :: "worker_pc list"
  handlers :: "handler_pc list"

datatype event = Internal thread | Request nat request

inductive sys_step :: "sys \<Rightarrow> event \<Rightarrow> sys \<Rightarrow> bool" where
  scheduler: "k < length (scheds s) \<Longrightarrow>
     sched_step (SchedulerThread k) (scheds s ! k) (sh s) = Some (pc', sh') \<Longrightarrow>
     sys_step s (Internal (SchedulerThread k)) (s\<lparr>sh := sh', scheds := (scheds s)[k := pc']\<rparr>)"
| rescheduler: "resched_step ReschedulerThread (resched s) (sh s) = Some (pc', sh') \<Longrightarrow>
     sys_step s (Internal ReschedulerThread) (s\<lparr>sh := sh', resched := pc'\<rparr>)"
| worker: "i < length (wthreads s) \<Longrightarrow>
     worker_step i out (wthreads s ! i) (sh s) = Some (pc', sh') \<Longrightarrow>
     sys_step s (Internal (WorkerThread i)) (s\<lparr>sh := sh', wthreads := (wthreads s)[i := pc']\<rparr>)"
| handler: "j < length (handlers s) \<Longrightarrow>
     handler_step (HandlerThread j) (handlers s ! j) (sh s) = Some (pc', sh') \<Longrightarrow>
     sys_step s (Internal (HandlerThread j)) (s\<lparr>sh := sh', handlers := (handlers s)[j := pc']\<rparr>)"
| request: "j < length (handlers s) \<Longrightarrow>
     handler_accept r (handlers s ! j) (sh s) = Some pc' \<Longrightarrow>
     sys_step s (Request j r) (s\<lparr>handlers := (handlers s)[j := pc']\<rparr>)"

definition sys_init :: "nat \<Rightarrow> nat \<Rightarrow> nat \<Rightarrow> sys" where
  "sys_init n_workers n_schedulers n_handlers =
     \<lparr>sh = \<lparr>the_pronto = pronto_init (int n_workers) (int n_schedulers), held = (\<lambda>_. None),
            accepted = {#}, delivered = {#}, dropped = {#}\<rparr>,
      scheds = replicate n_schedulers S_Wait, resched = R_Wait,
      wthreads = replicate n_workers W_Wait, handlers = replicate n_handlers H_Idle\<rparr>"

inductive reachable :: "nat \<Rightarrow> nat \<Rightarrow> nat \<Rightarrow> sys \<Rightarrow> bool" for nw ns nh where
  start: "reachable nw ns nh (sys_init nw ns nh)"
| step: "reachable nw ns nh s \<Longrightarrow> sys_step s e s' \<Longrightarrow> reachable nw ns nh s'"

inductive_cases sys_step_requestE: "sys_step s (Request j r) s'"
inductive_cases sys_step_internalE: "sys_step s (Internal t) s'"

end
