(* ===== verification/Cluster_Changes.thy ===== *)
theory Cluster_Changes
  imports Scheduling
begin

text \<open>
  The changes of the shared state (lib/h/pronto.h) that the threads of the service make, one by
  one, and why a reservation does not disturb the others: it can be taken back at any later time,
  as if it had never been made.
\<close>

section \<open>The changes\<close>

text \<open>
  Each is made by one step of a thread in \<open>Scheduling\<close>. \<open>None\<close>: a semaphore at zero, or an index
  past the array of workers.
\<close>

datatype cluster_change =
    Accept u32 | Take_job | Park u32 | Unpark
  | Reserve nat u32 | Give_back nat u32
  | Hand_over nat u32 | Fetch nat | Wake nat | Wait_worker nat
  | Post_notify | Wait_notify | Post_reschedule | Wait_reschedule

fun change :: "cluster_change \<Rightarrow> pronto \<Rightarrow> pronto option" where
  "change (Accept v) p = Some (pronto_add_job p v)"
| "change Take_job p = Some (p\<lparr>job_queue := snd (dequeue_request (job_queue p))\<rparr>)"
| "change (Park v) p = Some (pronto_add_waiting_job p v)"
| "change Unpark p = Some (p\<lparr>waiting_queue := snd (dequeue_request (waiting_queue p))\<rparr>)"
| "change (Reserve i q) p = (case pronto_reserve_capacity p i q of Inl e \<Rightarrow> None | Inr p' \<Rightarrow> Some p')"
| "change (Give_back i q) p = (case pronto_free_capacity p i q of Inl e \<Rightarrow> None | Inr p' \<Rightarrow> Some p')"
| "change (Hand_over i v) p = Some (with_worker p i (\<lambda>w. cluster_worker_add_job w v))"
| "change (Fetch i) p = Some (with_worker p i (\<lambda>w. w\<lparr>scheduler_jobs := snd (dequeue_request (scheduler_jobs w))\<rparr>))"
| "change (Wake i) p = Some (with_worker p i (\<lambda>w. w\<lparr>worker_notify := Suc (worker_notify w)\<rparr>))"
| "change (Wait_worker i) p =
     (if worker_notify (workers_instances p ! i) = 0 then None
      else Some (with_worker p i (\<lambda>w. w\<lparr>worker_notify := worker_notify w - 1\<rparr>)))"
| "change Post_notify p = Some (p\<lparr>notify := Suc (notify p)\<rparr>)"
| "change Wait_notify p = (if notify p = 0 then None else Some (p\<lparr>notify := notify p - 1\<rparr>))"
| "change Post_reschedule p = Some (p\<lparr>reschedule := Suc (reschedule p)\<rparr>)"
| "change Wait_reschedule p = (if reschedule p = 0 then None else Some (p\<lparr>reschedule := reschedule p - 1\<rparr>))"

fun changes :: "cluster_change list \<Rightarrow> pronto \<Rightarrow> pronto option" where
  "changes [] p = Some p"
| "changes (c # cs) p = (case change c p of None \<Rightarrow> None | Some p' \<Rightarrow> changes cs p')"

text \<open>The list is complete: no step of any thread does anything else to the shared state.\<close>

definition changed :: "pronto \<Rightarrow> pronto \<Rightarrow> bool" where
  "changed p p' \<longleftrightarrow> p' = p \<or> (\<exists>c. change c p = Some p')"

lemma changedI: "change c p = Some p' \<Longrightarrow> changed p p'"
  by (auto simp: changed_def)

lemma changed_refl [simp]: "changed p p"
  by (simp add: changed_def)

lemma lock_keeps [simp]: "pthread_mutex_lock t m x = Some x' \<Longrightarrow> the_pronto x' = the_pronto x"
  by (auto simp: pthread_mutex_lock_def split: if_splits)

lemma unlock_keeps [simp]: "the_pronto (pthread_mutex_unlock m x) = the_pronto x"
  by (simp add: pthread_mutex_unlock_def)

lemma set_pronto_is [simp]: "the_pronto (set_pronto p x) = p"
  by (simp add: set_pronto_def)

lemma dispatch_changes: "dispatch_step t d v b x = Some (d', x') \<Longrightarrow> changed (the_pronto x) (the_pronto x')"
  by (cases d) (auto split: sum.splits intro: changedI [of "Reserve b v"] changedI [of "Hand_over b v"] changedI [of "Wake b"])

lemma sched_changes: "sched_step t pc x = Some (pc', x') \<Longrightarrow> changed (the_pronto x) (the_pronto x')"
  by (cases pc) (auto simp: Let_def dest: dispatch_changes split: nat.splits prod.splits
      intro: changedI [of Wait_notify] changedI [of Take_job] changedI [of "Park v" for v])

lemma resched_changes: "resched_step t pc x = Some (pc', x') \<Longrightarrow> changed (the_pronto x) (the_pronto x')"
  by (cases pc) (auto simp: Let_def dest: dispatch_changes split: nat.splits prod.splits
      intro: changedI [of Wait_reschedule] changedI [of Unpark])

lemma worker_changes: "worker_step i out pc x = Some (pc', x') \<Longrightarrow> changed (the_pronto x) (the_pronto x')"
proof (cases pc)
  case W_Wait
  assume "worker_step i out pc x = Some (pc', x')"
  then show ?thesis using W_Wait
    by (auto simp: with_worker_def split: nat.splits intro!: changedI [of "Wait_worker i"])
next
  case W_Dequeue
  assume "worker_step i out pc x = Some (pc', x')"
  then show ?thesis using W_Dequeue
    by (auto simp: with_worker_def split: prod.splits intro!: changedI [of "Fetch i"])
qed (auto simp: drop_job_def split: if_splits option.splits)

lemma handler_changes: "handler_step t pc x = Some (pc', x') \<Longrightarrow> changed (the_pronto x) (the_pronto x')"
proof (cases pc)
  case (H_Free q w)
  assume "handler_step t pc x = Some (pc', x')"
  then show ?thesis using H_Free changedI [of "Give_back w q"] by (auto split: sum.splits)
qed (auto intro: changedI [of "Accept v" for v] changedI [of Post_notify] changedI [of Post_reschedule]
    simp: set_pronto_def)

lemma steps_change: "sys_step s e s' \<Longrightarrow> changed (the_pronto (sh s)) (the_pronto (sh s'))"
  by (cases rule: sys_step.cases)
    (auto dest: sched_changes resched_changes worker_changes handler_changes)

section \<open>A reservation under the changes of others\<close>

definition reserved :: "nat \<Rightarrow> u32 \<Rightarrow> pronto \<Rightarrow> pronto" where
  "reserved i q p =
     with_worker (p\<lparr>current_capacity := current_capacity p - q\<rparr>) i
       (\<lambda>w. w\<lparr>current_resources := current_resources w - ucast q, scheduled_jobs := scheduled_jobs w + 1\<rparr>)"

lemma reserve_is_reserved:
  "pronto_reserve_capacity p i q = (if i < length (workers_instances p) then Inr (reserved i q p) else Inl OutOfBounds)"
  by (simp add: pronto_reserve_capacity_def reserved_def)

lemma with_worker_commute:
  assumes "\<And>w. f (g w) = g (f w)"
  shows "with_worker (with_worker p i f) j g = with_worker (with_worker p j g) i f"
proof (cases "i = j")
  case True
  then show ?thesis using assms by (cases "i < length (workers_instances p)") (simp_all add: with_worker_def not_less list_update_beyond)
next
  case False
  then show ?thesis by (simp add: with_worker_def list_update_swap)
qed

lemma reserved_workers [simp]: "length (workers_instances (reserved i q p)) = length (workers_instances p)"
  by (simp add: reserved_def)

lemma change_workers: "change c p = Some p' \<Longrightarrow> length (workers_instances p') = length (workers_instances p)"
  by (cases c) (auto simp: pronto_reserve_capacity_def pronto_free_capacity_def split: if_splits)

lemma with_worker_capacity [simp]:
  "with_worker (p\<lparr>current_capacity := x\<rparr>) i f = (with_worker p i f)\<lparr>current_capacity := x\<rparr>"
  by (simp add: with_worker_def)

lemma worker_change_reserved:
  assumes "\<And>w. f (w\<lparr>current_resources := current_resources w - ucast q, scheduled_jobs := scheduled_jobs w + 1\<rparr>) =
      (f w)\<lparr>current_resources := current_resources (f w) - ucast q, scheduled_jobs := scheduled_jobs (f w) + 1\<rparr>"
  shows "with_worker (reserved i q p) j f = reserved i q (with_worker p j f)"
  using with_worker_commute [of f "\<lambda>w. w\<lparr>current_resources := current_resources w - ucast q,
      scheduled_jobs := scheduled_jobs w + 1\<rparr>" p j i] assms
  by (simp add: reserved_def)

lemma change_reserved:
  assumes "i < length (workers_instances p)"
  shows "change c (reserved i q p) = map_option (reserved i q) (change c p)"
proof (cases c)
  case (Reserve j r)
  have "with_worker (with_worker p i (\<lambda>w. w\<lparr>current_resources := current_resources w - ucast q,
        scheduled_jobs := scheduled_jobs w + 1\<rparr>)) j (\<lambda>w. w\<lparr>current_resources := current_resources w - ucast r,
        scheduled_jobs := scheduled_jobs w + 1\<rparr>) =
      with_worker (with_worker p j (\<lambda>w. w\<lparr>current_resources := current_resources w - ucast r,
        scheduled_jobs := scheduled_jobs w + 1\<rparr>)) i (\<lambda>w. w\<lparr>current_resources := current_resources w - ucast q,
        scheduled_jobs := scheduled_jobs w + 1\<rparr>)"
    by (rule with_worker_commute) (simp add: diff_right_commute)
  then have "reserved j r (reserved i q p) = reserved i q (reserved j r p)"
    by (simp add: reserved_def diff_right_commute)
  then show ?thesis using Reserve by (simp add: reserve_is_reserved)
next
  case (Give_back j r)
  have "with_worker (reserved i q p) j (\<lambda>w. w\<lparr>current_resources := current_resources w + ucast r,
        scheduled_jobs := scheduled_jobs w - 1\<rparr>) =
      reserved i q (with_worker p j (\<lambda>w. w\<lparr>current_resources := current_resources w + ucast r,
        scheduled_jobs := scheduled_jobs w - 1\<rparr>))"
    by (rule worker_change_reserved) simp
  then show ?thesis using Give_back by (simp add: pronto_free_capacity_def) (simp add: reserved_def)
next
  case (Wait_worker j)
  have "worker_notify (workers_instances (reserved i q p) ! j) = worker_notify (workers_instances p ! j)"
    using assms by (cases "j = i") (simp_all add: reserved_def)
  then show ?thesis using Wait_worker worker_change_reserved [of _ q i p j] by simp
next
  case (Hand_over j v)
  then show ?thesis by (simp add: worker_change_reserved cluster_worker_add_job_def)
next
  case (Fetch j)
  then show ?thesis by (simp add: worker_change_reserved)
next
  case (Wake j)
  then show ?thesis by (simp add: worker_change_reserved)
qed (simp_all add: reserved_def with_worker_def pronto_add_job_def pronto_add_waiting_job_def)

lemma changes_reserved:
  "i < length (workers_instances p) \<Longrightarrow> changes cs (reserved i q p) = map_option (reserved i q) (changes cs p)"
proof (induction cs arbitrary: p)
  case (Cons c cs)
  show ?case
  proof (cases "change c p")
    case (Some p')
    then show ?thesis using change_reserved [OF Cons.prems, of c q] Cons.IH [of p'] change_workers [OF Some] Cons.prems by simp
  qed (simp add: change_reserved [OF Cons.prems])
qed simp

lemma changes_workers: "changes cs p = Some p' \<Longrightarrow> length (workers_instances p') = length (workers_instances p)"
  by (induction cs arbitrary: p) (auto split: option.splits dest: change_workers)

text \<open>
  A reservation is given back after any changes by others: the state is the one that these changes
  would have led to without it.
\<close>

lemma free_after_changes:
  assumes "pronto_reserve_capacity p i q = Inr p1" and "changes cs p1 = Some p2"
  shows "\<exists>p'. changes cs p = Some p' \<and> pronto_free_capacity p2 i q = Inr p'"
proof -
  have i: "i < length (workers_instances p)" "p1 = reserved i q p"
    using assms(1) by (auto simp: reserve_is_reserved split: if_splits)
  then obtain p' where p': "changes cs p = Some p'" "p2 = reserved i q p'"
    using assms(2) changes_reserved [OF i(1)] by auto
  then have "pronto_reserve_capacity p' i q = Inr p2"
    using i(1) changes_workers [OF p'(1)] by (simp add: reserve_is_reserved)
  then show ?thesis using free_after_reserve p'(1) by blast
qed

end
