(* ===== verification/Handler_Connections.thy ===== *)
theory Handler_Connections
  imports Handler_Streams Cluster_Changes
begin

text \<open>
  The life of a connection in the event loop, from accept to close, and the ways in which it is
  never closed.
\<close>

section \<open>What holds in every reachable state\<close>

text \<open>
  C3. The addresses of responses are sound. However the events of the connections, new connections,
  hang-ups and other threads interleave: an event EPOLLIN carries a descriptor, and an event
  EPOLLOUT the address of an allocated response, so that these two branches never misread the union
  and no response is used after it was freed; and every address registered with epoll is that of an
  allocated response, built for the socket it is registered with. Nothing is said of other events,
  whose branch takes the data for a descriptor also when it is an address (see the property about
  clients that hang up).
\<close>

theorem event_data_fits:
  assumes "loop_reachable h s"
  shows "(\<forall>events d evs. pending s = (events, d) # evs \<longrightarrow>
      (events = EPOLLIN \<longrightarrow> (\<exists>fd. d = DataFd fd)) \<and>
      (events = EPOLLOUT \<longrightarrow> (\<exists>a res. d = DataPtr a \<and> responses s a = Some res))) \<and>
    (\<forall>fd interest a. epoll_set s fd = Some (interest, DataPtr a) \<longrightarrow>
      (\<exists>res. responses s a = Some res \<and> res_socket res = fd))"
proof (intro conjI allI impI)
  note inv = loop_reachable_sound [OF assms]
  show "\<exists>res. responses s a = Some res \<and> res_socket res = fd" if "epoll_set s fd = Some (interest, DataPtr a)"
    for fd interest a
    using attached_response that inv by blast
  show "\<exists>fd. d = DataFd fd" if "pending s = (events, d) # evs" "events = EPOLLIN" for events d evs
    using inv that by (cases d) (auto simp: events_ok_def event_ok_def event_kind_def)
  show "\<exists>a res. d = DataPtr a \<and> responses s a = Some res" if "pending s = (events, d) # evs" "events = EPOLLOUT"
    for events d evs
    using inv that masks(2) by (cases d) (auto simp: events_ok_def event_ok_def event_kind_def)
qed

text \<open>
  C4. Responses are not mixed, as long as no event has been misread (no hang-up on a response has
  closed the descriptor that the low half of its address happens to name). Of the descriptors
  registered with epoll: the client of one that waits for a request has been sent nothing, and the
  client of one with a response attached has been sent exactly the beginning of that response, up
  to \<open>stream_ptr\<close>, whatever was sent to others in between; the response is built for this socket
  and attached to no other. And every allocated response is attached to a descriptor, so that none
  is lost.
\<close>

theorem clients_get_their_own:
  assumes "clean_reachable h s"
  shows "(\<forall>fd interest d. epoll_set s fd = Some (interest, d) \<longrightarrow>
      (case d of
         DataFd fd' \<Rightarrow> fd' = fd \<and> received s fd = []
       | DataPtr a \<Rightarrow> (\<exists>res. responses s a = Some res \<and> res_socket res = fd \<and>
           received s fd = take (res_stream_ptr res) (res_stringified res)) \<and>
           (\<forall>fd' interest'. epoll_set s fd' = Some (interest', d) \<longrightarrow> fd' = fd))) \<and>
    (\<forall>a res. responses s a = Some res \<longrightarrow> epoll_set s (res_socket res) = Some (EPOLLOUT, DataPtr a))"
proof (intro conjI allI impI)
  have c: "clients_ok s" "responses_ok s" using clean_reachable_ok [OF assms] by (simp_all add: loop_ok_def)
  note e = client_entry [OF c(1)]
  show "case d of
         DataFd fd' \<Rightarrow> fd' = fd \<and> received s fd = []
       | DataPtr a \<Rightarrow> (\<exists>res. responses s a = Some res \<and> res_socket res = fd \<and>
           received s fd = take (res_stream_ptr res) (res_stringified res)) \<and>
           (\<forall>fd' interest'. epoll_set s fd' = Some (interest', d) \<longrightarrow> fd' = fd)"
    if "epoll_set s fd = Some (interest, d)" for fd interest d
    using e [OF that] e [where x = "(i, d)" for i] by (fastforce simp: client_ok_def streaming_def split: epoll_data.splits)
  show "epoll_set s (res_socket res) = Some (EPOLLOUT, DataPtr a)" if "responses s a = Some res" for a res
    using c(2) that by (simp add: responses_ok_def)
qed

section \<open>The loop on a list of events\<close>

text \<open>
  The loop of the handler on the events it is given, each with what the environment answers while
  it is handled; the routes are registered first.
\<close>

fun handle_events ::
  "handler \<Rightarrow> ((u32 \<times> epoll_data) \<times> answers) list \<Rightarrow> loop_state \<Rightarrow> loop_state option result" where
  "handle_events h [] s = Inr (Some s)"
| "handle_events h ((ev, ans) # evs) s =
     and_then (handle_event h ev ans s) (\<lambda>r.
       case r of None \<Rightarrow> Inr None | Some s' \<Rightarrow> handle_events h evs s')"

definition handler_process_request ::
  "handler \<Rightarrow> ((u32 \<times> epoll_data) \<times> answers) list \<Rightarrow> loop_state \<Rightarrow> loop_state option result" where
  "handler_process_request h evs s = and_then (register_routes h) (\<lambda>h'. handle_events h' evs s)"

section \<open>From accept to close\<close>

definition writable_with :: "u64 \<Rightarrow> answers \<Rightarrow> send_outcome \<Rightarrow> (u32 \<times> epoll_data) \<times> answers" where
  "writable_with a ans out = ((EPOLLOUT, DataPtr a), ans\<lparr>ans_send := out\<rparr>)"

lemma handle_events_writable:
  "handle_events h (writable_with a ans out # evs) s =
     and_then (handle_event h (EPOLLOUT, DataPtr a) (ans\<lparr>ans_send := out\<rparr>) s) (\<lambda>r.
       case r of None \<Rightarrow> Inr None | Some s' \<Rightarrow> handle_events h evs s')"
  by (simp add: writable_with_def)

lemma handle_writable:
  assumes "responses s a = Some res" and "res_socket res \<in> open_fds s"
  shows "handle_event h (EPOLLOUT, DataPtr a) (ans\<lparr>ans_send := out\<rparr>) s =
    and_then (on_writable res out) (\<lambda>r. Inr (Some (
      case r of
        Sent bs res' \<Rightarrow> deliver (res_socket res) bs (s\<lparr>responses := (responses s)(a \<mapsto> res')\<rparr>)
      | Finished bs \<Rightarrow> http_response_destroy a (close_fd (res_socket res) (deliver (res_socket res) bs s))
      | Waiting \<Rightarrow> s
      | SendFailed \<Rightarrow> s)))"
proof -
  have "event_kind EPOLLOUT = Writable" by (simp add: event_kind_def EPOLLOUT_def EPOLLIN_def)
  moreover have "close_fd fd (epoll_del fd s) = close_fd fd s" for fd s by (simp add: state_changes)
  ultimately show ?thesis using assms
    by (cases "on_writable res out")
      (auto simp: handle_event_def writable_event_def Let_def split: writable_end.splits)
qed

text \<open>
  The sends of a response. Each asks for the whole length, so that the last one may take more than
  what is left: the client then gets bytes behind the response, or the send reads outside the block.
\<close>

lemma sends_finish:
  "responses s a = Some res \<Longrightarrow> res_socket res = fd \<Longrightarrow> fd \<in> open_fds s \<Longrightarrow>
   res_full_length res \<le> length (res_stringified res) \<Longrightarrow>
   res_full_length res \<le> res_stream_ptr res + taken outs \<Longrightarrow>
   res_stream_ptr res + taken (butlast outs) < res_full_length res \<Longrightarrow>
   handle_events h (map (writable_with a ans) outs) s =
     (if res_stream_ptr res + taken outs \<le> length (res_stringified res)
      then Inr (Some (http_response_destroy a (close_fd fd
        (deliver fd (take (taken outs) (drop (res_stream_ptr res) (res_stringified res))) s))))
      else Inl OutOfBounds)"
proof (induction outs arbitrary: res s)
  case (Cons out outs)
  note h = handle_writable [OF Cons.prems(1), where h = h and ans = ans and out = out]
  let ?k = "res_stream_ptr res" and ?b = "res_stringified res"
  show ?case
  proof (cases out)
    case (Taken n)
    show ?thesis
    proof (cases "outs = []")
      case True
      then have "on_writable res (Taken n) = (if ?k + n \<le> length ?b then Inr (Finished (take n (drop ?k ?b))) else Inl OutOfBounds)"
        using Cons.prems(5) Taken by (simp add: on_writable_def read_bytes_def Let_def)
      then show ?thesis using h True Cons.prems(2,3) Taken by (simp add: handle_events_writable)
    next
      case False
      let ?res = "res\<lparr>res_stream_ptr := ?k + n\<rparr>" and ?bs = "take n (drop ?k ?b)"
      let ?s = "deliver fd ?bs (s\<lparr>responses := (responses s)(a \<mapsto> ?res)\<rparr>)"
      have lt: "?k + n < res_full_length res" using Cons.prems(6) False Taken by simp
      then have w: "on_writable res (Taken n) = Inr (Sent ?bs ?res)"
        using Cons.prems(4) by (simp add: on_writable_def read_bytes_def Let_def)
      have "handle_events h (map (writable_with a ans) outs) ?s =
          (if ?k + n + taken outs \<le> length ?b
           then Inr (Some (http_response_destroy a (close_fd fd (deliver fd (take (taken outs) (drop (?k + n) ?b)) ?s))))
           else Inl OutOfBounds)"
        using Cons.IH [of ?s ?res] Cons.prems False Taken by (simp add: deliver_def add.assoc)
      moreover have "http_response_destroy a (close_fd fd (deliver fd (take (taken outs) (drop (?k + n) ?b)) ?s)) =
          http_response_destroy a (close_fd fd (deliver fd (take (n + taken outs) (drop ?k ?b)) s))"
        by (simp add: state_changes take_add add.commute)
      ultimately show ?thesis using h w Cons.prems(2,3) Taken by (simp add: handle_events_writable add.assoc)
    qed
  next
    case (SendError e)
    have "outs \<noteq> []" using Cons.prems(5,6) SendError by auto
    then have "handle_events h (map (writable_with a ans) outs) s =
        (if ?k + taken outs \<le> length ?b
         then Inr (Some (http_response_destroy a (close_fd fd (deliver fd (take (taken outs) (drop ?k ?b)) s))))
         else Inl OutOfBounds)"
      using Cons.IH [OF Cons.prems(1-4)] Cons.prems(5,6) SendError by simp
    then show ?thesis using h Cons.prems(2,3) SendError by (simp add: handle_events_writable on_writable_def)
  qed
qed simp

text \<open>The text of an answer.\<close>

definition answer_text :: "int \<times> string \<Rightarrow> string" where
  "answer_text = (\<lambda>(status, body). stringify_status status @ json_content_type @ header_end @ body)"

lemma json_response_block:
  "\<exists>k. res_stringified (json_response date status body fd) = answer_text (status, body) @ replicate k NUL"
  "res_full_length (json_response date status body fd) = length (answer_text (status, body))"
  by (auto simp: answer_text_def built_response_def response_text_def Let_def)

text \<open>
  What can become of a request that is answered with \<open>msg\<close>, when the descriptor of the client is
  reported readable and then writable until send has taken the whole answer: it depends on memory
  that the code does not own. If the byte behind the clone of the header name is NUL and the block
  for the headers of the response holds a NUL early enough, the client receives the answer (and a
  NUL for every byte that the last send takes too much), the cluster has become \<open>p\<close>, the descriptor
  is deregistered and closed, the response freed, and every other connection is as before. In any
  other case the answer is not built: the request is skipped and nothing changes, or an access is
  outside a block.
\<close>

definition request_ends ::
  "handler \<Rightarrow> int \<Rightarrow> answers \<Rightarrow> send_outcome list \<Rightarrow> int \<times> string \<Rightarrow> pronto \<Rightarrow> loop_state \<Rightarrow> bool" where
  "request_ends h fd ans outs msg p s \<longleftrightarrow>
     (let request = ((EPOLLIN, DataFd fd), ans);
          sends = map (writable_with (ans_address ans) ans) outs;
          block = res_stringified (json_response (ans_date ans) (fst msg) (snd msg) fd) in
      case ans_slack ans of
        [] \<Rightarrow> handler_process_request h [request] s = Inl OutOfBounds
      | c # r \<Rightarrow>
          if c \<noteq> NUL then handler_process_request h [request] s = Inr (Some s)
          else if \<not> header_room (ans_junk ans) (ans_date ans) json_content_type
          then handler_process_request h [request] s = Inl OutOfBounds
          else handler_process_request h (request # sends) s =
            (if taken outs \<le> length block
             then Inr (Some (s\<lparr>shared := p, epoll_set := (epoll_set s)(fd := None), open_fds := open_fds s - {fd},
               received := (received s)
                 (fd := answer_text msg @ replicate (taken outs - length (answer_text msg)) NUL)\<rparr>))
             else Inl OutOfBounds))"

text \<open>The sends that finish an answer: all of it, and not before the last.\<close>

definition sends_all :: "int \<times> string \<Rightarrow> send_outcome list \<Rightarrow> bool" where
  "sends_all msg outs \<longleftrightarrow>
     taken (butlast outs) < length (answer_text msg) \<and> length (answer_text msg) \<le> taken outs"

lemma close_opened:
  assumes "responses s a = None"
  shows "http_response_destroy a (close_fd fd (deliver fd bs
      (s\<lparr>shared := p, responses := (responses s)(a \<mapsto> res), epoll_set := (epoll_set s)(fd \<mapsto> x)\<rparr>))) =
    close_fd fd (deliver fd bs (s\<lparr>shared := p\<rparr>))"
proof -
  have "(responses s)(a := None) = responses s" using assms by (simp add: fun_upd_idem)
  then show ?thesis by (simp add: state_changes)
qed

lemma answered_and_closed:
  fixes s :: loop_state
  assumes reg: "register_routes h0 = Inr h"
    and run: "on_readable (ans_junk ans) (ans_date ans) (ans_slack ans) (ans_stack ans) (ans_allocs ans)
      h (shared s) fd (ans_ctl ans \<and> epoll_set s fd \<noteq> None) (ans_reads ans) =
      served (ans_slack ans) (ans_junk ans) (ans_date ans) fd (shared s) msg p"
    and fd: "fd \<in> open_fds s" "received s fd = []" and new: "responses s (ans_address ans) = None"
    and outs: "sends_all msg outs"
  shows "request_ends h0 fd ans outs msg p s"
proof -
  let ?a = "ans_address ans" and ?ev = "((EPOLLIN, DataFd fd), ans)"
  obtain status body where msg: "msg = (status, body)" by (cases msg)
  let ?res = "json_response (ans_date ans) status body fd"
  let ?text = "answer_text msg" and ?b = "res_stringified ?res"
  have readable: "event_kind EPOLLIN = Readable" by (simp add: event_kind_def)
  have proc: "handler_process_request h0 evs s = handle_events h evs s" for evs
    using reg by (simp add: handler_process_request_def)
  show ?thesis
  proof (cases "\<exists>r. ans_slack ans = NUL # r \<and> header_room (ans_junk ans) (ans_date ans) json_content_type")
    case False
    then show ?thesis
      using run by (cases "ans_slack ans")
        (auto simp: request_ends_def proc handle_event_def readable_event_def readable served_def msg Let_def)
  next
    case True
    let ?s = "s\<lparr>shared := p, responses := (responses s)(?a \<mapsto> ?res), epoll_set := (epoll_set s)(fd \<mapsto> (EPOLLOUT, DataPtr ?a))\<rparr>"
    have first: "handle_event h (EPOLLIN, DataFd fd) ans s = Inr (Some ?s)"
      using run True by (auto simp: handle_event_def readable_event_def readable served_def msg)
    obtain k where k: "?b = ?text @ replicate k NUL" using json_response_block(1) msg by blast
    have full: "res_full_length ?res = length ?text" using json_response_block(2) msg by simp
    have "handle_events h (map (writable_with ?a ans) outs) ?s =
        (if taken outs \<le> length ?b
         then Inr (Some (http_response_destroy ?a (close_fd fd (deliver fd (take (taken outs) ?b) ?s))))
         else Inl OutOfBounds)"
      using sends_finish [of ?s ?a ?res fd outs h ans] fd outs full k by (simp add: sends_all_def)
    moreover have "take (taken outs) ?b = ?text @ replicate (taken outs - length ?text) NUL" if "taken outs \<le> length ?b"
      using that outs k by (simp add: sends_all_def)
    ultimately have "handle_events h (?ev # map (writable_with ?a ans) outs) s =
        (if taken outs \<le> length ?b
         then Inr (Some (s\<lparr>shared := p, epoll_set := (epoll_set s)(fd := None), open_fds := open_fds s - {fd},
           received := (received s)(fd := ?text @ replicate (taken outs - length ?text) NUL)\<rparr>))
         else Inl OutOfBounds)"
      using first close_opened [OF new, of fd] fd(2) by (simp add: state_changes)
    then show ?thesis using True by (auto simp: request_ends_def proc msg Let_def)
  qed
qed

text \<open>
  C1. From the bytes of a request to the closed connection. A client sends POST /schedule with
  \<open>{"qty": q}\<close>; the pieces it arrives in may cut it anywhere in the headers, the last brings the
  end of the headers and the whole body. Then its descriptor is reported writable until send has
  taken the whole answer, in any portions and with any errors in between. The answer is 200 with
  \<open>q\<close> if the cluster can take \<open>q\<close>, and then the job is queued and the scheduler notified, and 400
  if not. \<open>request_ends\<close> says what has become of the connection: for every content of the memory
  the code depends on, it is the full exchange, a skipped request or an access outside a block.
  (The request fits the buffer; the descriptor is open, registered and has been sent nothing;
  malloc gives the response an address that is not in use; epoll_ctl and the allocations of the
  parser succeed, the stack has 100 bytes left, no header is named by "content-length" and more
  characters, and the date holds no NUL. The events are handled one after the other; for the
  events of other connections in between see the two properties before.)
\<close>

theorem request_to_close:
  fixes s :: loop_state
  assumes "register_routes (handler_init ep ev bs cap bd) = Inr h" and "q < 2 ^ 31"
    and "json_headers hs [(''qty'', q)]" and "arrives dat ''/schedule'' hs [(''qty'', q)] cap"
    and "NUL \<notin> set (ans_date ans)" and "sorted (job_queue (shared s))"
    and "ans_reads ans = map ReadBytes dat @ os" and "ans_allocs ans = []" and "ans_ctl ans" and "100 \<le> ans_stack ans"
    and "epoll_set s fd = Some x" and "fd \<in> open_fds s" and "received s fd = []"
    and "responses s (ans_address ans) = None"
    and "sends_all (schedule_reply (shared s) q) outs"
  shows "request_ends (handler_init ep ev bs cap bd) fd ans outs (schedule_reply (shared s) q) (scheduled (shared s) q) s"
  using answered_and_closed [OF assms(1) _ assms(12-15)]
    schedule_end_to_end [OF assms(1-4,10,5,6), of "ans_junk ans" "ans_slack ans" fd os] assms(7-9,11)
  by simp

section \<open>The end of a job\<close>

definition done_members :: "nat \<Rightarrow> nat \<Rightarrow> int_members" where
  "done_members q i = [(''freed_qty'', q), (''worker'', i)]"

definition done_reply :: "nat \<Rightarrow> nat \<Rightarrow> int \<times> string" where
  "done_reply q i = (200, success_body (''freed '' @ show_nat q @ '' from worker '' @ show_nat i))"

lemma done_members_found:
  "int_member (object_item (done_members q i)) ''freed_qty'' = Some (word_of_nat q)"
  "int_member (object_item (done_members q i)) ''worker'' = Some (word_of_nat i)"
  by (simp_all add: int_member_def object_item_def member_item_def done_members_def cJSON_GetObjectItem_def
      get_object_item_def case_insensitive_equal_def tolower_def)

text \<open>The completion callback gives back the units and posts the semaphore.\<close>

lemma completion_served:
  assumes "register_routes (handler_init ep ev bs cap bd) = Inr h" and "q < 2 ^ 31" and "i < 2 ^ 31"
    and "json_headers hs (done_members q i)" and "arrives dat ''/done'' hs (done_members q i) cap"
    and "100 \<le> stack_room" and "NUL \<notin> set date" and "pronto_free_capacity p i (word_of_nat q) = Inr p'"
  shows "on_readable junk date slack stack_room [] h p fd True (map ReadBytes dat @ os) =
    served slack junk date fd p (done_reply q i) (sem_post_reschedule p')"
proof -
  let ?ms = "done_members q i"
  have good: "list_all good_member ?ms" using assms(2,3) by (simp add: done_members_def good_member_def plain_char_def)
  have path: "good_path ''/done''" by code_simp
  have len: "length (object_text ?ms) < 2 ^ 31" "length (object_text ?ms) < stack_room"
    using show_nat_length [OF assms(2)] show_nat_length [OF assms(3)] assms(6)
    by (simp_all add: object_text_def member_text_def done_members_def)
  obtain req where req: "posts req (object_item ?ms)"
    "on_readable junk date slack stack_room [] h p fd True (map ReadBytes dat @ os) =
      (case slack of
         [] \<Rightarrow> Inl OutOfBounds
       | c # r \<Rightarrow>
           if c \<noteq> NUL then Inr (Some (Skipped, p))
           else and_then (answer junk date p req fd ''POST'' ''/done'') (\<lambda>(res, p'). Inr (Some (Responding res, p'))))"
    using serve_json [OF assms(1) path good assms(4,5) len, of junk date slack p fd os] by blast
  have i: "unat (word_of_nat i :: i32) = i" using assms(3) by (simp add: unsigned_of_nat take_bit_nat_eq_self_iff)
  have "pronto_free_capacity p (unat (word_of_nat i :: i32)) (word_of_nat q) = Inr p'" using assms(8) i by simp
  from job_done_builds [OF req(1) assms(7) this done_members_found, of junk fd]
  show ?thesis using req(2) show_small [OF assms(2)] show_small [OF assms(3)]
    by (auto simp: answer_def served_def done_reply_def split: list.splits)
qed

text \<open>
  C2. A job gives back what it took. A job of \<open>q\<close> units was reserved on worker \<open>i\<close> in the state
  \<open>p0\<close>; since then the threads have changed the cluster in any way, by the changes \<open>cs\<close> (jobs
  accepted, queued, taken, handed over, other reservations made and given back, semaphores posted
  and waited for). Now the machine posts the completion to /done, and the exchange takes place as in
  the property before, under the same conditions. If it is answered, the cluster is what the same changes would have made of
  \<open>p0\<close> had the job never been reserved, with the rescheduler's semaphore posted once more, and the
  machine has received the 200 that names the units and the worker.
\<close>

theorem completed_job_gives_back:
  fixes s :: loop_state
  assumes "register_routes (handler_init ep ev bs cap bd) = Inr h" and "q < 2 ^ 31" and "i < 2 ^ 31"
    and "pronto_reserve_capacity p0 i (word_of_nat q) = Inr p1" and "changes cs p1 = Some (shared s)"
    and "json_headers hs (done_members q i)" and "arrives dat ''/done'' hs (done_members q i) cap"
    and "NUL \<notin> set (ans_date ans)"
    and "ans_reads ans = map ReadBytes dat @ os" and "ans_allocs ans = []" and "ans_ctl ans" and "100 \<le> ans_stack ans"
    and "epoll_set s fd = Some x" and "fd \<in> open_fds s" and "received s fd = []"
    and "responses s (ans_address ans) = None"
    and "sends_all (done_reply q i) outs"
  shows "\<exists>p. changes cs p0 = Some p \<and>
    request_ends (handler_init ep ev bs cap bd) fd ans outs (done_reply q i) (sem_post_reschedule p) s"
proof -
  obtain p where p: "changes cs p0 = Some p" "pronto_free_capacity (shared s) i (word_of_nat q) = Inr p"
    using free_after_changes [OF assms(4,5)] by blast
  have "request_ends (handler_init ep ev bs cap bd) fd ans outs (done_reply q i) (sem_post_reschedule p) s"
    using answered_and_closed [OF assms(1) _ assms(14-17)]
      completion_served [OF assms(1-3,6,7,12,8) p(2), of "ans_junk ans" "ans_slack ans" fd os] assms(9-11,13)
    by simp
  then show ?thesis using p(1) by blast
qed

section \<open>Connections that are never closed\<close>

text \<open>
  Any event on a response but EPOLLOUT alone: the code closes the descriptor \<open>data.fd\<close>, which
  here is the low half of the address of the response.
\<close>

lemma other_event_on_response:
  assumes "event_kind events = OtherEvent"
  shows "handle_event h (events, DataPtr a) ans s = Inr (Some (close_fd (data_fd (DataPtr a)) s))"
  using assms by (simp add: handle_event_def close_deregisters)

text \<open>If these bits are the number of a descriptor, the connection of another client is closed.\<close>

lemma hang_up_closes_another:
  "handle_event h (EPOLLOUT OR EPOLLHUP, DataPtr 0x7F0000000014) ans s = Inr (Some (close_fd 20 s))"
proof -
  have "data_fd (DataPtr 0x7F0000000014) = 20" by simp
  moreover have "event_kind (EPOLLOUT OR EPOLLHUP) = OtherEvent" by (simp add: event_kind_def EPOLLOUT_def EPOLLIN_def EPOLLHUP_def)
  ultimately show ?thesis by (simp add: other_event_on_response)
qed

text \<open>
  C36. A client that hangs up while its response is being sent makes the handler spin. Take a state
  in which a response is attached to a descriptor whose peer is gone, with no earlier EPOLLOUT of it
  left to handle, and any continuation. \<open>epoll_wait\<close> no longer blocks; what it returns for this
  response is never EPOLLOUT alone, and if the descriptor is the only one registered, exactly this
  one event is what every call returns. Handling it closes the descriptor that the low half of the
  response's address names: nothing at all changes if that is no open descriptor, and another
  connection is closed if it is. As long as it was none (in runs where no event is misread), the
  descriptor stays registered and open, the response allocated, and nothing more is sent.
\<close>

theorem hang_up_spins:
  assumes "clean_reachable h s" and "fd \<in> gone s" and "epoll_set s fd = Some (EPOLLOUT, DataPtr a)"
    and "(EPOLLOUT, DataPtr a) \<notin> set (pending s)" and "clean_run h s s'"
  shows "epoll_set s' fd = Some (EPOLLOUT, DataPtr a) \<and> fd \<in> open_fds s' \<and>
    responses s' a \<noteq> None \<and> responses s' a = responses s a \<and> received s' fd = received s fd \<and>
    (\<forall>evs. wait_returns h s' evs \<longrightarrow> evs \<noteq> [] \<and>
      (\<forall>events. (events, DataPtr a) \<in> set evs \<longrightarrow> event_kind events = OtherEvent) \<and>
      (dom (epoll_set s') = {fd} \<longrightarrow> (\<exists>events. evs = [(events, DataPtr a)]))) \<and>
    (\<forall>events ans. event_kind events = OtherEvent \<longrightarrow>
      handle_event h (events, DataPtr a) ans s' =
        Inr (Some (if data_fd (DataPtr a) \<in> open_fds s' then close_fd (data_fd (DataPtr a)) s' else s')))"
proof -
  have "stuck s fd a" using assms(2-4) by (simp add: stuck_def)
  then have run: "loop_ok s'" "stuck s' fd a" "responses s' a = responses s a" "received s' fd = received s fd"
    using stuck_run [OF assms(5) clean_reachable_ok [OF assms(1)]] by blast+
  have att: "attached_ok s'" using run(1) clients_attached by (simp add: loop_ok_def)
  have e: "epoll_set s' fd = Some (EPOLLOUT, DataPtr a)" using run(2) by (simp add: stuck_def)
  have "responses s' a \<noteq> None" using attached_response [OF att e] by auto
  moreover have "fd \<in> open_fds s'" using attached_open [OF att] e by simp
  moreover have "close_fd (data_fd (DataPtr a)) s' = s'" if "data_fd (DataPtr a) \<notin> open_fds s'"
    by (rule close_stranger [OF att that])
  ultimately show ?thesis
    using e run(3,4) stuck_waits [OF run(1,2)] other_event_on_response [of _ h a _ s'] by auto
qed

text \<open>
  C37. A request that is not understood is never answered and its connection never closed. When
  receiving ends as broken (the client has closed its side, reading failed, or the bytes are no
  HTTP request), handling the event changes nothing: the descriptor stays open and registered.
\<close>

theorem broken_request_leaks:
  assumes "receive (ans_junk ans) (max_request_size h) (new_reader (ans_junk ans) (max_request_size h))
    (ans_reads ans) = Inr (Some (Broken, rd))"
  shows "handle_event h (EPOLLIN, DataFd fd) ans s = Inr (Some s)"
proof -
  have "event_kind EPOLLIN = Readable" by (simp add: event_kind_def)
  then show ?thesis using assms
    by (simp add: handle_event_def readable_event_def on_readable_def after_receive_def)
qed

section \<open>A sample run\<close>

definition sample_loop :: loop_state where
  "sample_loop = \<lparr>epoll_set = Map.empty, open_fds = {}, responses = Map.empty, pending = [],
     shared = pronto_init 2 1, gone = {}, received = (\<lambda>_. [])\<rparr>"

definition sample_answers :: answers where
  "sample_answers = \<lparr>ans_reads = map ReadBytes sample_pieces, ans_allocs = [], ans_address = 0x7F0012345670,
     ans_ctl = True, ans_send = Taken 0, ans_junk = (\<lambda>_. NUL), ans_date = ''now'', ans_slack = [NUL],
     ans_stack = 1000\<rparr>"

definition sample_handler :: "handler \<Rightarrow> bool" where
  "sample_handler h \<longleftrightarrow> register_routes (handler_init 5 4 50 200 50) = Inr h"

lemma sample_handler_exists: "\<exists>h. sample_handler h"
  unfolding sample_handler_def using register_routes_run by blast

lemma registered_handler:
  "register_routes (handler_init ep ev bs rq bd) = Inr h \<Longrightarrow> epoll_fd h = ep \<and> max_events h = ev"
  by (auto simp: register_routes_def handler_route_def handler_init_def Let_def
      elim!: and_then_InrE split: if_splits prod.splits)

lemma sample_room: "header_room (\<lambda>_. NUL) ''now'' json_content_type"
  using roomy_zeros by (simp add: roomy_def)

lemma sample_accept:
  "\<exists>srv srv'. server_on_connection srv (sample_client 20) = Inr (srv', Some (5, 20))"
proof -
  obtain srv where srv: "server_init sample_startup 8 (int 1) 8 8 8 8 = Inr srv"
    by (auto simp: server_init_def create_socket_def make_nonblocking_def sample_startup_def)
  have "next_handler srv 1 0" by (rule init_next_handler [OF srv]) simp
  moreover have "good_accept (sample_client 20)" by (simp add: good_accept_def sample_client_def)
  moreover have "epoll_fd (srv_handlers srv ! 0) = 5"
    using init_handlers [OF srv] by (simp add: handler_init_def sample_startup_def)
  ultimately show ?thesis using connection_step [of srv 1 0 "sample_client 20"]
    by (auto simp: sample_client_def)
qed

lemma misread_fd: "\<not> misread s (events, DataFd fd)"
  by (simp add: misread_def)

text \<open>A client connects, and its request arrives.\<close>

lemma sample_waiting:
  assumes "sample_handler h"
  shows "clean_reachable h ((add_client 20 sample_loop)\<lparr>pending := [(EPOLLIN, DataFd 20)]\<rparr>)"
proof -
  note h = registered_handler [OF assms [unfolded sample_handler_def]]
  have "clean_reachable h sample_loop"
    unfolding clean_reachable_def clean_run_def
    by (rule exI [of _ sample_loop]) (simp add: loop_start_def sample_loop_def)
  moreover obtain srv srv' where "server_on_connection srv (sample_client 20) = Inr (srv', Some (epoll_fd h, 20))"
    using sample_accept h by auto
  ultimately have c: "clean_reachable h (add_client 20 sample_loop)"
    by (intro clean_reachable_step [OF _ step_accept]) (simp_all add: sample_loop_def)
  have "reported (add_client 20 sample_loop) 20 (EPOLLIN, DataFd 20)"
    using masks(3,5) by (simp add: reported_def add_client_def sample_loop_def)
  then have "\<exists>fs. distinct fs \<and> list_all2 (reported (add_client 20 sample_loop)) fs [(EPOLLIN, DataFd 20)]"
    by (intro exI [of _ "[20]"]) simp
  then have "wait_returns h (add_client 20 sample_loop) [(EPOLLIN, DataFd 20)]"
    using h by (simp add: wait_returns_def)
  then show ?thesis
    by (intro clean_reachable_step [OF c step_wait]) (simp_all add: add_client_def sample_loop_def)
qed

text \<open>The request is handled: a response is attached. Then the client hangs up.\<close>

definition sample_attached :: loop_state where
  "sample_attached = (add_client 20 sample_loop)\<lparr>shared := scheduled (pronto_init 2 1) 5,
     responses := [0x7F0012345670 \<mapsto> json_response ''now'' 200 (success_body (show_nat 5)) 20],
     epoll_set := [20 \<mapsto> (EPOLLOUT, DataPtr 0x7F0012345670)]\<rparr>"

lemma sample_response_attached:
  assumes "sample_handler h"
  shows "clean_reachable h sample_attached"
proof -
  let ?s = "(add_client 20 sample_loop)\<lparr>pending := []\<rparr>"
  have init: "sorted (job_queue (pronto_init 2 1))" by (simp add: pronto_init_def Let_def)
  have "100 \<le> (1000::nat)" by simp
  then have "on_readable (\<lambda>_. NUL) ''now'' [NUL] 1000 [] h (pronto_init 2 1) 20 True (map ReadBytes sample_pieces) =
      Inr (Some (Responding (json_response ''now'' 200 (success_body (show_nat 5)) 20), scheduled (pronto_init 2 1) 5))"
    using schedule_end_to_end [OF assms [unfolded sample_handler_def] _ sample_json sample_arrives _ _
      init, of 1000 "''now''" "\<lambda>_. NUL" "[NUL]" 20 "[]"] sample_room sample_schedulable
    by (simp add: served_def schedule_reply_def)
  moreover have "event_kind EPOLLIN = Readable" by (simp add: event_kind_def)
  ultimately have run: "handle_event h (EPOLLIN, DataFd 20) sample_answers ?s = Inr (Some sample_attached)"
    by (simp add: handle_event_def readable_event_def sample_answers_def add_client_def sample_loop_def sample_attached_def)
  show ?thesis
  proof (rule clean_reachable_step [OF sample_waiting [OF assms]])
    show "loop_step h ((add_client 20 sample_loop)\<lparr>pending := [(EPOLLIN, DataFd 20)]\<rparr>)
        (Some (EPOLLIN, DataFd 20)) sample_attached"
      by (rule step_event [where ans = sample_answers and evs = "[]"]) (use run in \<open>simp_all add: add_client_def sample_loop_def\<close>)
  qed (simp add: misread_fd)
qed

definition sample_gone :: loop_state where
  "sample_gone = sample_attached\<lparr>gone := {20}\<rparr>"

lemma sample_hung_up: "sample_handler h \<Longrightarrow> clean_reachable h sample_gone"
  using clean_reachable_step [OF sample_response_attached step_hang_up [of 20]]
  by (simp add: sample_gone_def sample_attached_def add_client_def sample_loop_def)

lemma hang_up_spins_witness:
  "\<exists>h. wait_returns h sample_gone [(EPOLLOUT OR EPOLLHUP, DataPtr 0x7F0012345670)] \<and>
    (\<forall>evs. wait_returns h sample_gone evs \<longrightarrow> (\<exists>events. evs = [(events, DataPtr 0x7F0012345670)])) \<and>
    (\<forall>ans. handle_event h (EPOLLOUT OR EPOLLHUP, DataPtr 0x7F0012345670) ans sample_gone = Inr (Some sample_gone))"
proof -
  let ?a = "0x7F0012345670 :: u64" and ?ev = "(EPOLLOUT OR EPOLLHUP, DataPtr 0x7F0012345670)"
  obtain h where h: "sample_handler h" using sample_handler_exists ..
  have s: "20 \<in> gone sample_gone" "epoll_set sample_gone = [20 \<mapsto> (EPOLLOUT, DataPtr ?a)]" "pending sample_gone = []"
    "open_fds sample_gone = {20}"
    by (simp_all add: sample_gone_def sample_attached_def add_client_def sample_loop_def)
  have "reported sample_gone 20 ?ev"
    using s(2) by (simp add: reported_def EPOLLOUT_def EPOLLHUP_def EPOLLERR_def)
  then have "\<exists>fs. distinct fs \<and> list_all2 (reported sample_gone) fs [?ev]" by (intro exI [of _ "[20]"]) simp
  then have w: "wait_returns h sample_gone [?ev]"
    using registered_handler [OF h [unfolded sample_handler_def]] by (simp add: wait_returns_def)
  have run: "clean_run h sample_gone sample_gone" by (simp add: clean_run_def)
  have "data_fd (DataPtr ?a) \<notin> open_fds sample_gone" using s(4) by simp
  moreover have "event_kind (EPOLLOUT OR EPOLLHUP) = OtherEvent" by (simp add: event_kind_def EPOLLOUT_def EPOLLIN_def EPOLLHUP_def)
  moreover have "dom (epoll_set sample_gone) = {20}" using s(2) by simp
  ultimately show ?thesis
    using hang_up_spins [OF sample_hung_up [OF h] s(1) _ _ run, of ?a] s(2,3) w by (intro exI [of _ h]) auto
qed

lemma broken_request_leaks_witness:
  "handle_event (handler_init 5 4 50 200 50) (EPOLLIN, DataFd 20) (sample_answers\<lparr>ans_reads := [ReadBytes []]\<rparr>)
     (add_client 20 sample_loop) = Inr (Some (add_client 20 sample_loop))"
proof -
  let ?ans = "sample_answers\<lparr>ans_reads := [ReadBytes []]\<rparr>" and ?h = "handler_init 5 4 50 200 50"
  let ?cap = "max_request_size ?h"
  have "\<exists>rd. receive (ans_junk ?ans) ?cap (new_reader (ans_junk ?ans) ?cap) (ans_reads ?ans) = Inr (Some (Broken, rd))"
    by (simp add: receive_step_def put_bytes_def check_errno_def new_reader_def Let_def)
  then show ?thesis by (elim exE) (rule broken_request_leaks)
qed

lemma event_data_fits_witness:
  "\<exists>h res. loop_reachable h sample_attached \<and> epoll_set sample_attached 20 = Some (EPOLLOUT, DataPtr 0x7F0012345670) \<and>
    responses sample_attached 0x7F0012345670 = Some res \<and> res_socket res = 20"
proof -
  obtain h where h: "sample_handler h" using sample_handler_exists ..
  have r: "loop_reachable h sample_attached"
    by (rule clean_reachable_reachable [OF sample_response_attached [OF h]])
  have e: "epoll_set sample_attached 20 = Some (EPOLLOUT, DataPtr 0x7F0012345670)" by (simp add: sample_attached_def)
  from event_data_fits [OF r] e r show ?thesis by blast
qed

lemma clients_get_their_own_witness:
  "\<exists>res. responses sample_attached 0x7F0012345670 = Some res \<and>
    received sample_attached 20 = take (res_stream_ptr res) (res_stringified res)"
proof -
  obtain h where h: "sample_handler h" using sample_handler_exists ..
  have e: "epoll_set sample_attached 20 = Some (EPOLLOUT, DataPtr 0x7F0012345670)" by (simp add: sample_attached_def)
  from clients_get_their_own [OF sample_response_attached [OF h]] e show ?thesis by fastforce
qed

lemma request_to_close_witness:
  "\<exists>n. handler_process_request (handler_init 5 4 50 200 50)
      (((EPOLLIN, DataFd 20), sample_answers) #
        map (writable_with 0x7F0012345670 sample_answers) [Taken 7, SendError EAGAIN, Taken (n - 7)])
      (add_client 20 sample_loop) =
    Inr (Some ((add_client 20 sample_loop)\<lparr>shared := (pronto_init 2 1)\<lparr>job_queue := [5], notify := 1\<rparr>,
      epoll_set := Map.empty, open_fds := {}, received := (\<lambda>_. [])(20 :=
        stringify_status 200 @ json_content_type @ header_end @ success_body (show_nat 5))\<rparr>))"
proof -
  obtain h where h: "register_routes (handler_init 5 4 50 200 50) = Inr h"
    using sample_handler_exists by (auto simp: sample_handler_def)
  let ?p = "pronto_init 2 1" and ?s = "add_client 20 sample_loop"
  let ?text = "answer_text (200, success_body (show_nat 5))"
  let ?n = "length ?text" and ?outs = "[Taken 7, SendError EAGAIN, Taken (length ?text - 7)]"
  have p: "sorted (job_queue ?p)" "scheduled ?p 5 = ?p\<lparr>job_queue := [5], notify := 1\<rparr>"
    "schedule_reply ?p 5 = (200, success_body (show_nat 5))"
    using sample_schedulable by (simp_all add: scheduled_def schedule_reply_def) (simp_all add: pronto_init_def Let_def)
  have "7 < ?n" by (simp add: answer_text_def stringify_status_def)
  then have t: "taken ?outs = ?n" "sends_all (schedule_reply ?p 5) ?outs" by (simp_all add: sends_all_def p)
  have e: "request_ends (handler_init 5 4 50 200 50) 20 sample_answers ?outs (schedule_reply (shared ?s) 5)
      (scheduled (shared ?s) 5) ?s"
    by (rule request_to_close [OF h _ sample_json sample_arrives, where os = "[]"])
      (use t p in \<open>simp_all add: sample_answers_def add_client_def sample_loop_def\<close>)
  obtain k where k: "res_stringified (json_response ''now'' 200 (success_body (show_nat 5)) 20) = ?text @ replicate k NUL"
    using json_response_block(1) by blast
  show ?thesis
    using e t(1) p k sample_room
    by (intro exI [of _ ?n])
      (simp add: request_ends_def sample_answers_def add_client_def sample_loop_def answer_text_def Let_def)
qed

text \<open>A machine that reports its job.\<close>

definition done_headers :: "(string \<times> string) list" where
  "done_headers = [(''Content-Length'', show_nat (length (object_text (done_members 5 1))))]"

definition done_pieces :: "char list list" where
  "done_pieces = [json_request ''/done'' done_headers (done_members 5 1)]"

lemma done_arrives: "arrives done_pieces ''/done'' done_headers (done_members 5 1) 200"
  by code_simp

lemma done_json: "json_headers done_headers (done_members 5 1)"
  by code_simp

text \<open>Between its reservation and its report another job of 3 units is reserved on the same machine.\<close>

lemma completed_job_gives_back_witness:
  "\<exists>p1 p2 p n. pronto_reserve_capacity (pronto_init 2 1) 1 5 = Inr p1 \<and> changes [Reserve 1 3, Hand_over 1 3] p1 = Some p2 \<and>
    changes [Reserve 1 3, Hand_over 1 3] (pronto_init 2 1) = Some p \<and>
    handler_process_request (handler_init 5 4 50 200 50)
      (((EPOLLIN, DataFd 20), sample_answers\<lparr>ans_reads := map ReadBytes done_pieces\<rparr>) #
        map (writable_with 0x7F0012345670 (sample_answers\<lparr>ans_reads := map ReadBytes done_pieces\<rparr>)) [Taken n])
      ((add_client 20 sample_loop)\<lparr>shared := p2\<rparr>) =
    Inr (Some ((add_client 20 sample_loop)\<lparr>shared := sem_post_reschedule p,
      epoll_set := Map.empty, open_fds := {}, received := (\<lambda>_. [])(20 := answer_text (done_reply 5 1))\<rparr>))"
proof -
  obtain h where h: "register_routes (handler_init 5 4 50 200 50) = Inr h"
    using sample_handler_exists by (auto simp: sample_handler_def)
  have "length (workers_instances (pronto_init 2 1)) = 2" by code_simp
  then obtain p1 p2 where p: "pronto_reserve_capacity (pronto_init 2 1) 1 5 = Inr p1"
    "changes [Reserve 1 3, Hand_over 1 3] p1 = Some p2"
    by (simp add: reserve_is_reserved)
  let ?s = "(add_client 20 sample_loop)\<lparr>shared := p2\<rparr>" and ?ans = "sample_answers\<lparr>ans_reads := map ReadBytes done_pieces\<rparr>"
  let ?text = "answer_text (done_reply 5 1)"
  let ?n = "length ?text"
  have "0 < ?n" by (simp add: answer_text_def done_reply_def stringify_status_def)
  then have t: "sends_all (done_reply 5 1) [Taken ?n]" by (simp add: sends_all_def)
  have "\<exists>p. changes [Reserve 1 3, Hand_over 1 3] (pronto_init 2 1) = Some p \<and>
      request_ends (handler_init 5 4 50 200 50) 20 ?ans [Taken ?n] (done_reply 5 1) (sem_post_reschedule p) ?s"
    by (rule completed_job_gives_back [OF h _ _ _ _ done_json done_arrives, where os = "[]"])
      (use t p in \<open>simp_all add: sample_answers_def add_client_def sample_loop_def\<close>)
  then obtain p where e: "changes [Reserve 1 3, Hand_over 1 3] (pronto_init 2 1) = Some p"
    "request_ends (handler_init 5 4 50 200 50) 20 ?ans [Taken ?n] (done_reply 5 1) (sem_post_reschedule p) ?s" by blast
  obtain k where k: "res_stringified (json_response ''now'' (fst (done_reply 5 1)) (snd (done_reply 5 1)) 20) = ?text @ replicate k NUL"
    using json_response_block(1) by (metis prod.collapse)
  have "handler_process_request (handler_init 5 4 50 200 50)
      (((EPOLLIN, DataFd 20), ?ans) # map (writable_with 0x7F0012345670 ?ans) [Taken ?n]) ?s =
    Inr (Some ((add_client 20 sample_loop)\<lparr>shared := sem_post_reschedule p,
      epoll_set := Map.empty, open_fds := {}, received := (\<lambda>_. [])(20 := ?text)\<rparr>))"
    using e(2) k sample_room
    by (simp add: request_ends_def sample_answers_def add_client_def sample_loop_def Let_def)
  then show ?thesis using p e(1) by blast
qed

end
