(* ===== verification/Handler_Threads.thy ===== *)
theory Handler_Threads
  imports Handler_Correct Scheduling
begin

text \<open>
  The callbacks of \<open>Handler\<close> and the handler threads of \<open>Scheduling\<close> are the same code: a
  callback that succeeds is what the thread computes when it runs from accepting the request
  to being idle again without another thread in between.
\<close>

definition alone :: "nat \<Rightarrow> sys \<Rightarrow> sys \<Rightarrow> bool" where
  "alone j = (\<lambda>a b. sys_step a (Internal (HandlerThread j)) b)\<^sup>*\<^sup>*"

text \<open>The system with another shared state and another counter of handler \<open>j\<close>.\<close>

definition at_pc :: "sys \<Rightarrow> nat \<Rightarrow> handler_pc \<Rightarrow> shared \<Rightarrow> sys" where
  "at_pc s j pc shr = s\<lparr>sh := shr, handlers := (handlers s)[j := pc]\<rparr>"

lemma alone_refl: "alone j s s"
  by (simp add: alone_def)

lemma alone_step:
  assumes "j < length (handlers s)" and "handler_step (HandlerThread j) pc shr = Some (pc', shr')"
    and "alone j (at_pc s j pc' shr') t"
  shows "alone j (at_pc s j pc shr) t"
proof -
  have "sys_step (at_pc s j pc shr) (Internal (HandlerThread j))
      ((at_pc s j pc shr)\<lparr>sh := shr', handlers := (handlers (at_pc s j pc shr))[j := pc']\<rparr>)"
    by (rule sys_step.handler) (use assms(1,2) in \<open>simp_all add: at_pc_def\<close>)
  then have "sys_step (at_pc s j pc shr) (Internal (HandlerThread j)) (at_pc s j pc' shr')"
    by (simp add: at_pc_def)
  with assms(3) show ?thesis
    unfolding alone_def by (rule converse_rtranclp_into_rtranclp [rotated])
qed

lemma accept_request:
  assumes "j < length (handlers s)" and "handler_accept r (handlers s ! j) (sh s) = Some pc"
  shows "sys_step s (Request j r) (at_pc s j pc (sh s))"
  using sys_step.request [OF assms] by (simp add: at_pc_def)

text \<open>The two runs of a handler thread.\<close>

lemma schedule_run:
  assumes "j < length (handlers s)" and "held shr QueueMutex = None"
  shows "alone j (at_pc s j (H_AddLock v) shr)
    (at_pc s j H_Idle (shr\<lparr>accepted := add_mset v (accepted shr),
      the_pronto := sem_post_notify (pronto_add_job (the_pronto shr) v)\<rparr>))"
proof -
  let ?t = "HandlerThread j"
  have same: "(held shr)(QueueMutex := None) = held shr" using assms(2) by auto
  show ?thesis
    by (rule alone_step [OF assms(1)], simp add: pthread_mutex_lock_def assms(2),
        rule alone_step [OF assms(1)], simp, rule alone_step [OF assms(1)], simp,
        rule alone_step [OF assms(1)], simp)
      (simp add: alone_def set_pronto_def pthread_mutex_unlock_def sem_post_notify_def same)
qed

lemma done_run:
  assumes "j < length (handlers s)" and "held shr Bookkeeper = None"
    and "pronto_free_capacity (the_pronto shr) w q = Inr p1"
  shows "alone j (at_pc s j (H_FreeLock q w) shr)
    (at_pc s j H_Idle (shr\<lparr>the_pronto := sem_post_reschedule p1\<rparr>))"
proof -
  have same: "(held shr)(Bookkeeper := None) = held shr" using assms(2) by auto
  show ?thesis
    by (rule alone_step [OF assms(1)], simp add: pthread_mutex_lock_def assms(2),
        rule alone_step [OF assms(1)], simp add: assms(3), rule alone_step [OF assms(1)], simp,
        rule alone_step [OF assms(1)], simp)
      (simp add: alone_def set_pronto_def pthread_mutex_unlock_def sem_post_reschedule_def same)
qed

lemma thread_run:
  assumes "j < length (handlers s)" and "handlers s ! j = H_Idle"
    and "handler_accept r H_Idle (sh s) = Some pc"
    and "alone j (at_pc s j pc (sh s)) (at_pc s j H_Idle shr)" and "held shr = held (sh s)"
  shows "\<exists>r s1 s'. sys_step s (Request j r) s1 \<and> alone j s1 s' \<and> the_pronto (sh s') = the_pronto shr \<and>
    held (sh s') = held (sh s) \<and> handlers s' = handlers s \<and> scheds s' = scheds s \<and>
    resched s' = resched s \<and> wthreads s' = wthreads s"
proof (rule exI [of _ r], rule exI [of _ "at_pc s j pc (sh s)"], rule exI [of _ "at_pc s j H_Idle shr"], intro conjI)
  show "sys_step s (Request j r) (at_pc s j pc (sh s))"
    by (rule accept_request [OF assms(1)]) (simp add: assms(2,3))
  show "handlers (at_pc s j H_Idle shr) = handlers s"
    using assms(1,2) by (simp add: at_pc_def list_update_same_conv)
qed (use assms(4,5) in \<open>simp_all add: at_pc_def\<close>)

text \<open>What a callback that answers 0 has done.\<close>

lemma schedule_success:
  assumes "schedule junk date p req socket = Inr (0, res, p')"
  shows "\<exists>v. pronto_is_schedulable p v \<and> p' = sem_post_notify (pronto_add_job p v)"
  using assms unfolding schedule_def reply_def
  by (elim and_then_InrE) (auto simp: Let_def elim!: and_then_InrE split: if_splits option.split_asm)

lemma job_done_success:
  assumes "job_done junk date p req socket = Inr (0, res, p')"
  shows "\<exists>w q p1. pronto_free_capacity p w q = Inr p1 \<and> p' = sem_post_reschedule p1"
  using assms unfolding job_done_def reply_def
  by (elim and_then_InrE)
    (auto simp: Let_def elim!: and_then_InrE split: if_splits option.split_asm; blast)

text \<open>
  C11. The callbacks refine the thread model. When a callback succeeds on the shared state of an
  idle handler thread and nobody holds the mutexes it takes, then the thread can accept a
  request and run alone to idleness; the shared state it reaches is the one the callback
  computes, no mutex stays held, and no other thread has moved.
\<close>

theorem callbacks_refine_threads:
  assumes "run_callback cb junk date (the_pronto (sh s)) req socket = Inr (0, res, p')"
    and "j < length (handlers s)" and "handlers s ! j = H_Idle"
    and "held (sh s) QueueMutex = None" and "held (sh s) Bookkeeper = None"
  shows "\<exists>r s1 s'. sys_step s (Request j r) s1 \<and> alone j s1 s' \<and> the_pronto (sh s') = p' \<and>
    held (sh s') = held (sh s) \<and> handlers s' = handlers s \<and> scheds s' = scheds s \<and>
    resched s' = resched s \<and> wthreads s' = wthreads s"
proof (cases cb)
  case Callback_schedule
  with assms(1) obtain v where v: "pronto_is_schedulable (the_pronto (sh s)) v"
    "p' = sem_post_notify (pronto_add_job (the_pronto (sh s)) v)"
    using schedule_success [of junk date "the_pronto (sh s)" req socket res p'] by auto
  have "handler_accept (ReqSchedule v) H_Idle (sh s) = Some (H_AddLock v)" by (simp add: v(1))
  from thread_run [OF assms(2,3) this schedule_run [OF assms(2,4)]] v(2) show ?thesis by simp
next
  case Callback_job_done
  with assms(1) obtain w q p1 where f: "pronto_free_capacity (the_pronto (sh s)) w q = Inr p1"
    "p' = sem_post_reschedule p1"
    using job_done_success [of junk date "the_pronto (sh s)" req socket res p'] by auto
  then have "w < length (workers_instances (the_pronto (sh s)))"
    by (auto simp: pronto_free_capacity_def split: if_splits)
  then have "handler_accept (ReqDone q w) H_Idle (sh s) = Some (H_FreeLock q w)" by simp
  from thread_run [OF assms(2,3) this done_run [OF assms(2,5) f(1)]] f(2) show ?thesis by simp
qed

lemma callbacks_refine_threads_witness:
  "\<exists>r s1 s'. sys_step (sys_init 2 1 1) (Request 0 r) s1 \<and> alone 0 s1 s' \<and> the_pronto (sh s') = freed_100"
proof -
  obtain res where "job_done (\<lambda>_. NUL) ''now'' (pronto_init 2 1) done_100 7 = Inr (0, res, freed_100)"
    using done_100_runs by blast
  then have "run_callback Callback_job_done (\<lambda>_. NUL) ''now'' (the_pronto (sh (sys_init 2 1 1))) done_100 7 =
      Inr (0, res, freed_100)" by (simp add: sys_init_def)
  from callbacks_refine_threads [OF this, of 0] show ?thesis by (auto simp: sys_init_def)
qed

end
