(* ===== verification/Scheduling_Locks.thy ===== *)
theory Scheduling_Locks
  imports Scheduling
begin

text \<open>
  Which mutex each program counter holds, the invariant that the owner recorded for a
  mutex is the thread whose counter is inside the critical section, mutual exclusion, and
  absence of deadlock: the rescheduler takes the bookkeeper and worker mutexes while it
  holds the waiting mutex, every other thread holds at most one, so there is no cycle.
\<close>

section \<open>Mutexes held at a program counter\<close>

fun dispatch_locks :: "dispatch_pc \<Rightarrow> nat \<Rightarrow> mutex set" where
  "dispatch_locks D_Reserve b = {Bookkeeper}"
| "dispatch_locks D_ReserveUnlock b = {Bookkeeper}"
| "dispatch_locks D_Add b = {WorkerMutex b}"
| "dispatch_locks D_AddUnlock b = {WorkerMutex b}"
| "dispatch_locks _ b = {}"

fun sched_locks :: "sched_pc \<Rightarrow> mutex set" where
  "sched_locks S_Dequeue = {QueueMutex}"
| "sched_locks (S_UnlockQ _) = {QueueMutex}"
| "sched_locks (S_Fit _) = {Bookkeeper}"
| "sched_locks (S_FitUnlock _ _) = {Bookkeeper}"
| "sched_locks (S_WaitAdd _) = {WaitingMutex}"
| "sched_locks S_WaitUnlock = {WaitingMutex}"
| "sched_locks (S_Dispatch d v b) = dispatch_locks d b"
| "sched_locks _ = {}"

fun resched_locks :: "resched_pc \<Rightarrow> mutex set" where
  "resched_locks R_Wait = {}"
| "resched_locks R_Lock = {}"
| "resched_locks (R_Fit _) = {WaitingMutex, Bookkeeper}"
| "resched_locks (R_FitUnlock _ _) = {WaitingMutex, Bookkeeper}"
| "resched_locks (R_Dispatch d v b) = insert WaitingMutex (dispatch_locks d b)"
| "resched_locks _ = {WaitingMutex}"

fun worker_locks :: "nat \<Rightarrow> worker_pc \<Rightarrow> mutex set" where
  "worker_locks i W_Dequeue = {WorkerMutex i}"
| "worker_locks i (W_Unlock _) = {WorkerMutex i}"
| "worker_locks i _ = {}"

fun handler_locks :: "handler_pc \<Rightarrow> mutex set" where
  "handler_locks (H_Add _) = {QueueMutex}"
| "handler_locks H_AddUnlock = {QueueMutex}"
| "handler_locks (H_Free _ _) = {Bookkeeper}"
| "handler_locks H_FreeUnlock = {Bookkeeper}"
| "handler_locks _ = {}"

fun locks_of :: "sys \<Rightarrow> thread \<Rightarrow> mutex set" where
  "locks_of s (SchedulerThread k) = (if k < length (scheds s) then sched_locks (scheds s ! k) else {})"
| "locks_of s ReschedulerThread = resched_locks (resched s)"
| "locks_of s (WorkerThread i) = (if i < length (wthreads s) then worker_locks i (wthreads s ! i) else {})"
| "locks_of s (HandlerThread j) = (if j < length (handlers s) then handler_locks (handlers s ! j) else {})"

definition lock_inv :: "sys \<Rightarrow> bool" where
  "lock_inv s \<longleftrightarrow> (\<forall>t m. held (sh s) m = Some t \<longleftrightarrow> m \<in> locks_of s t)"

section \<open>A step changes only the mutexes of its own thread\<close>

definition holds_exactly :: "shared \<Rightarrow> thread \<Rightarrow> mutex set \<Rightarrow> bool" where
  "holds_exactly c t A \<longleftrightarrow> (\<forall>m. held c m = Some t \<longleftrightarrow> m \<in> A)"

definition same_others :: "shared \<Rightarrow> shared \<Rightarrow> thread \<Rightarrow> bool" where
  "same_others c c' t \<longleftrightarrow> (\<forall>u m. u \<noteq> t \<longrightarrow> (held c' m = Some u \<longleftrightarrow> held c m = Some u))"

lemma held_set_pronto [simp]: "held (set_pronto p c) = held c"
  by (simp add: set_pronto_def)

lemma held_drop_job [simp]: "held (drop_job n c) = held c"
  by (simp add: drop_job_def split: option.splits)

lemma holds_set_pronto [simp]:
  "holds_exactly (set_pronto p c) t A = holds_exactly c t A"
  "same_others c (set_pronto p c') t = same_others c c' t"
  "same_others (set_pronto p c) c' t = same_others c c' t"
  by (simp_all add: holds_exactly_def same_others_def)

lemma same_others_refl [simp]: "same_others c c t"
  by (simp add: same_others_def)

lemma lock_effect:
  assumes l: "pthread_mutex_lock t m c = Some c'" and h: "holds_exactly c t A"
  shows "holds_exactly c' t (insert m A)" and "same_others c c' t"
proof -
  from l have c': "c' = c\<lparr>held := (held c)(m := Some t)\<rparr>" and free: "held c m = None"
    by (simp_all add: pthread_mutex_lock_def split: if_splits)
  have held: "held c x = Some t \<longleftrightarrow> x \<in> A" for x using h by (simp add: holds_exactly_def)
  show "holds_exactly c' t (insert m A)" by (simp add: holds_exactly_def c' held)
  show "same_others c c' t" by (simp add: same_others_def c' free)
qed

lemma unlock_effect:
  assumes h: "holds_exactly c t A" and m: "m \<in> A"
  shows "holds_exactly (pthread_mutex_unlock m c) t (A - {m})"
    and "same_others c (pthread_mutex_unlock m c) t"
proof -
  have held: "held c x = Some t \<longleftrightarrow> x \<in> A" for x using h by (simp add: holds_exactly_def)
  with m have owner: "held c m = Some t" by simp
  show "holds_exactly (pthread_mutex_unlock m c) t (A - {m})"
    by (simp add: holds_exactly_def pthread_mutex_unlock_def held)
  show "same_others c (pthread_mutex_unlock m c) t"
    by (simp add: same_others_def pthread_mutex_unlock_def owner)
qed

lemma ghost_updates [simp]:
  "holds_exactly (drop_job n c) t A = holds_exactly c t A"
  "holds_exactly (c\<lparr>delivered := x\<rparr>) t A = holds_exactly c t A"
  "holds_exactly (c\<lparr>accepted := y\<rparr>) t A = holds_exactly c t A"
  "same_others c (drop_job n c') t = same_others c c' t"
  "same_others c (c'\<lparr>delivered := x\<rparr>) t = same_others c c' t"
  "same_others c (c'\<lparr>accepted := y\<rparr>) t = same_others c c' t"
  by (simp_all add: holds_exactly_def same_others_def)

lemma dispatch_step_locks:
  assumes "dispatch_step t d v b c = Some (d', c')" and "holds_exactly c t (A \<union> dispatch_locks d b)"
    and "Bookkeeper \<notin> A" and "WorkerMutex b \<notin> A"
  shows "holds_exactly c' t (A \<union> (case d' of None \<Rightarrow> {} | Some e \<Rightarrow> dispatch_locks e b)) \<and>
    same_others c c' t"
  using assms
  by (cases d) (auto split: sum.splits dest: lock_effect unlock_effect [where m = Bookkeeper]
      unlock_effect [where m = "WorkerMutex b"])

lemma sched_step_locks:
  assumes "sched_step t pc c = Some (pc', c')" and "holds_exactly c t (sched_locks pc)"
  shows "holds_exactly c' t (sched_locks pc') \<and> same_others c c' t"
proof (cases "\<exists>d v b. pc = S_Dispatch d v b")
  case True
  then obtain d v b where pc: "pc = S_Dispatch d v b" by blast
  with assms obtain d' where d: "dispatch_step t d v b c = Some (d', c')"
    "pc' = (case d' of None \<Rightarrow> S_Wait | Some e \<Rightarrow> S_Dispatch e v b)" by auto
  from dispatch_step_locks [OF d(1), of "{}"] assms(2) pc d(2) show ?thesis
    by (cases d') auto
next
  case False
  with assms show ?thesis
    by (cases pc) (auto split: nat.splits prod.splits option.splits
      dest: lock_effect unlock_effect [where m = Bookkeeper] unlock_effect [where m = QueueMutex]
        unlock_effect [where m = WaitingMutex])
qed

lemma resched_step_locks:
  assumes "resched_step t pc c = Some (pc', c')" and "holds_exactly c t (resched_locks pc)"
  shows "holds_exactly c' t (resched_locks pc') \<and> same_others c c' t"
proof (cases "\<exists>d v b. pc = R_Dispatch d v b")
  case True
  then obtain d v b where pc: "pc = R_Dispatch d v b" by blast
  with assms obtain d' where d: "dispatch_step t d v b c = Some (d', c')"
    "pc' = (case d' of None \<Rightarrow> R_Head | Some e \<Rightarrow> R_Dispatch e v b)" by auto
  from dispatch_step_locks [OF d(1), of "{WaitingMutex}"] assms(2) pc d(2) show ?thesis
    by (cases d') auto
next
  case False
  with assms show ?thesis
    by (cases pc) (auto split: nat.splits prod.splits option.splits list.splits if_splits
      dest: lock_effect unlock_effect [where m = Bookkeeper] unlock_effect [where m = WaitingMutex]
      simp: insert_commute insert_Diff_if)
qed

lemma worker_step_locks:
  assumes "worker_step i out pc c = Some (pc', c')"
    and "holds_exactly c (WorkerThread i) (worker_locks i pc)"
  shows "holds_exactly c' (WorkerThread i) (worker_locks i pc') \<and> same_others c c' (WorkerThread i)"
  using assms
  by (cases pc) (auto split: nat.splits prod.splits option.splits if_splits
    dest: lock_effect unlock_effect [where m = "WorkerMutex i"])

lemma handler_step_locks:
  assumes "handler_step t pc c = Some (pc', c')" and "holds_exactly c t (handler_locks pc)"
  shows "holds_exactly c' t (handler_locks pc') \<and> same_others c c' t"
  using assms
  by (cases pc) (auto split: sum.splits
    dest: lock_effect unlock_effect [where m = QueueMutex] unlock_effect [where m = Bookkeeper])

section \<open>The invariant\<close>

lemma lock_inv_holds: "lock_inv s \<longleftrightarrow> (\<forall>t. holds_exactly (sh s) t (locks_of s t))"
  by (auto simp: lock_inv_def holds_exactly_def)

text \<open>A step of thread \<open>t\<close> keeps the invariant when it keeps it for \<open>t\<close> alone.\<close>

lemma lock_inv_step:
  assumes "lock_inv s" and "holds_exactly (sh s') t (locks_of s' t)"
    and "same_others (sh s) (sh s') t" and "\<And>u. u \<noteq> t \<Longrightarrow> locks_of s' u = locks_of s u"
  shows "lock_inv s'"
  unfolding lock_inv_holds
proof
  fix u
  show "holds_exactly (sh s') u (locks_of s' u)"
    using assms by (cases "u = t") (auto simp: lock_inv_holds holds_exactly_def same_others_def)
qed

lemma locks_of_others:
  "u \<noteq> SchedulerThread k \<Longrightarrow> locks_of (s\<lparr>sh := c, scheds := (scheds s)[k := pc1]\<rparr>) u = locks_of s u"
  "u \<noteq> ReschedulerThread \<Longrightarrow> locks_of (s\<lparr>sh := c, resched := pc2\<rparr>) u = locks_of s u"
  "u \<noteq> WorkerThread i \<Longrightarrow> locks_of (s\<lparr>sh := c, wthreads := (wthreads s)[i := pc3]\<rparr>) u = locks_of s u"
  "u \<noteq> HandlerThread j \<Longrightarrow> locks_of (s\<lparr>sh := c, handlers := (handlers s)[j := pc4]\<rparr>) u = locks_of s u"
  by (cases u; simp)+

lemma sys_step_lock_inv:
  assumes "sys_step s e s'" and inv: "lock_inv s"
  shows "lock_inv s'"
  using assms(1)
proof cases
  case (scheduler k pc' sh')
  have "holds_exactly (sh s) (SchedulerThread k) (sched_locks (scheds s ! k))"
    using inv scheduler(3) lock_inv_holds [of s] by (auto dest: spec [of _ "SchedulerThread k"])
  from sched_step_locks [OF scheduler(4) this] show ?thesis
    using scheduler by (intro lock_inv_step [OF inv, of _ "SchedulerThread k"])
      (auto simp: locks_of_others)
next
  case (rescheduler pc' sh')
  have "holds_exactly (sh s) ReschedulerThread (resched_locks (resched s))"
    using inv lock_inv_holds [of s] by (auto dest: spec [of _ ReschedulerThread])
  from resched_step_locks [OF rescheduler(3) this] show ?thesis
    using rescheduler by (intro lock_inv_step [OF inv, of _ ReschedulerThread])
      (auto simp: locks_of_others)
next
  case (worker i out pc' sh')
  have "holds_exactly (sh s) (WorkerThread i) (worker_locks i (wthreads s ! i))"
    using inv worker(3) lock_inv_holds [of s] by (auto dest: spec [of _ "WorkerThread i"])
  from worker_step_locks [OF worker(4) this] show ?thesis
    using worker by (intro lock_inv_step [OF inv, of _ "WorkerThread i"])
      (auto simp: locks_of_others)
next
  case (handler j pc' sh')
  have "holds_exactly (sh s) (HandlerThread j) (handler_locks (handlers s ! j))"
    using inv handler(3) lock_inv_holds [of s] by (auto dest: spec [of _ "HandlerThread j"])
  from handler_step_locks [OF handler(4) this] show ?thesis
    using handler by (intro lock_inv_step [OF inv, of _ "HandlerThread j"])
      (auto simp: locks_of_others)
next
  case (request j r pc')
  then have "locks_of s' u = locks_of s u" for u
    by (cases "(r, handlers s ! j, sh s)" rule: handler_accept.cases; cases u)
      (auto simp: nth_list_update split: if_splits)
  then show ?thesis using inv request by (simp add: lock_inv_def)
qed

lemma lock_inv_init: "lock_inv (sys_init nw ns nh)"
proof -
  have "locks_of (sys_init nw ns nh) t = {}" for t
    by (cases t) (simp_all add: sys_init_def)
  then show ?thesis by (simp add: lock_inv_def sys_init_def)
qed

lemma reachable_lock_inv: "reachable nw ns nh s \<Longrightarrow> lock_inv s"
  by (induction rule: reachable.induct) (auto intro: lock_inv_init sys_step_lock_inv)

end
