(* ===== verification/Scheduling_Inv.thy ===== *)
theory Scheduling_Inv
  imports Scheduling_Locks
begin

text \<open>
  Invariants of every reachable state of the thread system: worker indices stay inside
  the array, the value the rescheduler works on is the head of the waiting queue, every
  semaphore counts exactly the queued jobs nobody is coming for yet (so no thread ever
  dequeues NULL), every accepted job is in exactly one place, the books stay balanced and
  the queues sorted.
\<close>

section \<open>Frames\<close>

abbreviation worker_array :: "shared \<Rightarrow> cluster_worker list" where
  "worker_array c \<equiv> workers_instances (the_pronto c)"

lemma set_pronto_fields [simp]:
  "the_pronto (set_pronto p c) = p"
  "accepted (set_pronto p c) = accepted c"
  "delivered (set_pronto p c) = delivered c"
  "dropped (set_pronto p c) = dropped c"
  by (simp_all add: set_pronto_def)

lemma unlock_fields [simp]:
  "the_pronto (pthread_mutex_unlock m c) = the_pronto c"
  "accepted (pthread_mutex_unlock m c) = accepted c"
  "delivered (pthread_mutex_unlock m c) = delivered c"
  "dropped (pthread_mutex_unlock m c) = dropped c"
  by (simp_all add: pthread_mutex_unlock_def)

lemma lock_fields:
  assumes "pthread_mutex_lock t m c = Some c'"
  shows "the_pronto c' = the_pronto c" "accepted c' = accepted c"
    "delivered c' = delivered c" "dropped c' = dropped c"
  using assms by (auto simp: pthread_mutex_lock_def split: if_splits)

lemma drop_job_fields [simp]:
  "the_pronto (drop_job n c) = the_pronto c"
  "accepted (drop_job n c) = accepted c"
  "delivered (drop_job n c) = delivered c"
  by (simp_all add: drop_job_def split: option.splits)

definition arrays_kept :: "shared \<Rightarrow> shared \<Rightarrow> bool" where
  "arrays_kept c c' \<longleftrightarrow> length (worker_array c') = length (worker_array c) \<and>
     workers (the_pronto c') = workers (the_pronto c)"

lemma reserve_fields:
  assumes "pronto_reserve_capacity p i q = Inr p'"
  shows "i < length (workers_instances p)" "job_queue p' = job_queue p" "waiting_queue p' = waiting_queue p"
    "notify p' = notify p" "reschedule p' = reschedule p" "workers p' = workers p"
    "length (workers_instances p') = length (workers_instances p)"
    "map worker_notify (workers_instances p') = map worker_notify (workers_instances p)"
    "map scheduler_jobs (workers_instances p') = map scheduler_jobs (workers_instances p)"
  using assms
  by (auto simp: pronto_reserve_capacity_def map_update split: if_splits
      intro!: nth_equalityI simp: nth_list_update)

lemma free_fields:
  assumes "pronto_free_capacity p i q = Inr p'"
  shows "i < length (workers_instances p)" "job_queue p' = job_queue p" "waiting_queue p' = waiting_queue p"
    "notify p' = notify p" "reschedule p' = reschedule p" "workers p' = workers p"
    "length (workers_instances p') = length (workers_instances p)"
    "map worker_notify (workers_instances p') = map worker_notify (workers_instances p)"
    "map scheduler_jobs (workers_instances p') = map scheduler_jobs (workers_instances p)"
  using assms
  by (auto simp: pronto_free_capacity_def map_update split: if_splits
      intro!: nth_equalityI simp: nth_list_update)

lemma dispatch_arrays: "dispatch_step t d v b c = Some (d', c') \<Longrightarrow> arrays_kept c c'"
  by (cases d) (auto simp: arrays_kept_def lock_fields reserve_fields split: sum.splits)

lemma sched_arrays: "sched_step t pc c = Some (pc', c') \<Longrightarrow> arrays_kept c c'"
  by (cases pc) (auto simp: arrays_kept_def lock_fields split: nat.splits prod.splits
      dest: dispatch_arrays [unfolded arrays_kept_def])

lemma resched_arrays: "resched_step t pc c = Some (pc', c') \<Longrightarrow> arrays_kept c c'"
  by (cases pc) (auto simp: arrays_kept_def lock_fields split: nat.splits prod.splits list.splits
      dest: dispatch_arrays [unfolded arrays_kept_def])

lemma worker_arrays: "worker_step i out pc c = Some (pc', c') \<Longrightarrow> arrays_kept c c'"
  by (cases pc) (auto simp: arrays_kept_def lock_fields split: nat.splits prod.splits
      option.splits if_splits)

lemma handler_arrays: "handler_step t pc c = Some (pc', c') \<Longrightarrow> arrays_kept c c'"
  by (cases pc) (auto simp: arrays_kept_def lock_fields free_fields split: sum.splits)

section \<open>Program counters that make sense\<close>

fun sched_ok :: "nat \<Rightarrow> sched_pc \<Rightarrow> bool" where
  "sched_ok n (S_UnlockQ node) \<longleftrightarrow> node \<noteq> None"
| "sched_ok n (S_FitUnlock v b) \<longleftrightarrow> b = -1 \<or> (0 \<le> b \<and> b < int n)"
| "sched_ok n (S_Dispatch d v b) \<longleftrightarrow> b < n"
| "sched_ok n _ \<longleftrightarrow> True"

fun resched_ok :: "nat \<Rightarrow> u32 list \<Rightarrow> resched_pc \<Rightarrow> bool" where
  "resched_ok n rs (R_FitLock v) \<longleftrightarrow> rs \<noteq> [] \<and> hd rs = v"
| "resched_ok n rs (R_Fit v) \<longleftrightarrow> rs \<noteq> [] \<and> hd rs = v"
| "resched_ok n rs (R_FitUnlock v b) \<longleftrightarrow> rs \<noteq> [] \<and> hd rs = v \<and> (b = -1 \<or> (0 \<le> b \<and> b < int n))"
| "resched_ok n rs (R_Pop v b) \<longleftrightarrow> rs \<noteq> [] \<and> hd rs = v \<and> b < n"
| "resched_ok n rs (R_Dispatch d v b) \<longleftrightarrow> b < n"
| "resched_ok n rs R_Crash \<longleftrightarrow> False"
| "resched_ok n rs _ \<longleftrightarrow> True"

fun worker_ok :: "worker_pc \<Rightarrow> bool" where
  "worker_ok (W_Unlock node) \<longleftrightarrow> node \<noteq> None"
| "worker_ok (W_Curl node) \<longleftrightarrow> node \<noteq> None"
| "worker_ok W_Crash \<longleftrightarrow> False"
| "worker_ok _ \<longleftrightarrow> True"

fun handler_ok :: "nat \<Rightarrow> handler_pc \<Rightarrow> bool" where
  "handler_ok n (H_FreeLock q w) \<longleftrightarrow> w < n"
| "handler_ok n (H_Free q w) \<longleftrightarrow> w < n"
| "handler_ok n _ \<longleftrightarrow> True"

definition n_workers :: "sys \<Rightarrow> nat" where
  "n_workers s = length (worker_array (sh s))"

definition pcs_ok :: "sys \<Rightarrow> bool" where
  "pcs_ok s \<longleftrightarrow> well_formed (the_pronto (sh s)) \<and> length (wthreads s) = n_workers s \<and>
     (\<forall>pc \<in> set (scheds s). sched_ok (n_workers s) pc) \<and>
     resched_ok (n_workers s) (waiting_queue (the_pronto (sh s))) (resched s) \<and>
     (\<forall>pc \<in> set (wthreads s). worker_ok pc) \<and>
     (\<forall>pc \<in> set (handlers s). handler_ok (n_workers s) pc)"

section \<open>Semaphores against queues\<close>

text \<open>
  A token is a job on the job queue that some thread is about to announce or about to
  fetch: a handler between adding it and posting \<open>notify\<close>, a scheduler between its
  \<open>sem_wait\<close> and the dequeue.
\<close>

fun sched_token :: "sched_pc \<Rightarrow> nat" where
  "sched_token S_LockQ = 1"
| "sched_token S_Dequeue = 1"
| "sched_token _ = 0"

fun handler_token :: "handler_pc \<Rightarrow> nat" where
  "handler_token H_AddUnlock = 1"
| "handler_token H_PostNotify = 1"
| "handler_token _ = 0"

definition job_tokens :: "sys \<Rightarrow> bool" where
  "job_tokens s \<longleftrightarrow>
     notify (the_pronto (sh s)) + sum_list (map sched_token (scheds s)) +
       sum_list (map handler_token (handlers s)) = length (job_queue (the_pronto (sh s)))"

text \<open>The same for worker \<open>i\<close>: jobs added to its queue and not yet announced or fetched.\<close>

fun dispatch_pending :: "nat \<Rightarrow> dispatch_pc \<Rightarrow> nat \<Rightarrow> nat" where
  "dispatch_pending i D_AddUnlock b = (if b = i then 1 else 0)"
| "dispatch_pending i D_Post b = (if b = i then 1 else 0)"
| "dispatch_pending i _ b = 0"

fun sched_pending :: "nat \<Rightarrow> sched_pc \<Rightarrow> nat" where
  "sched_pending i (S_Dispatch d v b) = dispatch_pending i d b"
| "sched_pending i _ = 0"

fun resched_pending :: "nat \<Rightarrow> resched_pc \<Rightarrow> nat" where
  "resched_pending i (R_Dispatch d v b) = dispatch_pending i d b"
| "resched_pending i _ = 0"

fun worker_token :: "worker_pc \<Rightarrow> nat" where
  "worker_token W_Lock = 1"
| "worker_token W_Dequeue = 1"
| "worker_token _ = 0"

definition worker_tokens :: "sys \<Rightarrow> bool" where
  "worker_tokens s \<longleftrightarrow> (\<forall>i < n_workers s.
     worker_notify (worker_array (sh s) ! i) + sum_list (map (sched_pending i) (scheds s)) +
       resched_pending i (resched s) + worker_token (wthreads s ! i) =
     length (scheduler_jobs (worker_array (sh s) ! i)))"

section \<open>What one step does to the semaphores and queues\<close>

definition job_side_same :: "shared \<Rightarrow> shared \<Rightarrow> bool" where
  "job_side_same c c' \<longleftrightarrow> notify (the_pronto c') = notify (the_pronto c) \<and>
     job_queue (the_pronto c') = job_queue (the_pronto c)"

definition worker_side_same :: "shared \<Rightarrow> shared \<Rightarrow> bool" where
  "worker_side_same c c' \<longleftrightarrow>
     map worker_notify (worker_array c') = map worker_notify (worker_array c) \<and>
     map scheduler_jobs (worker_array c') = map scheduler_jobs (worker_array c)"

definition waiting_same :: "shared \<Rightarrow> shared \<Rightarrow> bool" where
  "waiting_same c c' \<longleftrightarrow> waiting_queue (the_pronto c') = waiting_queue (the_pronto c) \<and>
     reschedule (the_pronto c') = reschedule (the_pronto c)"

lemma same_sides_refl [simp]:
  "job_side_same c c" "worker_side_same c c" "waiting_same c c"
  by (simp_all add: job_side_same_def worker_side_same_def waiting_same_def)

lemmas same_sides = job_side_same_def worker_side_same_def waiting_same_def

lemma dispatch_job_side: "dispatch_step t d v b c = Some (d', c') \<Longrightarrow> job_side_same c c' \<and> waiting_same c c'"
  by (cases d) (auto simp: same_sides lock_fields reserve_fields split: sum.splits)

lemma sched_tokens_step:
  assumes "sched_step t pc c = Some (pc', c')"
    and "sched_token pc \<le> length (job_queue (the_pronto c))"
  shows "notify (the_pronto c') + sched_token pc' + length (job_queue (the_pronto c)) =
         notify (the_pronto c) + sched_token pc + length (job_queue (the_pronto c'))"
  using assms
  by (cases pc) (auto simp: lock_fields dequeue_request_def split: nat.splits list.splits option.splits
      dest!: dispatch_job_side simp: same_sides)

lemma resched_job_side: "resched_step t pc c = Some (pc', c') \<Longrightarrow> job_side_same c c'"
  by (cases pc) (auto simp: same_sides lock_fields split: nat.splits prod.splits list.splits
      dest!: dispatch_job_side)

lemma worker_job_side: "worker_step i out pc c = Some (pc', c') \<Longrightarrow> job_side_same c c' \<and> waiting_same c c'"
  by (cases pc) (auto simp: same_sides lock_fields split: nat.splits prod.splits option.splits if_splits)

lemma handler_tokens_step:
  assumes "handler_step t pc c = Some (pc', c')"
  shows "notify (the_pronto c') + handler_token pc' + length (job_queue (the_pronto c)) =
         notify (the_pronto c) + handler_token pc + length (job_queue (the_pronto c'))"
  using assms by (cases pc) (auto simp: lock_fields free_fields split: sum.splits)

text \<open>Worker \<open>i\<close>'s semaphore and queue in shared state \<open>c\<close>.\<close>

definition posted :: "shared \<Rightarrow> nat \<Rightarrow> nat" where
  "posted c i = worker_notify (worker_array c ! i)"

definition queued :: "shared \<Rightarrow> nat \<Rightarrow> nat" where
  "queued c i = length (scheduler_jobs (worker_array c ! i))"

lemma worker_side_same_counts:
  assumes "worker_side_same c c'" and "i < length (worker_array c)"
  shows "posted c' i = posted c i" "queued c' i = queued c i"
proof -
  have l: "length (worker_array c') = length (worker_array c)"
    using assms(1) by (metis length_map worker_side_same_def)
  have "map worker_notify (worker_array c') ! i = map worker_notify (worker_array c) ! i"
    and "map scheduler_jobs (worker_array c') ! i = map scheduler_jobs (worker_array c) ! i"
    using assms(1) by (simp_all add: worker_side_same_def)
  then show "posted c' i = posted c i" "queued c' i = queued c i"
    using l assms(2) by (simp_all add: posted_def queued_def)
qed

lemma dispatch_worker_step:
  assumes step: "dispatch_step t d v b c = Some (d', c')" and i: "i < length (worker_array c)"
  shows "posted c' i + (case d' of None \<Rightarrow> 0 | Some e \<Rightarrow> dispatch_pending i e b) + queued c i =
         posted c i + dispatch_pending i d b + queued c' i"
proof (cases d)
  case D_Reserve
  with step have "worker_side_same c c'" and "d' = Some D_ReserveUnlock"
    by (auto simp: worker_side_same_def reserve_fields split: sum.splits)
  then show ?thesis using worker_side_same_counts [of c c', OF _ i] D_Reserve by simp
next
  case D_Add
  with step i show ?thesis
    by (auto simp: posted_def queued_def cluster_worker_add_job_def nth_list_update)
next
  case D_Post
  with step i show ?thesis by (auto simp: posted_def queued_def nth_list_update)
qed (use step in \<open>auto simp: posted_def queued_def lock_fields\<close>)

lemma sched_worker_step:
  assumes "sched_step t pc c = Some (pc', c')" and "i < length (worker_array c)"
  shows "posted c' i + sched_pending i pc' + queued c i = posted c i + sched_pending i pc + queued c' i"
proof (cases "\<exists>d v b. pc = S_Dispatch d v b")
  case True
  then obtain d v b where pc: "pc = S_Dispatch d v b" by blast
  with assms(1) obtain d' where d: "dispatch_step t d v b c = Some (d', c')"
    "pc' = (case d' of None \<Rightarrow> S_Wait | Some e \<Rightarrow> S_Dispatch e v b)" by auto
  from dispatch_worker_step [OF d(1) assms(2)] pc d(2) show ?thesis by (cases d') auto
next
  case False
  with assms show ?thesis
    by (cases pc) (auto simp: posted_def queued_def lock_fields split: nat.splits prod.splits option.splits)
qed

lemma resched_worker_step:
  assumes "resched_step t pc c = Some (pc', c')" and "i < length (worker_array c)"
  shows "posted c' i + resched_pending i pc' + queued c i =
         posted c i + resched_pending i pc + queued c' i"
proof (cases "\<exists>d v b. pc = R_Dispatch d v b")
  case True
  then obtain d v b where pc: "pc = R_Dispatch d v b" by blast
  with assms(1) obtain d' where d: "dispatch_step t d v b c = Some (d', c')"
    "pc' = (case d' of None \<Rightarrow> R_Head | Some e \<Rightarrow> R_Dispatch e v b)" by auto
  from dispatch_worker_step [OF d(1) assms(2)] pc d(2) show ?thesis by (cases d') auto
next
  case False
  with assms show ?thesis
    by (cases pc) (auto simp: posted_def queued_def lock_fields
        split: nat.splits prod.splits list.splits option.splits)
qed

lemma worker_worker_step:
  assumes "worker_step k out pc c = Some (pc', c')" and "i < length (worker_array c)"
    and "worker_token pc \<le> queued c k"
  shows "posted c' i + (if i = k then worker_token pc' else 0) + queued c i =
         posted c i + (if i = k then worker_token pc else 0) + queued c' i"
  using assms
  by (cases pc) (auto simp: posted_def queued_def lock_fields nth_list_update dequeue_request_def
      split: nat.splits list.splits option.splits if_splits)

lemma handler_worker_side: "handler_step t pc c = Some (pc', c') \<Longrightarrow> worker_side_same c c'"
  by (cases pc) (auto simp: worker_side_same_def lock_fields free_fields split: sum.splits)

section \<open>The invariants are kept\<close>

lemma sys_step_job_tokens:
  assumes "sys_step s e s'" and inv: "job_tokens s"
  shows "job_tokens s'"
  using assms(1)
proof cases
  case (scheduler k pc' sh')
  have "sched_token (scheds s ! k) \<le> length (job_queue (the_pronto (sh s)))"
    using inv sum_list_ge_nth [OF scheduler(3), of sched_token] by (simp add: job_tokens_def)
  from sched_tokens_step [OF scheduler(4) this] show ?thesis
    using inv scheduler sum_list_update_nat [OF scheduler(3), of sched_token pc']
    by (simp add: job_tokens_def)
next
  case (rescheduler pc' sh')
  then show ?thesis using inv resched_job_side [OF rescheduler(3)]
    by (simp add: job_tokens_def job_side_same_def)
next
  case (worker i out pc' sh')
  then show ?thesis using inv worker_job_side [OF worker(4)]
    by (simp add: job_tokens_def job_side_same_def)
next
  case (handler j pc' sh')
  then show ?thesis
    using inv handler_tokens_step [OF handler(4)] sum_list_update_nat [OF handler(3), of handler_token pc']
    by (simp add: job_tokens_def)
next
  case (request j r pc')
  then have "handler_token pc' = 0 \<and> handler_token (handlers s ! j) = 0"
    by (cases "(r, handlers s ! j, sh s)" rule: handler_accept.cases) (auto split: if_splits)
  then show ?thesis
    using inv request sum_list_update_nat [OF request(3), of handler_token pc']
    by (simp add: job_tokens_def)
qed

lemma worker_tokens_iff:
  "worker_tokens s \<longleftrightarrow> (\<forall>i < n_workers s.
     posted (sh s) i + sum_list (map (sched_pending i) (scheds s)) + resched_pending i (resched s) +
       worker_token (wthreads s ! i) = queued (sh s) i)"
  by (simp add: worker_tokens_def posted_def queued_def)

lemma sys_step_worker_tokens:
  assumes "sys_step s e s'" and inv: "worker_tokens s" and ok: "pcs_ok s"
  shows "worker_tokens s'"
  using assms(1)
proof cases
  case (scheduler k pc' sh')
  have n: "n_workers s' = n_workers s"
    using sched_arrays [OF scheduler(4)] scheduler(2) by (simp add: n_workers_def arrays_kept_def)
  show ?thesis unfolding worker_tokens_iff n
  proof (intro allI impI)
    fix i assume i: "i < n_workers s"
    from sched_worker_step [OF scheduler(4), of i] i inv scheduler(2)
      sum_list_update_nat [OF scheduler(3), of "sched_pending i" pc']
    show "posted (sh s') i + sum_list (map (sched_pending i) (scheds s')) +
        resched_pending i (resched s') + worker_token (wthreads s' ! i) = queued (sh s') i"
      unfolding worker_tokens_iff n_workers_def by fastforce
  qed
next
  case (rescheduler pc' sh')
  have n: "n_workers s' = n_workers s"
    using resched_arrays [OF rescheduler(3)] rescheduler(2) by (simp add: n_workers_def arrays_kept_def)
  show ?thesis unfolding worker_tokens_iff n
  proof (intro allI impI)
    fix i assume i: "i < n_workers s"
    from resched_worker_step [OF rescheduler(3), of i] i inv rescheduler(2)
    show "posted (sh s') i + sum_list (map (sched_pending i) (scheds s')) +
        resched_pending i (resched s') + worker_token (wthreads s' ! i) = queued (sh s') i"
      unfolding worker_tokens_iff n_workers_def by fastforce
  qed
next
  case (worker k out pc' sh')
  have n: "n_workers s' = n_workers s"
    using worker_arrays [OF worker(4)] worker(2) by (simp add: n_workers_def arrays_kept_def)
  have k: "k < n_workers s" using worker(3) ok by (simp add: pcs_ok_def)
  have tok: "worker_token (wthreads s ! k) \<le> queued (sh s) k"
    using inv k by (fastforce simp: worker_tokens_iff)
  show ?thesis unfolding worker_tokens_iff n
  proof (intro allI impI)
    fix i assume i: "i < n_workers s"
    from worker_worker_step [OF worker(4) _ tok, of i] i inv worker(2,3)
    show "posted (sh s') i + sum_list (map (sched_pending i) (scheds s')) +
        resched_pending i (resched s') + worker_token (wthreads s' ! i) = queued (sh s') i"
      unfolding worker_tokens_iff n_workers_def by (fastforce simp: nth_list_update split: if_splits)
  qed
next
  case (handler j pc' sh')
  have n: "n_workers s' = n_workers s"
    using handler_arrays [OF handler(4)] handler(2) by (simp add: n_workers_def arrays_kept_def)
  show ?thesis
    using inv handler(2) worker_side_same_counts [of "sh s" sh', OF handler_worker_side [OF handler(4)]]
    unfolding worker_tokens_iff n by (simp add: n_workers_def)
next
  case (request j r pc')
  then show ?thesis using inv by (simp add: worker_tokens_def n_workers_def)
qed

subsection \<open>Program counters\<close>

lemma arrays_kept_well_formed:
  "arrays_kept c c' \<Longrightarrow> well_formed (the_pronto c) \<Longrightarrow> well_formed (the_pronto c')"
  by (simp add: arrays_kept_def well_formed_def)

lemma fit_ok:
  "well_formed p \<Longrightarrow> pronto_best_current_fit p v = -1 \<or>
    (0 \<le> pronto_best_current_fit p v \<and> pronto_best_current_fit p v < int (length (workers_instances p)))"
  using best_fit_range [of p v] by auto

lemma sched_step_ok:
  assumes "sched_step t pc c = Some (pc', c')" and "sched_ok (length (worker_array c)) pc"
    and "well_formed (the_pronto c)" and "sched_token pc \<le> length (job_queue (the_pronto c))"
  shows "sched_ok (length (worker_array c)) pc'"
  using assms fit_ok [OF assms(3)]
  by (cases pc) (auto simp: dequeue_request_def split: nat.splits list.splits option.splits)

lemma resched_step_ok:
  assumes "resched_step t pc c = Some (pc', c')"
    and "resched_ok (length (worker_array c)) (waiting_queue (the_pronto c)) pc"
    and "well_formed (the_pronto c)"
  shows "resched_ok (length (worker_array c)) (waiting_queue (the_pronto c')) pc'"
  using assms fit_ok [OF assms(3)]
  by (cases pc) (auto simp: dequeue_request_def lock_fields split: nat.splits list.splits option.splits)

lemma worker_step_ok:
  assumes "worker_step i out pc c = Some (pc', c')" and "worker_ok pc" and "worker_token pc \<le> queued c i"
  shows "worker_ok pc'"
  using assms
  by (cases pc) (auto simp: dequeue_request_def queued_def split: nat.splits list.splits option.splits if_splits)

lemma handler_step_ok:
  assumes "handler_step t pc c = Some (pc', c')" and "handler_ok n pc"
  shows "handler_ok n pc'"
  using assms by (cases pc) (auto split: sum.splits)

lemma sched_step_waiting:
  assumes "sched_step t pc c = Some (pc', c')" and "WaitingMutex \<notin> sched_locks pc"
  shows "waiting_queue (the_pronto c') = waiting_queue (the_pronto c)"
  using assms
  by (cases pc) (auto simp: lock_fields split: nat.splits prod.splits dest!: dispatch_job_side simp: same_sides)

lemma handler_step_waiting:
  assumes "handler_step t pc c = Some (pc', c')"
  shows "waiting_queue (the_pronto c') = waiting_queue (the_pronto c)"
  using assms by (cases pc) (auto simp: lock_fields free_fields split: sum.splits)

lemma resched_ok_queue:
  "WaitingMutex \<notin> resched_locks pc \<Longrightarrow> resched_ok n rs pc \<Longrightarrow> resched_ok n rs' pc"
  by (cases pc) auto

text \<open>Two threads never hold the same mutex.\<close>

lemma lock_inv_exclusive:
  assumes "lock_inv s" and "m \<in> locks_of s t" and "m \<in> locks_of s u"
  shows "t = u"
  using assms by (metis lock_inv_def option.inject)

lemma arrays_kept_shape:
  assumes "arrays_kept (sh s) (sh s')" and "pcs_ok s"
  shows "n_workers s' = n_workers s" and "well_formed (the_pronto (sh s'))"
  using assms arrays_kept_well_formed by (auto simp: arrays_kept_def n_workers_def pcs_ok_def)

lemma pcs_ok_parts:
  assumes "pcs_ok s"
  shows "well_formed (the_pronto (sh s))" and "length (wthreads s) = n_workers s"
    and "k < length (scheds s) \<Longrightarrow> sched_ok (n_workers s) (scheds s ! k)"
    and "resched_ok (n_workers s) (waiting_queue (the_pronto (sh s))) (resched s)"
    and "i < length (wthreads s) \<Longrightarrow> worker_ok (wthreads s ! i)"
    and "j < length (handlers s) \<Longrightarrow> handler_ok (n_workers s) (handlers s ! j)"
  using assms by (simp_all add: pcs_ok_def)

text \<open>Replacing one thread's counter and the shared state.\<close>

lemma pcs_ok_update:
  assumes ok: "pcs_ok s" and kept: "arrays_kept (sh s) (sh s')"
    and "set (scheds s') \<subseteq> insert pc1 (set (scheds s))" and "sched_ok (n_workers s) pc1"
    and "resched_ok (n_workers s) (waiting_queue (the_pronto (sh s'))) (resched s')"
    and "set (wthreads s') \<subseteq> insert pc2 (set (wthreads s))" and "worker_ok pc2"
    and "length (wthreads s') = length (wthreads s)"
    and "set (handlers s') \<subseteq> insert pc3 (set (handlers s))" and "handler_ok (n_workers s) pc3"
  shows "pcs_ok s'"
proof -
  note shape = arrays_kept_shape [OF kept ok]
  show ?thesis unfolding pcs_ok_def shape(1)
  proof (intro conjI ballI)
    show "well_formed (the_pronto (sh s'))" by (rule shape(2))
    show "length (wthreads s') = n_workers s" using assms(8) pcs_ok_parts(2) [OF ok] by simp
    show "resched_ok (n_workers s) (waiting_queue (the_pronto (sh s'))) (resched s')" by fact
    show "sched_ok (n_workers s) pc" if "pc \<in> set (scheds s')" for pc
      using that assms(3,4) ok unfolding pcs_ok_def by blast
    show "worker_ok pc" if "pc \<in> set (wthreads s')" for pc
      using that assms(6,7) ok unfolding pcs_ok_def by blast
    show "handler_ok (n_workers s) pc" if "pc \<in> set (handlers s')" for pc
      using that assms(9,10) ok unfolding pcs_ok_def by blast
  qed
qed

lemma sys_step_pcs_ok:
  assumes "sys_step s e s'" and ok: "pcs_ok s" and locks: "lock_inv s"
    and jobs: "job_tokens s" and wts: "worker_tokens s"
  shows "pcs_ok s'"
  using assms(1)
proof cases
  case (scheduler k pc' sh')
  let ?w = "waiting_queue (the_pronto sh')"
  have tok: "sched_token (scheds s ! k) \<le> length (job_queue (the_pronto (sh s)))"
    using jobs sum_list_ge_nth [OF scheduler(3), of sched_token] by (simp add: job_tokens_def)
  have pc: "sched_ok (n_workers s) pc'"
    using sched_step_ok [OF scheduler(4) _ pcs_ok_parts(1) [OF ok] tok]
      pcs_ok_parts(3) [OF ok scheduler(3)] by (simp add: n_workers_def)
  have r: "resched_ok (n_workers s) ?w (resched s)"
  proof (cases "WaitingMutex \<in> sched_locks (scheds s ! k)")
    case True
    then have "WaitingMutex \<notin> resched_locks (resched s)"
      using lock_inv_exclusive [OF locks, of WaitingMutex "SchedulerThread k" ReschedulerThread]
        scheduler(3) by auto
    then show ?thesis using pcs_ok_parts(4) [OF ok] by (rule resched_ok_queue)
  next
    case False
    then show ?thesis
      using sched_step_waiting [OF scheduler(4)] pcs_ok_parts(4) [OF ok] by simp
  qed
  show ?thesis
    by (rule pcs_ok_update [OF ok, of _ pc' W_Wait H_Idle])
      (use scheduler(2) sched_arrays [OF scheduler(4)] pc r in \<open>simp_all add: set_update_subset_insert subset_insertI\<close>)
next
  case (rescheduler pc' sh')
  have r: "resched_ok (n_workers s) (waiting_queue (the_pronto sh')) pc'"
    using resched_step_ok [OF rescheduler(3) _ pcs_ok_parts(1) [OF ok]] pcs_ok_parts(4) [OF ok]
    by (simp add: n_workers_def)
  show ?thesis
    by (rule pcs_ok_update [OF ok, of _ S_Wait W_Wait H_Idle])
      (use rescheduler(2) resched_arrays [OF rescheduler(3)] r in \<open>simp_all add: subset_insertI\<close>)
next
  case (worker i out pc' sh')
  have i: "i < n_workers s" using worker(3) pcs_ok_parts(2) [OF ok] by simp
  have "worker_token (wthreads s ! i) \<le> queued (sh s) i"
    using wts i by (fastforce simp: worker_tokens_iff)
  with worker_step_ok [OF worker(4)] pcs_ok_parts(5) [OF ok worker(3)] have pc: "worker_ok pc'"
    by blast
  have w: "waiting_queue (the_pronto sh') = waiting_queue (the_pronto (sh s))"
    using worker_job_side [OF worker(4)] by (simp add: same_sides)
  show ?thesis
    by (rule pcs_ok_update [OF ok, of _ S_Wait pc' H_Idle])
      (use worker(2) worker_arrays [OF worker(4)] pc pcs_ok_parts(4) [OF ok] w in
        \<open>simp_all add: set_update_subset_insert subset_insertI\<close>)
next
  case (handler j pc' sh')
  have pc: "handler_ok (n_workers s) pc'"
    using handler_step_ok [OF handler(4)] pcs_ok_parts(6) [OF ok handler(3)] by blast
  show ?thesis
    by (rule pcs_ok_update [OF ok, of _ S_Wait W_Wait pc'])
      (use handler(2) handler_arrays [OF handler(4)] pc pcs_ok_parts(4) [OF ok]
        handler_step_waiting [OF handler(4)] in \<open>simp_all add: set_update_subset_insert subset_insertI\<close>)
next
  case (request j r pc')
  then have pc: "handler_ok (n_workers s) pc'"
    by (cases "(r, handlers s ! j, sh s)" rule: handler_accept.cases)
      (auto simp: n_workers_def split: if_splits)
  show ?thesis
    by (rule pcs_ok_update [OF ok, of _ S_Wait W_Wait pc'])
      (use request(2) pc pcs_ok_parts(4) [OF ok] in
        \<open>simp_all add: arrays_kept_def set_update_subset_insert subset_insertI\<close>)
qed

section \<open>Conservation of jobs\<close>

text \<open>
  Every accepted request is in one of the queues, in the hands of one thread, or settled
  (posted to a worker or dropped by its dispatcher).
\<close>

definition worker_jobs :: "pronto \<Rightarrow> u32 multiset" where
  "worker_jobs p = sum_list (map (\<lambda>w. mset (scheduler_jobs w)) (workers_instances p))"

definition stored :: "shared \<Rightarrow> u32 multiset" where
  "stored c = mset (job_queue (the_pronto c)) + mset (waiting_queue (the_pronto c)) +
     worker_jobs (the_pronto c)"

definition settled :: "shared \<Rightarrow> u32 multiset" where
  "settled c = image_mset snd (delivered c) + dropped c"

definition node_job :: "u32 option \<Rightarrow> u32 multiset" where
  "node_job node = (case node of None \<Rightarrow> {#} | Some v \<Rightarrow> {#v#})"

fun dispatch_carries :: "dispatch_pc \<Rightarrow> u32 \<Rightarrow> u32 multiset" where
  "dispatch_carries D_AddUnlock v = {#}"
| "dispatch_carries D_Post v = {#}"
| "dispatch_carries _ v = {#v#}"

fun sched_carries :: "sched_pc \<Rightarrow> u32 multiset" where
  "sched_carries (S_UnlockQ node) = node_job node"
| "sched_carries (S_FitLock v) = {#v#}"
| "sched_carries (S_Fit v) = {#v#}"
| "sched_carries (S_FitUnlock v b) = {#v#}"
| "sched_carries (S_WaitLock v) = {#v#}"
| "sched_carries (S_WaitAdd v) = {#v#}"
| "sched_carries (S_Dispatch d v b) = dispatch_carries d v"
| "sched_carries _ = {#}"

fun resched_carries :: "resched_pc \<Rightarrow> u32 multiset" where
  "resched_carries (R_Dispatch d v b) = dispatch_carries d v"
| "resched_carries _ = {#}"

fun worker_carries :: "worker_pc \<Rightarrow> u32 multiset" where
  "worker_carries (W_Unlock node) = node_job node"
| "worker_carries (W_Curl node) = node_job node"
| "worker_carries _ = {#}"

definition conserved :: "sys \<Rightarrow> bool" where
  "conserved s \<longleftrightarrow>
     accepted (sh s) = stored (sh s) + settled (sh s) + sum_list (map sched_carries (scheds s)) +
       resched_carries (resched s) + sum_list (map worker_carries (wthreads s))"

text \<open>
  One step moves a job between the shared state and the thread. \<open>moved\<close> is stated with
  additions only, so that multiset subtraction never appears.
\<close>

definition moved :: "shared \<Rightarrow> u32 multiset \<Rightarrow> shared \<Rightarrow> u32 multiset \<Rightarrow> bool" where
  "moved c m c' m' \<longleftrightarrow>
     stored c' + settled c' + m' + accepted c = stored c + settled c + m + accepted c'"

lemma worker_jobs_cong:
  "map scheduler_jobs (workers_instances p') = map scheduler_jobs (workers_instances p) \<Longrightarrow>
   worker_jobs p' = worker_jobs p"
  unfolding worker_jobs_def by (metis (no_types, lifting) list.map_comp map_map o_def map_cong)

lemma worker_jobs_update:
  assumes "i < length (workers_instances p)"
  shows "worker_jobs (with_worker p i f) + mset (scheduler_jobs (workers_instances p ! i)) =
    worker_jobs p + mset (scheduler_jobs (f (workers_instances p ! i)))"
  using sum_list_update_mset [OF assms, of "\<lambda>w. mset (scheduler_jobs w)"]
  by (simp add: worker_jobs_def)

lemma moved_same:
  assumes "the_pronto c' = the_pronto c" "accepted c' = accepted c"
    "delivered c' = delivered c" "dropped c' = dropped c"
  shows "moved c m c' m"
  using assms by (simp add: moved_def stored_def settled_def)

lemma moved_lock: "pthread_mutex_lock t x c = Some c' \<Longrightarrow> moved c m c' m"
  by (rule moved_same) (simp_all add: lock_fields)

lemma moved_unlock: "moved c m (pthread_mutex_unlock x c) m"
  by (rule moved_same) simp_all

lemma moved_set_pronto:
  "moved c m (set_pronto p c) m' \<longleftrightarrow>
     mset (job_queue p) + mset (waiting_queue p) + worker_jobs p + m' =
     mset (job_queue (the_pronto c)) + mset (waiting_queue (the_pronto c)) + worker_jobs (the_pronto c) + m"
  by (simp add: moved_def stored_def settled_def ac_simps)

lemma node_job_simps [simp]: "node_job None = {#}" "node_job (Some v) = {#v#}"
  by (simp_all add: node_job_def)

lemma dequeue_request_mset:
  "dequeue_request rs = (node, rs') \<Longrightarrow> mset rs = node_job node + mset rs'"
  by (cases rs) (auto simp: dequeue_request_def)

lemma with_worker_jobs_same:
  assumes "\<And>w. scheduler_jobs (f w) = scheduler_jobs w"
  shows "worker_jobs (with_worker p i f) = worker_jobs p"
proof (rule worker_jobs_cong)
  show "map scheduler_jobs (workers_instances (with_worker p i f)) =
      map scheduler_jobs (workers_instances p)"
    using list_update_id [of "map scheduler_jobs (workers_instances p)" i]
    by (cases "i < length (workers_instances p)") (simp_all add: map_update assms list_update_beyond)
qed

lemma dispatch_moved:
  assumes "dispatch_step t d v b c = Some (d', c')" and "b < length (worker_array c)"
  shows "moved c (dispatch_carries d v) c' (case d' of None \<Rightarrow> {#} | Some e \<Rightarrow> dispatch_carries e v)"
proof (cases d)
  case D_Reserve
  with assms(1) obtain p where p: "pronto_reserve_capacity (the_pronto c) b v = Inr p"
    "d' = Some D_ReserveUnlock" "c' = set_pronto p c" by (auto split: sum.splits)
  then show ?thesis using D_Reserve reserve_fields [OF p(1)]
    by (simp add: moved_set_pronto worker_jobs_cong [OF reserve_fields(9) [OF p(1)]])
next
  case D_Add
  then show ?thesis
    using assms worker_jobs_update [OF assms(2), of "\<lambda>w. cluster_worker_add_job w v"]
    by (auto simp: moved_set_pronto cluster_worker_add_job_def)
next
  case D_Post
  then show ?thesis using assms by (auto simp: moved_set_pronto with_worker_jobs_same)
qed (use assms in \<open>auto intro: moved_lock moved_unlock\<close>)

lemma sched_moved:
  assumes "sched_step t pc c = Some (pc', c')" and "sched_ok (length (worker_array c)) pc"
  shows "moved c (sched_carries pc) c' (sched_carries pc')"
proof (cases pc)
  case S_Wait
  then show ?thesis using assms
    by (auto simp: moved_set_pronto worker_jobs_def split: nat.splits)
next
  case S_Dequeue
  then show ?thesis using assms dequeue_request_mset [of "job_queue (the_pronto c)"]
    by (auto simp: moved_set_pronto worker_jobs_def split: prod.splits)
next
  case (S_WaitAdd v)
  then show ?thesis using assms
    by (auto simp: moved_set_pronto worker_jobs_def)
next
  case (S_Dispatch d v b)
  then obtain d' where d: "dispatch_step t d v b c = Some (d', c')"
    "pc' = (case d' of None \<Rightarrow> S_Wait | Some e \<Rightarrow> S_Dispatch e v b)" using assms(1) by auto
  have "b < length (worker_array c)" using assms(2) S_Dispatch by simp
  from dispatch_moved [OF d(1) this] S_Dispatch d(2) show ?thesis by (cases d') auto
qed (use assms in \<open>auto intro: moved_lock moved_unlock moved_same split: option.splits\<close>)

lemma resched_moved:
  assumes "resched_step t pc c = Some (pc', c')"
    and "resched_ok (length (worker_array c)) (waiting_queue (the_pronto c)) pc"
  shows "moved c (resched_carries pc) c' (resched_carries pc')"
proof (cases pc)
  case R_Wait
  then show ?thesis using assms
    by (auto simp: moved_set_pronto worker_jobs_def split: nat.splits)
next
  case (R_Pop v b)
  then show ?thesis using assms
    by (auto simp: moved_set_pronto worker_jobs_def dequeue_request_def split: list.splits)
next
  case (R_Dispatch d v b)
  then obtain d' where d: "dispatch_step t d v b c = Some (d', c')"
    "pc' = (case d' of None \<Rightarrow> R_Head | Some e \<Rightarrow> R_Dispatch e v b)" using assms(1) by auto
  have "b < length (worker_array c)" using assms(2) R_Dispatch by simp
  from dispatch_moved [OF d(1) this] R_Dispatch d(2) show ?thesis by (cases d') auto
qed (use assms in \<open>auto intro: moved_lock moved_unlock moved_same split: list.splits\<close>)

lemma moved_drop: "moved c (node_job node) (drop_job node c) {#}"
  by (cases node) (simp_all add: moved_def stored_def settled_def drop_job_def)

lemma moved_drop_Some: "moved c {#v#} (drop_job (Some v) c) {#}"
  using moved_drop [of c "Some v"] by simp

lemma moved_deliver: "moved c {#v#} (c\<lparr>delivered := add_mset (i, v) (delivered c)\<rparr>) {#}"
  by (simp add: moved_def stored_def settled_def)

lemma worker_moved:
  assumes "worker_step i out pc c = Some (pc', c')" and "worker_ok pc" and "i < length (worker_array c)"
  shows "moved c (worker_carries pc) c' (worker_carries pc')"
proof (cases pc)
  case W_Wait
  then show ?thesis using assms
    by (auto simp: moved_set_pronto with_worker_jobs_same split: nat.splits)
next
  case W_Dequeue
  let ?p = "the_pronto c"
  obtain node q where dq: "dequeue_request (scheduler_jobs (worker_array c ! i)) = (node, q)"
    by fastforce
  define p' where "p' = with_worker ?p i (\<lambda>w. w\<lparr>scheduler_jobs := q\<rparr>)"
  have step: "pc' = W_Unlock node" "c' = set_pronto p' c"
    using assms(1) W_Dequeue dq by (simp_all add: p'_def)
  have "worker_jobs p' + mset (scheduler_jobs (worker_array c ! i)) = worker_jobs ?p + mset q"
    using worker_jobs_update [OF assms(3)] by (simp add: p'_def)
  then have "worker_jobs p' + node_job node = worker_jobs ?p"
    using dequeue_request_mset [OF dq] by simp
  then show ?thesis
    using W_Dequeue step by (simp add: moved_set_pronto p'_def ac_simps)
qed (use assms in \<open>auto intro: moved_lock moved_unlock moved_drop_Some moved_deliver split: if_splits\<close>)

lemma handler_moved:
  assumes "handler_step t pc c = Some (pc', c')"
  shows "moved c {#} c' {#}"
proof (cases pc)
  case (H_Free q w)
  then obtain p where p: "pronto_free_capacity (the_pronto c) w q = Inr p" "c' = set_pronto p c"
    using assms by (auto split: sum.splits)
  then show ?thesis using free_fields [OF p(1)]
    by (simp add: moved_set_pronto worker_jobs_cong [OF free_fields(9) [OF p(1)]])
next
  case (H_Add v)
  then show ?thesis using assms
    by (auto simp: moved_def stored_def settled_def worker_jobs_def)
qed (use assms in \<open>auto intro: moved_lock moved_unlock simp: moved_set_pronto worker_jobs_def\<close>)

lemma conserved_replace:
  fixes A m R x :: "u32 multiset"
  assumes "moved c m c' m'" and "accepted c = stored c + settled c + m + R"
  shows "accepted c' = stored c' + settled c' + m' + R"
proof -
  have "stored c' + settled c' + m' + accepted c = stored c + settled c + m + accepted c'"
    using assms(1) by (simp add: moved_def)
  then have "(stored c' + settled c' + m' + R) + (stored c + settled c + m) =
      accepted c' + (stored c + settled c + m)"
    unfolding assms(2) by (simp add: ac_simps)
  then show ?thesis by simp
qed

lemma sys_step_conserved:
  assumes "sys_step s e s'" and inv: "conserved s" and ok: "pcs_ok s"
  shows "conserved s'"
  using assms(1)
proof cases
  case (scheduler k pc' sh')
  have ok': "sched_ok (length (worker_array (sh s))) (scheds s ! k)"
    using pcs_ok_parts(3) [OF ok scheduler(3)] by (simp add: n_workers_def)
  obtain R where R: "sum_list (map sched_carries (scheds s)) = sched_carries (scheds s ! k) + R"
    and R': "sum_list (map sched_carries ((scheds s)[k := pc'])) = sched_carries pc' + R"
    using sum_list_update_split [OF scheduler(3)] by metis
  have "accepted (sh s) = stored (sh s) + settled (sh s) + sched_carries (scheds s ! k) +
      (R + resched_carries (resched s) + sum_list (map worker_carries (wthreads s)))"
    using inv R by (simp add: conserved_def ac_simps)
  from conserved_replace [OF sched_moved [OF scheduler(4) ok'] this] show ?thesis
    using scheduler(2) R' by (simp add: conserved_def ac_simps)
next
  case (rescheduler pc' sh')
  have ok': "resched_ok (length (worker_array (sh s))) (waiting_queue (the_pronto (sh s))) (resched s)"
    using pcs_ok_parts(4) [OF ok] by (simp add: n_workers_def)
  have "accepted (sh s) = stored (sh s) + settled (sh s) + resched_carries (resched s) +
      (sum_list (map sched_carries (scheds s)) + sum_list (map worker_carries (wthreads s)))"
    using inv by (simp add: conserved_def ac_simps)
  from conserved_replace [OF resched_moved [OF rescheduler(3) ok'] this] show ?thesis
    using rescheduler(2) by (simp add: conserved_def ac_simps)
next
  case (worker i out pc' sh')
  have i: "i < length (worker_array (sh s))"
    using worker(3) pcs_ok_parts(2) [OF ok] by (simp add: n_workers_def)
  obtain R where R: "sum_list (map worker_carries (wthreads s)) = worker_carries (wthreads s ! i) + R"
    and R': "sum_list (map worker_carries ((wthreads s)[i := pc'])) = worker_carries pc' + R"
    using sum_list_update_split [OF worker(3)] by metis
  have "accepted (sh s) = stored (sh s) + settled (sh s) + worker_carries (wthreads s ! i) +
      (R + resched_carries (resched s) + sum_list (map sched_carries (scheds s)))"
    using inv R by (simp add: conserved_def ac_simps)
  from conserved_replace [OF worker_moved [OF worker(4) pcs_ok_parts(5) [OF ok worker(3)] i] this]
  show ?thesis using worker(2) R' by (simp add: conserved_def ac_simps)
next
  case (handler j pc' sh')
  from conserved_replace [OF handler_moved [OF handler(4)], of
      "sum_list (map sched_carries (scheds s)) + resched_carries (resched s) +
       sum_list (map worker_carries (wthreads s))"]
  show ?thesis using inv handler(2) by (simp add: conserved_def ac_simps)
next
  case (request j r pc')
  then show ?thesis using inv by (simp add: conserved_def)
qed

section \<open>Balanced books and sorted queues\<close>

definition queues_sorted :: "pronto \<Rightarrow> bool" where
  "queues_sorted p \<longleftrightarrow> sorted (job_queue p) \<and> sorted (waiting_queue p) \<and>
     (\<forall>w \<in> set (workers_instances p). sorted (scheduler_jobs w))"

lemma books_balanced_cong:
  "current_capacity p' = current_capacity p \<Longrightarrow>
   map current_resources (workers_instances p') = map current_resources (workers_instances p) \<Longrightarrow>
   books_balanced p \<Longrightarrow> books_balanced p'"
proof -
  assume a: "current_capacity p' = current_capacity p"
    "map current_resources (workers_instances p') = map current_resources (workers_instances p)"
    "books_balanced p"
  have "map resources32 ws = map ucast (map current_resources ws)" for ws
    by (simp add: resources32_def)
  then show ?thesis using a unfolding books_balanced_def by metis
qed

lemma with_worker_balanced:
  assumes "\<And>w. current_resources (f w) = current_resources w" and "books_balanced p"
  shows "books_balanced (with_worker p i f)"
proof (rule books_balanced_cong [OF _ _ assms(2)])
  show "map current_resources (workers_instances (with_worker p i f)) =
      map current_resources (workers_instances p)"
    using list_update_id [of "map current_resources (workers_instances p)" i]
    by (cases "i < length (workers_instances p)") (simp_all add: map_update assms list_update_beyond)
qed simp

lemma sorted_dequeue: "dequeue_request rs = (node, rs') \<Longrightarrow> sorted rs \<Longrightarrow> sorted rs'"
  by (cases rs) (auto simp: dequeue_request_def)

lemma with_worker_sorted:
  assumes "queues_sorted p" and "\<And>w. sorted (scheduler_jobs w) \<Longrightarrow> sorted (scheduler_jobs (f w))"
  shows "queues_sorted (with_worker p i f)"
proof (cases "i < length (workers_instances p)")
  case True
  then have "sorted (scheduler_jobs (f (workers_instances p ! i)))"
    using assms by (simp add: queues_sorted_def)
  then show ?thesis
    using assms(1) by (auto simp: queues_sorted_def dest!: set_update_subset_insert [THEN subsetD])
next
  case False
  then show ?thesis using assms(1) by (simp add: queues_sorted_def list_update_beyond)
qed

text \<open>Both facts for the shared state of one step.\<close>

definition tidy :: "shared \<Rightarrow> bool" where
  "tidy c \<longleftrightarrow> books_balanced (the_pronto c) \<and> queues_sorted (the_pronto c)"

lemma queues_sorted_cong:
  assumes "job_queue p' = job_queue p" "waiting_queue p' = waiting_queue p"
    "map scheduler_jobs (workers_instances p') = map scheduler_jobs (workers_instances p)"
  shows "queues_sorted p' = queues_sorted p"
proof -
  have "set (map scheduler_jobs (workers_instances p')) = set (map scheduler_jobs (workers_instances p))"
    using assms(3) by simp
  then have "scheduler_jobs ` set (workers_instances p') = scheduler_jobs ` set (workers_instances p)"
    by simp
  then have "(\<forall>r \<in> scheduler_jobs ` set (workers_instances p'). sorted r) =
      (\<forall>r \<in> scheduler_jobs ` set (workers_instances p). sorted r)" by simp
  then show ?thesis using assms(1,2) by (simp add: queues_sorted_def)
qed

lemma tidy_same: "the_pronto c' = the_pronto c \<Longrightarrow> tidy c \<Longrightarrow> tidy c'"
  by (simp add: tidy_def)

lemma tidy_lock: "pthread_mutex_lock t m c = Some c' \<Longrightarrow> tidy c \<Longrightarrow> tidy c'"
  by (rule tidy_same) (simp_all add: lock_fields)

lemma tidy_simps [simp]:
  "tidy (pthread_mutex_unlock m c) = tidy c"
  "tidy (drop_job n c) = tidy c"
  "tidy (c\<lparr>delivered := x\<rparr>) = tidy c"
  "tidy (set_pronto p c) \<longleftrightarrow> books_balanced p \<and> queues_sorted p"
  by (simp_all add: tidy_def)

lemma counters_tidy [simp]:
  "books_balanced (p\<lparr>notify := n\<rparr>) = books_balanced p"
  "books_balanced (p\<lparr>reschedule := n\<rparr>) = books_balanced p"
  "books_balanced (p\<lparr>job_queue := q\<rparr>) = books_balanced p"
  "books_balanced (p\<lparr>waiting_queue := q\<rparr>) = books_balanced p"
  "books_balanced (pronto_add_job p v) = books_balanced p"
  "books_balanced (pronto_add_waiting_job p v) = books_balanced p"
  "queues_sorted (p\<lparr>notify := n\<rparr>) = queues_sorted p"
  "queues_sorted (p\<lparr>reschedule := n\<rparr>) = queues_sorted p"
  by (simp_all add: books_balanced_def queues_sorted_def pronto_add_job_def pronto_add_waiting_job_def)

lemma queue_updates_sorted:
  "queues_sorted p \<Longrightarrow> sorted q \<Longrightarrow> queues_sorted (p\<lparr>job_queue := q\<rparr>)"
  "queues_sorted p \<Longrightarrow> sorted q \<Longrightarrow> queues_sorted (p\<lparr>waiting_queue := q\<rparr>)"
  "queues_sorted p \<Longrightarrow> queues_sorted (pronto_add_job p v)"
  "queues_sorted p \<Longrightarrow> queues_sorted (pronto_add_waiting_job p v)"
  by (simp_all add: queues_sorted_def sorted_enqueue_request)

lemma queues_sortedD:
  "queues_sorted p \<Longrightarrow> sorted (job_queue p)" "queues_sorted p \<Longrightarrow> sorted (waiting_queue p)"
  "queues_sorted p \<Longrightarrow> i < length (workers_instances p) \<Longrightarrow>
    sorted (scheduler_jobs (workers_instances p ! i))"
  by (simp_all add: queues_sorted_def)

lemma reserve_tidy:
  assumes "pronto_reserve_capacity (the_pronto c) b v = Inr p" and "tidy c"
  shows "books_balanced p" and "queues_sorted p"
  using assms reserve_balanced [OF _ assms(1)] reserve_fields [OF assms(1)]
  by (auto simp: tidy_def queues_sorted_cong [OF reserve_fields(2,3,9) [OF assms(1)]])

lemma free_tidy:
  assumes "pronto_free_capacity (the_pronto c) b v = Inr p" and "tidy c"
  shows "books_balanced p" and "queues_sorted p"
  using assms free_balanced [OF _ assms(1)]
  by (auto simp: tidy_def queues_sorted_cong [OF free_fields(2,3,9) [OF assms(1)]])

lemma dispatch_tidy:
  assumes "dispatch_step t d v b c = Some (d', c')" and "tidy c"
  shows "tidy c'"
proof (cases d)
  case D_Reserve
  then show ?thesis using assms reserve_tidy by (auto split: sum.splits)
next
  case D_Add
  then show ?thesis using assms
    by (auto simp: tidy_def cluster_worker_add_job_def
        intro!: with_worker_balanced with_worker_sorted sorted_enqueue_request)
next
  case D_Post
  then show ?thesis using assms
    by (auto simp: tidy_def intro!: with_worker_balanced with_worker_sorted)
qed (use assms in \<open>auto intro: tidy_lock\<close>)

lemma sched_tidy:
  assumes "sched_step t pc c = Some (pc', c')" and "tidy c"
  shows "tidy c'"
  using assms
proof (cases pc)
  case S_Dequeue
  then show ?thesis using assms
    by (auto simp: tidy_def split: prod.splits
        intro!: queue_updates_sorted(1) dest: sorted_dequeue queues_sortedD(1))
next
  case (S_WaitAdd v)
  then show ?thesis using assms by (auto simp: tidy_def intro: queue_updates_sorted)
qed (auto intro: tidy_lock dispatch_tidy split: nat.splits simp: tidy_def [of c])

lemma resched_tidy:
  assumes "resched_step t pc c = Some (pc', c')" and "tidy c"
  shows "tidy c'"
  using assms
proof (cases pc)
  case (R_Pop v b)
  then show ?thesis using assms
    by (auto simp: tidy_def split: prod.splits
        intro!: queue_updates_sorted(2) dest: sorted_dequeue queues_sortedD(2))
qed (auto intro: tidy_lock dispatch_tidy split: nat.splits simp: tidy_def [of c])

lemma worker_tidy:
  assumes "worker_step i out pc c = Some (pc', c')" and "tidy c" and i: "i < length (worker_array c)"
  shows "tidy c'"
  using assms
proof (cases pc)
  case W_Wait
  then show ?thesis using assms
    by (auto simp: tidy_def split: nat.splits intro!: with_worker_balanced with_worker_sorted)
next
  case W_Dequeue
  obtain node q where dq: "dequeue_request (scheduler_jobs (worker_array c ! i)) = (node, q)"
    by fastforce
  then have "sorted q" using sorted_dequeue queues_sortedD(3) i assms(2) by (auto simp: tidy_def)
  then show ?thesis using assms W_Dequeue dq
    by (auto simp: tidy_def intro!: with_worker_balanced with_worker_sorted)
qed (auto intro: tidy_lock split: option.splits if_splits)

lemma handler_tidy:
  assumes "handler_step t pc c = Some (pc', c')" and "tidy c"
  shows "tidy c'"
  using assms
proof (cases pc)
  case (H_Free q w)
  then show ?thesis using assms free_tidy by (auto split: sum.splits)
next
  case (H_Add v)
  then show ?thesis using assms by (auto simp: tidy_def intro: queue_updates_sorted)
qed (auto intro: tidy_lock simp: tidy_def [of c])

section \<open>All invariants together\<close>

definition sound :: "sys \<Rightarrow> bool" where
  "sound s \<longleftrightarrow> lock_inv s \<and> pcs_ok s \<and> job_tokens s \<and> worker_tokens s \<and> conserved s \<and> tidy (sh s)"

lemma sys_step_tidy:
  assumes "sys_step s e s'" and "tidy (sh s)" and ok: "pcs_ok s"
  shows "tidy (sh s')"
  using assms(1)
proof cases
  case (worker i out pc' sh')
  have "i < length (worker_array (sh s))"
    using worker(3) pcs_ok_parts(2) [OF ok] by (simp add: n_workers_def)
  from worker_tidy [OF worker(4) assms(2) this] show ?thesis using worker(2) by simp
qed (use assms(2) in \<open>auto intro: sched_tidy resched_tidy handler_tidy\<close>)

lemma sys_step_sound:
  assumes "sys_step s e s'" and "sound s"
  shows "sound s'"
  using assms(2) sys_step_lock_inv [OF assms(1)] sys_step_pcs_ok [OF assms(1)]
    sys_step_job_tokens [OF assms(1)] sys_step_worker_tokens [OF assms(1)]
    sys_step_conserved [OF assms(1)] sys_step_tidy [OF assms(1)]
  by (simp add: sound_def)

lemma init_worker_array:
  "length (workers_instances (pronto_init (int n) k)) = n"
  "i < n \<Longrightarrow> workers_instances (pronto_init (int n) k) ! i = cluster_worker_init (int i) 3000"
  by (simp_all add: pronto_init_def Let_def)

lemma init_fields [simp]:
  "job_queue (pronto_init n k) = []" "waiting_queue (pronto_init n k) = []"
  "notify (pronto_init n k) = 0" "reschedule (pronto_init n k) = 0"
  by (simp_all add: pronto_init_def Let_def)

lemma sound_init: "sound (sys_init nw ns nh)"
proof -
  let ?p = "pronto_init (int nw) (int ns)"
  have w: "scheduler_jobs w = [] \<and> worker_notify w = 0" if "w \<in> set (workers_instances ?p)" for w
    using that by (auto simp: pronto_init_def Let_def cluster_worker_init_def)
  have "map (\<lambda>w. mset (scheduler_jobs w)) (workers_instances ?p) = map (\<lambda>_. {#}) (workers_instances ?p)"
    using w by simp
  then have wj: "worker_jobs ?p = {#}" by (simp only: worker_jobs_def sum_list_0)
  have z: "sum_list (replicate n ({#} :: u32 multiset)) = {#}" for n by (induction n) simp_all
  have "pcs_ok (sys_init nw ns nh)"
    by (simp add: pcs_ok_def sys_init_def n_workers_def init_worker_array init_well_formed)
  moreover have "job_tokens (sys_init nw ns nh)"
    by (simp add: job_tokens_def sys_init_def sum_list_replicate)
  moreover have "worker_tokens (sys_init nw ns nh)"
    by (simp add: worker_tokens_def sys_init_def sum_list_replicate n_workers_def
        init_worker_array cluster_worker_init_def)
  moreover have "conserved (sys_init nw ns nh)"
    by (simp add: conserved_def sys_init_def stored_def settled_def wj z)
  moreover have "tidy (sh (sys_init nw ns nh))"
    using w by (auto simp: tidy_def sys_init_def init_balanced queues_sorted_def)
  ultimately show ?thesis using lock_inv_init by (simp add: sound_def)
qed

lemma reachable_sound: "reachable nw ns nh s \<Longrightarrow> sound s"
  by (induction rule: reachable.induct) (auto intro: sound_init sys_step_sound)

lemma soundD:
  assumes "sound s"
  shows "lock_inv s" "pcs_ok s" "job_tokens s" "worker_tokens s" "conserved s" "tidy (sh s)"
  using assms by (simp_all add: sound_def)

end
