(* ===== verification/Scheduling_Progress.thy ===== *)
theory Scheduling_Progress
  imports Scheduling_Inv
begin

text \<open>
  Liveness of the thread system. No set of threads blocks itself: while any thread is
  inside an operation, some thread can step. And without new requests the threads come to
  rest: \<open>work\<close> bounds the number of steps they can still take, and at rest every accepted
  job is in the waiting queue, posted to a worker, or dropped by its dispatcher.
\<close>

section \<open>The mutex a thread is waiting for\<close>

fun dispatch_wants :: "dispatch_pc \<Rightarrow> nat \<Rightarrow> mutex option" where
  "dispatch_wants D_ReserveLock b = Some Bookkeeper"
| "dispatch_wants D_AddLock b = Some (WorkerMutex b)"
| "dispatch_wants _ b = None"

fun sched_wants :: "sched_pc \<Rightarrow> mutex option" where
  "sched_wants S_LockQ = Some QueueMutex"
| "sched_wants (S_FitLock v) = Some Bookkeeper"
| "sched_wants (S_WaitLock v) = Some WaitingMutex"
| "sched_wants (S_Dispatch d v b) = dispatch_wants d b"
| "sched_wants _ = None"

fun resched_wants :: "resched_pc \<Rightarrow> mutex option" where
  "resched_wants R_Lock = Some WaitingMutex"
| "resched_wants (R_FitLock v) = Some Bookkeeper"
| "resched_wants (R_Dispatch d v b) = dispatch_wants d b"
| "resched_wants _ = None"

fun worker_wants :: "nat \<Rightarrow> worker_pc \<Rightarrow> mutex option" where
  "worker_wants i W_Lock = Some (WorkerMutex i)"
| "worker_wants i _ = None"

fun handler_wants :: "handler_pc \<Rightarrow> mutex option" where
  "handler_wants (H_AddLock v) = Some QueueMutex"
| "handler_wants (H_FreeLock q w) = Some Bookkeeper"
| "handler_wants _ = None"

fun wants :: "sys \<Rightarrow> thread \<Rightarrow> mutex option" where
  "wants s (SchedulerThread k) = sched_wants (scheds s ! k)"
| "wants s ReschedulerThread = resched_wants (resched s)"
| "wants s (WorkerThread i) = worker_wants i (wthreads s ! i)"
| "wants s (HandlerThread j) = handler_wants (handlers s ! j)"

text \<open>A thread is busy when it is past the wait at the top of its loop.\<close>

fun busy :: "sys \<Rightarrow> thread \<Rightarrow> bool" where
  "busy s (SchedulerThread k) \<longleftrightarrow> k < length (scheds s) \<and> scheds s ! k \<noteq> S_Wait"
| "busy s ReschedulerThread \<longleftrightarrow> resched s \<noteq> R_Wait"
| "busy s (WorkerThread i) \<longleftrightarrow> i < length (wthreads s) \<and> wthreads s ! i \<noteq> W_Wait"
| "busy s (HandlerThread j) \<longleftrightarrow> j < length (handlers s) \<and> handlers s ! j \<noteq> H_Idle"

definition can_step :: "sys \<Rightarrow> thread \<Rightarrow> bool" where
  "can_step s t \<longleftrightarrow> (\<exists>s'. sys_step s (Internal t) s')"

lemma lock_free: "held c m = None \<Longrightarrow> \<exists>c'. pthread_mutex_lock t m c = Some c'"
  by (simp add: pthread_mutex_lock_def)

lemma dispatch_can:
  assumes "b < length (worker_array c)"
    and "\<forall>m. dispatch_wants d b = Some m \<longrightarrow> held c m = None"
  shows "\<exists>r. dispatch_step t d v b c = Some r"
  using assms lock_free by (cases d) (auto simp: pronto_reserve_capacity_def)

lemma sched_can:
  assumes "pc \<noteq> S_Wait" and "sched_ok (length (worker_array c)) pc"
    and "\<forall>m. sched_wants pc = Some m \<longrightarrow> held c m = None"
  shows "\<exists>r. sched_step t pc c = Some r"
proof (cases pc)
  case (S_Dispatch d v b)
  with assms dispatch_can [of b c d t v] show ?thesis by auto
qed (use assms lock_free in \<open>auto split: prod.splits\<close>)

lemma resched_can:
  assumes "pc \<noteq> R_Wait" and "resched_ok (length (worker_array c)) rs pc"
    and "\<forall>m. resched_wants pc = Some m \<longrightarrow> held c m = None"
  shows "\<exists>r. resched_step t pc c = Some r"
proof (cases pc)
  case (R_Dispatch d v b)
  with assms dispatch_can [of b c d t v] show ?thesis by auto
qed (use assms lock_free in \<open>auto split: prod.splits\<close>)

lemma worker_can:
  assumes "pc \<noteq> W_Wait" and "worker_ok pc" and "\<forall>m. worker_wants i pc = Some m \<longrightarrow> held c m = None"
  shows "\<exists>r. worker_step i out pc c = Some r"
  using assms lock_free by (cases pc) (auto split: prod.splits option.splits)

lemma handler_can:
  assumes "pc \<noteq> H_Idle" and "handler_ok (length (worker_array c)) pc"
    and "\<forall>m. handler_wants pc = Some m \<longrightarrow> held c m = None"
  shows "\<exists>r. handler_step t pc c = Some r"
  using assms lock_free by (cases pc) (auto simp: pronto_free_capacity_def)

lemma busy_can_step:
  assumes ok: "pcs_ok s" and busy: "busy s t"
    and free: "\<forall>m. wants s t = Some m \<longrightarrow> held (sh s) m = None"
  shows "can_step s t"
proof (cases t)
  case (SchedulerThread k)
  then obtain pc' c' where "sched_step t (scheds s ! k) (sh s) = Some (pc', c')"
    using sched_can [of "scheds s ! k" "sh s" t] busy free pcs_ok_parts(3) [OF ok]
    by (auto simp: n_workers_def)
  then show ?thesis using SchedulerThread busy sys_step.scheduler [of k s pc' c']
    by (auto simp: can_step_def)
next
  case ReschedulerThread
  then obtain pc' c' where "resched_step t (resched s) (sh s) = Some (pc', c')"
    using resched_can [of "resched s" "sh s" "waiting_queue (the_pronto (sh s))" t] busy free pcs_ok_parts(4) [OF ok]
    by (auto simp: n_workers_def)
  then show ?thesis using ReschedulerThread sys_step.rescheduler [of s pc' c']
    by (auto simp: can_step_def)
next
  case (WorkerThread i)
  then obtain pc' c' where "worker_step i Posted (wthreads s ! i) (sh s) = Some (pc', c')"
    using worker_can [of "wthreads s ! i" i "sh s" Posted] busy free pcs_ok_parts(5) [OF ok] by auto
  then show ?thesis using WorkerThread busy sys_step.worker [of i s Posted pc' c']
    by (auto simp: can_step_def)
next
  case (HandlerThread j)
  then obtain pc' c' where "handler_step t (handlers s ! j) (sh s) = Some (pc', c')"
    using handler_can [of "handlers s ! j" "sh s" t] busy free pcs_ok_parts(6) [OF ok]
    by (auto simp: n_workers_def)
  then show ?thesis using HandlerThread busy sys_step.handler [of j s pc' c']
    by (auto simp: can_step_def)
qed

section \<open>No deadlock\<close>

lemma holder_busy: "m \<in> locks_of s t \<Longrightarrow> busy s t"
  by (cases t) (auto split: if_splits)

lemma dispatch_leaf: "m \<in> dispatch_locks d b \<Longrightarrow> dispatch_wants d b = None"
  by (cases d) auto

text \<open>Only the holder of the waiting mutex ever waits for another mutex.\<close>

lemma leaf_holder_wants_nothing:
  assumes "m \<in> locks_of s t" and "m \<noteq> WaitingMutex"
  shows "wants s t = None"
proof (cases t)
  case (SchedulerThread k)
  then show ?thesis using assms dispatch_leaf by (cases "scheds s ! k") (auto split: if_splits)
next
  case ReschedulerThread
  then show ?thesis using assms dispatch_leaf by (cases "resched s") auto
next
  case (WorkerThread i)
  then show ?thesis using assms by (cases "wthreads s ! i") (auto split: if_splits)
next
  case (HandlerThread j)
  then show ?thesis using assms by (cases "handlers s ! j") (auto split: if_splits)
qed

lemma waiting_holder_wants_leaf:
  assumes "WaitingMutex \<in> locks_of s t"
  shows "wants s t \<noteq> Some WaitingMutex"
proof (cases t)
  case (SchedulerThread k)
  show ?thesis
  proof (cases "scheds s ! k")
    case (S_Dispatch d v b)
    then show ?thesis using SchedulerThread by (cases d) auto
  qed (use assms SchedulerThread in \<open>auto split: if_splits\<close>)
next
  case ReschedulerThread
  show ?thesis
  proof (cases "resched s")
    case (R_Dispatch d v b)
    then show ?thesis using ReschedulerThread by (cases d) auto
  qed (use assms ReschedulerThread in auto)
next
  case (WorkerThread i)
  then show ?thesis using assms by (cases "wthreads s ! i") (auto split: if_splits)
next
  case (HandlerThread j)
  then show ?thesis using assms by (cases "handlers s ! j") (auto split: if_splits)
qed

lemma sound_no_deadlock:
  assumes s: "sound s" and busy: "busy s t"
  shows "\<exists>u. can_step s u"
proof -
  note ok = soundD(2) [OF s]
  have blocked: "\<exists>m u. wants s t = Some m \<and> held (sh s) m = Some u \<and> m \<in> locks_of s u \<and> busy s u"
    if "\<not> can_step s t" "busy s t" for t
    using busy_can_step [OF ok that(2)] that(1) soundD(1) [OF s] holder_busy
    by (fastforce simp: lock_inv_def)
  show ?thesis
  proof (rule ccontr)
    assume "\<not> ?thesis"
    then have none: "\<not> can_step s u" for u by blast
    from blocked [OF none busy] obtain m u where u: "m \<in> locks_of s u" "busy s u" by blast
    from blocked [OF none u(2)] obtain m' w where w: "wants s u = Some m'" "m' \<in> locks_of s w" "busy s w"
      by blast
    from blocked [OF none w(3)] obtain m'' where "wants s w = Some m''" by blast
    then have "m' = WaitingMutex" using leaf_holder_wants_nothing [OF w(2)] by auto
    moreover have "m = WaitingMutex" using leaf_holder_wants_nothing [OF u(1)] w(1) by auto
    ultimately show False using waiting_holder_wants_leaf [of s u] u(1) w(1) by simp
  qed
qed

section \<open>Work left\<close>

text \<open>
  Each counter is weighed with the steps its thread can still take before it is back at
  its wait, each semaphore unit with the round it will start, and each waiting job with
  the round of the rescheduler's inner loop it can cause.
\<close>

fun dispatch_rank :: "dispatch_pc \<Rightarrow> nat" where
  "dispatch_rank D_ReserveLock = 12"
| "dispatch_rank D_Reserve = 11"
| "dispatch_rank D_ReserveUnlock = 10"
| "dispatch_rank D_AddLock = 9"
| "dispatch_rank D_Add = 8"
| "dispatch_rank D_AddUnlock = 7"
| "dispatch_rank D_Post = 6"

fun sched_rank :: "sched_pc \<Rightarrow> nat" where
  "sched_rank S_Wait = 0"
| "sched_rank S_LockQ = 26"
| "sched_rank S_Dequeue = 25"
| "sched_rank (S_UnlockQ _) = 24"
| "sched_rank (S_FitLock _) = 23"
| "sched_rank (S_Fit _) = 22"
| "sched_rank (S_FitUnlock _ _) = 21"
| "sched_rank (S_WaitLock _) = 20"
| "sched_rank (S_WaitAdd _) = 19"
| "sched_rank S_WaitUnlock = 1"
| "sched_rank (S_Dispatch d _ _) = dispatch_rank d"

fun resched_rank :: "resched_pc \<Rightarrow> nat" where
  "resched_rank R_Wait = 0"
| "resched_rank R_Lock = 6"
| "resched_rank R_Head = 5"
| "resched_rank (R_FitLock _) = 4"
| "resched_rank (R_Fit _) = 3"
| "resched_rank (R_FitUnlock _ _) = 2"
| "resched_rank (R_Pop _ _) = 1"
| "resched_rank R_Unlock = 1"
| "resched_rank (R_Dispatch d _ _) = 5 + dispatch_rank d"
| "resched_rank R_Crash = 0"

fun worker_rank :: "worker_pc \<Rightarrow> nat" where
  "worker_rank W_Wait = 0"
| "worker_rank W_Lock = 4"
| "worker_rank W_Dequeue = 3"
| "worker_rank (W_Unlock _) = 2"
| "worker_rank (W_Curl _) = 1"
| "worker_rank W_Crash = 0"

fun handler_rank :: "handler_pc \<Rightarrow> nat" where
  "handler_rank H_Idle = 0"
| "handler_rank (H_AddLock _) = 31"
| "handler_rank (H_Add _) = 30"
| "handler_rank H_AddUnlock = 29"
| "handler_rank H_PostNotify = 28"
| "handler_rank (H_FreeLock _ _) = 11"
| "handler_rank (H_Free _ _) = 10"
| "handler_rank H_FreeUnlock = 9"
| "handler_rank H_PostReschedule = 8"

definition worker_posts :: "pronto \<Rightarrow> nat" where
  "worker_posts p = sum_list (map worker_notify (workers_instances p))"

definition backlog :: "shared \<Rightarrow> nat" where
  "backlog c = 27 * notify (the_pronto c) + 7 * reschedule (the_pronto c) +
     17 * length (waiting_queue (the_pronto c)) + 5 * worker_posts (the_pronto c)"

definition work :: "sys \<Rightarrow> nat" where
  "work s = backlog (sh s) + sum_list (map sched_rank (scheds s)) + resched_rank (resched s) +
     sum_list (map worker_rank (wthreads s)) + sum_list (map handler_rank (handlers s))"

lemma worker_posts_cong:
  "map worker_notify (workers_instances p') = map worker_notify (workers_instances p) \<Longrightarrow>
   worker_posts p' = worker_posts p"
  by (simp add: worker_posts_def)

lemma worker_posts_update:
  assumes "i < length (workers_instances p)"
  shows "worker_posts (with_worker p i f) + worker_notify (workers_instances p ! i) =
    worker_posts p + worker_notify (f (workers_instances p ! i))"
  using sum_list_update_nat [OF assms, of worker_notify] by (simp add: worker_posts_def)

lemma backlog_simps [simp]:
  "backlog (set_pronto p c) = 27 * notify p + 7 * reschedule p + 17 * length (waiting_queue p) +
     5 * worker_posts p"
  "backlog (pthread_mutex_unlock m c) = backlog c"
  "backlog (drop_job n c) = backlog c"
  "backlog (c\<lparr>delivered := x\<rparr>) = backlog c"
  by (simp_all add: backlog_def)

lemma backlog_lock: "pthread_mutex_lock t m c = Some c' \<Longrightarrow> backlog c' = backlog c"
  by (simp add: backlog_def lock_fields)

lemma worker_posts_frames [simp]:
  "worker_posts (p\<lparr>notify := n\<rparr>) = worker_posts p"
  "worker_posts (p\<lparr>reschedule := n\<rparr>) = worker_posts p"
  "worker_posts (p\<lparr>job_queue := q\<rparr>) = worker_posts p"
  "worker_posts (p\<lparr>waiting_queue := q\<rparr>) = worker_posts p"
  "worker_posts (pronto_add_job p v) = worker_posts p"
  "worker_posts (pronto_add_waiting_job p v) = worker_posts p"
  by (simp_all add: worker_posts_def)

lemma dispatch_work:
  assumes "dispatch_step t d v b c = Some (d', c')" and b: "b < length (worker_array c)"
  shows "backlog c' + (case d' of None \<Rightarrow> 0 | Some e \<Rightarrow> dispatch_rank e) < backlog c + dispatch_rank d"
proof (cases d)
  case D_Reserve
  with assms(1) obtain p where p: "pronto_reserve_capacity (the_pronto c) b v = Inr p"
    "d' = Some D_ReserveUnlock" "c' = set_pronto p c" by (auto split: sum.splits)
  then show ?thesis using D_Reserve reserve_fields [OF p(1)]
      worker_posts_cong [OF reserve_fields(8) [OF p(1)]] by (simp add: backlog_def)
next
  case D_Add
  then show ?thesis
    using assms worker_posts_update [OF b, of "\<lambda>w. cluster_worker_add_job w v"]
    by (auto simp: backlog_def cluster_worker_add_job_def)
next
  case D_Post
  then show ?thesis
    using assms worker_posts_update [OF b, of "\<lambda>w. w\<lparr>worker_notify := Suc (worker_notify w)\<rparr>"]
    by (auto simp: backlog_def)
qed (use assms in \<open>auto simp: backlog_lock\<close>)

lemma sched_work:
  assumes "sched_step t pc c = Some (pc', c')" and "sched_ok (length (worker_array c)) pc"
  shows "backlog c' + sched_rank pc' < backlog c + sched_rank pc"
proof (cases pc)
  case (S_Dispatch d v b)
  then obtain d' where d: "dispatch_step t d v b c = Some (d', c')"
    "pc' = (case d' of None \<Rightarrow> S_Wait | Some e \<Rightarrow> S_Dispatch e v b)" using assms(1) by auto
  have "b < length (worker_array c)" using assms(2) S_Dispatch by simp
  from dispatch_work [OF d(1) this] S_Dispatch d(2) show ?thesis by (cases d') auto
next
  case S_Wait
  then show ?thesis using assms by (auto simp: backlog_def split: nat.splits)
next
  case S_Dequeue
  then show ?thesis using assms by (auto simp: backlog_def split: prod.splits)
next
  case (S_WaitAdd v)
  then show ?thesis using assms by (auto simp: backlog_def)
qed (use assms in \<open>auto simp: backlog_lock split: option.splits\<close>)

lemma resched_work:
  assumes "resched_step t pc c = Some (pc', c')"
    and "resched_ok (length (worker_array c)) (waiting_queue (the_pronto c)) pc"
  shows "backlog c' + resched_rank pc' < backlog c + resched_rank pc"
proof (cases pc)
  case (R_Dispatch d v b)
  then obtain d' where d: "dispatch_step t d v b c = Some (d', c')"
    "pc' = (case d' of None \<Rightarrow> R_Head | Some e \<Rightarrow> R_Dispatch e v b)" using assms(1) by auto
  have "b < length (worker_array c)" using assms(2) R_Dispatch by simp
  from dispatch_work [OF d(1) this] R_Dispatch d(2) show ?thesis by (cases d') auto
next
  case R_Wait
  then show ?thesis using assms by (auto simp: backlog_def split: nat.splits)
next
  case (R_Pop v b)
  then show ?thesis using assms
    by (cases "waiting_queue (the_pronto c)") (auto simp: backlog_def dequeue_request_def)
qed (use assms in \<open>auto simp: backlog_lock split: list.splits\<close>)

lemma worker_work:
  assumes "worker_step i out pc c = Some (pc', c')" and "worker_ok pc" and i: "i < length (worker_array c)"
  shows "backlog c' + worker_rank pc' < backlog c + worker_rank pc"
proof (cases pc)
  case W_Wait
  then obtain n where n: "worker_notify (worker_array c ! i) = Suc n" "pc' = W_Lock"
    "c' = set_pronto (with_worker (the_pronto c) i (\<lambda>w. w\<lparr>worker_notify := n\<rparr>)) c"
    using assms(1) by (auto split: nat.splits)
  then show ?thesis
    using W_Wait worker_posts_update [OF i, of "\<lambda>w. w\<lparr>worker_notify := n\<rparr>"]
    by (simp add: backlog_def)
next
  case W_Dequeue
  obtain node q where dq: "dequeue_request (scheduler_jobs (worker_array c ! i)) = (node, q)"
    by fastforce
  then show ?thesis
    using W_Dequeue assms worker_posts_update [OF i, of "\<lambda>w. w\<lparr>scheduler_jobs := q\<rparr>"]
    by (auto simp: backlog_def)
qed (use assms in \<open>auto simp: backlog_lock split: option.splits if_splits\<close>)

lemma handler_work:
  assumes "handler_step t pc c = Some (pc', c')"
  shows "backlog c' + handler_rank pc' < backlog c + handler_rank pc"
proof (cases pc)
  case (H_Free q w)
  then obtain p where p: "pronto_free_capacity (the_pronto c) w q = Inr p" "c' = set_pronto p c"
    "pc' = H_FreeUnlock" using assms by (auto split: sum.splits)
  then show ?thesis using H_Free free_fields [OF p(1)]
      worker_posts_cong [OF free_fields(8) [OF p(1)]] by (simp add: backlog_def)
qed (use assms in \<open>auto simp: backlog_def lock_fields\<close>)

lemma internal_step_work:
  assumes "sys_step s (Internal t) s'" and ok: "pcs_ok s"
  shows "work s' < work s"
  using assms(1)
proof cases
  case (scheduler k pc' sh')
  from sched_work [OF scheduler(4)] pcs_ok_parts(3) [OF ok scheduler(3)]
    sum_list_update_nat [OF scheduler(3), of sched_rank pc']
  show ?thesis using scheduler(2) by (simp add: work_def n_workers_def)
next
  case (rescheduler pc' sh')
  from resched_work [OF rescheduler(3)] pcs_ok_parts(4) [OF ok]
  show ?thesis using rescheduler(2) by (simp add: work_def n_workers_def)
next
  case (worker i out pc' sh')
  have "i < length (worker_array (sh s))"
    using worker(3) pcs_ok_parts(2) [OF ok] by (simp add: n_workers_def)
  from worker_work [OF worker(4) pcs_ok_parts(5) [OF ok worker(3)] this]
    sum_list_update_nat [OF worker(3), of worker_rank pc']
  show ?thesis using worker(2) by (simp add: work_def)
next
  case (handler j pc' sh')
  from handler_work [OF handler(4)] sum_list_update_nat [OF handler(3), of handler_rank pc']
  show ?thesis using handler(2) by (simp add: work_def)
qed

section \<open>Coming to rest\<close>

text \<open>\<open>internal_run s n s'\<close>: the threads take \<open>n\<close> steps, no request arrives.\<close>

inductive internal_run :: "sys \<Rightarrow> nat \<Rightarrow> sys \<Rightarrow> bool" where
  none: "internal_run s 0 s"
| more: "sys_step s (Internal t) s' \<Longrightarrow> internal_run s' n s'' \<Longrightarrow> internal_run s (Suc n) s''"

definition at_rest :: "sys \<Rightarrow> bool" where
  "at_rest s \<longleftrightarrow> (\<forall>t. \<not> can_step s t)"

lemma internal_run_sound: "internal_run s n s' \<Longrightarrow> sound s \<Longrightarrow> sound s'"
  by (induction rule: internal_run.induct) (auto dest: sys_step_sound)

lemma internal_run_bound: "internal_run s n s' \<Longrightarrow> sound s \<Longrightarrow> n + work s' \<le> work s"
proof (induction rule: internal_run.induct)
  case (none s)
  then show ?case by simp
next
  case (more s t s' n s'')
  have "work s' < work s" using internal_step_work [OF more.hyps(1) soundD(2) [OF more.prems]] .
  moreover have "n + work s'' \<le> work s'"
    by (rule more.IH [OF sys_step_sound [OF more.hyps(1) more.prems]])
  ultimately show ?case by simp
qed

lemma comes_to_rest: "sound s \<Longrightarrow> \<exists>n s'. internal_run s n s' \<and> at_rest s'"
proof (induction "work s" arbitrary: s rule: less_induct)
  case less
  show ?case
  proof (cases "at_rest s")
    case True
    then show ?thesis using internal_run.none by blast
  next
    case False
    then obtain t s1 where step: "sys_step s (Internal t) s1"
      by (auto simp: at_rest_def can_step_def)
    have "work s1 < work s" by (rule internal_step_work [OF step soundD(2) [OF less.prems]])
    from less.hyps [OF this sys_step_sound [OF step less.prems]] obtain n s'
      where "internal_run s1 n s'" "at_rest s'" by blast
    then show ?thesis using internal_run.more [OF step] by blast
  qed
qed

lemma rest_waits:
  assumes s: "sound s" and rest: "at_rest s"
  shows "\<forall>pc \<in> set (scheds s). pc = S_Wait" and "resched s = R_Wait"
    and "\<forall>pc \<in> set (wthreads s). pc = W_Wait" and "\<forall>pc \<in> set (handlers s). pc = H_Idle"
proof -
  have "\<not> busy s t" for t using sound_no_deadlock [OF s] rest by (auto simp: at_rest_def)
  then have "\<not> busy s (SchedulerThread k)" "\<not> busy s ReschedulerThread"
    "\<not> busy s (WorkerThread k)" "\<not> busy s (HandlerThread k)" for k by blast+
  then show "\<forall>pc \<in> set (scheds s). pc = S_Wait" "resched s = R_Wait"
    "\<forall>pc \<in> set (wthreads s). pc = W_Wait" "\<forall>pc \<in> set (handlers s). pc = H_Idle"
    by (auto simp: in_set_conv_nth)
qed

lemma rest_semaphores:
  assumes s: "sound s" and rest: "at_rest s" and scheds: "scheds s \<noteq> []"
  shows "notify (the_pronto (sh s)) = 0" and "reschedule (the_pronto (sh s)) = 0"
    and "i < n_workers s \<Longrightarrow> worker_notify (worker_array (sh s) ! i) = 0"
proof -
  note waits = rest_waits [OF s rest]
  have no: "\<not> sys_step s (Internal t) s'" for t s'
    using rest by (auto simp: at_rest_def can_step_def)
  show "notify (the_pronto (sh s)) = 0"
  proof (cases "notify (the_pronto (sh s))")
    case (Suc n)
    have "scheds s ! 0 = S_Wait" using waits(1) scheds by simp
    then show ?thesis using sys_step.scheduler [of 0 s] scheds Suc no by fastforce
  qed
  show "reschedule (the_pronto (sh s)) = 0"
  proof (cases "reschedule (the_pronto (sh s))")
    case (Suc n)
    then show ?thesis using sys_step.rescheduler [of s] waits(2) no by fastforce
  qed
  show "worker_notify (worker_array (sh s) ! i) = 0" if "i < n_workers s"
  proof (cases "worker_notify (worker_array (sh s) ! i)")
    case (Suc n)
    have i: "i < length (wthreads s)" using that pcs_ok_parts(2) [OF soundD(2) [OF s]] by simp
    then have "wthreads s ! i = W_Wait" using waits(3) by simp
    then show ?thesis using sys_step.worker [OF i, of Posted] Suc no by fastforce
  qed
qed

lemma zero_map_nat: "\<forall>x \<in> set xs. f x = (0::nat) \<Longrightarrow> sum_list (map f xs) = 0"
  by (induction xs) auto

lemma zero_map_mset: "\<forall>x \<in> set xs. f x = {#} \<Longrightarrow> sum_list (map f xs) = {#}"
  by (induction xs) auto

text \<open>At rest the job queue and the worker queues are empty.\<close>

lemma rest_queues:
  assumes s: "sound s" and rest: "at_rest s" and scheds: "scheds s \<noteq> []"
  shows "job_queue (the_pronto (sh s)) = []"
    and "\<forall>w \<in> set (worker_array (sh s)). scheduler_jobs w = []"
    and "accepted (sh s) = mset (waiting_queue (the_pronto (sh s))) + settled (sh s)"
proof -
  note waits = rest_waits [OF s rest] and sems = rest_semaphores [OF s rest scheds]
  have z: "sum_list (map sched_token (scheds s)) = 0" "sum_list (map handler_token (handlers s)) = 0"
    "sum_list (map (sched_pending i) (scheds s)) = 0" for i
    using waits by (auto intro!: zero_map_nat)
  then show jq: "job_queue (the_pronto (sh s)) = []"
    using soundD(3) [OF s] unfolding job_tokens_def z sems(1) by simp
  have len: "length (wthreads s) = n_workers s" by (rule pcs_ok_parts(2) [OF soundD(2) [OF s]])
  have "scheduler_jobs (worker_array (sh s) ! i) = []" if "i < n_workers s" for i
  proof -
    have "wthreads s ! i = W_Wait" using waits(3) that len by simp
    moreover have "worker_notify (worker_array (sh s) ! i) + sum_list (map (sched_pending i) (scheds s)) +
        resched_pending i (resched s) + worker_token (wthreads s ! i) =
        length (scheduler_jobs (worker_array (sh s) ! i))"
      using soundD(4) [OF s] that by (simp add: worker_tokens_def)
    ultimately show ?thesis unfolding z sems(3) [OF that] waits(2) by simp
  qed
  then show wq: "\<forall>w \<in> set (worker_array (sh s)). scheduler_jobs w = []"
    by (auto simp: in_set_conv_nth n_workers_def)
  have "sum_list (map sched_carries (scheds s)) = {#}" "sum_list (map worker_carries (wthreads s)) = {#}"
    "worker_jobs (the_pronto (sh s)) = {#}"
    using waits wq unfolding worker_jobs_def by (auto intro!: zero_map_mset)
  then show "accepted (sh s) = mset (waiting_queue (the_pronto (sh s))) + settled (sh s)"
    using soundD(5) [OF s] waits(2) jq by (simp add: conserved_def stored_def)
qed

end
