(* ===== verification/Scheduling_Races.thy ===== *)
theory Scheduling_Races
  imports Scheduling_Progress
begin

text \<open>
  Executions of the thread system as lists of moves, which evaluate, and two of them that
  reach states the code does not guard against. The properties of the thread system are
  stated here, over every reachable state, with those executions as their instances.
\<close>

section \<open>Running the system\<close>

datatype move = Move thread post_outcome | Ask nat request

fun exec_move :: "sys \<Rightarrow> move \<Rightarrow> sys option" where
  "exec_move s (Move (SchedulerThread k) out) =
     (if k < length (scheds s) then
        map_option (\<lambda>(pc, c). s\<lparr>sh := c, scheds := (scheds s)[k := pc]\<rparr>)
          (sched_step (SchedulerThread k) (scheds s ! k) (sh s))
      else None)"
| "exec_move s (Move ReschedulerThread out) =
     map_option (\<lambda>(pc, c). s\<lparr>sh := c, resched := pc\<rparr>)
       (resched_step ReschedulerThread (resched s) (sh s))"
| "exec_move s (Move (WorkerThread i) out) =
     (if i < length (wthreads s) then
        map_option (\<lambda>(pc, c). s\<lparr>sh := c, wthreads := (wthreads s)[i := pc]\<rparr>)
          (worker_step i out (wthreads s ! i) (sh s))
      else None)"
| "exec_move s (Move (HandlerThread j) out) =
     (if j < length (handlers s) then
        map_option (\<lambda>(pc, c). s\<lparr>sh := c, handlers := (handlers s)[j := pc]\<rparr>)
          (handler_step (HandlerThread j) (handlers s ! j) (sh s))
      else None)"
| "exec_move s (Ask j r) =
     (if j < length (handlers s) then
        map_option (\<lambda>pc. s\<lparr>handlers := (handlers s)[j := pc]\<rparr>)
          (handler_accept r (handlers s ! j) (sh s))
      else None)"

fun run :: "sys \<Rightarrow> move list \<Rightarrow> sys option" where
  "run s [] = Some s"
| "run s (m # ms) = (case exec_move s m of None \<Rightarrow> None | Some s' \<Rightarrow> run s' ms)"

lemma exec_move_step: "exec_move s m = Some s' \<Longrightarrow> \<exists>e. sys_step s e s'"
  by (cases "(s, m)" rule: exec_move.cases) (auto split: if_splits intro: sys_step.intros)

lemma run_reachable: "run s ms = Some s' \<Longrightarrow> reachable nw ns nh s \<Longrightarrow> reachable nw ns nh s'"
proof (induction ms arbitrary: s)
  case Nil
  then show ?case by simp
next
  case (Cons m ms)
  then obtain s1 where "exec_move s m = Some s1" "run s1 ms = Some s'" by (auto split: option.splits)
  with Cons show ?case using exec_move_step reachable.step by meson
qed

lemma run_append: "run s (ms @ ns) = (case run s ms of None \<Rightarrow> None | Some s' \<Rightarrow> run s' ns)"
  by (induction ms arbitrary: s) (auto split: option.splits)

text \<open>\<open>steps t n\<close>: \<open>n\<close> moves of one thread; the dispatchers' posts succeed.\<close>

definition steps :: "thread \<Rightarrow> nat \<Rightarrow> move list" where
  "steps t n = replicate n (Move t Posted)"

definition resting :: "sys \<Rightarrow> bool" where
  "resting s \<longleftrightarrow> list_all ((=) S_Wait) (scheds s) \<and> resched s = R_Wait \<and>
     list_all ((=) W_Wait) (wthreads s) \<and> list_all ((=) H_Idle) (handlers s) \<and>
     notify (the_pronto (sh s)) = 0 \<and> reschedule (the_pronto (sh s)) = 0 \<and>
     list_all (\<lambda>w. worker_notify w = 0) (worker_array (sh s)) \<and>
     length (wthreads s) \<le> length (worker_array (sh s))"

lemma resting_at_rest: "resting s \<Longrightarrow> at_rest s"
  unfolding at_rest_def
proof (intro allI notI)
  fix t
  assume r: "resting s" and "can_step s t"
  then obtain s' where "sys_step s (Internal t) s'" by (auto simp: can_step_def)
  then show False using r by cases (auto simp: resting_def list_all_length)
qed

text \<open>The threads are fixed at the start.\<close>

lemma reachable_threads:
  "reachable nw ns nh s \<Longrightarrow> length (scheds s) = ns \<and> length (handlers s) = nh \<and> length (wthreads s) = nw"
proof (induction rule: reachable.induct)
  case start
  then show ?case by (simp add: sys_init_def)
next
  case (step s e s')
  from step.hyps(2) step.IH show ?case by cases auto
qed

lemma internal_run_scheds: "internal_run s n s' \<Longrightarrow> length (scheds s') = length (scheds s)"
  by (induction rule: internal_run.induct) (auto elim: sys_step.cases)

section \<open>Two executions\<close>

text \<open>
  First: two jobs of 14 units fill both workers; the first is posted and reported done
  while jobs of 10 and 12 units are waiting and queued. The scheduler looks for a fit for
  12 and the rescheduler for 10 before either has reserved anything.
\<close>

definition overcommit_moves :: "move list" where
  "overcommit_moves =
     Ask 0 (ReqSchedule 14) # steps (HandlerThread 0) 4 @ steps (SchedulerThread 0) 14 @
     Ask 0 (ReqSchedule 14) # steps (HandlerThread 0) 4 @ steps (SchedulerThread 0) 14 @
     steps (WorkerThread 0) 5 @
     Ask 0 (ReqSchedule 10) # steps (HandlerThread 0) 4 @ steps (SchedulerThread 0) 10 @
     Ask 0 (ReqSchedule 12) # steps (HandlerThread 0) 4 @
     Ask 1 (ReqDone 14 0) # steps (HandlerThread 1) 4 @
     steps (SchedulerThread 0) 7 @ steps ReschedulerThread 7 @
     steps (SchedulerThread 0) 3 @ steps ReschedulerThread 2"

text \<open>
  Second: both workers are busy with 14 units, the scheduler has just found no fit for a
  job of 10 units; before it reaches the waiting queue both workers report their jobs
  done, and the rescheduler finds nothing to reschedule, twice.
\<close>

definition lost_wakeup_moves :: "move list" where
  "lost_wakeup_moves =
     Ask 0 (ReqSchedule 14) # steps (HandlerThread 0) 4 @ steps (SchedulerThread 0) 14 @
     Ask 0 (ReqSchedule 14) # steps (HandlerThread 0) 4 @ steps (SchedulerThread 0) 14 @
     steps (WorkerThread 0) 5 @ steps (WorkerThread 1) 5 @
     Ask 0 (ReqSchedule 10) # steps (HandlerThread 0) 4 @ steps (SchedulerThread 0) 7 @
     Ask 1 (ReqDone 14 0) # steps (HandlerThread 1) 4 @
     Ask 1 (ReqDone 14 1) # steps (HandlerThread 1) 4 @
     steps ReschedulerThread 8 @ steps (SchedulerThread 0) 3"

definition outcome :: "move list \<Rightarrow> (sys \<Rightarrow> bool) \<Rightarrow> bool" where
  "outcome ms P = (case run (sys_init 2 1 6) ms of None \<Rightarrow> False | Some s \<Rightarrow> P s)"

lemma outcome_reachable:
  assumes "outcome ms P"
  obtains s where "run (sys_init 2 1 6) ms = Some s" and "reachable 2 1 6 s" and "P s"
  using assms run_reachable [OF _ reachable.start] by (auto simp: outcome_def split: option.splits)

lemma overcommit_outcome:
  "outcome overcommit_moves (\<lambda>s.
     map max_resources (worker_array (sh s)) = [15, 15] \<and>
     map current_resources (worker_array (sh s)) = [- 7, 1] \<and>
     delivered (sh s) = {#(0, 14)#} \<and>
     scheds s = [S_Dispatch D_AddLock 12 0] \<and> resched s = R_Dispatch D_ReserveUnlock 10 0)"
  by code_simp

lemma lost_wakeup_outcome:
  "outcome lost_wakeup_moves (\<lambda>s. resting s \<and>
     waiting_queue (the_pronto (sh s)) = [10] \<and>
     map current_resources (worker_array (sh s)) = [15, 15] \<and>
     pronto_best_current_fit (the_pronto (sh s)) 10 = 0 \<and>
     delivered (sh s) = {#(0, 14), (1, 14)#})"
  by code_simp

section \<open>Properties of every reachable state\<close>

text \<open>
  C5. No accepted job is lost or duplicated: in every reachable state the requests
  accepted by \<open>/schedule\<close> are, as a multiset, those in the job queue, the waiting queue
  and the workers' queues, those a thread has in its hands, those posted to a worker and
  those a dispatcher gave up on.
\<close>

theorem jobs_conserved:
  assumes "reachable nw ns nh s"
  shows "accepted (sh s) =
    mset (job_queue (the_pronto (sh s))) + mset (waiting_queue (the_pronto (sh s))) +
    worker_jobs (the_pronto (sh s)) +
    sum_list (map sched_carries (scheds s)) + resched_carries (resched s) +
    sum_list (map worker_carries (wthreads s)) +
    image_mset snd (delivered (sh s)) + dropped (sh s)"
  using soundD(5) [OF reachable_sound [OF assms]]
  by (simp add: conserved_def stored_def settled_def ac_simps)

theorem jobs_conserved_witness:
  "outcome overcommit_moves (\<lambda>s. accepted (sh s) =
    mset (job_queue (the_pronto (sh s))) + mset (waiting_queue (the_pronto (sh s))) +
    worker_jobs (the_pronto (sh s)) +
    sum_list (map sched_carries (scheds s)) + resched_carries (resched s) +
    sum_list (map worker_carries (wthreads s)) +
    image_mset snd (delivered (sh s)) + dropped (sh s))"
proof -
  from overcommit_outcome obtain s where "run (sys_init 2 1 6) overcommit_moves = Some s"
    and r: "reachable 2 1 6 s" by (rule outcome_reachable)
  then show ?thesis using jobs_conserved [OF r] by (simp add: outcome_def)
qed

text \<open>
  C6. Without new requests the service comes to rest, within \<open>work s\<close> steps whatever the
  interleaving, and once no thread can step every accepted job has left the job queue and
  the workers' queues: it is in the waiting queue, was posted to a worker, or was dropped
  after a failed post.
\<close>

theorem service_comes_to_rest:
  assumes "reachable nw ns nh s" and "0 < ns"
  shows "(\<exists>n s'. internal_run s n s' \<and> at_rest s') \<and>
    (\<forall>n s'. internal_run s n s' \<longrightarrow> n \<le> work s \<and>
      (at_rest s' \<longrightarrow> job_queue (the_pronto (sh s')) = [] \<and>
         (\<forall>w \<in> set (worker_array (sh s')). scheduler_jobs w = []) \<and>
         accepted (sh s') = mset (waiting_queue (the_pronto (sh s'))) +
           image_mset snd (delivered (sh s')) + dropped (sh s')))"
proof -
  note s = reachable_sound [OF assms(1)]
  have bound: "n \<le> work s" if "internal_run s n s'" for n s'
    using internal_run_bound [OF that s] by simp
  have rest: "job_queue (the_pronto (sh s')) = [] \<and>
      (\<forall>w \<in> set (worker_array (sh s')). scheduler_jobs w = []) \<and>
      accepted (sh s') = mset (waiting_queue (the_pronto (sh s'))) +
        image_mset snd (delivered (sh s')) + dropped (sh s')"
    if run: "internal_run s n s'" and r: "at_rest s'" for n s'
  proof -
    have "scheds s' \<noteq> []"
      using internal_run_scheds [OF run] reachable_threads [OF assms(1)] assms(2) by auto
    note q = rest_queues [OF internal_run_sound [OF run s] r this]
    show ?thesis using q(1,2) q(3) by (simp add: settled_def ac_simps)
  qed
  show ?thesis using comes_to_rest [OF s] bound rest by blast
qed

theorem service_comes_to_rest_witness:
  "outcome overcommit_moves (\<lambda>s. \<exists>n s'. internal_run s n s' \<and> at_rest s' \<and> n \<le> work s \<and>
     job_queue (the_pronto (sh s')) = [])"
proof -
  from overcommit_outcome obtain s where run: "run (sys_init 2 1 6) overcommit_moves = Some s"
    and r: "reachable 2 1 6 s" by (rule outcome_reachable)
  from service_comes_to_rest [OF r] run show ?thesis by (fastforce simp: outcome_def)
qed

text \<open>
  C7. No deadlock: whenever a thread is inside an operation (past the wait at the top of
  its loop), some thread can take a step.
\<close>

theorem no_deadlock:
  assumes "reachable nw ns nh s" and "busy s t"
  shows "\<exists>u s'. sys_step s (Internal u) s'"
  using sound_no_deadlock [OF reachable_sound [OF assms(1)] assms(2)] by (auto simp: can_step_def)

theorem no_deadlock_witness:
  "outcome overcommit_moves (\<lambda>s. busy s ReschedulerThread \<and> (\<exists>u s'. sys_step s (Internal u) s'))"
proof -
  from overcommit_outcome obtain s where run: "run (sys_init 2 1 6) overcommit_moves = Some s"
    and r: "reachable 2 1 6 s" and "resched s = R_Dispatch D_ReserveUnlock 10 0"
    by (rule outcome_reachable) (elim conjE, rule that)
  then have b: "busy s ReschedulerThread" by simp
  show ?thesis using no_deadlock [OF r b] b run by (simp add: outcome_def)
qed

text \<open>
  C9. The semaphores and the queues agree: a scheduler that was woken always finds a job
  (the branch that reports \<open>bug: scheduler was notified but no job was placed in the
  queue\<close> is never taken), a dispatcher that was woken never dequeues NULL, and the
  rescheduler never pops from an empty queue.
\<close>

theorem never_null_node:
  assumes "reachable nw ns nh s"
  shows "S_UnlockQ None \<notin> set (scheds s) \<and> resched s \<noteq> R_Crash \<and>
    W_Unlock None \<notin> set (wthreads s) \<and> W_Curl None \<notin> set (wthreads s) \<and>
    W_Crash \<notin> set (wthreads s)"
  using soundD(2) [OF reachable_sound [OF assms]] by (auto simp: pcs_ok_def)

theorem never_null_node_witness:
  "outcome overcommit_moves (\<lambda>s. W_Crash \<notin> set (wthreads s) \<and> S_UnlockQ None \<notin> set (scheds s))"
proof -
  from overcommit_outcome obtain s where "run (sys_init 2 1 6) overcommit_moves = Some s"
    and r: "reachable 2 1 6 s" by (rule outcome_reachable)
  then show ?thesis using never_null_node [OF r] by (simp add: outcome_def)
qed

text \<open>
  C8. Mutual exclusion: two threads are never both inside critical sections of the same
  mutex, and the recorded owner of a mutex is the thread inside.
\<close>

theorem mutual_exclusion:
  assumes "reachable nw ns nh s" and "m \<in> locks_of s t"
  shows "held (sh s) m = Some t \<and> (\<forall>u. m \<in> locks_of s u \<longrightarrow> u = t)"
proof -
  have iff: "held (sh s) m = Some u \<longleftrightarrow> m \<in> locks_of s u" for u
    using reachable_lock_inv [OF assms(1)] unfolding lock_inv_def by blast
  with assms(2) have t: "held (sh s) m = Some t" by blast
  moreover have "u = t" if "m \<in> locks_of s u" for u
    using that t by (simp flip: iff)
  ultimately show ?thesis by blast
qed

theorem mutual_exclusion_witness:
  "outcome overcommit_moves (\<lambda>s. WaitingMutex \<in> locks_of s ReschedulerThread \<and>
     held (sh s) WaitingMutex = Some ReschedulerThread)"
proof -
  from overcommit_outcome obtain s where run: "run (sys_init 2 1 6) overcommit_moves = Some s"
    and r: "reachable 2 1 6 s" and "resched s = R_Dispatch D_ReserveUnlock 10 0"
    by (rule outcome_reachable) (elim conjE, rule that)
  then have m: "WaitingMutex \<in> locks_of s ReschedulerThread" by simp
  show ?thesis using mutual_exclusion [OF r m] m run by (simp add: outcome_def)
qed

text \<open>
  C10. The capacity book-keeping: in every reachable state the cluster's current capacity
  is the sum of the workers' current resources (as 32-bit ints), and the job queue, the
  waiting queue and every worker's queue are in ascending order of the requests.
\<close>

theorem books_and_queues:
  assumes "reachable nw ns nh s"
  shows "current_capacity (the_pronto (sh s)) =
      sum_list (map (\<lambda>w. ucast (current_resources w)) (worker_array (sh s))) \<and>
    sorted (job_queue (the_pronto (sh s))) \<and> sorted (waiting_queue (the_pronto (sh s))) \<and>
    (\<forall>w \<in> set (worker_array (sh s)). sorted (scheduler_jobs w))"
proof -
  have "(\<lambda>w. ucast (current_resources w)) = resources32" by (simp add: fun_eq_iff resources32_def)
  then show ?thesis
    using soundD(6) [OF reachable_sound [OF assms]]
    by (simp add: tidy_def books_balanced_def queues_sorted_def)
qed

theorem books_and_queues_witness:
  "outcome overcommit_moves (\<lambda>s. current_capacity (the_pronto (sh s)) =
      sum_list (map (\<lambda>w. ucast (current_resources w)) (worker_array (sh s))))"
proof -
  from overcommit_outcome obtain s where "run (sys_init 2 1 6) overcommit_moves = Some s"
    and r: "reachable 2 1 6 s" by (rule outcome_reachable)
  then show ?thesis using books_and_queues [OF r] by (simp add: outcome_def)
qed

text \<open>
  C38. Resources can be promised twice: \<open>pronto_best_current_fit\<close> and
  \<open>pronto_reserve_capacity\<close> take the bookkeeper mutex separately, so the scheduler and the
  rescheduler can both settle on worker 0. In the configuration of config.h a state is
  reachable in which a worker of 15 units, after its only finished job was reported, has
  been assigned jobs of 12 and 10 units and its counter has wrapped around to \<open>2^64 - 7\<close>.
\<close>

theorem overcommit_reachable:
  "\<exists>s. reachable 2 1 6 s \<and> delivered (sh s) = {#(0, 14)#} \<and>
     scheds s = [S_Dispatch D_AddLock 12 0] \<and> resched s = R_Dispatch D_ReserveUnlock 10 0 \<and>
     max_resources (worker_array (sh s) ! 0) = 15 \<and>
     unat (current_resources (worker_array (sh s) ! 0)) = 2 ^ 64 - 7"
proof -
  obtain s where r: "reachable 2 1 6 s"
    and s: "map max_resources (worker_array (sh s)) = [15, 15] \<and>
      map current_resources (worker_array (sh s)) = [- 7, 1] \<and>
      delivered (sh s) = {#(0, 14)#} \<and>
      scheds s = [S_Dispatch D_AddLock 12 0] \<and> resched s = R_Dispatch D_ReserveUnlock 10 0"
    by (rule outcome_reachable [OF overcommit_outcome])
  have "max_resources (worker_array (sh s) ! 0) = 15 \<and>
      current_resources (worker_array (sh s) ! 0) = - 7"
    using s by (cases "worker_array (sh s)") simp_all
  moreover have "unat (- 7 :: u64) = 2 ^ 64 - 7" by simp
  ultimately have "max_resources (worker_array (sh s) ! 0) = 15 \<and>
      unat (current_resources (worker_array (sh s) ! 0)) = 2 ^ 64 - 7" by argo
  with r s show ?thesis by blast
qed

text \<open>
  C39. A waiting job can be stranded: the scheduler looks for a fit and adds the job to the
  waiting queue in separate critical sections, and the notifications in between are used
  up. In the configuration of config.h a state is reachable in which all posted jobs have
  been reported done, both workers are entirely free, no thread can step, and a job that
  fits worker 0 sits in the waiting queue.
\<close>

theorem waiting_job_stranded:
  "\<exists>s. reachable 2 1 6 s \<and> at_rest s \<and> waiting_queue (the_pronto (sh s)) = [10] \<and>
     pronto_best_current_fit (the_pronto (sh s)) 10 = 0 \<and>
     map current_resources (worker_array (sh s)) = [15, 15] \<and>
     delivered (sh s) = {#(0, 14), (1, 14)#}"
proof -
  obtain s where r: "reachable 2 1 6 s" and s: "resting s \<and>
      waiting_queue (the_pronto (sh s)) = [10] \<and>
      map current_resources (worker_array (sh s)) = [15, 15] \<and>
      pronto_best_current_fit (the_pronto (sh s)) 10 = 0 \<and>
      delivered (sh s) = {#(0, 14), (1, 14)#}"
    by (rule outcome_reachable [OF lost_wakeup_outcome])
  then have "at_rest s" using resting_at_rest by blast
  with r s show ?thesis by (elim conjE) (intro exI [of _ s] conjI; assumption)
qed

end
