(* ===== verification/CJson_Parse_Safety.thy ===== *)
theory CJson_Parse_Safety
  imports CJson_Parse
begin

text \<open>
  The parser stays inside its input when the last byte of the input is NUL, as it is for
  every call the service makes: no read leaves the block, the unescaped text fits the
  memory allocated for it, and the recursion needs no more fuel than \<open>parse_fuel\<close> gives.
\<close>

section \<open>Well-formed buffers\<close>

definition good :: "parse_buffer \<Rightarrow> bool" where
  "good b \<longleftrightarrow> pb_offset b < pb_length b \<and> pb_length b \<le> length (pb_content b) \<and>
     pb_content b ! (pb_length b - 1) = NUL"

definition here :: "parse_buffer \<Rightarrow> char" where
  "here b = pb_content b ! pb_offset b"

text \<open>\<open>follows b b'\<close>: the same input, not before the old position.\<close>

definition follows :: "parse_buffer \<Rightarrow> parse_buffer \<Rightarrow> bool" where
  "follows b b' \<longleftrightarrow> pb_content b' = pb_content b \<and> pb_length b' = pb_length b"

lemma follows_refl [simp]: "follows b b"
  by (simp add: follows_def)

lemma follows_trans: "follows a b \<Longrightarrow> follows b c \<Longrightarrow> follows a c"
  by (simp add: follows_def)

lemma follows_update [simp]:
  "follows a (b\<lparr>pb_offset := p\<rparr>) = follows a b"
  "follows a (b\<lparr>pb_allocs := oks\<rparr>) = follows a b"
  "follows a (b\<lparr>pb_depth := d\<rparr>) = follows a b"
  "follows a (forward n b) = follows a b"
  by (simp_all add: follows_def forward_def)

lemma forward_fields [simp]:
  "pb_offset (forward n b) = pb_offset b + n" "pb_length (forward n b) = pb_length b"
  "pb_content (forward n b) = pb_content b"
  by (simp_all add: forward_def)

lemma good_cong:
  "follows b b' \<Longrightarrow> good b \<Longrightarrow> pb_offset b' < pb_length b \<Longrightarrow> good b'"
  by (simp add: good_def follows_def)

lemma good_follows: "follows b b' \<Longrightarrow> good b \<Longrightarrow> good b' \<longleftrightarrow> pb_offset b' < pb_length b'"
  by (auto simp: good_def follows_def)

lemma good_access: "good b \<Longrightarrow> can_access_at_index b 0"
  by (simp add: good_def can_access_at_index_def)

lemma peek_good: "good b \<Longrightarrow> p < pb_length b \<Longrightarrow> peek_at b p = Inr (pb_content b ! p)"
  by (simp add: good_def peek_at_def)

lemma peek_here: "good b \<Longrightarrow> peek_at b (pb_offset b) = Inr (here b)"
  by (simp add: peek_good here_def good_def)

lemma next_is_good: "good b \<Longrightarrow> next_is c b = Inr (here b = c)"
  by (simp add: next_is_def good_access peek_here)

text \<open>Past a byte that is not the NUL at the end there is another byte.\<close>

lemma not_last:
  assumes "good b" and "p < pb_length b" and "pb_content b ! p \<noteq> NUL"
  shows "p + 1 < pb_length b"
proof -
  have "p \<noteq> pb_length b - 1" using assms by (auto simp: good_def)
  with assms(2) show ?thesis by linarith
qed

lemma good_forward: "good b \<Longrightarrow> here b \<noteq> NUL \<Longrightarrow> good (forward 1 b)"
  using not_last [of b "pb_offset b"] by (auto simp: good_def here_def)

lemma skip_blanks_good:
  "good b \<Longrightarrow> \<exists>q. skip_blanks b p = Inr q \<and> p \<le> q \<and> (p \<le> pb_length b \<longrightarrow> q \<le> pb_length b)"
proof (induction b p rule: skip_blanks.induct)
  case (1 b p)
  show ?case
  proof (cases "p < pb_length b \<and> of_char (pb_content b ! p) \<le> (32 :: nat)")
    case True
    then obtain q where "skip_blanks b (Suc p) = Inr q" "Suc p \<le> q" "q \<le> pb_length b"
      using 1 peek_good by fastforce
    with True 1(2) show ?thesis by (subst skip_blanks.simps) (simp add: peek_good)
  next
    case False
    then show ?thesis using 1(2) by (subst skip_blanks.simps) (auto simp: peek_good)
  qed
qed

lemma skip_good:
  assumes "good b"
  shows "\<exists>b'. buffer_skip_whitespace b = Inr b' \<and> follows b b' \<and> good b' \<and>
    pb_offset b \<le> pb_offset b' \<and> pb_allocs b' = pb_allocs b \<and> pb_depth b' = pb_depth b"
proof -
  obtain q where q: "skip_blanks b (pb_offset b) = Inr q" "pb_offset b \<le> q" "q \<le> pb_length b"
    using skip_blanks_good [OF assms, of "pb_offset b"] assms by (auto simp: good_def)
  let ?b' = "b\<lparr>pb_offset := if q = pb_length b then q - 1 else q\<rparr>"
  have "buffer_skip_whitespace b = Inr ?b'"
    using q(1) good_access [OF assms] by (simp add: buffer_skip_whitespace_def)
  moreover have "good ?b'" and "pb_offset b \<le> pb_offset ?b'"
    using assms q(2,3) by (auto simp: good_def)
  ultimately show ?thesis by force
qed

section \<open>Literals and numbers\<close>

lemma text_at_good:
  "good b \<Longrightarrow> p + length s \<le> pb_length b \<Longrightarrow>
   \<exists>r. text_at b p s = Inr r \<and> (r \<longrightarrow> (\<forall>i < length s. pb_content b ! (p + i) = s ! i))"
proof (induction s arbitrary: p)
  case Nil
  then show ?case by auto
next
  case (Cons c s)
  have "Suc p + length s \<le> pb_length b" using Cons.prems(2) by simp
  from Cons.IH [OF Cons.prems(1) this] obtain r where r: "text_at b (Suc p) s = Inr r"
    "r \<longrightarrow> (\<forall>i < length s. pb_content b ! (Suc p + i) = s ! i)" by blast
  have "peek_at b p = Inr (pb_content b ! p)" using Cons.prems by (simp add: peek_good)
  then show ?case using r by (auto simp: less_Suc_eq_0_disj)
qed

lemma after_clean:
  assumes "good b" and "pb_offset b + length s \<le> pb_length b" and "NUL \<notin> set s"
    and "\<forall>i < length s. pb_content b ! (pb_offset b + i) = s ! i"
  shows "pb_offset b + length s < pb_length b"
proof (rule ccontr)
  assume "\<not> ?thesis"
  with assms(2) have eq: "pb_offset b + length s = pb_length b" by simp
  with assms(1) have ne: "s \<noteq> []" by (auto simp: good_def)
  then have "pb_content b ! (pb_offset b + (length s - 1)) = s ! (length s - 1)"
    using assms(4) by simp
  moreover have "pb_offset b + (length s - 1) = pb_length b - 1" using eq ne by (cases s) auto
  ultimately have "s ! (length s - 1) = NUL" using assms(1) by (simp add: good_def)
  then show False using assms(3) ne by (metis last_conv_nth last_in_set)
qed

lemma literal_good:
  assumes "good b" and "NUL \<notin> set s"
  shows "\<exists>r. literal_at b s = Inr r \<and> (r \<longrightarrow> pb_offset b + length s < pb_length b)"
  using text_at_good [OF assms(1), of "pb_offset b" s] after_clean [OF assms(1) _ assms(2)]
  by (auto simp: literal_at_def can_read_def)

lemma value_kind_good:
  assumes "good b"
  shows "\<exists>k. value_kind_at b = Inr k \<and>
    (case k of Literal t len \<Rightarrow> 0 < len \<and> pb_offset b + len < pb_length b
     | NoValue \<Rightarrow> True | _ \<Rightarrow> k = kind_of_char (here b))"
proof -
  obtain n where n: "literal_at b ''null'' = Inr n" "n \<longrightarrow> pb_offset b + 4 < pb_length b"
    using literal_good [OF assms, of "''null''"] by auto
  obtain f where f: "literal_at b ''false'' = Inr f" "f \<longrightarrow> pb_offset b + 5 < pb_length b"
    using literal_good [OF assms, of "''false''"] by auto
  obtain t where t: "literal_at b ''true'' = Inr t" "t \<longrightarrow> pb_offset b + 4 < pb_length b"
    using literal_good [OF assms, of "''true''"] by auto
  show ?thesis
    using n f t good_access [OF assms] peek_here [OF assms]
    by (auto simp: value_kind_at_def kind_of_char_def split: value_kind.splits)
qed

lemma number_text_good:
  assumes "good b"
  shows "pb_offset b + i \<le> pb_length b \<Longrightarrow> \<exists>s. number_text b k i = Inr s \<and>
    pb_offset b + i + length s \<le> pb_length b \<and> NUL \<notin> set s \<and>
    (\<forall>j < length s. pb_content b ! (pb_offset b + i + j) = s ! j)"
proof (induction k arbitrary: i)
  case 0
  then show ?case by simp
next
  case (Suc k)
  let ?c = "pb_content b ! (pb_offset b + i)"
  show ?case
  proof (cases "can_access_at_index b i \<and> number_char ?c")
    case True
    then obtain s where s: "number_text b k (Suc i) = Inr s"
      "pb_offset b + Suc i + length s \<le> pb_length b" "NUL \<notin> set s"
      "\<forall>j < length s. pb_content b ! (pb_offset b + Suc i + j) = s ! j"
      using Suc.IH [of "Suc i"] by (auto simp: can_access_at_index_def)
    have "?c \<noteq> NUL" using True by (auto simp: number_char_def is_digit_def)
    moreover have "peek_at b (pb_offset b + i) = Inr ?c"
      using True by (simp add: peek_good [OF assms] can_access_at_index_def)
    ultimately show ?thesis using s True
      by (intro exI [of _ "?c # s"]) (auto simp: less_Suc_eq_0_disj)
  next
    case False
    then show ?thesis using Suc.prems
      by (auto simp: peek_good [OF assms] can_access_at_index_def)
  qed
qed

lemma takeWhile_dropWhile_length: "length (takeWhile P s) + length (dropWhile P s) = length s"
  by (metis length_append takeWhile_dropWhile_id)

lemma strtod_exponent_used: "snd (strtod_exponent s) \<le> length s"
proof (cases s)
  case Nil
  then show ?thesis by (simp add: strtod_exponent_def)
next
  case (Cons c r)
  have "length (takeWhile is_digit r) \<le> length r" and
    "length (takeWhile is_digit (tl r)) \<le> length r - 1"
    using length_takeWhile_le [of is_digit "tl r"] by (auto simp: length_takeWhile_le)
  then show ?thesis using Cons
    by (cases r) (auto simp: strtod_exponent_def Let_def)
qed

lemma strtod_used: "snd (strtod s) \<le> length s"
proof -
  define signed where "signed = (case s of c # _ \<Rightarrow> c = CHR ''+'' \<or> c = CHR ''-'' | [] \<Rightarrow> False)"
  define s1 where "s1 = (if signed then tl s else s)"
  define s2 where "s2 = dropWhile is_digit s1"
  define point where "point = (case s2 of c # _ \<Rightarrow> c = CHR ''.'' | [] \<Rightarrow> False)"
  define s3 where "s3 = (if point then dropWhile is_digit (tl s2) else s2)"
  have 1: "(if signed then 1 else 0) + length s1 = length s"
    by (cases s) (auto simp: signed_def s1_def)
  have 2: "length (takeWhile is_digit s1) + length s2 = length s1"
    unfolding s2_def by (rule takeWhile_dropWhile_length)
  have 3: "(if point then 1 else 0) +
      length (if point then takeWhile is_digit (tl s2) else []) + length s3 = length s2"
    using takeWhile_dropWhile_length [of is_digit "tl s2"]
    by (cases s2) (auto simp: point_def s3_def)
  have "snd (strtod s) \<le> (if signed then 1 else 0) + length (takeWhile is_digit s1) +
      (if point then 1 else 0) + length (if point then takeWhile is_digit (tl s2) else []) +
      snd (strtod_exponent s3)"
    unfolding strtod_def Let_def signed_def [symmetric] s1_def [symmetric] s2_def [symmetric]
      point_def [symmetric] s3_def [symmetric]
    by (simp split: prod.splits)
  with 1 2 3 strtod_exponent_used [of s3] show ?thesis by linarith
qed

lemma round_double_number: "round_double q \<noteq> NaN"
  by (simp add: round_double_def Let_def)

lemma strtod_number: "fst (strtod s) \<noteq> NaN"
  by (simp add: strtod_def Let_def round_double_number split: prod.splits)

lemma saturated_int_number: "d \<noteq> NaN \<Longrightarrow> \<exists>i. saturated_int d = Inr i"
  by (cases d) (auto simp: saturated_int_def)

lemma parse_number_good:
  assumes "good b"
  shows "\<exists>r b'. parse_number item b = Inr (r, b') \<and> follows b b' \<and> good b' \<and>
    pb_offset b \<le> pb_offset b' \<and> (r \<noteq> None \<longrightarrow> pb_offset b < pb_offset b')"
proof -
  obtain s where s: "number_text b 63 0 = Inr s" "pb_offset b + length s \<le> pb_length b"
    "NUL \<notin> set s" "\<forall>j < length s. pb_content b ! (pb_offset b + j) = s ! j"
    using number_text_good [OF assms, of 0 63] assms by (auto simp: good_def)
  have lt: "pb_offset b + length s < pb_length b" by (rule after_clean [OF assms s(2-4)])
  obtain number used where d: "strtod s = (number, used)" by (cases "strtod s")
  have used: "used \<le> length s" using strtod_used [of s] d by simp
  obtain i where i: "saturated_int number = Inr i"
    using strtod_number [of s] d saturated_int_number by auto
  have "good (forward used b)"
    using assms used lt by (auto simp: good_def)
  then show ?thesis using s(1) d i assms by (cases "used = 0") (simp_all add: parse_number_def)
qed

section \<open>Strings\<close>

text \<open>
  The scan for the closing quote skips the byte after a backslash. \<open>S\<close> is the set of the
  backslashes it saw; no two of them are adjacent, and there are as many as bytes skipped.
\<close>

definition escapes :: "parse_buffer \<Rightarrow> nat \<Rightarrow> nat \<Rightarrow> nat set \<Rightarrow> bool" where
  "escapes b p e S \<longleftrightarrow> S \<subseteq> {p..<e} \<and>
     (\<forall>s \<in> S. pb_content b ! s = CHR 0x5C \<and> Suc s \<notin> S \<and> Suc s < e)"

lemma find_string_end_good:
  "good b \<Longrightarrow> p \<le> pb_length b \<Longrightarrow> \<exists>r. find_string_end b p skipped = Inr r \<and>
     (case r of None \<Rightarrow> True
      | Some (e, k) \<Rightarrow> p \<le> e \<and> e < pb_length b \<and> pb_content b ! e = CHR 0x22 \<and>
          (\<exists>S. escapes b p e S \<and> k = skipped + card S))"
proof (induction b p skipped rule: find_string_end.induct)
  case (1 b p skipped)
  let ?c = "pb_content b ! p"
  consider (out) "pb_length b \<le> p" | (quote) "p < pb_length b" "?c = CHR 0x22"
    | (last) "p < pb_length b" "?c = CHR 0x5C" "pb_length b \<le> p + 1"
    | (escape) "p < pb_length b" "?c = CHR 0x5C" "p + 1 < pb_length b"
    | (plain) "p < pb_length b" "?c \<noteq> CHR 0x22" "?c \<noteq> CHR 0x5C" by linarith
  then show ?case
  proof cases
    case out
    then show ?thesis by (subst find_string_end.simps) simp
  next
    case quote
    then have "find_string_end b p skipped = Inr (Some (p, skipped))"
      using 1(3) by (subst find_string_end.simps) (simp add: peek_good)
    moreover have "escapes b p p {}" by (simp add: escapes_def)
    ultimately show ?thesis using quote by (auto intro!: exI [of _ "{}"])
  next
    case last
    then show ?thesis using 1(3) by (subst find_string_end.simps) (simp add: peek_good)
  next
    case escape
    have step: "find_string_end b p skipped = find_string_end b (p + 2) (Suc skipped)"
      using escape 1(3) by (subst find_string_end.simps) (simp add: peek_good)
    have "p + 2 \<le> pb_length b" and "\<not> pb_length b \<le> p + 1" using escape(3) by simp_all
    from 1(1) [OF escape(1) _ escape(2) this(2) 1(3) this(1)] escape(2)
    obtain r where r: "find_string_end b (p + 2) (Suc skipped) = Inr r"
      "case r of None \<Rightarrow> True | Some (e, k) \<Rightarrow> p + 2 \<le> e \<and> e < pb_length b \<and>
         pb_content b ! e = CHR 0x22 \<and> (\<exists>S. escapes b (p + 2) e S \<and> k = Suc skipped + card S)"
      by auto
    show ?thesis
    proof (cases r)
      case None
      then show ?thesis using step r by simp
    next
      case (Some ek)
      then obtain e k S where ek: "r = Some (e, k)" "p + 2 \<le> e" "e < pb_length b"
        "pb_content b ! e = CHR 0x22" and S: "escapes b (p + 2) e S" "k = Suc skipped + card S"
        using r(2) by (cases ek) auto
      have "finite S" and "p \<notin> S" and "Suc p \<notin> S"
        using S(1) by (auto simp: escapes_def intro: finite_subset)
      then have "escapes b p e (insert p S)" and "k = skipped + card (insert p S)"
        using S escape(2) ek(2) by (auto simp: escapes_def)
      then show ?thesis using step r(1) ek by auto
    qed
  next
    case plain
    have step: "find_string_end b p skipped = find_string_end b (p + 1) skipped"
      using plain 1(3) by (subst find_string_end.simps) (simp add: peek_good)
    have "p + 1 \<le> pb_length b" using plain(1) by simp
    from 1(2) [OF plain(1) plain(2) plain(3) 1(3) this]
    obtain r where r: "find_string_end b (p + 1) skipped = Inr r"
      "case r of None \<Rightarrow> True | Some (e, k) \<Rightarrow> p + 1 \<le> e \<and> e < pb_length b \<and>
         pb_content b ! e = CHR 0x22 \<and> (\<exists>S. escapes b (p + 1) e S \<and> k = skipped + card S)"
      by blast
    have "escapes b p e S" if "escapes b (p + 1) e S" for e S
      using that by (auto simp: escapes_def)
    then show ?thesis using step r by (fastforce split: option.splits)
  qed
qed

text \<open>At most every other place of a window holds such a backslash.\<close>

definition seen :: "nat set \<Rightarrow> nat \<Rightarrow> nat" where
  "seen S p = card (S \<inter> {..<p})"

lemma seen_Suc: "seen S (Suc p) = seen S p + (if p \<in> S then 1 else 0)"
  by (auto simp: seen_def lessThan_Suc Int_insert_right)

lemma seen_two:
  assumes "\<forall>s \<in> S. Suc s \<notin> S"
  shows "seen S (p + 2) \<le> seen S p + 1"
proof -
  have "\<not> (p \<in> S \<and> Suc p \<in> S)" using assms by blast
  then show ?thesis using seen_Suc [of S p] seen_Suc [of S "Suc p"] by (auto simp: numeral_2_eq_2)
qed

lemma seen_even:
  assumes "\<forall>s \<in> S. Suc s \<notin> S"
  shows "seen S (p + 2 * n) \<le> seen S p + n"
proof (induction n)
  case 0
  then show ?case by simp
next
  case (Suc n)
  have "p + 2 * Suc n = (p + 2 * n) + 2" by simp
  then have "seen S (p + 2 * Suc n) \<le> seen S (p + 2 * n) + 1"
    using seen_two [OF assms, of "p + 2 * n"] by metis
  with Suc show ?case by linarith
qed

lemma seen_rest:
  assumes "S \<subseteq> {..<e}" and "p \<le> e"
  shows "card S \<le> seen S p + (e - p)"
proof -
  have "S = (S \<inter> {..<p}) \<union> (S \<inter> {p..<e})" using assms by auto
  moreover have "finite S" using assms(1) finite_subset by blast
  ultimately have "card S \<le> card (S \<inter> {..<p}) + card (S \<inter> {p..<e})"
    by (metis card_Un_le)
  moreover have "card (S \<inter> {p..<e}) \<le> e - p"
    by (metis card_atLeastLessThan card_mono finite_atLeastLessThan inf_le2)
  ultimately show ?thesis by (simp add: seen_def)
qed

lemma utf8_tail_length: "length (snd (utf8_tail k codepoint out)) = k + length out"
  by (induction k codepoint out rule: utf8_tail.induct) simp_all

lemma utf8_bytes_length:
  "utf8_bytes codepoint = Some bytes \<Longrightarrow> length bytes \<le> (if codepoint < 0x10000 then 3 else 4)"
  using utf8_tail_length [of 1 codepoint "[]"] utf8_tail_length [of 2 codepoint "[]"]
    utf8_tail_length [of 3 codepoint "[]"]
  by (auto simp: utf8_bytes_def split: if_splits prod.splits)

lemma unat_of_nat_le: "unat (of_nat m :: u32) \<le> m"
  by (simp add: unat_of_nat)

lemma hex_digit_le:
  assumes "hex_digit c = Some d"
  shows "unat d \<le> 15"
proof -
  from assms obtain m where "d = of_nat m" "m \<le> 15"
    by (fastforce simp: hex_digit_def Let_def simp del: of_nat_diff split: if_splits)
  then show ?thesis using unat_of_nat_le [of m] by simp
qed

lemma push_nibble: "unat (x :: u32) \<le> 65535 \<Longrightarrow> unat (push_bit 4 x) = 16 * unat x"
  by (simp add: push_bit_eq_mult unat_mult_lem [THEN iffD1])

lemma parse_hex4_loop_good:
  assumes "good b"
  shows "p + k \<le> pb_length b \<Longrightarrow> k \<le> 4 \<Longrightarrow> unat h + (if k = 0 then 1 else 16) \<le> 16 ^ (if k = 0 then 4 else 5 - k) \<Longrightarrow>
    \<exists>h'. parse_hex4_loop b p k h = Inr h' \<and> unat h' < 16 ^ 4"
proof (induction k arbitrary: p h)
  case 0
  then show ?case by simp
next
  case (Suc k)
  have peek: "peek_at b p = Inr (pb_content b ! p)" using Suc.prems(1) assms by (simp add: peek_good)
  show ?case
  proof (cases "hex_digit (pb_content b ! p)")
    case None
    then show ?thesis using peek by simp
  next
    case (Some d)
    then have d: "unat d \<le> 15" by (rule hex_digit_le)
    have pow: "16 ^ (4 - k) \<le> (16 :: nat) ^ 4" by (rule power_increasing) simp_all
    then have bound: "unat h + 16 \<le> 65536" using Suc.prems(3) by simp
    have sum: "unat (h + d) = unat h + unat d"
      using bound d by (subst unat_add_lem [THEN iffD1]) simp_all
    show ?thesis
    proof (cases k)
      case 0
      then show ?thesis using peek Some sum d Suc.prems(3) by simp
    next
      case (Suc j)
      have "unat (push_bit 4 (h + d)) = 16 * unat (h + d)"
        using bound d sum by (intro push_nibble) simp
      moreover have "16 * (unat h + 16) \<le> 16 * 16 ^ (4 - k)" using Suc.prems(3) by simp
      moreover have "16 * 16 ^ (4 - k) = (16 :: nat) ^ (5 - k)"
        using Suc.prems(2) Suc by (simp flip: power_Suc add: Suc_diff_le)
      moreover have "16 * unat (h + d) + 16 \<le> 16 * (unat h + 16)" using sum d by simp
      ultimately have "unat (push_bit 4 (h + d)) + 16 \<le> 16 ^ (5 - k)" by (simp only:)
      then have "\<exists>h'. parse_hex4_loop b (Suc p) k (push_bit 4 (h + d)) = Inr h' \<and> unat h' < 16 ^ 4"
        using Suc.IH [of "Suc p" "push_bit 4 (h + d)"] Suc.prems Suc by simp
      then show ?thesis using peek Some Suc by simp
    qed
  qed
qed

lemma parse_hex4_good:
  "good b \<Longrightarrow> p + 4 \<le> pb_length b \<Longrightarrow> \<exists>h. parse_hex4 b p = Inr h \<and> unat h < 65536"
  using parse_hex4_loop_good [of b p 4 0] by (simp add: parse_hex4_def)

lemma utf8_short:
  assumes "unat (h :: u32) < 65536" and "utf8_bytes (ucast h) = Some bytes"
  shows "length bytes \<le> 3"
proof -
  have "(ucast h :: u64) < 0x10000" using assms(1) by (simp add: word_less_nat_alt)
  then show ?thesis using utf8_bytes_length [OF assms(2)] by simp
qed

lemma utf16_good:
  assumes "good b" and "e < pb_length b"
  shows "\<exists>r. utf16_literal_to_utf8 b p e = Inr r \<and>
    (case r of None \<Rightarrow> True
     | Some (bytes, len) \<Rightarrow> (len = 6 \<or> len = 12) \<and> p + len \<le> e \<and> 2 * length bytes \<le> len)"
proof (cases "e < p + 6")
  case True
  then show ?thesis by (simp add: utf16_literal_to_utf8_def)
next
  case False
  then obtain first where f: "parse_hex4 b (p + 2) = Inr first" "unat first < 65536"
    using parse_hex4_good [OF assms(1), of "p + 2"] assms(2) by auto
  have one: "2 * length bytes \<le> 6" if "utf8_bytes (ucast first) = Some bytes" for bytes
    using utf8_short [OF f(2) that] by simp
  have two: "2 * length bytes \<le> 12" if "utf8_bytes cp = Some bytes" for cp bytes
    using utf8_bytes_length [OF that] by (simp split: if_splits)
  show ?thesis
  proof (cases "0xD800 \<le> first \<and> first \<le> 0xDBFF \<and> p + 12 \<le> e")
    case False
    with \<open>\<not> e < p + 6\<close> f one show ?thesis
      by (auto simp: utf16_literal_to_utf8_def split: option.splits)
  next
    case True
    then obtain second where s: "parse_hex4 b (p + 8) = Inr second"
      using parse_hex4_good [OF assms(1), of "p + 8"] assms(2) by auto
    have "peek_at b (p + 6) = Inr (pb_content b ! (p + 6))"
      and "peek_at b (p + 7) = Inr (pb_content b ! (p + 7))"
      using True assms by (simp_all add: peek_good)
    with \<open>\<not> e < p + 6\<close> True f s two show ?thesis
      by (auto simp: utf16_literal_to_utf8_def split: option.splits)
  qed
qed

text \<open>
  The output never holds more bytes than the input read so far without the escaping
  backslashes, so it fits the room that \<open>parse_string\<close> allocates.
\<close>

lemma room_fits:
  assumes S: "escapes b start e S" and p: "start \<le> p" "p \<le> e + 1" and start: "start \<le> e"
    and out: "n + seen S p \<le> p - start"
  shows "n + 1 \<le> e - start + 2 - card S"
proof -
  have sub: "S \<subseteq> {..<e}" using S by (auto simp: escapes_def)
  have "card S \<le> e - start"
    using S card_mono [of "{start..<e}" S] by (auto simp: escapes_def)
  moreover have "card S \<le> seen S p + (e - p)"
  proof (cases "p \<le> e")
    case True
    then show ?thesis by (rule seen_rest [OF sub])
  next
    case False
    then have "S \<inter> {..<p} = S" using sub by auto
    then show ?thesis by (simp add: seen_def)
  qed
  ultimately show ?thesis using out p start by linarith
qed

lemma push_fits: "length out + length xs \<le> room \<Longrightarrow> push room out xs = Inr (out @ xs)"
  by (simp add: push_def)

lemma unescape_good:
  assumes b: "good b" and e: "e < pb_length b" "pb_content b ! e = CHR 0x22"
    and S: "escapes b start e S" and start: "start \<le> e"
  shows "start \<le> p \<Longrightarrow> p \<le> e + 1 \<Longrightarrow> length out + seen S p \<le> p - start \<Longrightarrow>
    \<exists>q r. unescape b (e - start + 2 - card S) e p out = Inr (q, r)"
proof (induction "e + 2 - p" arbitrary: p out rule: less_induct)
  case less
  let ?room = "e - start + 2 - card S" and ?c = "pb_content b ! p"
  have apart: "\<forall>s \<in> S. Suc s \<notin> S" using S by (simp add: escapes_def)
  have step: "\<exists>q r. and_then (push ?room out xs) (\<lambda>out'. unescape b ?room e (p + m) out') = Inr (q, r)"
    if m: "0 < m" "p + m \<le> e + 1" "length xs + (seen S (p + m) - seen S p) \<le> m" for xs m
  proof -
    have "length (out @ xs) + seen S (p + m) \<le> (p + m) - start"
      using m(3) less.prems by simp
    moreover have "start \<le> p + m" using less.prems by simp
    ultimately have "push ?room out xs = Inr (out @ xs)" and
      "\<exists>q r. unescape b ?room e (p + m) (out @ xs) = Inr (q, r)"
      using room_fits [OF S _ m(2) start, of "length (out @ xs)"] less.hyps [of "p + m" "out @ xs"] m
      by (auto intro!: push_fits)
    then show ?thesis by simp
  qed
  consider (stop) "e \<le> p" | (plain) "p < e" "?c \<noteq> CHR 0x5C" | (escape) "p < e" "?c = CHR 0x5C"
    by linarith
  then show ?case
  proof cases
    case stop
    then show ?thesis
      using room_fits [OF S less.prems(1,2) start less.prems(3)]
      by (subst unescape.simps) (simp add: push_fits)
  next
    case plain
    have "p \<notin> S" using plain(2) S by (auto simp: escapes_def)
    then have "\<exists>q r. and_then (push ?room out [?c]) (\<lambda>out'. unescape b ?room e (p + 1) out') = Inr (q, r)"
      using plain by (intro step) (simp_all add: seen_Suc)
    moreover have "peek_at b p = Inr ?c" using plain e b by (simp add: peek_good)
    ultimately show ?thesis using plain by (subst unescape.simps) simp
  next
    case escape
    let ?d = "pb_content b ! (p + 1)"
    have peeks: "peek_at b p = Inr ?c" "peek_at b (p + 1) = Inr ?d"
      using escape e b by (simp_all add: peek_good)
    have two: "\<exists>q r. and_then (push ?room out [x]) (\<lambda>out'. unescape b ?room e (p + 2) out') = Inr (q, r)" for x
      using escape seen_two [OF apart, of p] by (intro step) simp_all
    obtain r where r: "utf16_literal_to_utf8 b p e = Inr r"
      "case r of None \<Rightarrow> True
       | Some (bytes, len) \<Rightarrow> (len = 6 \<or> len = 12) \<and> p + len \<le> e \<and> 2 * length bytes \<le> len"
      using utf16_good [OF b e(1)] by blast
    have long: "\<exists>q r. and_then (push ?room out bytes) (\<lambda>out'. unescape b ?room e (p + len) out') = Inr (q, r)"
      if "len = 6 \<or> len = 12" "p + len \<le> e" "2 * length bytes \<le> len" for bytes len
      using that seen_even [OF apart, of p 3] seen_even [OF apart, of p 6] by (intro step) auto
    show ?thesis
    proof (cases "simple_escape ?d")
      case (Some x)
      then show ?thesis using two [of x] peeks escape by (subst unescape.simps) simp
    next
      case None
      then show ?thesis
      proof (cases r)
        case None': None
        then show ?thesis using None peeks escape r by (subst unescape.simps) simp
      next
        case (Some bl)
        then obtain bytes len where bl: "r = Some (bytes, len)" by (cases bl) auto
        with r(2) have l: "len = 6 \<or> len = 12" "p + len \<le> e" "2 * length bytes \<le> len" by auto
        have "max 1 len = len" using l(1) by auto
        then show ?thesis using None peeks escape r(1) bl long [OF l]
          by (subst unescape.simps) simp
      qed
    qed
  qed
qed

lemma peek_at_allocs [simp]: "peek_at (b\<lparr>pb_allocs := oks\<rparr>) p = peek_at b p"
  by (simp add: peek_at_def)

lemma good_allocs [simp]: "good (b\<lparr>pb_allocs := oks\<rparr>) = good b"
  by (simp add: good_def)

lemma parse_string_good:
  assumes "good b"
  shows "\<exists>r b'. parse_string item b = Inr (r, b') \<and> follows b b' \<and>
    (r \<noteq> None \<longrightarrow> good b' \<and> pb_offset b < pb_offset b')"
proof (cases "here b = CHR 0x22")
  case False
  then show ?thesis using peek_here [OF assms] by (simp add: parse_string_def)
next
  case True
  let ?start = "pb_offset b + 1"
  obtain x where x: "find_string_end b ?start 0 = Inr x"
    "case x of None \<Rightarrow> True
     | Some (e, k) \<Rightarrow> ?start \<le> e \<and> e < pb_length b \<and> pb_content b ! e = CHR 0x22 \<and>
         (\<exists>S. escapes b ?start e S \<and> k = 0 + card S)"
    using find_string_end_good [OF assms, of ?start 0] assms by (auto simp: good_def)
  show ?thesis
  proof (cases x)
    case None
    then show ?thesis using True x(1) peek_here [OF assms] by (simp add: parse_string_def)
  next
    case (Some ek)
    then obtain e k S where ek: "x = Some (e, k)" "?start \<le> e" "e < pb_length b"
      "pb_content b ! e = CHR 0x22" and S: "escapes b ?start e S" "k = card S"
      using x(2) by (cases ek) auto
    obtain ok oks' where al: "allocate (pb_allocs b) = (ok, oks')" by (cases "allocate (pb_allocs b)")
    let ?b1 = "b\<lparr>pb_allocs := oks'\<rparr>"
    have "card S \<le> e - ?start"
      using S card_mono [of "{?start..<e}" S] by (auto simp: escapes_def)
    then have room: "e - pb_offset b - k + 1 = e - ?start + 2 - card S" using S ek(2) by simp
    have "escapes ?b1 ?start e S" using S by (simp add: escapes_def)
    then obtain q out where u: "unescape ?b1 (e - ?start + 2 - card S) e ?start [] = Inr (q, out)"
      using unescape_good [of ?b1 e ?start S ?start "[]"] ek assms S(1)
      by (fastforce simp: seen_def escapes_def)
    have "e + 1 < pb_length b" using not_last [OF assms ek(3)] ek(4) by simp
    then have "good (?b1\<lparr>pb_offset := e + 1\<rparr>)" using assms by (simp add: good_def)
    then show ?thesis
      using True x(1) ek al room u peek_here [OF assms]
      by (cases ok; cases out) (simp_all add: parse_string_def Let_def)
  qed
qed

section \<open>Values\<close>

lemma and_step_simps [simp]:
  "and_step None f = None" "and_step (Some (Inl e)) f = Some (Inl e)"
  "and_step (Some (Inr x)) f = f x"
  by (simp_all add: and_step_def)

definition parsed :: "parse_buffer \<Rightarrow> ('a option \<times> parse_buffer) result option \<Rightarrow> bool" where
  "parsed b res \<longleftrightarrow> (\<exists>r b'. res = Some (Inr (r, b')) \<and> follows b b' \<and>
     (r \<noteq> None \<longrightarrow> good b' \<and> pb_offset b < pb_offset b'))"

lemma parsed_fail [simp]: "parsed b (Some (Inr (None, b'))) = follows b b'"
  by (auto simp: parsed_def)

lemma parsed_done [simp]:
  "parsed b (Some (Inr (Some x, b'))) = (follows b b' \<and> good b' \<and> pb_offset b < pb_offset b')"
  by (auto simp: parsed_def)

lemma parsed_cases:
  assumes "parsed b res"
  obtains (fail) b' where "res = Some (Inr (None, b'))" "follows b b'"
  | (found) x b' where "res = Some (Inr (Some x, b'))" "follows b b'" "good b'" "pb_offset b < pb_offset b'"
proof -
  from assms obtain r b' where res: "res = Some (Inr (r, b'))" "follows b b'"
    "r \<noteq> None \<longrightarrow> good b' \<and> pb_offset b < pb_offset b'" unfolding parsed_def by blast
  show ?thesis
    using res fail found by (cases r) simp_all
qed

lemma enter_container_good:
  assumes b: "good b" and op: "here b = opening" "opening \<noteq> NUL"
  shows "\<exists>x. enter_container opening closing b = Inr x \<and>
    (case x of Inl b1 \<Rightarrow> follows b b1
     | Inr (b1, is_empty) \<Rightarrow> follows b b1 \<and>
         (if is_empty then good b1 \<and> here b1 = closing \<and> pb_offset b < pb_offset b1
          else good b1 \<and> good (forward 1 b1) \<and> pb_offset b \<le> pb_offset b1))"
proof (cases "CJSON_NESTING_LIMIT \<le> pb_depth b")
  case True
  then show ?thesis by (simp add: enter_container_def)
next
  case False
  let ?b1 = "b\<lparr>pb_depth := pb_depth b + 1\<rparr>"
  have g1: "good ?b1" "here ?b1 = opening" using b op by (simp_all add: good_def here_def)
  then have "good (forward 1 ?b1)" using good_forward [OF g1(1)] op by simp
  from skip_good [OF this] obtain b2 where b2: "buffer_skip_whitespace (forward 1 ?b1) = Inr b2"
    "follows (forward 1 ?b1) b2" "good b2" "pb_offset (forward 1 ?b1) \<le> pb_offset b2" by blast
  have fb: "follows b b2" using b2(2) by (simp add: follows_def)
  let ?b3 = "b2\<lparr>pb_offset := pb_offset b2 - 1\<rparr>"
  have "good ?b3" and "good (forward 1 ?b3)"
    using b2(3,4) by (auto simp: good_def)
  moreover have "pb_offset b < pb_offset b2" using b2(4) by simp
  ultimately show ?thesis
    using False b2(1,3) fb g1 next_is_good [OF g1(1)] next_is_good [OF b2(3)] good_access [OF b2(3)]
    by (cases "here b2 = closing") (auto simp: enter_container_def Let_def)
qed

lemma parse_name_good:
  assumes "good b"
  shows "\<exists>r b'. parse_name item b = Inr (r, b') \<and> follows b b' \<and>
    (r \<noteq> None \<longrightarrow> good b' \<and> pb_offset b < pb_offset b')"
proof -
  obtain r b1 where r: "parse_string item b = Inr (r, b1)" "follows b b1"
    "r \<noteq> None \<longrightarrow> good b1 \<and> pb_offset b < pb_offset b1"
    using parse_string_good [OF assms] by blast
  show ?thesis
  proof (cases r)
    case None
    with r show ?thesis by (simp add: parse_name_def)
  next
    case (Some it)
    with r have g1: "good b1" and o1: "pb_offset b < pb_offset b1" by simp_all
    from skip_good [OF g1] obtain b2 where b2: "buffer_skip_whitespace b1 = Inr b2" "follows b1 b2"
      "good b2" "pb_offset b1 \<le> pb_offset b2" by blast
    have f2: "follows b b2" using r(2) b2(2) by (rule follows_trans)
    show ?thesis
    proof (cases "here b2 = CHR '':''")
      case False
      with Some r(1) b2(1) f2 next_is_good [OF b2(3)] show ?thesis
        by (simp add: parse_name_def Let_def)
    next
      case True
      then have "good (forward 1 b2)" using good_forward [OF b2(3)] by simp
      from skip_good [OF this] obtain b3 where b3: "buffer_skip_whitespace (forward 1 b2) = Inr b3"
        "follows (forward 1 b2) b3" "good b3" "pb_offset (forward 1 b2) \<le> pb_offset b3" by blast
      have "follows b b3" using f2 b3(2) by (simp add: follows_def)
      moreover have "pb_offset b < pb_offset b3" using o1 b2(4) b3(4) by simp
      ultimately show ?thesis
        using Some True r(1) b2(1) b3(1,3) next_is_good [OF b2(3)] by (simp add: parse_name_def Let_def)
    qed
  qed
qed

lemma element_name_good:
  assumes "good b"
  shows "\<exists>r b'. element_name is_object item b = Inr (r, b') \<and> follows b b' \<and>
    (r \<noteq> None \<longrightarrow> good b' \<and> pb_offset b \<le> pb_offset b')"
proof (cases is_object)
  case True
  then show ?thesis using parse_name_good [OF assms, of item] by (fastforce simp: element_name_def)
next
  case False
  then show ?thesis using assms by (simp add: element_name_def)
qed

lemma parsed_later:
  assumes "parsed b' res" and "follows b b'" and "pb_offset b \<le> pb_offset b'"
  shows "parsed b res"
  using assms(1)
proof (cases rule: parsed_cases)
  case (fail c)
  then show ?thesis using assms(2) follows_trans by simp
next
  case (found x c)
  have "follows b c" using assms(2) found(2) by (rule follows_trans)
  then show ?thesis using found assms(3) by simp
qed

lemma next_element_good:
  assumes "good (forward 1 b)"
  shows "\<exists>r b'. next_element b = Inr (r, b') \<and> follows b b' \<and>
    (r \<noteq> None \<longrightarrow> good b' \<and> pb_offset b < pb_offset b')"
proof -
  obtain item oks' where it: "cJSON_New_Item (pb_allocs b) = (item, oks')"
    by (cases "cJSON_New_Item (pb_allocs b)")
  let ?b1 = "b\<lparr>pb_allocs := oks'\<rparr>"
  have "good (forward 1 ?b1)" using assms by (simp add: good_def)
  from skip_good [OF this] obtain b2 where b2: "buffer_skip_whitespace (forward 1 ?b1) = Inr b2"
    "follows (forward 1 ?b1) b2" "good b2" "pb_offset (forward 1 ?b1) \<le> pb_offset b2" by blast
  then have "follows b b2" "pb_offset b < pb_offset b2" by (simp_all add: follows_def)
  with it b2 show ?thesis by (cases item) (simp_all add: next_element_def)
qed

lemma leave_container_good:
  assumes "follows a b" and "good b" and "here b = c" and "c \<noteq> NUL" and "pb_offset a < pb_offset b"
  shows "parsed a (Some (Inr (leave_container t item cs b)))"
proof -
  have "good (forward 1 b)" using good_forward assms by blast
  then have "good (b\<lparr>pb_depth := d, pb_offset := pb_offset b + 1\<rparr>)" for d by (simp add: good_def)
  with assms show ?thesis by (simp add: leave_container_def)
qed

text \<open>Both containers: enter, parse the elements, find the closing character.\<close>

lemma container_good:
  assumes b: "good b" and op: "here b = opening" "opening \<noteq> NUL" and cl: "closing \<noteq> NUL"
    and elements: "\<And>b1. follows b b1 \<Longrightarrow> good b1 \<Longrightarrow> good (forward 1 b1) \<Longrightarrow>
      pb_offset b \<le> pb_offset b1 \<Longrightarrow> parsed b1 (els b1)"
  shows "parsed b (parse_container opening closing t els item b)"
proof -
  obtain x where x: "enter_container opening closing b = Inr x"
    "case x of Inl b1 \<Rightarrow> follows b b1
     | Inr (b1, is_empty) \<Rightarrow> follows b b1 \<and>
         (if is_empty then good b1 \<and> here b1 = closing \<and> pb_offset b < pb_offset b1
          else good b1 \<and> good (forward 1 b1) \<and> pb_offset b \<le> pb_offset b1)"
    using enter_container_good [OF b op] by blast
  consider (fail) b1 where "x = Inl b1" | (empty) b1 where "x = Inr (b1, True)"
    | (elements) b1 where "x = Inr (b1, False)" by (metis (full_types) old.prod.exhaust sum.exhaust)
  then show ?thesis
  proof cases
    case fail
    then show ?thesis using x by (simp add: parse_container_def)
  next
    case empty
    then show ?thesis using x cl by (auto simp: parse_container_def intro: leave_container_good)
  next
    case elements: (elements b1)
    then have b1: "follows b b1" "good b1" "good (forward 1 b1)" "pb_offset b \<le> pb_offset b1"
      using x(2) by simp_all
    from assms(5) [OF b1] show ?thesis
    proof (cases rule: parsed_cases)
      case (fail b2)
      then show ?thesis using x(1) elements b1(1) follows_trans by (auto simp: parse_container_def)
    next
      case (found cs b2)
      then have f: "follows b b2" and o: "pb_offset b < pb_offset b2"
        using b1(1,4) follows_trans by auto
      show ?thesis
        using x(1) elements found f o cl next_is_good [OF found(3)]
        by (cases "here b2 = closing") (auto simp: parse_container_def intro: leave_container_good)
    qed
  qed
qed

lemma parse_good:
  "(good b \<longrightarrow> 2 * (pb_length b - pb_offset b) \<le> n \<longrightarrow> parsed b (parse_value n item b)) \<and>
   (good b' \<longrightarrow> good (forward 1 b') \<longrightarrow> 2 * (pb_length b' - pb_offset b') \<le> n + 1 \<longrightarrow>
      parsed b' (parse_elements n is_object cs b'))"
proof (induction n arbitrary: item b is_object cs b')
  case 0
  then show ?case by (auto simp: good_def)
next
  case (Suc n)
  have val_ok: "parsed b (parse_value (Suc n) item b)"
    if b: "good b" and fuel: "2 * (pb_length b - pb_offset b) \<le> Suc n"
  proof -
    obtain k where k: "value_kind_at b = Inr k"
      "case k of Literal t len \<Rightarrow> 0 < len \<and> pb_offset b + len < pb_length b
       | NoValue \<Rightarrow> True | _ \<Rightarrow> k = kind_of_char (here b)"
      using value_kind_good [OF b] by blast
    have els: "parsed b1 (parse_elements n obj [] b1)"
      if "follows b b1" "good b1" "good (forward 1 b1)" "pb_offset b \<le> pb_offset b1" for b1 obj
      using Suc.IH [THEN conjunct2, of b1 obj "[]"] that fuel by (simp add: follows_def)
    show ?thesis
    proof (cases k)
      case (Literal t len)
      then show ?thesis using k b by (auto simp: good_def)
    next
      case StringValue
      then show ?thesis using k(1) parse_string_good [OF b, of item] by (auto simp: parsed_def)
    next
      case NumberValue
      then show ?thesis using k(1) parse_number_good [OF b, of item] by (auto simp: parsed_def)
    next
      case ArrayValue
      then have "here b = CHR ''[''" using k(2) by (auto simp: kind_of_char_def split: if_splits)
      from container_good [OF b this _ _ els] show ?thesis
        using ArrayValue k(1) by simp
    next
      case ObjectValue
      then have "here b = CHR 0x7B" using k(2) by (auto simp: kind_of_char_def split: if_splits)
      from container_good [OF b this _ _ els] show ?thesis
        using ObjectValue k(1) by simp
    next
      case NoValue
      then show ?thesis using k(1) by simp
    qed
  qed
  have elements: "parsed b' (parse_elements (Suc n) is_object cs b')"
    if b: "good b'" "good (forward 1 b')" and fuel: "2 * (pb_length b' - pb_offset b') \<le> Suc n + 1"
  proof -
    obtain r b1 where r: "next_element b' = Inr (r, b1)" "follows b' b1"
      "r \<noteq> None \<longrightarrow> good b1 \<and> pb_offset b' < pb_offset b1"
      using next_element_good [OF b(2)] by blast
    show ?thesis
    proof (cases r)
      case None
      then show ?thesis using r by simp
    next
      case (Some it)
      with r have g1: "good b1" "pb_offset b' < pb_offset b1" by simp_all
      obtain r2 b2 where r2: "element_name is_object it b1 = Inr (r2, b2)"
        "follows b1 b2" "r2 \<noteq> None \<longrightarrow> good b2 \<and> pb_offset b1 \<le> pb_offset b2"
        using element_name_good [OF g1(1)] by blast
      have f2: "follows b' b2" using r(2) r2(2) by (rule follows_trans)
      show ?thesis
      proof (cases r2)
        case None
        then show ?thesis using r(1) \<open>r = Some it\<close> r2(1) f2 by simp
      next
        case (Some it1)
        then have g2: "good b2" "pb_offset b' < pb_offset b2" using r2(3) g1(2) by simp_all
        have "2 * (pb_length b2 - pb_offset b2) \<le> n"
          using fuel g2 f2 b(1) by (simp add: follows_def good_def)
        from Suc.IH [THEN conjunct1, rule_format, OF g2(1) this]
        have "parsed b2 (parse_value n it1 b2)" .
        then show ?thesis
        proof (cases rule: parsed_cases)
          case (fail b3)
          have "follows b' b3" using f2 fail(2) by (rule follows_trans)
          then show ?thesis using r(1) \<open>r = Some it\<close> r2(1) Some fail(1) by simp
        next
          case (found it2 b3)
          from skip_good [OF found(3)] obtain b4 where b4: "buffer_skip_whitespace b3 = Inr b4"
            "follows b3 b4" "good b4" "pb_offset b3 \<le> pb_offset b4" by blast
          have f4: "follows b' b4" by (rule follows_trans [OF f2 follows_trans [OF found(2) b4(2)]])
          have o4: "pb_offset b' + 2 \<le> pb_offset b4" using g2(2) found(4) b4(4) by simp
          show ?thesis
          proof (cases "here b4 = CHR '',''")
            case False
            then show ?thesis
              using r(1) \<open>r = Some it\<close> r2(1) Some found(1) b4 f4 o4 next_is_good [OF b4(3)] by simp
          next
            case True
            then have "good (forward 1 b4)" using good_forward [OF b4(3)] by simp
            moreover have "2 * (pb_length b4 - pb_offset b4) \<le> n + 1"
              using fuel o4 f4 by (simp add: follows_def)
            ultimately have "parsed b4 (parse_elements n is_object (cs @ [it2]) b4)"
              by (rule Suc.IH [THEN conjunct2, rule_format, OF b4(3)])
            then have "parsed b' (parse_elements n is_object (cs @ [it2]) b4)"
              by (rule parsed_later) (use f4 o4 in simp_all)
            then show ?thesis
              using True r(1) \<open>r = Some it\<close> r2(1) Some found(1) b4(1) next_is_good [OF b4(3)] by simp
          qed
        qed
      qed
    qed
  qed
  show ?case
    by (intro conjI impI) (rule val_ok elements; assumption)+
qed

lemma parse_value_good:
  "good b \<Longrightarrow> 2 * (pb_length b - pb_offset b) \<le> n \<Longrightarrow> parsed b (parse_value n item b)"
  using parse_good [of b n item b] by blast

lemma skip_utf8_bom_good:
  assumes "good b"
  shows "\<exists>b'. skip_utf8_bom b = Inr b' \<and> follows b b' \<and> good b'"
proof (cases "can_access_at_index b 4")
  case True
  then obtain r where r: "text_at b (pb_offset b) [CHR 0xEF, CHR 0xBB, CHR 0xBF] = Inr r"
    using text_at_good [OF assms, of "pb_offset b" "[CHR 0xEF, CHR 0xBB, CHR 0xBF]"]
    by (auto simp: can_access_at_index_def)
  have "good (forward 3 b)" using assms True by (auto simp: good_def can_access_at_index_def)
  with True r assms show ?thesis by (cases r) (simp_all add: skip_utf8_bom_def)
next
  case False
  then show ?thesis using assms by (simp add: skip_utf8_bom_def)
qed

lemma error_position_less: "good b \<Longrightarrow> follows b b' \<Longrightarrow> error_position b' < pb_length b"
  by (auto simp: error_position_def good_def follows_def)

section \<open>The nesting limit\<close>

fun item_depth :: "cJSON \<Rightarrow> nat" where
  "item_depth (CJSON t vs vi vd st ch) = foldr (\<lambda>c m. max (Suc (item_depth c)) m) ch 0"

definition depths_within :: "nat \<Rightarrow> cJSON list \<Rightarrow> bool" where
  "depths_within d cs \<longleftrightarrow> (\<forall>c \<in> set cs. item_depth c \<le> d)"

lemma foldr_max_le: "(\<forall>c \<in> set cs. f c \<le> (d :: nat)) \<Longrightarrow> foldr (\<lambda>c m. max (f c) m) cs 0 \<le> d"
  by (induction cs) auto

lemma item_depth_child: "depths_within d (item_child it) \<Longrightarrow> item_depth it \<le> Suc d"
  by (cases it) (auto simp: depths_within_def intro!: foldr_max_le)

lemma item_depth_leaf: "item_child it = [] \<Longrightarrow> item_depth it = 0"
  by (cases it) simp

lemma item_child_set [simp]:
  "item_child (set_valuestring vs it) = item_child it" "item_child (set_number vi vd it) = item_child it"
  "item_child (set_valueint vi it) = item_child it" "item_child (set_literal t it) = item_child it"
  "item_child zero_item = []"
  by (cases it; simp add: set_literal_def zero_item_def)+

lemma forward_depth [simp]: "pb_depth (forward n b) = pb_depth b"
  by (simp add: forward_def)

lemma skip_depth: "buffer_skip_whitespace b = Inr b' \<Longrightarrow> pb_depth b' = pb_depth b"
  by (auto simp: buffer_skip_whitespace_def elim!: and_then_InrE split: if_split_asm)

lemma parse_number_leaf:
  "parse_number item b = Inr (Some it, b') \<Longrightarrow> item_child it = item_child item \<and> pb_depth b' = pb_depth b"
  by (auto simp: parse_number_def Let_def elim!: and_then_InrE split: prod.split_asm if_split_asm)

lemma parse_string_leaf:
  "parse_string item b = Inr (Some it, b') \<Longrightarrow> item_child it = item_child item \<and> pb_depth b' = pb_depth b"
  by (auto simp: parse_string_def Let_def elim!: and_then_InrE
      split: prod.split_asm if_split_asm option.split_asm)

lemma element_name_leaf:
  assumes "element_name is_object item b = Inr (Some it, b')"
  shows "item_child it = item_child item \<and> pb_depth b' = pb_depth b"
proof (cases is_object)
  case True
  with assms have "parse_name item b = Inr (Some it, b')" by (simp add: element_name_def)
  then obtain named b1 b2 where "parse_string item b = Inr (Some named, b1)"
    "buffer_skip_whitespace b1 = Inr b2" "buffer_skip_whitespace (forward 1 b2) = Inr b'"
    "it = set_valuestring None (set_string (item_valuestring named) named)"
    by (auto simp: parse_name_def Let_def elim!: and_then_InrE split: option.split_asm if_split_asm)
  then show ?thesis by (auto dest!: parse_string_leaf skip_depth)
next
  case False
  with assms show ?thesis by (simp add: element_name_def)
qed

lemma next_element_leaf:
  "next_element b = Inr (Some it, b') \<Longrightarrow> item_child it = [] \<and> pb_depth b' = pb_depth b"
  by (auto simp: next_element_def cJSON_New_Item_def Let_def elim!: and_then_InrE
      split: prod.split_asm if_split_asm option.split_asm dest!: skip_depth)

lemma enter_container_depth:
  "enter_container opening closing b = Inr (Inr (b1, e)) \<Longrightarrow>
   pb_depth b < CJSON_NESTING_LIMIT \<and> pb_depth b1 = Suc (pb_depth b)"
  by (auto simp: enter_container_def Let_def elim!: and_then_InrE split: if_split_asm dest!: skip_depth)

lemma and_step_InrE:
  assumes "and_step r f = Some (Inr y)"
  obtains x where "r = Some (Inr x)" and "f x = Some (Inr y)"
  using assms by (auto simp: and_step_def split: option.split_asm sum.split_asm)

text \<open>A container returns its children one level up, at the depth it was entered.\<close>

lemma container_depth:
  assumes "parse_container opening closing t els item b = Some (Inr (Some it, b'))"
    and elements: "\<And>b1 cs b2. els b1 = Some (Inr (Some cs, b2)) \<Longrightarrow> pb_depth b1 = Suc (pb_depth b) \<Longrightarrow>
      pb_depth b < CJSON_NESTING_LIMIT \<Longrightarrow>
      depths_within (CJSON_NESTING_LIMIT - pb_depth b1) cs \<and> pb_depth b2 = pb_depth b1"
  shows "item_depth it \<le> CJSON_NESTING_LIMIT - pb_depth b \<and> pb_depth b' = pb_depth b"
proof -
  from assms(1) obtain b1 cs b2 where e: "\<exists>e. enter_container opening closing b = Inr (Inr (b1, e))"
    and cs: "cs = [] \<and> b2 = b1 \<or> els b1 = Some (Inr (Some cs, b2))"
    and it: "leave_container t item cs b2 = (Some it, b')"
    by (auto simp: parse_container_def elim!: and_step_InrE
        split: sum.split_asm prod.split_asm bool.split_asm option.split_asm if_split_asm) blast+
  from e have d: "pb_depth b < CJSON_NESTING_LIMIT" "pb_depth b1 = Suc (pb_depth b)"
    using enter_container_depth by blast+
  then have "depths_within (CJSON_NESTING_LIMIT - pb_depth b1) cs \<and> pb_depth b2 = pb_depth b1"
    using cs elements [of b1 cs b2] by (auto simp: depths_within_def)
  moreover have "item_child it = cs" "pb_depth b' = pb_depth b2 - 1"
    using it by (auto simp: leave_container_def)
  ultimately show ?thesis
    using item_depth_child [of "CJSON_NESTING_LIMIT - pb_depth b1" it] d by auto
qed

lemma depth_limited:
  "(parse_value n item b = Some (Inr (Some it, b2)) \<longrightarrow> item_child item = [] \<longrightarrow>
      item_depth it \<le> CJSON_NESTING_LIMIT - pb_depth b \<and> pb_depth b2 = pb_depth b) \<and>
   (parse_elements n is_object cs b' = Some (Inr (Some cs', b3)) \<longrightarrow>
      depths_within (CJSON_NESTING_LIMIT - pb_depth b') cs \<longrightarrow>
      depths_within (CJSON_NESTING_LIMIT - pb_depth b') cs' \<and> pb_depth b3 = pb_depth b')"
proof (induction n arbitrary: item b it b2 is_object cs b' cs' b3)
  case 0
  then show ?case by simp
next
  case (Suc n)
  have val_ok: "item_depth it \<le> CJSON_NESTING_LIMIT - pb_depth b \<and> pb_depth b2 = pb_depth b"
    if p: "parse_value (Suc n) item b = Some (Inr (Some it, b2))" and ch: "item_child item = []"
  proof -
    have els: "depths_within (CJSON_NESTING_LIMIT - pb_depth b1) cs \<and> pb_depth b2 = pb_depth b1"
      if "parse_elements n obj [] b1 = Some (Inr (Some cs, b2))" for b1 cs b2 obj
      using Suc.IH [THEN conjunct2, rule_format, OF that] by (simp add: depths_within_def)
    from p obtain k where k: "value_kind_at b = Inr k"
      by (cases "value_kind_at b") simp_all
    show ?thesis
    proof (cases k)
      case (Literal t len)
      then show ?thesis using p k ch by (auto simp: item_depth_leaf)
    next
      case StringValue
      then show ?thesis using p k ch parse_string_leaf [of item b it b2] by (simp add: item_depth_leaf)
    next
      case NumberValue
      then show ?thesis using p k ch parse_number_leaf [of item b it b2] by (simp add: item_depth_leaf)
    next
      case ArrayValue
      with p k show ?thesis
        by (intro container_depth [where els = "parse_elements n False []" and b' = b2] els) simp_all
    next
      case ObjectValue
      with p k show ?thesis
        by (intro container_depth [where els = "parse_elements n True []" and b' = b2] els) simp_all
    next
      case NoValue
      then show ?thesis using p k by simp
    qed
  qed
  have elements: "depths_within (CJSON_NESTING_LIMIT - pb_depth b') cs' \<and> pb_depth b3 = pb_depth b'"
    if p: "parse_elements (Suc n) is_object cs b' = Some (Inr (Some cs', b3))"
      and cs: "depths_within (CJSON_NESTING_LIMIT - pb_depth b') cs"
  proof -
    from p obtain x where "next_element b' = Inr x" by (auto elim!: and_step_InrE)
    with p obtain it b1 it1 c2 it2 c3 c4 comma where
      s: "next_element b' = Inr (Some it, b1)" "element_name is_object it b1 = Inr (Some it1, c2)"
        "parse_value n it1 c2 = Some (Inr (Some it2, c3))" "buffer_skip_whitespace c3 = Inr c4"
      and rest: "(if comma then parse_elements n is_object (cs @ [it2]) c4
          else Some (Inr (Some (cs @ [it2]), c4))) = Some (Inr (Some cs', b3))"
      by (auto elim!: and_step_InrE split: option.split_asm prod.split_asm)
    have d: "item_child it1 = []" "pb_depth c2 = pb_depth b'"
      using next_element_leaf [OF s(1)] element_name_leaf [OF s(2)] by auto
    from Suc.IH [THEN conjunct1, rule_format, OF s(3) d(1)] d(2) skip_depth [OF s(4)]
    have it2: "item_depth it2 \<le> CJSON_NESTING_LIMIT - pb_depth b'" "pb_depth c4 = pb_depth b'" by auto
    then have "depths_within (CJSON_NESTING_LIMIT - pb_depth c4) (cs @ [it2])"
      using cs by (auto simp: depths_within_def)
    then show ?thesis
      using rest it2(2) Suc.IH [THEN conjunct2, rule_format, of is_object "cs @ [it2]" c4 cs' b3]
      by (cases comma) auto
  qed
  show ?case by (intro conjI impI) (use val_ok elements in blast)+
qed

lemma parse_inside:
  assumes "0 < n" and "n \<le> length bytes" and "bytes ! (n - 1) = NUL"
  shows "\<exists>item p. cJSON_ParseWithLengthOpts bytes n require_null_terminated oks =
    Some (Inr (item, p)) \<and> p < n"
proof -
  obtain new_item oks' where it: "cJSON_New_Item oks = (new_item, oks')" by (cases "cJSON_New_Item oks")
  define b where "b = \<lparr>pb_content = bytes, pb_length = n, pb_offset = 0, pb_depth = 0, pb_allocs = oks'\<rparr>"
  have b: "good b" and n: "pb_length b = n" using assms by (simp_all add: good_def b_def)
  obtain b0 where b0: "skip_utf8_bom b = Inr b0" "follows b b0" "good b0"
    using skip_utf8_bom_good [OF b] by blast
  obtain b1 where b1: "buffer_skip_whitespace b0 = Inr b1" "follows b0 b1" "good b1"
    using skip_good [OF b0(3)] by blast
  have f1: "follows b b1" by (rule follows_trans [OF b0(2) b1(2)])
  note defs = cJSON_ParseWithLengthOpts_def it b_def [symmetric] b0(1) b1(1)
  show ?thesis
  proof (cases new_item)
    case None
    then show ?thesis using assms(1) by (simp add: cJSON_ParseWithLengthOpts_def it)
  next
    case (Some new)
    have "pb_length b1 = n" using f1 n by (simp add: follows_def)
    then have "2 * (pb_length b1 - pb_offset b1) \<le> parse_fuel n" by (simp add: parse_fuel_def)
    from parse_value_good [OF b1(3) this, of new] show ?thesis
    proof (cases rule: parsed_cases)
      case (fail b2)
      then show ?thesis using assms(1) Some
          error_position_less [OF b follows_trans [OF f1 fail(2)]] n by (simp add: defs)
    next
      case (found item b2)
      obtain b3 where b3: "buffer_skip_whitespace b2 = Inr b3" "follows b2 b3" "good b3"
        using skip_good [OF found(3)] by blast
      have f2: "follows b b2" by (rule follows_trans [OF f1 found(2)])
      have f3: "follows b b3" by (rule follows_trans [OF f2 b3(2)])
      have "pb_offset b2 < n" "pb_offset b3 < n"
        using found(3) b3(3) f2 f3 n by (simp_all add: good_def follows_def)
      then show ?thesis using assms(1) Some found(1) b3(1) next_is_good [OF b3(3)]
          error_position_less [OF b f3] n by (simp add: defs)
    qed
  qed
qed

section \<open>Properties\<close>

text \<open>
  C29. The parser stays inside its input and always returns: for a block of at least \<open>n\<close>
  bytes whose byte \<open>n - 1\<close> is NUL, \<open>cJSON_ParseWithLengthOpts\<close> called with length \<open>n\<close>
  never reads outside the block, never writes past the memory it allocates for a string,
  never runs out of fuel, and stops (or reports its error) at a position before \<open>n\<close>,
  whatever the bytes are and whichever allocations fail.
\<close>

theorem parser_stays_inside:
  assumes "0 < n" and "n \<le> length bytes" and "bytes ! (n - 1) = NUL"
  shows "\<exists>item p. cJSON_ParseWithLengthOpts bytes n require_null_terminated oks =
    Some (Inr (item, p)) \<and> p < n"
  by (rule parse_inside [OF assms])

theorem parser_stays_inside_witness:
  "\<exists>item p. cJSON_ParseWithLengthOpts (lit ''[1, [true, null]]'') 18 True [] = Some (Inr (item, p)) \<and> p < 18"
  by (rule parser_stays_inside) (simp_all add: lit_def)

text \<open>
  Without a NUL at the end the parser can read past its input: after a comma the
  members of an object are parsed without checking that anything is left, so the seven
  bytes of an object cut off after its first comma make it read the eighth.
\<close>

lemma parser_reads_past_comma:
  "cJSON_ParseWithLength ([CHR 0x7B, CHR 0x22, CHR ''q'', CHR 0x22] @ '':5,'') 7 = Some (Inl OutOfBounds)"
  by code_simp

text \<open>
  C35. Nesting is limited: an item that the parser returns is nested at most
  \<open>CJSON_NESTING_LIMIT\<close> (1000) deep, whatever the input.
\<close>

theorem parser_limits_nesting:
  assumes "cJSON_ParseWithLengthOpts bytes n require_null_terminated oks = Some (Inr (Some item, p))"
  shows "item_depth item \<le> CJSON_NESTING_LIMIT"
proof -
  from assms obtain new b1 b2 fuel where
    "parse_value fuel new b1 = Some (Inr (Some item, b2))" "item_child new = []"
    by (auto simp: cJSON_ParseWithLengthOpts_def cJSON_New_Item_def Let_def
        elim!: and_step_InrE split: if_split_asm prod.split_asm option.split_asm)
  with depth_limited [THEN conjunct1, of fuel new b1 item b2] show ?thesis by auto
qed

theorem parser_limits_nesting_witness:
  "\<exists>item p. cJSON_ParseWithLengthOpts (lit ''[[]]'') 5 True [] = Some (Inr (Some item, p)) \<and>
     item_depth item \<le> CJSON_NESTING_LIMIT"
proof -
  have "case cJSON_ParseWithLengthOpts (lit ''[[]]'') 5 True [] of Some (Inr (Some _, _)) \<Rightarrow> True | _ \<Rightarrow> False"
    by code_simp
  then obtain item p where "cJSON_ParseWithLengthOpts (lit ''[[]]'') 5 True [] = Some (Inr (Some item, p))"
    by (auto split: option.split_asm sum.split_asm prod.split_asm)
  then show ?thesis using parser_limits_nesting by blast
qed

end
