(* ===== verification/Connection_Context.thy ===== *)
theory Connection_Context
  imports C_Strings
begin

text \<open>
  The growing receive buffer of lib/connection_context.c. \<open>data\<close> is the allocated block,
  so its length is what malloc or realloc gave; the C fields \<open>length\<close>, \<open>allocations\<close> and
  \<open>buf_size\<close> are ints that stay far below their range for the request sizes of config.h
  and are natural numbers here.
\<close>

record connection_context =
  ctx_length :: nat
  ctx_data :: block
  ctx_allocations :: nat
  ctx_buf_size :: nat
  ctx_fd :: int

text \<open>\<open>junk\<close> is what the memory from malloc holds before the bzero.\<close>

definition context_init ::
  "(nat \<Rightarrow> char) \<Rightarrow> connection_context \<Rightarrow> nat \<Rightarrow> connection_context result" where
  "context_init junk ctx request_size =
     and_then (bzero (malloc junk request_size) request_size) (\<lambda>d.
       Inr (ctx\<lparr>ctx_data := d, ctx_length := 0, ctx_buf_size := request_size, ctx_allocations := 1\<rparr>))"

text \<open>
  realloc keeps the bytes of the old block; \<open>None\<close> for \<open>fresh\<close> is its failure, otherwise
  \<open>fresh\<close> is what the added memory holds.
\<close>

definition realloc :: "(nat \<Rightarrow> char) option \<Rightarrow> block \<Rightarrow> nat \<Rightarrow> block option" where
  "realloc fresh b n = map_option (\<lambda>junk. take n b @ malloc junk (n - length b)) fresh"

definition context_write ::
  "(nat \<Rightarrow> char) option \<Rightarrow> connection_context \<Rightarrow> char list \<Rightarrow> connection_context result" where
  "context_write fresh ctx bytes =
     (if ctx_buf_size ctx < length bytes then Inl ExitFailure
      else and_then (put_bytes (ctx_data ctx) (ctx_length ctx) bytes) (\<lambda>d.
        let ctx1 = ctx\<lparr>ctx_data := d, ctx_length := ctx_length ctx + length bytes\<rparr> in
        if ctx_allocations ctx1 * ctx_buf_size ctx1 \<le> ctx_length ctx1 then
          (case realloc fresh (ctx_data ctx1) (ctx_length ctx1 + ctx_buf_size ctx1) of
             None \<Rightarrow> Inl ExitFailure
           | Some d' \<Rightarrow> Inr (ctx1\<lparr>ctx_data := d', ctx_allocations := ctx_allocations ctx1 + 1\<rparr>))
        else Inr ctx1))"

text \<open>A sequence of reads of the socket, each written to the context.\<close>

fun context_writes ::
  "(nat \<Rightarrow> char) option \<Rightarrow> connection_context \<Rightarrow> char list list \<Rightarrow> connection_context result" where
  "context_writes fresh ctx [] = Inr ctx"
| "context_writes fresh ctx (xs # xss) =
     and_then (context_write fresh ctx xs) (\<lambda>ctx1. context_writes fresh ctx1 xss)"

section \<open>Full chunks\<close>

text \<open>
  As long as every chunk fills the buffer exactly, the block always has room for one more
  chunk: \<open>allocations * buf_size\<close> bytes of room when \<open>allocations - 1\<close> chunks are in.
\<close>

definition chunked :: "connection_context \<Rightarrow> char list \<Rightarrow> bool" where
  "chunked ctx received \<longleftrightarrow>
     ctx_length ctx = length received \<and> take (length received) (ctx_data ctx) = received \<and>
     length (ctx_data ctx) = ctx_length ctx + ctx_buf_size ctx \<and>
     ctx_length ctx + ctx_buf_size ctx = ctx_allocations ctx * ctx_buf_size ctx"

lemma context_init_chunked:
  "\<exists>ctx'. context_init junk ctx n = Inr ctx' \<and> chunked ctx' [] \<and> ctx_buf_size ctx' = n"
  by (auto simp: context_init_def bzero_def put_bytes_def chunked_def)

lemma context_write_chunk:
  assumes "chunked ctx received" and "length xs = ctx_buf_size ctx"
  shows "\<exists>ctx'. context_write (Some junk) ctx xs = Inr ctx' \<and> chunked ctx' (received @ xs) \<and>
    ctx_buf_size ctx' = ctx_buf_size ctx"
proof -
  let ?B = "ctx_buf_size ctx" and ?n = "length received"
  let ?d = "received @ xs"
  from assms(1) have len: "ctx_length ctx = ?n" "length (ctx_data ctx) = ?n + ?B"
    and pre: "take ?n (ctx_data ctx) = received" and al: "?n + ?B = ctx_allocations ctx * ?B"
    by (auto simp: chunked_def)
  have put: "put_bytes (ctx_data ctx) ?n xs = Inr ?d"
    using len(2) pre assms(2) by (simp add: put_bytes_def)
  let ?ctx1 = "ctx\<lparr>ctx_data := ?d, ctx_length := ?n + length xs\<rparr>"
  have full: "ctx_allocations ?ctx1 * ctx_buf_size ?ctx1 \<le> ctx_length ?ctx1"
    using al assms(2) by simp
  let ?d' = "?d @ malloc junk ?B"
  have re: "realloc (Some junk) ?d (?n + length xs + ?B) = Some ?d'"
    using assms(2) by (simp add: realloc_def)
  let ?ctx' = "?ctx1\<lparr>ctx_data := ?d', ctx_allocations := ctx_allocations ctx + 1\<rparr>"
  have "context_write (Some junk) ctx xs = Inr ?ctx'"
    using put full re len(1) assms(2) by (simp add: context_write_def Let_def)
  moreover have "chunked ?ctx' (received @ xs)"
    using assms(2) al by (simp add: chunked_def)
  ultimately show ?thesis by auto
qed

lemma context_writes_chunks:
  assumes "chunked ctx received" and "\<forall>xs \<in> set xss. length xs = ctx_buf_size ctx"
  shows "\<exists>ctx'. context_writes (Some junk) ctx xss = Inr ctx' \<and> chunked ctx' (received @ concat xss)"
  using assms
proof (induction xss arbitrary: ctx received)
  case Nil
  then show ?case by simp
next
  case (Cons xs xss)
  then obtain ctx1 where w: "context_write (Some junk) ctx xs = Inr ctx1"
    and c: "chunked ctx1 (received @ xs)" and b: "ctx_buf_size ctx1 = ctx_buf_size ctx"
    using context_write_chunk [of ctx received xs junk] by auto
  from Cons.IH [OF c] Cons.prems(2) b obtain ctx' where
    "context_writes (Some junk) ctx1 xss = Inr ctx'" "chunked ctx' ((received @ xs) @ concat xss)"
    by auto
  then show ?case using w by simp
qed

section \<open>Properties\<close>

definition blank_context :: connection_context where
  "blank_context =
     \<lparr>ctx_length = 0, ctx_data = [], ctx_allocations = 0, ctx_buf_size = 0, ctx_fd = 4\<rparr>"

text \<open>
  Chunks that each fill the buffer are received completely and in order: however many
  arrive after \<open>context_init\<close>, no write leaves the block and the block starts with their
  concatenation, whose length is recorded.
\<close>

lemma full_chunks_received:
  assumes "\<forall>xs \<in> set xss. length xs = n"
  shows "\<exists>ctx'. and_then (context_init junk ctx n)
      (\<lambda>c. context_writes (Some junk) c xss) = Inr ctx' \<and>
    ctx_length ctx' = length (concat xss) \<and>
    take (length (concat xss)) (ctx_data ctx') = concat xss"
proof -
  obtain c where "context_init junk ctx n = Inr c" and "chunked c []" and "ctx_buf_size c = n"
    using context_init_chunked by blast
  with context_writes_chunks [of c "[]" xss junk] assms show ?thesis
    by (auto simp: chunked_def)
qed

theorem full_chunks_received_witness:
  "\<exists>ctx'. and_then (context_init (\<lambda>_. CHR ''?'') blank_context 2)
      (\<lambda>c. context_writes (Some (\<lambda>_. CHR ''?'')) c [''ab'', ''cd'', ''ef'']) = Inr ctx' \<and>
    take 6 (ctx_data ctx') = ''abcdef''"
  using full_chunks_received [of "[''ab'', ''cd'', ''ef'']" 2 "\<lambda>_. CHR ''?''" blank_context] by (auto simp: numeral_eq_Suc)

text \<open>
  Chunks of other lengths overflow the block: the buffer grows only when the total
  reaches \<open>allocations * buf_size\<close>, so after a first chunk that leaves some room, a second
  one that is admitted by the length check but does not fit is copied past the end.
\<close>

lemma partial_chunk_overflows:
  assumes "length xs < n" and "length ys \<le> n" and "n < length xs + length ys"
  shows "and_then (context_init junk ctx n)
    (\<lambda>c. context_writes fresh c [xs, ys]) = Inl OutOfBounds"
  using assms by (simp add: context_init_def bzero_def put_bytes_def context_write_def Let_def)

theorem partial_chunk_overflows_witness:
  "and_then (context_init (\<lambda>_. NUL) blank_context 4)
    (\<lambda>c. context_writes (Some (\<lambda>_. NUL)) c [''GET'', '' / '']) = Inl OutOfBounds"
  by (rule partial_chunk_overflows) simp_all

end
