(* ===== verification/CJson_Print.thy ===== *)
theory CJson_Print
  imports CJson_Parse
begin

text \<open>
  The JSON printer of lib/c_json.c. The output buffer is a block with a size, an offset and
  the current depth; \<open>ensure\<close> enlarges it, and every write is checked against the block.
  A printing function answers whether it succeeded, and the buffer; \<open>junk\<close> is what fresh
  memory holds. Sizes (size_t in the code) stay below 2^32 because of the tests in \<open>ensure\<close>
  and are natural numbers.
\<close>

section \<open>The output buffer\<close>

record printbuffer =
  out_buffer :: "block option"
  out_length :: nat
  out_offset :: nat
  out_depth :: nat
  out_noalloc :: bool
  out_format :: bool
  out_reallocate :: bool
  out_allocs :: allocs

type_synonym printing = "(bool \<times> printbuffer) result"

text \<open>
  \<open>ensure\<close> answers a pointer to the current offset or NULL, here whether it is a pointer.
  \<open>out_reallocate\<close> tells whether the hooks have a \<open>reallocate\<close>.
\<close>

definition ensure :: "(nat \<Rightarrow> char) \<Rightarrow> nat \<Rightarrow> printbuffer \<Rightarrow> printing" where
  "ensure junk amount p =
     (case out_buffer p of
        None \<Rightarrow> Inr (False, p)
      | Some b \<Rightarrow>
          if 0 < out_length p \<and> out_length p \<le> out_offset p then Inr (False, p)
          else if INT_MAX < int amount then Inr (False, p)
          else let needed = amount + out_offset p + 1 in
            if needed \<le> out_length p then Inr (True, p)
            else if out_noalloc p then Inr (False, p)
            else if INT_MAX < int needed then Inr (False, p)
            else
              let newsize = (if INT_MAX div 2 < int needed then nat INT_MAX else needed * 2);
                  (ok, oks') = allocate (out_allocs p);
                  p1 = p\<lparr>out_allocs := oks'\<rparr>
              in if \<not> ok then Inr (False, p1\<lparr>out_length := 0, out_buffer := None\<rparr>)
                 else and_then
                   (if out_reallocate p then Inr (take newsize b @ malloc junk (newsize - length b))
                    else memcpy (malloc junk newsize) 0 b 0 (out_offset p + 1)) (\<lambda>newbuffer.
                   Inr (True, p1\<lparr>out_length := newsize, out_buffer := Some newbuffer\<rparr>)))"

text \<open>\<open>write_at k xs p\<close>: the bytes \<open>xs\<close> at \<open>output + k\<close>.\<close>

definition write_at :: "nat \<Rightarrow> char list \<Rightarrow> printbuffer \<Rightarrow> printbuffer result" where
  "write_at k xs p =
     (case out_buffer p of
        None \<Rightarrow> Inl InvalidPointer
      | Some b \<Rightarrow> and_then (put_bytes b (out_offset p + k) xs) (\<lambda>b'. Inr (p\<lparr>out_buffer := Some b'\<rparr>)))"

definition update_offset :: "printbuffer \<Rightarrow> printbuffer result" where
  "update_offset p =
     (case out_buffer p of
        None \<Rightarrow> Inr p
      | Some b \<Rightarrow> and_then (c_string b (out_offset p)) (\<lambda>s.
          Inr (p\<lparr>out_offset := out_offset p + length s\<rparr>)))"

text \<open>
  \<open>print_then\<close> goes on after a success, \<open>emit\<close> is the common pattern of ensuring room,
  writing and moving the offset.
\<close>

definition print_then :: "printing \<Rightarrow> (printbuffer \<Rightarrow> printing) \<Rightarrow> printing" where
  "print_then r f = and_then r (\<lambda>(ok, p). if ok then f p else Inr (False, p))"

definition emit :: "(nat \<Rightarrow> char) \<Rightarrow> nat \<Rightarrow> char list \<Rightarrow> nat \<Rightarrow> printbuffer \<Rightarrow> printing" where
  "emit junk amount xs advance p =
     print_then (ensure junk amount p) (\<lambda>p1.
       and_then (write_at 0 xs p1) (\<lambda>p2. Inr (True, p2\<lparr>out_offset := out_offset p2 + advance\<rparr>)))"

section \<open>Numbers\<close>

text \<open>
  sprintf with \<open>%.Pg\<close>: \<open>decimal_exponent a\<close> is the power of ten of the first digit of \<open>a\<close>;
  \<open>significant P a\<close> are the first \<open>P\<close> digits, rounded to nearest even, and the exponent
  after rounding. The style is chosen by the exponent, trailing zeros are removed.
\<close>

definition decimal_exponent :: "rat \<Rightarrow> int" where
  "decimal_exponent a =
     (let (n, d) = quotient_of a;
          k = int (length (show_nat (nat n))) - int (length (show_nat (nat d)))
      in if scale10 k 1 \<le> a then k else k - 1)"

definition significant :: "nat \<Rightarrow> rat \<Rightarrow> string \<times> int" where
  "significant P a =
     (let e = decimal_exponent a;
          m = nat (round_half_even (scale10 (int P - 1 - e) a))
      in if m = 10 ^ P then (show_nat (10 ^ (P - 1)), e + 1) else (show_nat m, e))"

definition strip_zeros :: "string \<Rightarrow> string" where
  "strip_zeros s = rev (dropWhile (\<lambda>c. c = CHR ''0'') (rev s))"

definition with_point :: "string \<Rightarrow> string \<Rightarrow> string" where
  "with_point whole fraction = whole @ (if fraction = [] then [] else CHR ''.'' # fraction)"

definition exponent_text :: "int \<Rightarrow> string" where
  "exponent_text e =
     (let s = show_nat (nat \<bar>e\<bar>)
      in CHR ''e'' # (if e < 0 then CHR ''-'' else CHR ''+'') # replicate (2 - length s) (CHR ''0'') @ s)"

definition sprintf_g :: "nat \<Rightarrow> rat \<Rightarrow> string" where
  "sprintf_g P q =
     (if q = 0 then ''0''
      else let (ds, e) = significant P \<bar>q\<bar>
        in (if q < 0 then ''-'' else []) @
           (if e < - 4 \<or> int P \<le> e then with_point (take 1 ds) (strip_zeros (drop 1 ds)) @ exponent_text e
            else if 0 \<le> e then with_point (take (nat e + 1) ds) (strip_zeros (drop (nat e + 1) ds))
            else with_point ''0'' (replicate (nat (- e) - 1) (CHR ''0'') @ strip_zeros ds)))"

text \<open>The arithmetic of doubles \<open>compare_double\<close> does, each operation rounded.\<close>

definition DBL_EPSILON :: rat where "DBL_EPSILON = 1 / 4503599627370496"

definition compare_double :: "dbl \<Rightarrow> dbl \<Rightarrow> bool" where
  "compare_double a b =
     (case (a, b) of
        (Finite x, Finite y) \<Rightarrow>
          round_double \<bar>x - y\<bar> \<le> round_double (max \<bar>x\<bar> \<bar>y\<bar> * DBL_EPSILON)
      | (Finite x, Infinity neg) \<Rightarrow> True
      | (Infinity neg, Finite y) \<Rightarrow> True
      | (Infinity n1, Infinity n2) \<Rightarrow> n1 \<noteq> n2
      | _ \<Rightarrow> False)"

text \<open>What \<open>print_number\<close> puts into \<open>number_buffer\<close>.\<close>

definition number_string :: "cJSON \<Rightarrow> string" where
  "number_string item =
     (case item_valuedouble item of
        Finite q \<Rightarrow>
          if q = of_int (sint (item_valueint item)) then show_int (sint (item_valueint item))
          else let s = sprintf_g 15 q; (test, used) = strtod s
            in if used = 0 \<or> \<not> compare_double test (Finite q) then sprintf_g 17 q else s
      | _ \<Rightarrow> ''null'')"

text \<open>A text that does not fit its 26 bytes would overflow them before the length is tested.\<close>

definition print_number :: "(nat \<Rightarrow> char) \<Rightarrow> cJSON \<Rightarrow> printbuffer \<Rightarrow> printing" where
  "print_number junk item p =
     (let s = number_string item in
      if 25 < length s then Inl OutOfBounds
      else emit junk (length s + 1) (lit s) (length s) p)"

section \<open>Strings\<close>

definition escape_letter :: "char \<Rightarrow> char option" where
  "escape_letter c =
     (if c = CHR 0x5C then Some (CHR 0x5C)
      else if c = CHR 0x22 then Some (CHR 0x22)
      else if c = CHR 0x08 then Some (CHR ''b'')
      else if c = CHR 0x0C then Some (CHR ''f'')
      else if c = CHR 0x0A then Some (CHR ''n'')
      else if c = CHR 0x0D then Some (CHR ''r'')
      else if c = CHR 0x09 then Some (CHR ''t'')
      else None)"

text \<open>The first loop: how many characters escaping \<open>c\<close> adds.\<close>

definition escape_cost :: "char \<Rightarrow> nat" where
  "escape_cost c = (if escape_letter c \<noteq> None then 1 else if of_char c < (32 :: nat) then 5 else 0)"

text \<open>\<open>%04x\<close> of a byte.\<close>

definition hex_char :: "nat \<Rightarrow> char" where
  "hex_char n = (if n < 10 then char_of (48 + n) else char_of (87 + n))"

definition hex4 :: "nat \<Rightarrow> string" where
  "hex4 n = [hex_char (n div 4096 mod 16), hex_char (n div 256 mod 16),
     hex_char (n div 16 mod 16), hex_char (n mod 16)]"

text \<open>The second loop: what is written for \<open>c\<close>.\<close>

definition escaped :: "char \<Rightarrow> string" where
  "escaped c =
     (if (31 :: nat) < of_char c \<and> c \<noteq> CHR 0x22 \<and> c \<noteq> CHR 0x5C then [c]
      else CHR 0x5C # (case escape_letter c of
        Some x \<Rightarrow> [x]
      | None \<Rightarrow> CHR ''u'' # hex4 (of_char c)))"

text \<open>
  The closing quote goes where the first loop says that the string ends, after the second
  loop has written the characters.
\<close>

definition print_string_ptr :: "(nat \<Rightarrow> char) \<Rightarrow> string option \<Rightarrow> printbuffer \<Rightarrow> printing" where
  "print_string_ptr junk input p =
     (case input of
        None \<Rightarrow> emit junk 3 (lit [CHR 0x22, CHR 0x22]) 0 p
      | Some s \<Rightarrow>
          let escape_characters = sum_list (map escape_cost s);
              output_length = length s + escape_characters
          in print_then (ensure junk (output_length + 3) p) (\<lambda>p1.
               if escape_characters = 0 then
                 and_then (write_at 0 ([CHR 0x22] @ s @ [CHR 0x22, NUL]) p1) (\<lambda>p2. Inr (True, p2))
               else
                 and_then (write_at 0 (CHR 0x22 # concat (map escaped s)) p1) (\<lambda>p2.
                 and_then (write_at (output_length + 1) [CHR 0x22, NUL] p2) (\<lambda>p3. Inr (True, p3)))))"

section \<open>Values\<close>

abbreviation TAB :: char where "TAB \<equiv> CHR 0x09"
abbreviation NEWLINE :: char where "NEWLINE \<equiv> CHR 0x0A"

definition when_formatted :: "printbuffer \<Rightarrow> char list \<Rightarrow> char list" where
  "when_formatted p xs = (if out_format p then xs else [])"

definition deeper :: "printbuffer \<Rightarrow> printbuffer" where
  "deeper p = p\<lparr>out_depth := out_depth p + 1\<rparr>"

definition shallower :: "printbuffer \<Rightarrow> printbuffer" where
  "shallower p = p\<lparr>out_depth := out_depth p - 1\<rparr>"

text \<open>The start and the end of \<open>print_array\<close> and \<open>print_object\<close>.\<close>

definition open_array :: "(nat \<Rightarrow> char) \<Rightarrow> printbuffer \<Rightarrow> printing" where
  "open_array junk p = print_then (emit junk 1 ''['' 1 p) (\<lambda>p1. Inr (True, deeper p1))"

definition close_array :: "(nat \<Rightarrow> char) \<Rightarrow> printbuffer \<Rightarrow> printing" where
  "close_array junk p = print_then (emit junk 2 (lit '']'') 0 p) (\<lambda>p1. Inr (True, shallower p1))"

definition open_object :: "(nat \<Rightarrow> char) \<Rightarrow> printbuffer \<Rightarrow> printing" where
  "open_object junk p =
     (let xs = CHR 0x7B # when_formatted p [NEWLINE]
      in print_then (emit junk (length xs + 1) xs (length xs) p) (\<lambda>p1. Inr (True, deeper p1)))"

definition close_object :: "(nat \<Rightarrow> char) \<Rightarrow> printbuffer \<Rightarrow> printing" where
  "close_object junk p =
     print_then
       (emit junk (if out_format p then out_depth p + 1 else 2)
         (when_formatted p (replicate (out_depth p - 1) TAB) @ lit [CHR 0x7D]) 0 p)
       (\<lambda>p1. Inr (True, shallower p1))"

text \<open>Between two elements of an array; around the name, and behind the value of a member.\<close>

definition array_comma :: "(nat \<Rightarrow> char) \<Rightarrow> printbuffer \<Rightarrow> printing" where
  "array_comma junk p =
     (let xs = CHR '','' # when_formatted p '' '' in emit junk (length xs + 1) (lit xs) (length xs) p)"

definition print_name :: "(nat \<Rightarrow> char) \<Rightarrow> string option \<Rightarrow> printbuffer \<Rightarrow> printing" where
  "print_name junk name p =
     print_then
       (if out_format p then emit junk (out_depth p) (replicate (out_depth p) TAB) (out_depth p) p
        else Inr (True, p)) (\<lambda>p1.
     print_then (print_string_ptr junk name p1) (\<lambda>p2.
     and_then (update_offset p2) (\<lambda>p3.
       let xs = CHR '':'' # when_formatted p3 [TAB] in emit junk (length xs) xs (length xs) p3)))"

definition member_end :: "(nat \<Rightarrow> char) \<Rightarrow> bool \<Rightarrow> printbuffer \<Rightarrow> printing" where
  "member_end junk is_last p =
     (let xs = (if is_last then [] else '','') @ when_formatted p [NEWLINE]
      in emit junk (length xs + 1) (lit xs) (length xs) p)"

fun print_value :: "(nat \<Rightarrow> char) \<Rightarrow> cJSON \<Rightarrow> printbuffer \<Rightarrow> printing"
and print_elements :: "(nat \<Rightarrow> char) \<Rightarrow> cJSON list \<Rightarrow> printbuffer \<Rightarrow> printing"
and print_members :: "(nat \<Rightarrow> char) \<Rightarrow> cJSON list \<Rightarrow> printbuffer \<Rightarrow> printing" where
  "print_value junk (CJSON t vs vi vd st ch) p =
     (let k = t AND 0xFF in
      if k = cJSON_NULL then emit junk 5 (lit ''null'') 0 p
      else if k = cJSON_False then emit junk 6 (lit ''false'') 0 p
      else if k = cJSON_True then emit junk 5 (lit ''true'') 0 p
      else if k = cJSON_Number then print_number junk (CJSON t vs vi vd st ch) p
      else if k = cJSON_Raw then
        (case vs of None \<Rightarrow> Inr (False, p) | Some raw \<Rightarrow> emit junk (length raw + 1) (lit raw) 0 p)
      else if k = cJSON_String then print_string_ptr junk vs p
      else if k = cJSON_Array then
        print_then (open_array junk p) (\<lambda>p1.
        print_then (print_elements junk ch p1) (\<lambda>p2. close_array junk p2))
      else if k = cJSON_Object then
        print_then (open_object junk p) (\<lambda>p1.
        print_then (print_members junk ch p1) (\<lambda>p2. close_object junk p2))
      else Inr (False, p))"
| "print_elements junk [] p = Inr (True, p)"
| "print_elements junk (c # cs) p =
     print_then (print_value junk c p) (\<lambda>p1.
     and_then (update_offset p1) (\<lambda>p2.
     print_then (if cs = [] then Inr (True, p2) else array_comma junk p2) (\<lambda>p3.
       print_elements junk cs p3)))"
| "print_members junk [] p = Inr (True, p)"
| "print_members junk (c # cs) p =
     print_then (print_name junk (item_string c) p) (\<lambda>p1.
     print_then (print_value junk c p1) (\<lambda>p2.
     and_then (update_offset p2) (\<lambda>p3.
     print_then (member_end junk (cs = []) p3) (\<lambda>p4. print_members junk cs p4))))"

section \<open>The entry points\<close>

definition new_printbuffer :: "block \<Rightarrow> nat \<Rightarrow> bool \<Rightarrow> bool \<Rightarrow> bool \<Rightarrow> allocs \<Rightarrow> printbuffer" where
  "new_printbuffer b len noalloc format reallocate oks =
     \<lparr>out_buffer = Some b, out_length = len, out_offset = 0, out_depth = 0, out_noalloc = noalloc,
      out_format = format, out_reallocate = reallocate, out_allocs = oks\<rparr>"

definition print_maybe :: "(nat \<Rightarrow> char) \<Rightarrow> cJSON option \<Rightarrow> printbuffer \<Rightarrow> printing" where
  "print_maybe junk item p = (case item of None \<Rightarrow> Inr (False, p) | Some it \<Rightarrow> print_value junk it p)"

text \<open>The end of \<open>print\<close>: the text moves to a block of its own size.\<close>

definition shrink :: "(nat \<Rightarrow> char) \<Rightarrow> printbuffer \<Rightarrow> (block option \<times> allocs) result" where
  "shrink junk p =
     (let (ok, oks') = allocate (out_allocs p); n = out_offset p + 1 in
      case out_buffer p of
        None \<Rightarrow> Inl InvalidPointer
      | Some b \<Rightarrow>
          if \<not> ok then Inr (None, oks')
          else if out_reallocate p then Inr (Some (take n b @ malloc junk (n - length b)), oks')
          else and_then (memcpy (malloc junk n) 0 b 0 (min (out_length p) n)) (\<lambda>b'.
            and_then (put_bytes b' (out_offset p) [NUL]) (\<lambda>printed. Inr (Some printed, oks'))))"

definition print_item ::
  "(nat \<Rightarrow> char) \<Rightarrow> bool \<Rightarrow> cJSON option \<Rightarrow> bool \<Rightarrow> allocs \<Rightarrow> (block option \<times> allocs) result" where
  "print_item junk reallocate item format oks =
     (let (ok, oks') = allocate oks in
      if \<not> ok then Inr (None, oks')
      else and_then (print_maybe junk item
          (new_printbuffer (malloc junk 256) 256 False format reallocate oks')) (\<lambda>(printed, p1).
        if \<not> printed then Inr (None, out_allocs p1)
        else and_then (update_offset p1) (\<lambda>p2. shrink junk p2)))"

definition cJSON_Print where "cJSON_Print junk item oks = print_item junk True item True oks"
definition cJSON_PrintUnformatted where
  "cJSON_PrintUnformatted junk item oks = print_item junk True item False oks"

definition cJSON_PrintBuffered ::
  "(nat \<Rightarrow> char) \<Rightarrow> cJSON option \<Rightarrow> i32 \<Rightarrow> bool \<Rightarrow> allocs \<Rightarrow> (block option \<times> allocs) result" where
  "cJSON_PrintBuffered junk item prebuffer fmt oks =
     (if prebuffer <s 0 then Inr (None, oks)
      else let (ok, oks') = allocate oks; n = unat prebuffer in
        if \<not> ok then Inr (None, oks')
        else and_then (print_maybe junk item
            (new_printbuffer (malloc junk n) n False fmt True oks')) (\<lambda>(printed, p1).
          Inr (if printed then out_buffer p1 else None, out_allocs p1)))"

text \<open>The caller's block; \<open>len\<close> is the size the caller claims. The second result is the block.\<close>

definition cJSON_PrintPreallocated ::
  "(nat \<Rightarrow> char) \<Rightarrow> cJSON option \<Rightarrow> block \<Rightarrow> i32 \<Rightarrow> bool \<Rightarrow> (bool \<times> block) result" where
  "cJSON_PrintPreallocated junk item buffer len format =
     (if len <s 0 then Inr (False, buffer)
      else and_then (print_maybe junk item (new_printbuffer buffer (unat len) True format True []))
        (\<lambda>(printed, p1). Inr (printed, case out_buffer p1 of Some b \<Rightarrow> b | None \<Rightarrow> buffer)))"

end
