(* ===== verification/CJson_Numbers.thy ===== *)
theory CJson_Numbers
  imports CJson_Print CJson_Roundtrip
begin

text \<open>
  The text of a number fits the 26 bytes of \<open>number_buffer\<close>, whatever double it is.
\<close>

section \<open>Powers of ten\<close>

lemma scale10_powi: "scale10 k x = x * 10 powi k"
  by (auto simp: scale10_def power_int_def field_simps)

lemma scale2_powi: "scale2 k x = x * 2 powi k"
  by (auto simp: scale2_def power_int_def field_simps)

lemma digits_rev_lower: "0 < n \<Longrightarrow> 10 ^ (length (digits_rev n) - 1) \<le> n"
proof (induction n rule: less_induct)
  case (less n)
  show ?case
  proof (cases "n < 10")
    case False
    then have "10 ^ (length (digits_rev (n div 10)) - 1) \<le> n div 10" by (intro less.IH) auto
    then have "10 * 10 ^ (length (digits_rev (n div 10)) - 1) \<le> n" by linarith
    moreover have "digits_rev (n div 10) \<noteq> []" by simp
    then obtain l where "length (digits_rev (n div 10)) = Suc l" by (cases "length (digits_rev (n div 10))") auto
    ultimately show ?thesis using False by (simp add: digits_rev.simps [of n])
  qed (use less.prems in \<open>simp add: digits_rev.simps [of n]\<close>)
qed

lemma digits_rev_upper: "n < 10 ^ length (digits_rev n)"
proof (induction n rule: less_induct)
  case (less n)
  show ?case
  proof (cases "n < 10")
    case False
    then have "n div 10 < 10 ^ length (digits_rev (n div 10))" by (intro less.IH) auto
    then have "n < 10 * 10 ^ length (digits_rev (n div 10))" by linarith
    then show ?thesis using False by (simp add: digits_rev.simps [of n])
  qed (simp add: digits_rev.simps [of n])
qed

lemma show_nat_powi:
  assumes "0 < n"
  shows "10 powi (int (length (show_nat n)) - 1) \<le> (of_nat n :: rat)"
    and "(of_nat n :: rat) < 10 powi int (length (show_nat n))"
proof -
  obtain l where l: "length (digits_rev n) = Suc l" by (cases "length (digits_rev n)") auto
  have "(of_nat (10 ^ (length (digits_rev n) - 1)) :: rat) \<le> of_nat n"
    using digits_rev_lower [OF assms] by (simp only: of_nat_le_iff)
  then show "10 powi (int (length (show_nat n)) - 1) \<le> (of_nat n :: rat)" by (simp add: show_nat_def l)
  have "(of_nat n :: rat) < of_nat (10 ^ length (digits_rev n))"
    using digits_rev_upper by (simp only: of_nat_less_iff)
  then show "(of_nat n :: rat) < 10 powi int (length (show_nat n))" by (simp add: show_nat_def)
qed

lemma decimal_exponent_bounds:
  assumes "0 < a"
  shows "10 powi decimal_exponent a \<le> a" and "a < 10 powi (decimal_exponent a + 1)"
proof -
  obtain n d where q: "quotient_of a = (n, d)" by (cases "quotient_of a")
  have d: "0 < d" using quotient_of_denom_pos [OF q] .
  have a: "a = of_int n / of_int d" using quotient_of_div [OF q] .
  then have n: "0 < n" using assms d by (simp add: zero_less_divide_iff)
  define k where "k = int (length (show_nat (nat n))) - int (length (show_nat (nat d)))"
  let ?n = "of_int n :: rat" and ?d = "of_int d :: rat"
  let ?p = "10 powi int (length (show_nat (nat n))) :: rat" and ?r = "10 powi int (length (show_nat (nat d))) :: rat"
  have nn: "10 powi (int (length (show_nat (nat n))) - 1) \<le> ?n" "?n < ?p"
    using show_nat_powi [of "nat n"] n by simp_all
  have dd: "10 powi (int (length (show_nat (nat d))) - 1) \<le> ?d" "?d < ?r"
    using show_nat_powi [of "nat d"] d by simp_all
  have dpos: "0 < ?d" using d by simp
  have "?n * 10 powi (int (length (show_nat (nat d))) - 1) < ?p * ?d"
    using nn(2) dd(1) dpos n by (intro mult_less_le_imp_less) simp_all
  then have "a < ?p / 10 powi (int (length (show_nat (nat d))) - 1)"
    using dpos by (simp add: a field_simps)
  also have "\<dots> = 10 powi (k + 1)"
    by (simp add: k_def power_int_diff power_int_add)
  finally have up: "a < 10 powi (k + 1)" .
  have "10 powi (int (length (show_nat (nat n))) - 1) * ?d < ?n * ?r"
    using nn(1) dd(2) dpos n by (intro mult_le_less_imp_less) simp_all
  then have "10 powi (int (length (show_nat (nat n))) - 1) / ?r < a"
    using dpos by (simp add: a field_simps)
  moreover have "10 powi (int (length (show_nat (nat n))) - 1) / ?r = 10 powi (k - 1)"
    by (simp add: k_def power_int_diff)
  ultimately have low: "10 powi (k - 1) < a" by simp
  have e: "decimal_exponent a = (if 10 powi k \<le> a then k else k - 1)"
    by (simp add: decimal_exponent_def q k_def scale10_powi)
  show "10 powi decimal_exponent a \<le> a" using low by (simp add: e)
  show "a < 10 powi (decimal_exponent a + 1)" using up by (simp add: e)
qed

section \<open>Digits\<close>

lemma round_half_even_le: "x < of_int k \<Longrightarrow> round_half_even x \<le> k"
proof -
  assume "x < of_int k"
  then have "\<lfloor>x\<rfloor> < k" by (simp add: floor_less_iff)
  then show ?thesis by (auto simp: round_half_even_def Let_def)
qed

lemma significant_length:
  assumes "0 < a" and "0 < P"
  shows "length (fst (significant P a)) \<le> P"
    and "snd (significant P a) \<in> {decimal_exponent a, decimal_exponent a + 1}"
proof -
  let ?e = "decimal_exponent a"
  define m where "m = nat (round_half_even (scale10 (int P - 1 - ?e) a))"
  have s: "significant P a = (if m = 10 ^ P then (show_nat (10 ^ (P - 1)), ?e + 1) else (show_nat m, ?e))"
    by (simp add: significant_def m_def Let_def)
  then show "snd (significant P a) \<in> {?e, ?e + 1}" by simp
  obtain k where k: "P = Suc k" using assms(2) by (cases P) auto
  have "scale10 (int P - 1 - ?e) a < 10 powi (?e + 1) * 10 powi (int P - 1 - ?e)"
    using decimal_exponent_bounds(2) [OF assms(1)] by (simp add: scale10_powi)
  also have "\<dots> = 10 powi int P" by (simp flip: power_int_add)
  finally have "scale10 (int P - 1 - ?e) a < of_int (10 ^ P)" by simp
  then have "round_half_even (scale10 (int P - 1 - ?e) a) \<le> 10 ^ P" by (rule round_half_even_le)
  then have "int m \<le> int (10 ^ P)" by (simp add: m_def)
  then have "m \<le> 10 ^ P" by (simp only: of_nat_le_iff)
  then have "length (show_nat m) \<le> Suc k" if "m \<noteq> 10 ^ P"
    using that k digits_rev_length [of m k] by (simp add: show_nat_def)
  moreover have "length (show_nat (10 ^ k)) \<le> Suc k"
    using digits_rev_length [of "10 ^ k" k] by (simp add: show_nat_def)
  ultimately show "length (fst (significant P a)) \<le> P" by (simp add: s) (simp add: k)
qed

lemma strip_zeros_length: "length (strip_zeros s) \<le> length s"
  using length_dropWhile_le [of "\<lambda>c. c = CHR ''0''" "rev s"] by (simp add: strip_zeros_def)

lemma exponent_text_length:
  assumes "- 1000 < e" and "e < 1000"
  shows "length (exponent_text e) \<le> 5"
proof -
  have "nat \<bar>e\<bar> < 10 ^ Suc 2" using assms by simp
  then have "length (show_nat (nat \<bar>e\<bar>)) \<le> 3" using digits_rev_length [of "nat \<bar>e\<bar>" 2] by (simp add: show_nat_def)
  then show ?thesis by (simp add: exponent_text_def Let_def)
qed

lemma sprintf_g_length:
  assumes "- 999 < decimal_exponent \<bar>q\<bar>" and "decimal_exponent \<bar>q\<bar> < 998" and "0 < P"
  shows "length (sprintf_g P q) \<le> P + 7"
proof (cases "q = 0")
  case True
  then show ?thesis by (simp add: sprintf_g_def)
next
  case False
  obtain ds e where s: "significant P \<bar>q\<bar> = (ds, e)" by (cases "significant P \<bar>q\<bar>")
  have pos: "0 < \<bar>q\<bar>" using False by simp
  from significant_length [OF pos assms(3)] s assms(1,2)
  have ds: "length ds \<le> P" and e: "- 1000 < e" "e < 1000" by auto
  have x: "length (exponent_text e) \<le> 5" by (rule exponent_text_length [OF e])
  have "length (strip_zeros (drop n ds)) \<le> P - n" for n
    using strip_zeros_length [of "drop n ds"] ds by simp
  note d1 = this [of 1] and dn = this [of "nat e + 1"]
  have d0: "length (strip_zeros ds) \<le> P" using strip_zeros_length [of ds] ds by simp
  have point: "length (with_point w fr) \<le> length w + 1 + length fr" for w fr
    by (simp add: with_point_def)
  consider "e < - 4 \<or> int P \<le> e" | "\<not> (e < - 4 \<or> int P \<le> e)" "0 \<le> e" | "\<not> (e < - 4 \<or> int P \<le> e)" "\<not> 0 \<le> e"
    by blast
  then show ?thesis
  proof cases
    case 1
    have "length (take 1 ds) \<le> 1" by simp
    then have "length (with_point (take 1 ds) (strip_zeros (drop 1 ds)) @ exponent_text e) \<le> P + 6"
      using point [of "take 1 ds" "strip_zeros (drop 1 ds)"] d1 x assms(3) by (simp only: length_append)
    then show ?thesis using False 1 by (simp add: sprintf_g_def s)
  next
    case 2
    then have "nat e + 1 \<le> P" by simp
    moreover have "length (take (nat e + 1) ds) \<le> nat e + 1" by simp
    ultimately have "length (with_point (take (nat e + 1) ds) (strip_zeros (drop (nat e + 1) ds))) \<le> P + 1"
      using point [of "take (nat e + 1) ds" "strip_zeros (drop (nat e + 1) ds)"] dn by linarith
    then show ?thesis using False 2 by (simp add: sprintf_g_def s)
  next
    case 3
    then have "nat (- e) - 1 \<le> 3" by simp
    then have "length (with_point ''0'' (replicate (nat (- e) - 1) (CHR ''0'') @ strip_zeros ds)) \<le> P + 5"
      using point [of "''0''" "replicate (nat (- e) - 1) (CHR ''0'') @ strip_zeros ds"] d0 by simp
    then show ?thesis using False 3 by (simp add: sprintf_g_def s)
  qed
qed

section \<open>Doubles\<close>

text \<open>What a double can be.\<close>

definition representable :: "dbl \<Rightarrow> bool" where
  "representable d \<longleftrightarrow> (case d of Finite q \<Rightarrow> round_double q = Finite q | _ \<Rightarrow> True)"

lemma representable_bounds:
  assumes "representable (Finite q)" and "q \<noteq> 0"
  shows "2 powi (- 1074) \<le> \<bar>q\<bar>" and "\<bar>q\<bar> < 2 powi 1024"
proof -
  define e where "e = max (binary_exponent \<bar>q\<bar>) (- 1022)"
  define k where "k = round_half_even (scale2 (52 - e) \<bar>q\<bar>)"
  define v where "v = scale2 (e - 52) (of_int k)"
  have r: "round_double q = (if of_int (2 ^ 1024) \<le> v then Infinity (q < 0) else Finite (if q < 0 then - v else v))"
    using assms(2) by (simp add: round_double_def Let_def e_def k_def v_def)
  then have lt: "v < 2 powi 1024" and eq: "q = (if q < 0 then - v else v)"
    using assms(1) by (auto simp: representable_def split: if_splits)
  then have qv: "\<bar>q\<bar> = v" by (auto split: if_splits)
  then show "\<bar>q\<bar> < 2 powi 1024" using lt by simp
  have v: "v = of_int k * 2 powi (e - 52)" by (simp add: v_def scale2_powi)
  then have "0 < of_int k * (2 powi (e - 52) :: rat)" using qv assms(2) by linarith
  moreover have "(0 :: rat) < 2 powi (e - 52)" by simp
  ultimately have "(0 :: rat) < of_int k" using zero_less_mult_pos2 by blast
  then have "1 \<le> k" by simp
  then have "1 * 2 powi (e - 52) \<le> of_int k * (2 powi (e - 52) :: rat)" by (intro mult_right_mono) simp_all
  moreover have "(2 powi (- 1074) :: rat) \<le> 2 powi (e - 52)"
    by (intro power_int_increasing) (simp_all add: e_def)
  ultimately show "2 powi (- 1074) \<le> \<bar>q\<bar>" unfolding qv v by linarith
qed

lemma representable_exponent:
  assumes "representable (Finite q)" and "q \<noteq> 0"
  shows "- 332 < decimal_exponent \<bar>q\<bar>" and "decimal_exponent \<bar>q\<bar> < 330"
proof -
  let ?e = "decimal_exponent \<bar>q\<bar>"
  have pos: "0 < \<bar>q\<bar>" using assms(2) by simp
  have "(2 :: rat) powi 1024 < 10 powi 330" by (simp add: power_int_def)
  then have "(10 :: rat) powi ?e < 10 powi 330"
    using decimal_exponent_bounds(1) [OF pos] representable_bounds(2) [OF assms] by linarith
  then have "\<not> 330 \<le> ?e" using power_int_increasing [of 330 ?e "10 :: rat"] by linarith
  then show "?e < 330" by simp
  have "inverse (10 ^ 330 :: rat) < inverse (2 ^ 1074)" by (rule less_imp_inverse_less) simp_all
  then have "(10 :: rat) powi (- 330) < 2 powi (- 1074)" by (simp only: power_int_minus power_int_numeral)
  then have "(10 :: rat) powi (- 330) < 10 powi (?e + 1)"
    using decimal_exponent_bounds(2) [OF pos] representable_bounds(1) [OF assms] by linarith
  then have "\<not> ?e + 1 \<le> - 330" using power_int_increasing [of "?e + 1" "- 330" "10 :: rat"] by linarith
  then show "- 332 < ?e" by simp
qed

lemma show_int_length:
  assumes "INT_MIN \<le> k" and "k \<le> INT_MAX"
  shows "length (show_int k) \<le> 11"
proof -
  have "nat \<bar>k\<bar> < 10 ^ Suc 9" using assms by (simp add: INT_MIN_def INT_MAX_def)
  then have "length (show_nat (nat \<bar>k\<bar>)) \<le> 10" using digits_rev_length [of "nat \<bar>k\<bar>" 9] by (simp add: show_nat_def)
  then show ?thesis by (simp add: show_int_def abs_if split: if_splits)
qed

text \<open>\<open>number_buffer\<close> has 26 bytes; 24 characters and a NUL are needed.\<close>

lemma number_string_length:
  assumes "representable (item_valuedouble it)"
  shows "length (number_string it) \<le> 24"
proof (cases "item_valuedouble it")
  case (Finite q)
  let ?k = "sint (item_valueint it)"
  have "INT_MIN \<le> ?k" "?k \<le> INT_MAX"
    using sint_ge [of "item_valueint it"] sint_lt [of "item_valueint it"]
    by (simp_all add: INT_MIN_def INT_MAX_def)
  then have int: "length (show_int ?k) \<le> 11" by (rule show_int_length)
  have "length (sprintf_g P q) \<le> 24" if "0 < P" "P \<le> 17" for P
  proof (cases "q = 0")
    case False
    have "length (sprintf_g P q) \<le> P + 7"
      by (rule sprintf_g_length)
        (use representable_exponent [of q] assms Finite False that in simp_all)
    then show ?thesis using that by simp
  qed (simp add: sprintf_g_def)
  from this [of 15] this [of 17] int show ?thesis
    by (auto simp: number_string_def Finite Let_def split: prod.split)
qed (simp_all add: number_string_def)

end
