(* ===== verification/CJson_Print_Correct.thy ===== *)
theory CJson_Print_Correct
  imports CJson_Numbers
begin

text \<open>
  The JSON printer computes \<open>json_text\<close>, a recursive definition of the text of an item, and
  never leaves its buffer, whatever the item, the sizes and the allocations that fail.
\<close>

section \<open>The text of an item\<close>

definition layout :: "bool \<Rightarrow> string \<Rightarrow> string" where
  "layout fmt s = (if fmt then s else [])"

definition quoted :: "string option \<Rightarrow> string" where
  "quoted s = [CHR 0x22] @ concat (map escaped (case s of None \<Rightarrow> [] | Some t \<Rightarrow> t)) @ [CHR 0x22]"

fun json_text :: "bool \<Rightarrow> nat \<Rightarrow> cJSON \<Rightarrow> string"
and elements_text :: "bool \<Rightarrow> nat \<Rightarrow> cJSON list \<Rightarrow> string"
and fields_text :: "bool \<Rightarrow> nat \<Rightarrow> cJSON list \<Rightarrow> string" where
  "json_text fmt d (CJSON t vs vi vd st ch) =
     (let k = t AND 0xFF in
      if k = cJSON_NULL then ''null'' else if k = cJSON_False then ''false''
      else if k = cJSON_True then ''true''
      else if k = cJSON_Number then number_string (CJSON t vs vi vd st ch)
      else if k = cJSON_Raw then the vs
      else if k = cJSON_String then quoted vs
      else if k = cJSON_Array then ''['' @ elements_text fmt (d + 1) ch @ '']''
      else [CHR 0x7B] @ layout fmt [NEWLINE] @ fields_text fmt (d + 1) ch @
        layout fmt (replicate d TAB) @ [CHR 0x7D])"
| "elements_text fmt d [] = []"
| "elements_text fmt d (c # cs) =
     json_text fmt d c @ (if cs = [] then [] else '','' @ layout fmt '' '') @ elements_text fmt d cs"
| "fields_text fmt d [] = []"
| "fields_text fmt d (c # cs) =
     layout fmt (replicate d TAB) @ quoted (item_string c) @ '':'' @ layout fmt [TAB] @
     json_text fmt d c @ (if cs = [] then [] else '','') @ layout fmt [NEWLINE] @ fields_text fmt d cs"

text \<open>
  Items that have a text: known types, and a raw item has its string. And what every item
  satisfies that C code can build: C strings, and numbers that are doubles.
\<close>

fun printable :: "cJSON \<Rightarrow> bool" where
  "printable (CJSON t vs vi vd st ch) \<longleftrightarrow>
     (let k = t AND 0xFF in
      k \<in> {cJSON_NULL, cJSON_False, cJSON_True, cJSON_Number, cJSON_String} \<or>
      k = cJSON_Raw \<and> vs \<noteq> None \<or>
      (k = cJSON_Array \<or> k = cJSON_Object) \<and> list_all printable ch)"

definition clean_string :: "string option \<Rightarrow> bool" where
  "clean_string s \<longleftrightarrow> (case s of None \<Rightarrow> True | Some t \<Rightarrow> NUL \<notin> set t)"

fun clean_item :: "cJSON \<Rightarrow> bool" where
  "clean_item (CJSON t vs vi vd st ch) \<longleftrightarrow>
     clean_string vs \<and> clean_string st \<and> representable vd \<and> list_all clean_item ch"

section \<open>A calculus of printing\<close>

text \<open>
  \<open>does F P r\<close>: no fault, after a success \<open>P\<close> holds of the buffer, and a failure is excused
  by \<open>F\<close>.
\<close>

definition does :: "bool \<Rightarrow> (printbuffer \<Rightarrow> bool) \<Rightarrow> printing \<Rightarrow> bool" where
  "does F P r \<longleftrightarrow> (case r of Inl _ \<Rightarrow> False | Inr (ok, p) \<Rightarrow> if ok then P p else F)"

lemma does_simps [simp]:
  "does F P (Inr (True, p)) = P p" "does F P (Inr (False, p)) = F" "\<not> does F P (Inl e)"
  by (simp_all add: does_def)

lemma does_then:
  assumes "does F P r" and "\<And>p. P p \<Longrightarrow> does F Q (f p)"
  shows "does F Q (print_then r f)"
proof (cases r)
  case (Inr x)
  obtain ok p where x: "x = (ok, p)" by (cases x)
  show ?thesis
  proof (cases ok)
    case True
    then have "P p" using assms(1) Inr x by simp
    then show ?thesis using assms(2) Inr x True by (simp add: print_then_def)
  qed (use assms(1) Inr x in \<open>simp add: print_then_def\<close>)
qed (use assms(1) in simp)

lemma does_weaken: "does F P r \<Longrightarrow> (\<And>p. P p \<Longrightarrow> Q p) \<Longrightarrow> does F Q r"
  by (auto simp: does_def split: sum.splits)

text \<open>
  \<open>able p n\<close>: the buffer has or can get \<open>n\<close> bytes. \<open>keeps\<close>: what printing leaves alone.
\<close>

definition able :: "printbuffer \<Rightarrow> nat \<Rightarrow> bool" where
  "able p n \<longleftrightarrow> int n \<le> INT_MAX \<and> (if out_noalloc p then n \<le> out_length p else out_allocs p = [])"

lemma able_less: "able p n \<Longrightarrow> m \<le> n \<Longrightarrow> able p m"
  by (auto simp: able_def)

definition keeps :: "printbuffer \<Rightarrow> printbuffer \<Rightarrow> bool" where
  "keeps p p' \<longleftrightarrow> out_format p' = out_format p \<and> out_depth p' = out_depth p \<and>
     out_noalloc p' = out_noalloc p \<and> out_reallocate p' = out_reallocate p \<and>
     (\<forall>n. able p n \<longrightarrow> able p' n)"

lemma keeps_refl [simp]: "keeps p p"
  by (simp add: keeps_def)

lemma keeps_trans: "keeps p p' \<Longrightarrow> keeps p' p'' \<Longrightarrow> keeps p p''"
  by (simp add: keeps_def)

lemma keepsD:
  "keeps p p' \<Longrightarrow> out_format p' = out_format p" "keeps p p' \<Longrightarrow> out_depth p' = out_depth p"
  "keeps p p' \<Longrightarrow> able p n \<Longrightarrow> able p' n"
  by (simp_all add: keeps_def)

lemma keeps_update [simp]:
  "keeps p (p'\<lparr>out_buffer := x\<rparr>) = keeps p p'" "keeps p (p'\<lparr>out_offset := n\<rparr>) = keeps p p'"
  by (simp_all add: keeps_def able_def)

text \<open>
  \<open>holds p s\<close>: the text so far is \<open>s\<close> and the offset is at its end. \<open>ends p s\<close>: the text
  so far is \<open>s\<close>, terminated, and the offset is somewhere in it. \<open>room p s n\<close>: as \<open>holds\<close>,
  and \<open>n + 1\<close> more bytes fit.
\<close>

definition holds :: "printbuffer \<Rightarrow> string \<Rightarrow> bool" where
  "holds p s \<longleftrightarrow> (\<exists>r. out_buffer p = Some (s @ r) \<and> out_offset p = length s \<and>
     out_length p \<le> length s + length r \<and>
     (length s < out_length p \<or> out_length p = 0 \<and> s = [] \<and> out_reallocate p))"

definition room :: "printbuffer \<Rightarrow> string \<Rightarrow> nat \<Rightarrow> bool" where
  "room p s n \<longleftrightarrow> (\<exists>r. out_buffer p = Some (s @ r) \<and> out_offset p = length s \<and>
     out_length p \<le> length s + length r \<and> length s + n < out_length p)"

definition ends :: "printbuffer \<Rightarrow> string \<Rightarrow> bool" where
  "ends p s \<longleftrightarrow> (\<exists>r. out_buffer p = Some (s @ NUL # r) \<and> out_offset p \<le> length s \<and>
     out_length p \<le> length s + 1 + length r \<and> length s < out_length p)"

lemma ensure_room:
  assumes "holds p s" and "\<not> F \<Longrightarrow> able p (length s + amount + 1)"
  shows "does F (\<lambda>p'. keeps p p' \<and> room p' s amount) (ensure junk amount p)"
proof -
  obtain r where r: "out_buffer p = Some (s @ r)" "out_offset p = length s"
    "out_length p \<le> length s + length r"
    "length s < out_length p \<or> out_length p = 0 \<and> s = [] \<and> out_reallocate p"
    using assms(1) by (auto simp: holds_def)
  have off: "\<not> (0 < out_length p \<and> out_length p \<le> out_offset p)" using r by auto
  let ?n = "amount + length s + 1"
  let ?m = "if INT_MAX div 2 < int ?n then nat INT_MAX else ?n * 2"
  have commute: "amount + out_offset p + 1 = ?n" using r(2) by simp
  consider "INT_MAX < int amount" | "int amount \<le> INT_MAX" "?n \<le> out_length p"
    | "int amount \<le> INT_MAX" "\<not> ?n \<le> out_length p" "out_noalloc p \<or> INT_MAX < int ?n"
    | "int amount \<le> INT_MAX" "\<not> ?n \<le> out_length p" "\<not> out_noalloc p" "\<not> INT_MAX < int ?n"
    by linarith
  then show ?thesis
  proof cases
    case 1
    then have "ensure junk amount p = Inr (False, p)" "F"
      using r(1) off assms(2) by (auto simp: ensure_def able_def)
    then show ?thesis by simp
  next
    case 2
    then have "ensure junk amount p = Inr (True, p)"
      using r(1) off commute by (simp add: ensure_def Let_def)
    moreover have "room p s amount" using r 2 by (simp add: room_def)
    ultimately show ?thesis by simp
  next
    case 3
    then have "ensure junk amount p = Inr (False, p)"
      using r(1) off commute by (auto simp: ensure_def Let_def)
    moreover have "F" by (rule ccontr) (use 3 assms(2) in \<open>auto simp: able_def algebra_simps\<close>)
    ultimately show ?thesis by simp
  next
    case 4
    obtain ok oks where al: "allocate (out_allocs p) = (ok, oks)" by (cases "allocate (out_allocs p)")
    have nofail: "F" if "\<not> ok"
      using 4 al that assms(2) by (cases "out_allocs p") (auto simp: able_def allocate_def)
    have al0: "out_allocs p = [] \<Longrightarrow> oks = []" using al by (simp add: allocate_def)
    define M where "M = ?m"
    have m: "?n \<le> M" using 4 by (auto simp: M_def)
    define nb where "nb = (if out_reallocate p then Inr (take M (s @ r) @ malloc junk (M - length (s @ r)))
                    else memcpy (malloc junk M) 0 (s @ r) 0 (length s + 1))"
    have eq: "ensure junk amount p =
        (if \<not> ok then Inr (False, p\<lparr>out_allocs := oks, out_length := 0, out_buffer := None\<rparr>)
         else and_then nb (\<lambda>newbuffer.
           Inr (True, p\<lparr>out_allocs := oks, out_length := M, out_buffer := Some newbuffer\<rparr>)))"
      using 4 off al commute unfolding ensure_def nb_def M_def Let_def r(1) r(2) by auto
    have "\<exists>r'. nb = Inr (s @ r') \<and> length s + length r' = M"
    proof (cases "out_reallocate p")
      case True
      have "take M (s @ r) @ malloc junk (M - length (s @ r)) =
          s @ take (M - length s) r @ malloc junk (M - length (s @ r))"
        using m by simp
      moreover have "length s + length (take (M - length s) r @ malloc junk (M - length (s @ r))) = M"
        using m by (simp add: min_def)
      ultimately show ?thesis unfolding nb_def if_P [OF True] by blast
    next
      case False
      then obtain x r2 where "r = x # r2" using r by (cases r) auto
      then have "nb = Inr (s @ x # drop (length s + 1) (malloc junk M))"
        using False m by (simp add: nb_def memcpy_def read_bytes_def put_bytes_prefix)
      then show ?thesis using m
        by (intro exI [of _ "x # drop (length s + 1) (malloc junk M)"]) simp
    qed
    then obtain r' where r': "nb = Inr (s @ r')" "length s + length r' = M" by blast
    let ?p = "p\<lparr>out_allocs := oks, out_length := M, out_buffer := Some (s @ r')\<rparr>"
    have "keeps p ?p" using 4 al0 by (auto simp: keeps_def able_def)
    moreover have "room ?p s amount" using r(2) r'(2) m by (simp add: room_def)
    ultimately show ?thesis using nofail by (simp only: eq r'(1) and_then_simps does_simps split: if_splits) simp
  qed
qed

lemma write_room:
  assumes "room p s n" and "length xs \<le> n + 1"
  shows "\<exists>r. write_at 0 xs p = Inr (p\<lparr>out_buffer := Some (s @ xs @ r)\<rparr>) \<and>
    out_length p \<le> length s + length xs + length r \<and> length s + n < out_length p \<and>
    out_offset p = length s"
proof -
  obtain r where r: "out_buffer p = Some (s @ r)" "out_offset p = length s"
    "out_length p \<le> length s + length r" "length s + n < out_length p"
    using assms(1) by (auto simp: room_def)
  then have "length xs \<le> length r" using assms(2) by simp
  then show ?thesis using r
    by (intro exI [of _ "drop (length xs) r"]) (simp add: write_at_def put_bytes_def)
qed

text \<open>Emitting text to go on from, and text to end with.\<close>

lemma emit_holds:
  assumes "holds p s" and "\<not> F \<Longrightarrow> able p (length s + amount + 1)"
    and "length (t @ u) \<le> amount + 1" and "length t \<le> amount"
  shows "does F (\<lambda>p'. keeps p p' \<and> holds p' (s @ t)) (emit junk amount (t @ u) (length t) p)"
  unfolding emit_def
proof (rule does_then [OF ensure_room])
  fix p1 assume p1: "keeps p p1 \<and> room p1 s amount"
  obtain r where r: "write_at 0 (t @ u) p1 = Inr (p1\<lparr>out_buffer := Some (s @ (t @ u) @ r)\<rparr>)"
    "out_length p1 \<le> length s + length (t @ u) + length r" "length s + amount < out_length p1"
    "out_offset p1 = length s"
    using write_room [of p1 s amount "t @ u"] p1 assms(3) by blast
  then show "does F (\<lambda>p'. keeps p p' \<and> holds p' (s @ t)) (and_then (write_at 0 (t @ u) p1)
      (\<lambda>p2. Inr (True, p2\<lparr>out_offset := out_offset p2 + length t\<rparr>)))"
    using p1 assms(4) by (auto simp: holds_def)
qed (use assms in simp_all)

lemma emit_ends:
  assumes "holds p s" and "\<not> F \<Longrightarrow> able p (length s + amount + 1)"
    and "length t \<le> amount" and "k \<le> length t"
  shows "does F (\<lambda>p'. keeps p p' \<and> ends p' (s @ t)) (emit junk amount (lit t) k p)"
  unfolding emit_def
proof (rule does_then [OF ensure_room])
  fix p1 assume p1: "keeps p p1 \<and> room p1 s amount"
  obtain r where r: "write_at 0 (lit t) p1 = Inr (p1\<lparr>out_buffer := Some (s @ lit t @ r)\<rparr>)"
    "out_length p1 \<le> length s + length (lit t) + length r" "length s + amount < out_length p1"
    "out_offset p1 = length s"
    using write_room [of p1 s amount "lit t"] p1 assms(3) by (auto simp: lit_def)
  then show "does F (\<lambda>p'. keeps p p' \<and> ends p' (s @ t)) (and_then (write_at 0 (lit t) p1)
      (\<lambda>p2. Inr (True, p2\<lparr>out_offset := out_offset p2 + k\<rparr>)))"
    using p1 assms(3,4) by (auto simp: ends_def lit_def)
qed (use assms in simp_all)

lemma update_offset_ends:
  assumes "ends p s" and "NUL \<notin> set s"
  shows "\<exists>p'. update_offset p = Inr p' \<and> keeps p p' \<and> holds p' s \<and> ends p' s"
proof -
  obtain r where r: "out_buffer p = Some (s @ NUL # r)" "out_offset p \<le> length s"
    "out_length p \<le> length s + 1 + length r" "length s < out_length p"
    using assms(1) by (auto simp: ends_def)
  have "NUL \<notin> set (drop (out_offset p) s)" using assms(2) in_set_dropD by fast
  then have "c_string (s @ NUL # r) (out_offset p) = Inr (drop (out_offset p) s)"
    using r(2) by (simp add: c_string_def)
  then show ?thesis using r by (auto simp: update_offset_def holds_def ends_def)
qed

section \<open>Strings\<close>

lemma escaped_length: "length (escaped c) = 1 + escape_cost c"
proof (cases "(31 :: nat) < of_char c \<and> c \<noteq> CHR 0x22 \<and> c \<noteq> CHR 0x5C")
  case True
  then have "escape_letter c = None" by (auto simp: escape_letter_def)
  with True show ?thesis by (simp add: escaped_def escape_cost_def)
next
  case False
  then show ?thesis
    by (cases "escape_letter c") (auto simp: escaped_def escape_cost_def hex4_def escape_letter_def)
qed

lemma escaped_lengths: "length (concat (map escaped s)) = length s + sum_list (map escape_cost s)"
  by (induction s) (simp_all add: escaped_length del: length_concat)

lemma escape_free: "sum_list (map escape_cost s) = 0 \<Longrightarrow> concat (map escaped s) = s"
proof (induction s)
  case (Cons c s)
  then have "length (escaped c) = 1" by (simp add: escaped_length)
  then have "escaped c = [c]" by (auto simp: escaped_def split: if_splits option.splits)
  with Cons show ?case by simp
qed simp

lemma print_string_ok:
  assumes p: "holds p s" and F: "\<not> F \<Longrightarrow> able p (length s + length (quoted v) + 2)"
  shows "does F (\<lambda>p'. keeps p p' \<and> ends p' (s @ quoted v)) (print_string_ptr junk v p)"
proof (cases v)
  case None
  have "does F (\<lambda>p'. keeps p p' \<and> ends p' (s @ [CHR 0x22, CHR 0x22])) (emit junk 3 (lit [CHR 0x22, CHR 0x22]) 0 p)"
    by (rule emit_ends [OF p]) (use F None in \<open>simp_all add: quoted_def eval_nat_numeral\<close>)
  then show ?thesis by (simp add: print_string_ptr_def None quoted_def)
next
  case (Some t)
  let ?E = "concat (map escaped t)"
  let ?x = "sum_list (map escape_cost t)"
  let ?n = "length t + ?x"
  have E: "length ?E = ?n" by (rule escaped_lengths)
  have q: "quoted v = [CHR 0x22] @ ?E @ [CHR 0x22]" by (simp add: quoted_def Some)
  have *: "print_string_ptr junk v p = print_then (ensure junk (?n + 3) p) (\<lambda>p1.
      if ?x = 0 then and_then (write_at 0 ([CHR 0x22] @ t @ [CHR 0x22, NUL]) p1) (\<lambda>p2. Inr (True, p2))
      else and_then (write_at 0 (CHR 0x22 # ?E) p1) (\<lambda>p2.
        and_then (write_at (?n + 1) [CHR 0x22, NUL] p2) (\<lambda>p3. Inr (True, p3))))"
    by (simp only: print_string_ptr_def Some option.case Let_def)
  show ?thesis unfolding *
  proof (rule does_then [OF ensure_room [OF p]])
    have "length s + (?n + 3) + 1 = length s + length (quoted v) + 2"
      using E by (simp add: q del: length_concat)
    then show "able p (length s + (?n + 3) + 1)" if "\<not> F" using F [OF that] by (simp only:)
    fix p1 assume p1: "keeps p p1 \<and> room p1 s (?n + 3)"
    show "does F (\<lambda>p'. keeps p p' \<and> ends p' (s @ quoted v))
      (if ?x = 0 then and_then (write_at 0 ([CHR 0x22] @ t @ [CHR 0x22, NUL]) p1) (\<lambda>p2. Inr (True, p2))
       else and_then (write_at 0 (CHR 0x22 # ?E) p1) (\<lambda>p2.
         and_then (write_at (?n + 1) [CHR 0x22, NUL] p2) (\<lambda>p3. Inr (True, p3))))"
    proof (cases "?x = 0")
      case True
      obtain r where "write_at 0 ([CHR 0x22] @ t @ [CHR 0x22, NUL]) p1 =
          Inr (p1\<lparr>out_buffer := Some (s @ ([CHR 0x22] @ t @ [CHR 0x22, NUL]) @ r)\<rparr>)"
        "out_length p1 \<le> length s + length ([CHR 0x22] @ t @ [CHR 0x22, NUL]) + length r"
        "length s + (?n + 3) < out_length p1" "out_offset p1 = length s"
        using write_room [of p1 s "?n + 3" "[CHR 0x22] @ t @ [CHR 0x22, NUL]"] p1 True by auto
      then show ?thesis
        using p1 escape_free [OF True] True by (auto simp: q ends_def)
    next
      case False
      obtain r where r: "write_at 0 (CHR 0x22 # ?E) p1 =
          Inr (p1\<lparr>out_buffer := Some (s @ (CHR 0x22 # ?E) @ r)\<rparr>)"
        "out_length p1 \<le> length s + length (CHR 0x22 # ?E) + length r"
        "length s + (?n + 3) < out_length p1" "out_offset p1 = length s"
        using write_room [of p1 s "?n + 3" "CHR 0x22 # ?E"] p1 E by (auto simp del: length_concat)
      let ?b = "s @ CHR 0x22 # ?E @ r"
      have l: "2 \<le> length r" using r(2,3) E by (simp del: length_concat)
      have "put_bytes ?b (length s + (?n + 1)) [CHR 0x22, NUL] =
          Inr (s @ CHR 0x22 # ?E @ [CHR 0x22, NUL] @ drop 2 r)"
        using l E by (simp add: put_bytes_def eval_nat_numeral del: length_concat)
      then have "write_at (?n + 1) [CHR 0x22, NUL] (p1\<lparr>out_buffer := Some ?b\<rparr>) =
          Inr (p1\<lparr>out_buffer := Some (s @ CHR 0x22 # ?E @ [CHR 0x22, NUL] @ drop 2 r)\<rparr>)"
        using r(4) by (simp add: write_at_def del: length_concat)
      moreover have "ends (p1\<lparr>out_buffer := Some (s @ CHR 0x22 # ?E @ [CHR 0x22, NUL] @ drop 2 r)\<rparr>) (s @ quoted v)"
        using r(2,3,4) l E by (auto simp: q ends_def simp del: length_concat)
      moreover have "keeps p (p1\<lparr>out_buffer := Some (s @ CHR 0x22 # ?E @ [CHR 0x22, NUL] @ drop 2 r)\<rparr>)"
        using p1 by simp
      ultimately show ?thesis
        unfolding if_not_P [OF False] r(1) and_then_simps by simp
    qed
  qed
qed

section \<open>Values\<close>

lemma does_update:
  assumes "ends p s" and "NUL \<notin> set s" and "\<And>p'. keeps p p' \<Longrightarrow> holds p' s \<Longrightarrow> does F Q (f p')"
  shows "does F Q (and_then (update_offset p) f)"
  using update_offset_ends [OF assms(1,2)] assms(3) by auto

lemma layout_is: "when_formatted p xs = layout (out_format p) xs"
  by (simp add: when_formatted_def layout_def)

lemma able_deeper [simp]: "able (deeper p) n = able p n" "able (shallower p) n = able p n"
  by (simp_all add: able_def deeper_def shallower_def)

lemma holds_deeper [simp]: "holds (deeper p) s = holds p s" "ends (shallower p) s = ends p s"
  by (simp_all add: holds_def ends_def deeper_def shallower_def)

lemma deeper_fields [simp]:
  "out_format (deeper p) = out_format p" "out_depth (deeper p) = out_depth p + 1"
  "out_noalloc (deeper p) = out_noalloc p" "out_reallocate (deeper p) = out_reallocate p"
  "out_format (shallower p) = out_format p" "out_depth (shallower p) = out_depth p - 1"
  "out_noalloc (shallower p) = out_noalloc p" "out_reallocate (shallower p) = out_reallocate p"
  by (simp_all add: deeper_def shallower_def)

lemma keeps_deeper:
  "keeps p p' \<Longrightarrow> keeps (deeper p) (deeper p')" "keeps (deeper p) p' \<Longrightarrow> keeps p (shallower p')"
  by (simp_all add: keeps_def)

lemma open_array_ok:
  assumes "holds p s" and "\<not> F \<Longrightarrow> able p (length s + 2)"
  shows "does F (\<lambda>p'. keeps (deeper p) p' \<and> holds p' (s @ ''['')) (open_array junk p)"
  unfolding open_array_def
proof (rule does_then)
  show "does F (\<lambda>p'. keeps p p' \<and> holds p' (s @ ''['')) (emit junk 1 ''['' 1 p)"
    using emit_holds [OF assms(1), of F 1 "''[''" "[]" junk] assms(2) by simp
qed (simp add: keeps_deeper)

lemma close_array_ok:
  assumes "holds p s" and "\<not> F \<Longrightarrow> able p (length s + 3)" and "keeps (deeper p0) p"
  shows "does F (\<lambda>p'. keeps p0 p' \<and> ends p' (s @ '']'')) (close_array junk p)"
  unfolding close_array_def
proof (rule does_then)
  show "does F (\<lambda>p'. keeps p p' \<and> ends p' (s @ '']'')) (emit junk 2 (lit '']'') 0 p)"
    by (rule emit_ends) (use assms in \<open>simp_all add: eval_nat_numeral\<close>)
qed (use assms(3) keeps_trans keeps_deeper(2) in auto)

lemma open_object_ok:
  assumes "holds p s" and "\<not> F \<Longrightarrow> able p (length s + length (layout (out_format p) [NEWLINE]) + 3)"
  shows "does F (\<lambda>p'. keeps (deeper p) p' \<and> holds p' (s @ [CHR 0x7B] @ layout (out_format p) [NEWLINE]))
    (open_object junk p)"
  unfolding open_object_def Let_def layout_is
proof (rule does_then)
  let ?t = "CHR 0x7B # layout (out_format p) [NEWLINE]"
  show "does F (\<lambda>p'. keeps p p' \<and> holds p' (s @ ?t)) (emit junk (length ?t + 1) ?t (length ?t) p)"
    using emit_holds [OF assms(1), of F "length ?t + 1" ?t "[]" junk] assms(2)
    by (simp add: eval_nat_numeral)
qed (simp add: keeps_deeper)

lemma close_object_ok:
  assumes "holds p s" and "keeps (deeper p0) p"
    and "\<not> F \<Longrightarrow> able p (length s + length (layout (out_format p0) (replicate (out_depth p0) TAB)) + 3)"
  shows "does F (\<lambda>p'. keeps p0 p' \<and>
      ends p' (s @ layout (out_format p0) (replicate (out_depth p0) TAB) @ [CHR 0x7D])) (close_object junk p)"
  unfolding close_object_def layout_is
proof (rule does_then)
  let ?t = "layout (out_format p0) (replicate (out_depth p0) TAB) @ [CHR 0x7D]"
  have e: "out_format p = out_format p0" "out_depth p = out_depth p0 + 1"
    using assms(2) by (simp_all add: keeps_def)
  have eq: "layout (out_format p) (replicate (out_depth p - 1) TAB) @ lit [CHR 0x7D] = lit ?t"
    by (simp add: e lit_def)
  have "(if out_format p then out_depth p + 1 else 2) = length ?t + 1"
    by (simp add: e layout_def)
  then show "does F (\<lambda>p'. keeps p p' \<and> ends p' (s @ ?t))
      (emit junk (if out_format p then out_depth p + 1 else 2)
        (layout (out_format p) (replicate (out_depth p - 1) TAB) @ lit [CHR 0x7D]) 0 p)"
    unfolding eq by (simp only:) (rule emit_ends, use assms in \<open>simp_all add: eval_nat_numeral\<close>)
qed (use assms(2) keeps_trans keeps_deeper(2) in auto)

lemma array_comma_ok:
  assumes "holds p s" and "\<not> F \<Longrightarrow> able p (length s + length (layout (out_format p) '' '') + 3)"
  shows "does F (\<lambda>p'. keeps p p' \<and> holds p' (s @ '','' @ layout (out_format p) '' '')) (array_comma junk p)"
proof -
  let ?t = "CHR '','' # layout (out_format p) '' ''"
  show ?thesis
    using emit_holds [OF assms(1), of F "length ?t + 1" ?t "[NUL]" junk] assms(2)
    by (simp add: array_comma_def layout_is lit_def eval_nat_numeral)
qed

lemma member_end_ok:
  assumes "holds p s"
    and "\<not> F \<Longrightarrow> able p (length s + length ((if b then [] else '','') @ layout (out_format p) [NEWLINE]) + 2)"
  shows "does F (\<lambda>p'. keeps p p' \<and> holds p' (s @ (if b then [] else '','') @ layout (out_format p) [NEWLINE]))
    (member_end junk b p)"
proof -
  let ?t = "(if b then [] else '','') @ layout (out_format p) [NEWLINE]"
  show ?thesis
    using emit_holds [OF assms(1), of F "length ?t + 1" ?t "[NUL]" junk] assms(2)
    by (simp add: member_end_def layout_is lit_def eval_nat_numeral Let_def split del: if_split)
qed

section \<open>Texts have no NUL\<close>

lemma hex_char_clean: "n < 16 \<Longrightarrow> hex_char n \<noteq> NUL"
proof -
  assume "n < 16"
  moreover have "(of_char (hex_char n) :: nat) \<noteq> 0" if "n < 16"
    using that by (simp add: hex_char_def)
  ultimately show ?thesis by auto
qed

lemma hex4_clean: "NUL \<notin> set (hex4 n)"
  using hex_char_clean [THEN not_sym] by (simp add: hex4_def)

lemma escaped_clean: "NUL \<noteq> c \<Longrightarrow> NUL \<notin> set (escaped c)"
proof -
  assume c: "NUL \<noteq> c"
  show ?thesis
  proof (cases "(31 :: nat) < of_char c \<and> c \<noteq> CHR 0x22 \<and> c \<noteq> CHR 0x5C")
    case True
    show ?thesis unfolding escaped_def if_P [OF True] using c by simp
  next
    case False
    have "NUL \<noteq> x" if "escape_letter c = Some x" for x
      using that by (simp add: escape_letter_def split: if_splits) auto
    then show ?thesis unfolding escaped_def if_not_P [OF False]
      by (cases "escape_letter c") (simp_all add: hex4_clean)
  qed
qed

lemma quoted_clean: "clean_string v \<Longrightarrow> NUL \<notin> set (quoted v)"
proof -
  have "NUL \<notin> set (concat (map escaped t))" if "NUL \<notin> set t" for t
    using that
  proof (induction t)
    case (Cons c t)
    then show ?case using escaped_clean [of c] by simp
  qed simp
  then show "clean_string v \<Longrightarrow> NUL \<notin> set (quoted v)"
    by (cases v) (simp_all add: clean_string_def quoted_def del: set_concat)
qed

lemma layout_clean: "NUL \<notin> set s \<Longrightarrow> NUL \<notin> set (layout fmt s)"
  by (simp add: layout_def)

lemma strip_zeros_set: "set (strip_zeros s) \<subseteq> set s"
  using set_dropWhileD by (fastforce simp: strip_zeros_def)

lemma significant_clean: "NUL \<notin> set (fst (significant P a))"
  by (simp add: significant_def Let_def show_nat_clean)

lemma show_int_no_nul: "NUL \<notin> set (show_int k)"
  by (simp add: show_int_def show_nat_clean)

lemma with_point_set: "NUL \<in> set (with_point w fr) \<longleftrightarrow> NUL \<in> set w \<or> NUL \<in> set fr"
  by (simp add: with_point_def)

lemma sprintf_g_clean: "NUL \<notin> set (sprintf_g P q)"
proof -
  obtain ds e where s: "significant P \<bar>q\<bar> = (ds, e)" by (cases "significant P \<bar>q\<bar>")
  have ds: "NUL \<notin> set ds" using significant_clean [of P "\<bar>q\<bar>"] s by simp
  have strip: "NUL \<in> set x" if "NUL \<in> set (strip_zeros x)" for x
    using strip_zeros_set [of x] that by auto
  have "NUL \<notin> set (exponent_text e)" by (simp add: exponent_text_def Let_def show_nat_clean)
  moreover have "NUL \<notin> set (take n ds)" "NUL \<notin> set (drop n ds)" for n
    using ds in_set_takeD in_set_dropD by fast+
  ultimately show ?thesis
    using ds by (auto simp: sprintf_g_def s with_point_set dest!: strip)
qed

lemma number_string_clean: "NUL \<notin> set (number_string it)"
  by (auto simp: number_string_def Let_def show_int_no_nul sprintf_g_clean split: dbl.splits)

lemma elements_text_clean:
  "(\<And>c d. c \<in> set cs \<Longrightarrow> NUL \<notin> set (json_text fmt d c)) \<Longrightarrow> NUL \<notin> set (elements_text fmt d cs)"
  by (induction cs) (auto simp: layout_def)

lemma fields_text_clean:
  "(\<And>c d. c \<in> set cs \<Longrightarrow> NUL \<notin> set (json_text fmt d c)) \<Longrightarrow> list_all clean_item cs \<Longrightarrow>
   NUL \<notin> set (fields_text fmt d cs)"
proof (induction cs)
  case (Cons c cs)
  have "clean_string (item_string c)" using Cons.prems(2) by (cases c) simp
  then show ?case using Cons quoted_clean by (simp add: layout_def)
qed simp

lemma five_six: "Suc (Suc (Suc (Suc (Suc 0)))) = 5" "Suc (Suc (Suc (Suc (Suc (Suc 0))))) = 6"
  by simp_all

lemma printable_cases:
  assumes "printable (CJSON t vs vi vd st ch)"
  obtains (Word) w where "\<And>fmt d. json_text fmt d (CJSON t vs vi vd st ch) = w" "w \<in> {''null'', ''false'', ''true''}"
      "\<And>junk p. print_value junk (CJSON t vs vi vd st ch) p = emit junk (length w + 1) (lit w) 0 p"
  | (Number) "t AND 0xFF = cJSON_Number"
      "\<And>fmt d. json_text fmt d (CJSON t vs vi vd st ch) = number_string (CJSON t vs vi vd st ch)"
      "\<And>junk p. print_value junk (CJSON t vs vi vd st ch) p = print_number junk (CJSON t vs vi vd st ch) p"
  | (Raw) raw where "vs = Some raw" "\<And>fmt d. json_text fmt d (CJSON t vs vi vd st ch) = raw"
      "\<And>junk p. print_value junk (CJSON t vs vi vd st ch) p = emit junk (length raw + 1) (lit raw) 0 p"
      "t AND 0xFF = cJSON_Raw"
  | (String) "t AND 0xFF = cJSON_String" "\<And>fmt d. json_text fmt d (CJSON t vs vi vd st ch) = quoted vs"
      "\<And>junk p. print_value junk (CJSON t vs vi vd st ch) p = print_string_ptr junk vs p"
  | (Array) "t AND 0xFF = cJSON_Array" "list_all printable ch"
      "\<And>fmt d. json_text fmt d (CJSON t vs vi vd st ch) = ''['' @ elements_text fmt (d + 1) ch @ '']''"
      "\<And>junk p. print_value junk (CJSON t vs vi vd st ch) p = print_then (open_array junk p) (\<lambda>p1.
        print_then (print_elements junk ch p1) (\<lambda>p2. close_array junk p2))"
  | (Object) "t AND 0xFF = cJSON_Object" "list_all printable ch"
      "\<And>fmt d. json_text fmt d (CJSON t vs vi vd st ch) =
        [CHR 0x7B] @ layout fmt [NEWLINE] @ fields_text fmt (d + 1) ch @
        layout fmt (replicate d TAB) @ [CHR 0x7D]"
      "\<And>junk p. print_value junk (CJSON t vs vi vd st ch) p = print_then (open_object junk p) (\<lambda>p1.
        print_then (print_members junk ch p1) (\<lambda>p2. close_object junk p2))"
proof -
  consider "t AND 0xFF = cJSON_NULL" | "t AND 0xFF = cJSON_False" | "t AND 0xFF = cJSON_True"
    | "t AND 0xFF = cJSON_Number" | raw where "t AND 0xFF = cJSON_Raw" "vs = Some raw"
    | "t AND 0xFF = cJSON_String" | "t AND 0xFF = cJSON_Array" "list_all printable ch"
    | "t AND 0xFF = cJSON_Object" "list_all printable ch"
    using assms by (auto simp: Let_def)
  then show thesis
  proof cases
    case 1
    then show thesis by (intro Word [of "''null''"]) (simp_all add: item_types five_six)
  next
    case 2
    then show thesis by (intro Word [of "''false''"]) (simp_all add: item_types five_six)
  next
    case 3
    then show thesis by (intro Word [of "''true''"]) (simp_all add: item_types five_six)
  next
    case 4
    then show thesis by (intro Number) (simp_all add: item_types five_six)
  next
    case (5 raw)
    then show thesis by (intro Raw [of raw]) (simp_all add: item_types five_six)
  next
    case 6
    then show thesis by (intro String) (simp_all add: item_types five_six)
  next
    case 7
    then show thesis by (intro Array) (simp_all add: item_types five_six)
  next
    case 8
    then show thesis by (intro Object) (simp_all add: item_types five_six)
  qed
qed

lemma json_text_clean: "clean_item it \<Longrightarrow> printable it \<Longrightarrow> NUL \<notin> set (json_text fmt d it)"
proof (induction it arbitrary: d)
  case (CJSON t vs vi vd st ch)
  from CJSON.prems(2) show ?case
  proof (cases rule: printable_cases)
    case (Raw raw)
    then show ?thesis using CJSON.prems(1) by (simp add: clean_string_def)
  next
    case String
    then show ?thesis using CJSON.prems(1) quoted_clean [of vs] by (simp del: json_text.simps)
  next
    case Array
    then have "NUL \<notin> set (json_text fmt d c)" if "c \<in> set ch" for c d
      using CJSON.IH [OF that] CJSON.prems(1) that by (simp add: list_all_iff)
    then show ?thesis
      using Array elements_text_clean [of ch fmt "d + 1"] by (simp del: json_text.simps)
  next
    case Object
    then have "NUL \<notin> set (json_text fmt d c)" if "c \<in> set ch" for c d
      using CJSON.IH [OF that] CJSON.prems(1) that by (simp add: list_all_iff)
    then show ?thesis
      using Object fields_text_clean [of ch fmt "d + 1"] CJSON.prems(1)
      by (simp add: layout_def del: json_text.simps)
  qed (auto simp: number_string_clean simp del: json_text.simps)
qed

section \<open>The printer computes the text\<close>

definition prints :: "(nat \<Rightarrow> char) \<Rightarrow> cJSON \<Rightarrow> bool" where
  "prints junk it \<longleftrightarrow> (\<forall>F p s. holds p s \<longrightarrow> NUL \<notin> set s \<longrightarrow> clean_item it \<longrightarrow>
     (\<not> F \<longrightarrow> printable it \<and> able p (length s + length (json_text (out_format p) (out_depth p) it) + 2)) \<longrightarrow>
     does F (\<lambda>p'. printable it \<and> keeps p p' \<and> ends p' (s @ json_text (out_format p) (out_depth p) it))
       (print_value junk it p))"

lemma printsD:
  assumes "prints junk it" and "holds p s" and "NUL \<notin> set s" and "clean_item it"
    and "out_format p = fmt" and "out_depth p = d"
    and "\<not> F \<Longrightarrow> printable it \<and> able p (length s + length (json_text fmt d it) + 2)"
  shows "does F (\<lambda>p'. printable it \<and> keeps p p' \<and> ends p' (s @ json_text fmt d it)) (print_value junk it p)"
  using assms unfolding prints_def by blast

text \<open>Printing an item and moving the offset behind it, then something else.\<close>

lemma value_then:
  assumes "prints junk it" and "holds p s" and "NUL \<notin> set s" and "clean_item it"
    and "out_format p = fmt" and "out_depth p = d"
    and "\<not> F \<Longrightarrow> printable it \<and> able p (length s + length (json_text fmt d it) + 2)"
    and go: "\<And>p'. printable it \<Longrightarrow> keeps p p' \<Longrightarrow> holds p' (s @ json_text fmt d it) \<Longrightarrow>
      NUL \<notin> set (s @ json_text fmt d it) \<Longrightarrow> does F Q (f p')"
  shows "does F Q (print_then (print_value junk it p) (\<lambda>p1. and_then (update_offset p1) f))"
proof (rule does_then [OF printsD [OF assms(1-7)]])
  fix p1 assume p1: "printable it \<and> keeps p p1 \<and> ends p1 (s @ json_text fmt d it)"
  have c: "NUL \<notin> set (s @ json_text fmt d it)" using json_text_clean [OF assms(4)] p1 assms(3) by simp
  then show "does F Q (and_then (update_offset p1) f)"
    using p1 go keeps_trans by (intro does_update [OF _ c]) blast+
qed simp_all

lemma elements_ok:
  assumes "\<And>c. c \<in> set cs \<Longrightarrow> prints junk c" and "holds p s" and "NUL \<notin> set s"
    and "list_all clean_item cs" and "out_format p = fmt" and "out_depth p = d"
    and "\<not> F \<Longrightarrow> list_all printable cs \<and> able p (length s + length (elements_text fmt d cs) + 2)"
  shows "does F (\<lambda>p'. list_all printable cs \<and> keeps p p' \<and> holds p' (s @ elements_text fmt d cs))
    (print_elements junk cs p)"
  using assms
proof (induction cs arbitrary: p s)
  case (Cons c cs)
  let ?t = "json_text fmt d c"
  let ?u = "if cs = [] then [] else '','' @ layout fmt '' ''"
  let ?v = "elements_text fmt d cs"
  have F: "printable c \<and> list_all printable cs \<and> able p (length s + length ?t + length ?u + length ?v + 2)" if "\<not> F"
    using Cons.prems(7) [OF that] by (simp add: algebra_simps split del: if_split)
  show ?case unfolding print_elements.simps
  proof (rule value_then [OF Cons.prems(1) Cons.prems(2,3) _ Cons.prems(5,6)])
    show "printable c \<and> able p (length s + length ?t + 2)" if "\<not> F"
      using F [OF that] by (auto elim: able_less)
    fix p1 assume p1: "printable c" "keeps p p1" "holds p1 (s @ ?t)" "NUL \<notin> set (s @ ?t)"
    have f1: "out_format p1 = fmt" "out_depth p1 = d" using Cons.prems(5,6) keepsD [OF p1(2)] by simp_all
    have comma: "does F (\<lambda>p2. keeps p1 p2 \<and> holds p2 ((s @ ?t) @ ?u))
        (if cs = [] then Inr (True, p1) else array_comma junk p1)"
    proof (cases "cs = []")
      case False
      then obtain c' cs' where "cs = c' # cs'" by (cases cs) auto
      then have "able p1 (length (s @ ?t) + length (layout fmt '' '') + 3)" if "\<not> F"
        using F [OF that] by (intro able_less [OF keepsD(3) [OF p1(2)]]) auto
      then show ?thesis using False array_comma_ok [OF p1(3), of F junk] f1 by simp
    qed (use p1 in simp)
    show "does F (\<lambda>p'. list_all printable (c # cs) \<and> keeps p p' \<and> holds p' (s @ elements_text fmt d (c # cs)))
      (print_then (if cs = [] then Inr (True, p1) else array_comma junk p1) (\<lambda>p3. print_elements junk cs p3))"
    proof (rule does_then [OF comma])
      fix p2 assume p2: "keeps p1 p2 \<and> holds p2 ((s @ ?t) @ ?u)"
      have k2: "keeps p p2" using p1(2) p2 keeps_trans by blast
      have "does F (\<lambda>p'. list_all printable cs \<and> keeps p2 p' \<and> holds p' (((s @ ?t) @ ?u) @ ?v)) (print_elements junk cs p2)"
      proof (rule Cons.IH)
        show "list_all printable cs \<and> able p2 (length ((s @ ?t) @ ?u) + length ?v + 2)" if "\<not> F"
          using F [OF that] keepsD(3) [OF k2] by (simp add: add.assoc split del: if_split)
        show "out_format p2 = fmt" "out_depth p2 = d" using f1 p2 by (simp_all add: keeps_def)
        show "NUL \<notin> set ((s @ ?t) @ ?u)" using p1(4) by (simp add: layout_def)
      qed (use Cons.prems p2 in simp_all)
      then show "does F (\<lambda>p'. list_all printable (c # cs) \<and> keeps p p' \<and> holds p' (s @ elements_text fmt d (c # cs)))
          (print_elements junk cs p2)"
        by (rule does_weaken) (use p1 keeps_trans [OF k2] in auto)
    qed
  qed (use Cons.prems in simp_all)
qed simp

lemma print_name_ok:
  assumes p: "holds p s" and s: "NUL \<notin> set s" and v: "clean_string v"
    and fmt: "out_format p = fmt" "out_depth p = d"
    and F: "\<not> F \<Longrightarrow> able p (length s + length (layout fmt (replicate d TAB) @ quoted v @ '':'' @ layout fmt [TAB]) + 2)"
  shows "does F (\<lambda>p'. keeps p p' \<and>
      holds p' (s @ layout fmt (replicate d TAB) @ quoted v @ '':'' @ layout fmt [TAB])) (print_name junk v p)"
  unfolding print_name_def fmt layout_is
proof (rule does_then)
  let ?i = "layout fmt (replicate d TAB)"
  let ?c = "CHR '':'' # layout fmt [TAB]"
  have "able p (length s + d + 1)" if "\<not> F" "fmt"
    using F [OF that(1)] that(2) by (auto simp: layout_def intro: able_less)
  then show "does F (\<lambda>p'. keeps p p' \<and> holds p' (s @ ?i))
      (if fmt then emit junk d (replicate d TAB) d p else Inr (True, p))"
    using p emit_holds [OF p, of F d "replicate d TAB" "[]" junk] by (auto simp: layout_def)
  fix p1 assume p1: "keeps p p1 \<and> holds p1 (s @ ?i)"
  show "does F (\<lambda>p'. keeps p p' \<and> holds p' (s @ ?i @ quoted v @ '':'' @ layout fmt [TAB]))
      (print_then (print_string_ptr junk v p1) (\<lambda>p2. and_then (update_offset p2) (\<lambda>p3.
        let xs = CHR '':'' # layout (out_format p3) [TAB] in emit junk (length xs) xs (length xs) p3)))"
  proof (rule does_then [OF print_string_ok])
    show "holds p1 (s @ ?i)" using p1 by simp
    show "able p1 (length (s @ ?i) + length (quoted v) + 2)" if "\<not> F"
      using F [OF that] by (intro able_less [OF keepsD(3) [OF conjunct1 [OF p1]]]) auto
    fix p2 assume p2: "keeps p1 p2 \<and> ends p2 ((s @ ?i) @ quoted v)"
    show "does F (\<lambda>p'. keeps p p' \<and> holds p' (s @ ?i @ quoted v @ '':'' @ layout fmt [TAB]))
      (and_then (update_offset p2) (\<lambda>p3.
        let xs = CHR '':'' # layout (out_format p3) [TAB] in emit junk (length xs) xs (length xs) p3))"
    proof (rule does_update)
      show "ends p2 ((s @ ?i) @ quoted v)" using p2 by simp
      show "NUL \<notin> set ((s @ ?i) @ quoted v)" using s quoted_clean [OF v] by (simp add: layout_def)
      fix p3 assume p3: "keeps p2 p3" "holds p3 ((s @ ?i) @ quoted v)"
      have k: "keeps p p3" using p1 p2 p3(1) keeps_trans by blast
      have "able p3 (length ((s @ ?i) @ quoted v) + length ?c + 1)" if "\<not> F"
        using F [OF that] by (intro able_less [OF keepsD(3) [OF k]]) auto
      then have "does F (\<lambda>p'. keeps p3 p' \<and> holds p' (((s @ ?i) @ quoted v) @ ?c))
          (emit junk (length ?c) (?c @ []) (length ?c) p3)"
        by (intro emit_holds [OF p3(2)]) simp_all
      then have "does F (\<lambda>p'. keeps p p' \<and> holds p' (s @ ?i @ quoted v @ '':'' @ layout fmt [TAB]))
          (emit junk (length ?c) (?c @ []) (length ?c) p3)"
        by (rule does_weaken) (use keeps_trans [OF k] in auto)
      then show "does F (\<lambda>p'. keeps p p' \<and> holds p' (s @ ?i @ quoted v @ '':'' @ layout fmt [TAB]))
          (let xs = CHR '':'' # layout (out_format p3) [TAB] in emit junk (length xs) xs (length xs) p3)"
        using keepsD(1) [OF k] fmt by simp
    qed
  qed
qed

lemma members_ok:
  assumes "\<And>c. c \<in> set cs \<Longrightarrow> prints junk c" and "holds p s" and "NUL \<notin> set s"
    and "list_all clean_item cs" and "out_format p = fmt" and "out_depth p = d"
    and "\<not> F \<Longrightarrow> list_all printable cs \<and> able p (length s + length (fields_text fmt d cs) + 2)"
  shows "does F (\<lambda>p'. list_all printable cs \<and> keeps p p' \<and> holds p' (s @ fields_text fmt d cs))
    (print_members junk cs p)"
  using assms
proof (induction cs arbitrary: p s)
  case (Cons c cs)
  let ?n = "layout fmt (replicate d TAB) @ quoted (item_string c) @ '':'' @ layout fmt [TAB]"
  let ?t = "json_text fmt d c"
  let ?u = "(if cs = [] then [] else '','') @ layout fmt [NEWLINE]"
  let ?v = "fields_text fmt d cs"
  have name: "clean_string (item_string c)" using Cons.prems(4) by (cases c) simp
  have F: "printable c \<and> list_all printable cs \<and>
      able p (length s + length ?n + length ?t + length ?u + length ?v + 2)" if "\<not> F"
    using Cons.prems(7) [OF that] by (simp add: algebra_simps split del: if_split)
  show ?case unfolding print_members.simps
  proof (rule does_then [OF print_name_ok [OF Cons.prems(2,3) name Cons.prems(5,6)]])
    show "able p (length s + length ?n + 2)" if "\<not> F" using F [OF that] by (auto intro: able_less)
    fix p1 assume p1: "keeps p p1 \<and> holds p1 (s @ ?n)"
    have f1: "out_format p1 = fmt" "out_depth p1 = d" using Cons.prems(5,6) p1 by (simp_all add: keeps_def)
    show "does F (\<lambda>p'. list_all printable (c # cs) \<and> keeps p p' \<and> holds p' (s @ fields_text fmt d (c # cs)))
      (print_then (print_value junk c p1) (\<lambda>p2. and_then (update_offset p2) (\<lambda>p3.
        print_then (member_end junk (cs = []) p3) (\<lambda>p4. print_members junk cs p4))))"
    proof (rule value_then [OF Cons.prems(1) _ _ _ f1])
      show "printable c \<and> able p1 (length (s @ ?n) + length ?t + 2)" if "\<not> F"
        using F [OF that] by (auto intro: able_less [OF keepsD(3) [OF conjunct1 [OF p1]]])
      show "NUL \<notin> set (s @ ?n)" using Cons.prems(3) quoted_clean [OF name] by (simp add: layout_def)
      fix p2 assume p2: "printable c" "keeps p1 p2" "holds p2 ((s @ ?n) @ ?t)" "NUL \<notin> set ((s @ ?n) @ ?t)"
      have k2: "keeps p p2" using p1 p2(2) keeps_trans by blast
      have f2: "out_format p2 = fmt" "out_depth p2 = d" using f1 p2(2) by (simp_all add: keeps_def)
      have "able p2 (length ((s @ ?n) @ ?t) + length ?u + 2)" if "\<not> F"
        using F [OF that] by (intro able_less [OF keepsD(3) [OF k2]]) auto
      then have end_ok: "does F (\<lambda>p3. keeps p2 p3 \<and> holds p3 (((s @ ?n) @ ?t) @ ?u)) (member_end junk (cs = []) p2)"
        using member_end_ok [OF p2(3), of F "cs = []" junk] f2 by simp
      show "does F (\<lambda>p'. list_all printable (c # cs) \<and> keeps p p' \<and> holds p' (s @ fields_text fmt d (c # cs)))
        (print_then (member_end junk (cs = []) p2) (\<lambda>p4. print_members junk cs p4))"
      proof (rule does_then [OF end_ok])
        fix p3 assume p3: "keeps p2 p3 \<and> holds p3 (((s @ ?n) @ ?t) @ ?u)"
        have k3: "keeps p p3" using k2 p3 keeps_trans by blast
        have "does F (\<lambda>p'. list_all printable cs \<and> keeps p3 p' \<and> holds p' ((((s @ ?n) @ ?t) @ ?u) @ ?v))
            (print_members junk cs p3)"
        proof (rule Cons.IH)
          show "list_all printable cs \<and> able p3 (length (((s @ ?n) @ ?t) @ ?u) + length ?v + 2)" if "\<not> F"
            using F [OF that] keepsD(3) [OF k3] by (simp add: add.assoc split del: if_split)
          show "out_format p3 = fmt" "out_depth p3 = d" using f2 p3 by (simp_all add: keeps_def)
          show "NUL \<notin> set (((s @ ?n) @ ?t) @ ?u)" using p2(4) by (simp add: layout_def)
        qed (use Cons.prems p3 in simp_all)
        then show "does F (\<lambda>p'. list_all printable (c # cs) \<and> keeps p p' \<and> holds p' (s @ fields_text fmt d (c # cs)))
            (print_members junk cs p3)"
          by (rule does_weaken) (use p2 keeps_trans [OF k3] in auto)
      qed
    qed (use Cons.prems p1 in simp_all)
  qed
qed simp

lemma prints_item: "prints junk it"
proof (induction it)
  case (CJSON t vs vi vd st ch)
  let ?it = "CJSON t vs vi vd st ch"
  show ?case unfolding prints_def
  proof (intro allI impI)
    fix F p s
    assume p: "holds p s" and s: "NUL \<notin> set s" and c: "clean_item ?it"
      and F: "\<not> F \<longrightarrow> printable ?it \<and>
        able p (length s + length (json_text (out_format p) (out_depth p) ?it) + 2)"
    let ?fmt = "out_format p" and ?d = "out_depth p"
    have cs: "list_all clean_item ch" using c by simp
    have ok: "does F (\<lambda>p'. printable ?it \<and> keeps p p' \<and> ends p' (s @ w)) (emit junk (length w + 1) (lit w) k p)"
      if "printable ?it" "json_text ?fmt ?d ?it = w" "k \<le> length w" for w k
    proof -
      have "does F (\<lambda>p'. keeps p p' \<and> ends p' (s @ w)) (emit junk (length w + 1) (lit w) k p)"
        by (rule emit_ends [OF p]) (use F that in \<open>simp_all add: algebra_simps\<close>)
      then show ?thesis using that(1) by simp
    qed
    consider (Array) "t AND 0xFF = cJSON_Array" | (Object) "t AND 0xFF = cJSON_Object"
      | (Leaf) "t AND 0xFF \<noteq> cJSON_Array" "t AND 0xFF \<noteq> cJSON_Object" by blast
    then show "does F (\<lambda>p'. printable ?it \<and> keeps p p' \<and> ends p' (s @ json_text ?fmt ?d ?it))
        (print_value junk ?it p)"
    proof cases
      case Array
      let ?e = "elements_text ?fmt (?d + 1) ch"
      have eq: "printable ?it = list_all printable ch" "json_text ?fmt ?d ?it = ''['' @ ?e @ '']''"
        "print_value junk ?it p = print_then (open_array junk p) (\<lambda>p1.
           print_then (print_elements junk ch p1) (\<lambda>p2. close_array junk p2))"
        using Array by (simp_all add: item_types)
      have F': "list_all printable ch \<and> able p (length s + length ?e + 4)" if "\<not> F"
        using F that by (simp add: eq(1,2) eval_nat_numeral ac_simps del: json_text.simps printable.simps)
      have "able p (length s + 2)" if "\<not> F" using F' [OF that] by (auto intro: able_less)
      from open_array_ok [OF p this] show ?thesis unfolding eq
      proof (rule does_then)
        fix p1 assume p1: "keeps (deeper p) p1 \<and> holds p1 (s @ ''['')"
        have k: "able p1 n" if "able p n" for n using keepsD(3) [OF conjunct1 [OF p1]] that by simp
        have els: "does F (\<lambda>p'. list_all printable ch \<and> keeps p1 p' \<and> holds p' ((s @ ''['') @ ?e)) (print_elements junk ch p1)"
          by (rule elements_ok)
            (use CJSON.IH p1 s cs F' in \<open>auto simp: keeps_def [of "deeper p"] intro: k able_less\<close>)
        show "does F (\<lambda>p'. list_all printable ch \<and> keeps p p' \<and> ends p' (s @ ''['' @ ?e @ '']''))
            (print_then (print_elements junk ch p1) (\<lambda>p2. close_array junk p2))"
        proof (rule does_then [OF els])
          fix p2 assume p2: "list_all printable ch \<and> keeps p1 p2 \<and> holds p2 ((s @ ''['') @ ?e)"
          have kd: "keeps (deeper p) p2" using p1 p2 keeps_trans by blast
          have "able p2 (length ((s @ ''['') @ ?e) + 3)" if "\<not> F"
            using F' [OF that] keepsD(3) [OF kd, of "length s + length ?e + 4"] by (simp add: eval_nat_numeral)
          from close_array_ok [OF _ this kd] show
            "does F (\<lambda>p'. list_all printable ch \<and> keeps p p' \<and> ends p' (s @ ''['' @ ?e @ '']'')) (close_array junk p2)"
            using p2 by simp
        qed
      qed
    next
      case Object
      let ?n = "layout ?fmt [NEWLINE]"
      let ?i = "layout ?fmt (replicate ?d TAB)"
      let ?e = "fields_text ?fmt (?d + 1) ch"
      have eq: "printable ?it = list_all printable ch"
        "json_text ?fmt ?d ?it = [CHR 0x7B] @ ?n @ ?e @ ?i @ [CHR 0x7D]"
        "print_value junk ?it p = print_then (open_object junk p) (\<lambda>p1.
           print_then (print_members junk ch p1) (\<lambda>p2. close_object junk p2))"
        using Object by (simp_all add: item_types)
      have F': "list_all printable ch \<and> able p (length s + length ?n + length ?e + length ?i + 4)" if "\<not> F"
        using F that by (simp add: eq(1,2) eval_nat_numeral ac_simps del: json_text.simps printable.simps)
      have "able p (length s + length ?n + 3)" if "\<not> F" using F' [OF that] by (auto intro: able_less)
      from open_object_ok [OF p this] show ?thesis unfolding eq
      proof (rule does_then)
        fix p1 assume p1: "keeps (deeper p) p1 \<and> holds p1 (s @ [CHR 0x7B] @ ?n)"
        have k: "able p1 n" if "able p n" for n using keepsD(3) [OF conjunct1 [OF p1]] that by simp
        have els: "does F (\<lambda>p'. list_all printable ch \<and> keeps p1 p' \<and> holds p' ((s @ [CHR 0x7B] @ ?n) @ ?e))
            (print_members junk ch p1)"
          by (rule members_ok)
            (use CJSON.IH p1 s cs F' in \<open>auto simp: layout_def keeps_def [of "deeper p"] intro: k able_less\<close>)
        show "does F (\<lambda>p'. list_all printable ch \<and> keeps p p' \<and>
              ends p' (s @ [CHR 0x7B] @ ?n @ ?e @ ?i @ [CHR 0x7D]))
            (print_then (print_members junk ch p1) (\<lambda>p2. close_object junk p2))"
        proof (rule does_then [OF els])
          fix p2 assume p2: "list_all printable ch \<and> keeps p1 p2 \<and> holds p2 ((s @ [CHR 0x7B] @ ?n) @ ?e)"
          have kd: "keeps (deeper p) p2" using p1 p2 keeps_trans by blast
          have "able p2 (length ((s @ [CHR 0x7B] @ ?n) @ ?e) + length ?i + 3)" if "\<not> F"
            using F' [OF that] keepsD(3) [OF kd] by (simp add: eval_nat_numeral algebra_simps)
          from close_object_ok [OF _ kd this] show
            "does F (\<lambda>p'. list_all printable ch \<and> keeps p p' \<and>
               ends p' (s @ [CHR 0x7B] @ ?n @ ?e @ ?i @ [CHR 0x7D])) (close_object junk p2)"
            using p2 by simp
        qed
      qed
    next
      case Leaf
      show ?thesis
      proof (cases "printable ?it")
        case True
        then show ?thesis
        proof (cases rule: printable_cases)
          case (Word w)
          then show ?thesis using ok [OF True Word(1), of 0] by simp
        next
          case Number
          have "\<not> 25 < length (number_string ?it)" using number_string_length [of ?it] c by simp
          then show ?thesis
            using ok [OF True Number(2), of "length (number_string ?it)"]
            by (simp add: Number print_number_def Let_def del: json_text.simps print_value.simps printable.simps)
        next
          case (Raw raw)
          then show ?thesis using ok [OF True Raw(2), of 0] by simp
        next
          case String
          then show ?thesis
            using print_string_ok [OF p, of F vs junk] F True
            by (simp del: json_text.simps print_value.simps printable.simps)
        qed (use Leaf in blast)+
      next
        case False
        then have "print_value junk ?it p = Inr (False, p)"
          using Leaf by (auto simp: Let_def split: option.splits)
        then show ?thesis using False F by simp
      qed
    qed
  qed
qed

section \<open>The entry points\<close>

lemma new_holds:
  assumes "len \<le> length b" and "0 < len \<or> re"
  shows "holds (new_printbuffer b len na fmt re oks) []"
  using assms by (auto simp: holds_def new_printbuffer_def)

lemma print_new:
  assumes "clean_item it" and "len \<le> length b" and "0 < len \<or> re"
  shows "\<exists>ok p'. print_maybe junk (Some it) (new_printbuffer b len na fmt re oks) = Inr (ok, p') \<and>
    (ok \<longrightarrow> printable it \<and> keeps (new_printbuffer b len na fmt re oks) p' \<and> ends p' (json_text fmt 0 it)) \<and>
    (printable it \<and> able (new_printbuffer b len na fmt re oks) (length (json_text fmt 0 it) + 2) \<longrightarrow> ok)"
proof -
  let ?p = "new_printbuffer b len na fmt re oks"
  let ?F = "\<not> (printable it \<and> able ?p (length (json_text fmt 0 it) + 2))"
  have "does ?F (\<lambda>p'. printable it \<and> keeps ?p p' \<and> ends p' ([] @ json_text fmt 0 it)) (print_value junk it ?p)"
    by (rule printsD [OF prints_item new_holds [OF assms(2,3)]])
      (simp_all add: assms(1), simp_all add: new_printbuffer_def)
  then show ?thesis
    by (auto simp: does_def print_maybe_def split: sum.splits if_splits)
qed

lemma shrink_text:
  assumes "holds p s" and "ends p s"
  shows "\<exists>text. shrink junk p = Inr (text, snd (allocate (out_allocs p))) \<and>
    text = (if fst (allocate (out_allocs p)) then Some (lit s) else None)"
proof -
  obtain r where r: "out_buffer p = Some (s @ NUL # r)" "out_length p \<le> length s + 1 + length r"
    "length s < out_length p" using assms(2) by (auto simp: ends_def)
  have off: "out_offset p = length s" using assms(1) by (auto simp: holds_def)
  have "memcpy (malloc junk (length s + 1)) 0 (s @ NUL # r) 0 (min (out_length p) (length s + 1)) = Inr (lit s)"
    using r(3) by (simp add: memcpy_def read_bytes_def put_bytes_def lit_def)
  moreover have "put_bytes (lit s) (length s) [NUL] = Inr (lit s)"
    by (simp add: put_bytes_def lit_def)
  ultimately show ?thesis
    using r off by (cases "allocate (out_allocs p)") (simp add: shrink_def lit_def malloc_def)
qed

lemma print_item_text:
  assumes "clean_item it"
  shows "\<exists>text oks'. print_item junk reallocate (Some it) fmt oks = Inr (text, oks') \<and>
    (text = None \<or> printable it \<and> text = Some (lit (json_text fmt 0 it))) \<and>
    (printable it \<and> oks = [] \<and> int (length (json_text fmt 0 it) + 2) \<le> INT_MAX \<longrightarrow>
       text \<noteq> None \<and> oks' = [])"
proof -
  obtain ok1 oks1 where al: "allocate oks = (ok1, oks1)" by (cases "allocate oks")
  have al0: "ok1 \<and> oks1 = []" if "oks = []" using al that by (simp add: allocate_def)
  let ?p = "new_printbuffer (malloc junk 256) 256 False fmt reallocate oks1"
  let ?t = "json_text fmt 0 it"
  obtain ok p1 where p1: "print_maybe junk (Some it) ?p = Inr (ok, p1)"
    "ok \<longrightarrow> printable it \<and> keeps ?p p1 \<and> ends p1 ?t" "printable it \<and> able ?p (length ?t + 2) \<longrightarrow> ok"
    using print_new [OF assms, of 256 "malloc junk 256" reallocate junk False fmt oks1] by auto
  have able: "able ?p n \<longleftrightarrow> int n \<le> INT_MAX \<and> oks1 = []" for n
    by (simp add: able_def new_printbuffer_def)
  show ?thesis
  proof (cases "ok1 \<and> ok")
    case False
    then show ?thesis
      using al al0 p1 able by (auto simp: print_item_def)
  next
    case True
    then have t: "NUL \<notin> set ?t" using p1(2) json_text_clean [OF assms] by blast
    obtain p2 where p2: "update_offset p1 = Inr p2" "keeps p1 p2" "holds p2 ?t" "ends p2 ?t"
      using update_offset_ends [OF _ t] p1(2) True by blast
    have "out_allocs p2 = []" if "oks1 = []"
    proof -
      have k: "keeps ?p p2" using p1(2) True p2(2) keeps_trans by blast
      have "able ?p 0" using that able by (simp add: INT_MAX_def)
      then have "able p2 0" by (rule keepsD(3) [OF k])
      moreover have "\<not> out_noalloc p2" using k by (simp add: keeps_def new_printbuffer_def)
      ultimately show ?thesis by (simp add: able_def)
    qed
    then show ?thesis
      using True al al0 p1 p2 shrink_text [OF p2(3,4), of junk]
      by (auto simp: print_item_def allocate_def)
  qed
qed

text \<open>
  C16. What is printed. For every item (with C strings and doubles), formatted or not, with and without realloc, and whatever allocations fail, printing
  stays inside its buffers and returns NULL or a block that holds exactly the text of the item
  and its terminator; it returns the text if the item is printable, memory is available and the
  text is at most INT_MAX - 2 long.
\<close>

theorem printer_prints_text:
  assumes "clean_item it"
  shows "\<exists>text oks'. print_item junk reallocate (Some it) fmt oks = Inr (text, oks') \<and>
    (text = None \<or> printable it \<and> text = Some (lit (json_text fmt 0 it))) \<and>
    (printable it \<and> oks = [] \<and> int (length (json_text fmt 0 it) + 2) \<le> INT_MAX \<longrightarrow>
       text \<noteq> None \<and> oks' = [])"
  by (rule print_item_text [OF assms])

text \<open>A sample: what a dispatcher posts.\<close>

definition sample_item :: cJSON where
  "sample_item = CJSON cJSON_Object None 0 (Finite 0) None
     [CJSON cJSON_Number None 12 (Finite 12) (Some ''value'') [],
      CJSON cJSON_Number None 1 (Finite 1) (Some ''worker'') []]"

lemma sample_item_text:
  "clean_item sample_item" "printable sample_item"
  "json_text False 0 sample_item =
     [CHR 0x7B, CHR 0x22] @ ''value'' @ [CHR 0x22] @ '':12,'' @ [CHR 0x22] @ ''worker'' @ [CHR 0x22] @ '':1'' @ [CHR 0x7D]"
proof -
  have "representable (Finite (of_nat n))" if "n < 2 ^ 32" for n
    using round_double_nat [OF that] by (simp add: representable_def)
  from this [of 0] this [of 1] this [of 12] show "clean_item sample_item"
    by (simp add: sample_item_def clean_string_def)
  show "printable sample_item" by (simp add: sample_item_def item_types)
  have "show_int 12 = ''12''" "show_int 1 = ''1''" by code_simp+
  moreover have "concat (map escaped ''value'') = ''value''" "concat (map escaped ''worker'') = ''worker''"
    by code_simp+
  ultimately show "json_text False 0 sample_item =
     [CHR 0x7B, CHR 0x22] @ ''value'' @ [CHR 0x22] @ '':12,'' @ [CHR 0x22] @ ''worker'' @ [CHR 0x22] @ '':1'' @ [CHR 0x7D]"
    by (simp add: sample_item_def item_types layout_def quoted_def number_string_def)
qed

lemma printer_prints_text_witness:
  "\<exists>text. print_item (\<lambda>_. CHR ''?'') True (Some sample_item) False [] = Inr (Some text, []) \<and>
     text = lit (json_text False 0 sample_item)"
  using printer_prints_text [OF sample_item_text(1), of "\<lambda>_. CHR ''?''" True False "[]"] sample_item_text(2,3)
  by (auto simp: INT_MAX_def)

text \<open>
  C17. Printing into a given buffer. With a buffer of at least the size that is claimed, printing
  never leaves it, whatever the item; on success it holds the text and its terminator, and a
  buffer that is only one byte longer than text and terminator is always enough (the
  documentation asks for five).
\<close>

theorem preallocated_is_enough:
  assumes "clean_item it" and "unat len \<le> length buffer"
  shows "\<exists>ok b. cJSON_PrintPreallocated junk (Some it) buffer len fmt = Inr (ok, b) \<and>
    (ok \<longrightarrow> printable it \<and> (\<exists>r. b = lit (json_text fmt 0 it) @ r)) \<and>
    (printable it \<and> 0 \<le>s len \<and> length (json_text fmt 0 it) + 2 \<le> unat len \<longrightarrow> ok)"
proof (cases "len <s 0")
  case True
  then show ?thesis by (auto simp: cJSON_PrintPreallocated_def word_sless_alt word_sle_eq)
next
  case False
  let ?p = "new_printbuffer buffer (unat len) True fmt True []"
  let ?t = "json_text fmt 0 it"
  obtain ok p1 where p1: "print_maybe junk (Some it) ?p = Inr (ok, p1)"
    "ok \<longrightarrow> printable it \<and> keeps ?p p1 \<and> ends p1 ?t" "printable it \<and> able ?p (length ?t + 2) \<longrightarrow> ok"
    using print_new [OF assms, of True junk True fmt "[]"] by auto
  have len: "int (unat len) \<le> INT_MAX"
    using False sint_lt [of len]
    by (simp add: word_sless_alt INT_MAX_def flip: uint_nat) (simp add: uint_sint take_bit_int_eq_self)
  then have "int n \<le> INT_MAX" if "n \<le> unat len" for n using that by linarith
  then have "able ?p n \<longleftrightarrow> n \<le> unat len" for n
    by (auto simp: able_def new_printbuffer_def)
  then show ?thesis
    using False p1 by (auto simp: cJSON_PrintPreallocated_def ends_def lit_def)
qed

lemma preallocated_is_enough_witness:
  "\<exists>b. cJSON_PrintPreallocated (\<lambda>_. CHR ''?'') (Some sample_item) (replicate 25 NUL) 25 False =
     Inr (True, b)"
  using preallocated_is_enough [OF sample_item_text(1), of 25 "replicate 25 NUL" "\<lambda>_. CHR ''?''" False]
    sample_item_text(2,3) by (auto simp: word_sle_eq)

end
