(* ===== verification/CJson_Print_Parse.thy ===== *)
theory CJson_Print_Parse
  imports CJson_Print_Correct
begin

text \<open>
  Parsing what was printed. For items of any shape, nested up to the limit of the parser, with
  strings of any characters and integral numbers, the parser gives back the item from its
  text, formatted or not.
\<close>

section \<open>What the parser makes of a text\<close>

definition text_of :: "string option \<Rightarrow> string" where
  "text_of s = (case s of None \<Rightarrow> [] | Some t \<Rightarrow> t)"

text \<open>
  \<open>parsed_as name it\<close>: the item the text of \<open>it\<close> stands for, under this name. It has the type
  without flags; a missing string has become an empty one, and true has the int value 1.
\<close>

fun parsed_as :: "string option \<Rightarrow> cJSON \<Rightarrow> cJSON" where
  "parsed_as name (CJSON t vs vi vd st ch) =
     (let k = t AND 0xFF in
      if k = cJSON_Number then CJSON k None vi vd name []
      else if k = cJSON_String then CJSON k (Some (text_of vs)) 0 (Finite 0) name []
      else if k = cJSON_Array then CJSON k None 0 (Finite 0) name (map (parsed_as None) ch)
      else if k = cJSON_Object then
        CJSON k None 0 (Finite 0) name (map (\<lambda>c. parsed_as (Some (text_of (item_string c))) c) ch)
      else CJSON k None (if k = cJSON_True then 1 else 0) (Finite 0) name [])"

text \<open>
  JSON values at depth \<open>d\<close>: no raw text, integral numbers, and containers only where the
  parser accepts them.
\<close>

fun json_value :: "nat \<Rightarrow> cJSON \<Rightarrow> bool" where
  "json_value d (CJSON t vs vi vd st ch) \<longleftrightarrow>
     (let k = t AND 0xFF in
      clean_string vs \<and> clean_string st \<and>
      (k \<in> {cJSON_NULL, cJSON_False, cJSON_True, cJSON_String} \<or>
       k = cJSON_Number \<and> vd = Finite (of_int (sint vi)) \<or>
       (k = cJSON_Array \<or> k = cJSON_Object) \<and> d < CJSON_NESTING_LIMIT \<and> list_all (json_value (d + 1)) ch))"

section \<open>Numbers\<close>

lemma round_double_minus:
  "round_double q = Finite q \<Longrightarrow> 0 < q \<Longrightarrow> round_double (- q) = Finite (- q)"
  by (auto simp: round_double_def Let_def split: if_splits)

lemma strtod_show_int:
  assumes "\<bar>k\<bar> < 2 ^ 32"
  shows "strtod (show_int k) = (Finite (of_int k), length (show_int k))"
proof (cases "k < 0")
  case False
  then have "nat k < 2 ^ 32" using assms by simp
  from strtod_show_nat [OF this] False show ?thesis by (simp add: show_int_def)
next
  case True
  let ?n = "nat (- k)"
  have n: "?n < 2 ^ 32" using assms True by simp
  have "round_double (of_nat ?n) = Finite (of_nat ?n)" by (rule round_double_nat [OF n])
  then have r: "round_double (- of_nat ?n) = Finite (- of_nat ?n)"
    using True by (intro round_double_minus) simp_all
  have d: "dropWhile is_digit (show_nat ?n) = []" using show_nat_digits by (simp add: dropWhile_eq_Nil_conv)
  show ?thesis
    using True r digits_value_show [of ?n]
    by (simp add: show_int_def strtod_def strtod_exponent_def scale10_def d Let_def)
qed

lemma saturated_sint: "saturated_int (Finite (of_int (sint (v :: i32)))) = Inr v"
proof -
  have b: "INT_MIN \<le> sint v" "sint v \<le> INT_MAX"
    using sint_ge [of v] sint_lt [of v] by (simp_all add: INT_MIN_def INT_MAX_def)
  have v: "word_of_int (sint v) = v" by simp
  consider "sint v = INT_MAX" | "sint v = INT_MIN" | "INT_MIN < sint v" "sint v < INT_MAX"
    using b by linarith
  then show ?thesis
  proof cases
    case 1
    then show ?thesis using v by (simp add: saturated_int_def)
  next
    case 2
    then show ?thesis using v by (simp add: saturated_int_def INT_MAX_def INT_MIN_def)
  next
    case 3
    then show ?thesis using saturated_int_small [OF 3] v by simp
  qed
qed

lemma number_text_chars:
  "occurs c (p + i) (ds @ [x]) \<Longrightarrow> list_all number_char ds \<Longrightarrow> \<not> number_char x \<Longrightarrow> length ds < k \<Longrightarrow>
   number_text (buf_at c p d) k i = Inr ds"
proof (induction ds arbitrary: k i)
  case Nil
  then obtain k' where "k = Suc k'" by (cases k) auto
  with Nil show ?case by (simp add: can_access_at_index_def)
next
  case (Cons y ds)
  then obtain k' where k: "k = Suc k'" by (cases k) auto
  with Cons have "number_text (buf_at c p d) k' (Suc i) = Inr ds" by (intro Cons.IH) auto
  with k Cons.prems show ?case by (simp add: can_access_at_index_def)
qed

lemma show_int_chars: "list_all number_char (show_int k)"
  using show_nat_digits by (auto simp: show_int_def list_all_iff number_char_def)

lemma parse_number_shown:
  assumes "occurs c p (show_int (sint v) @ [x])" and "\<not> number_char x"
  shows "parse_number item (buf_at c p d) =
    Inr (Some (set_type cJSON_Number (set_number v (Finite (of_int (sint v))) item)),
      buf_at c (p + length (show_int (sint v))) d)"
proof -
  have b: "INT_MIN \<le> sint v" "sint v \<le> INT_MAX" "\<bar>sint v\<bar> < 2 ^ 32"
    using sint_ge [of v] sint_lt [of v] by (simp_all add: INT_MIN_def INT_MAX_def)
  have "length (show_int (sint v)) < 63" using show_int_length [OF b(1,2)] by simp
  then have "number_text (buf_at c p d) 63 0 = Inr (show_int (sint v))"
    using assms show_int_chars by (intro number_text_chars) simp_all
  moreover have "show_int (sint v) \<noteq> []" by (simp add: show_int_def)
  ultimately show ?thesis
    using strtod_show_int [OF b(3)] saturated_sint [of v] by (simp add: parse_number_def)
qed

section \<open>Strings\<close>

text \<open>How many escape sequences the text of a string has.\<close>

definition escapes :: "string \<Rightarrow> nat" where
  "escapes s = length (filter (\<lambda>c. escaped c \<noteq> [c]) s)"

text \<open>The three forms of an escaped character.\<close>

lemma escaped_cases:
  obtains (Plain) "escaped c = [c]" "c \<noteq> CHR 0x22" "c \<noteq> CHR 0x5C"
  | (Letter) x where "escaped c = [CHR 0x5C, x]" "simple_escape x = Some c"
  | (Hex) "escaped c = [CHR 0x5C, CHR ''u''] @ hex4 (of_char c)" "(of_char c :: nat) < 32"
proof (cases "(31 :: nat) < of_char c \<and> c \<noteq> CHR 0x22 \<and> c \<noteq> CHR 0x5C")
  case True
  have "escaped c = [c]" by (simp only: escaped_def if_P [OF True])
  then show thesis using Plain True by blast
next
  case False
  then have e: "escaped c = CHR 0x5C # (case escape_letter c of Some x \<Rightarrow> [x] | None \<Rightarrow> CHR ''u'' # hex4 (of_char c))"
    by (simp only: escaped_def if_not_P [OF False] if_False)
  show thesis
  proof (cases "escape_letter c")
    case None
    have "c \<noteq> CHR 0x22" "c \<noteq> CHR 0x5C" using None by (auto simp: escape_letter_def)
    then have "(of_char c :: nat) < 32" using False by linarith
    then show thesis using Hex e None by simp
  next
    case (Some x)
    have "simple_escape x = Some c"
      using Some by (auto simp: escape_letter_def simple_escape_def split: if_splits)
    then show thesis using Letter e Some by simp
  qed
qed

lemma occurs_six:
  "occurs c p [a1, a2, a3, a4, a5, a6] \<Longrightarrow> p + 5 < length c \<and> c ! p = a1 \<and> c ! (p + 1) = a2 \<and>
     c ! (p + 2) = a3 \<and> c ! (p + 3) = a4 \<and> c ! (p + 4) = a5 \<and> c ! (p + 5) = a6"
  by (simp add: eval_nat_numeral)

lemma find_string_end_escaped:
  "occurs c p (concat (map escaped s) @ [CHR 0x22]) \<Longrightarrow>
   find_string_end (buf_at c q d) p k = Inr (Some (p + length (concat (map escaped s)), k + escapes s))"
proof (induction s arbitrary: p k)
  case Nil
  then show ?case by (simp add: find_string_end.simps escapes_def)
next
  case (Cons x s)
  let ?E = "concat (map escaped s)"
  have IH: "find_string_end (buf_at c q d) (p + length (escaped x)) k' =
      Inr (Some (p + length (escaped x) + length ?E, k' + escapes s))" for k'
    using Cons.prems by (intro Cons.IH) (simp add: add.assoc del: length_concat)
  from Cons.prems have o: "occurs c p (escaped x)" "occurs c (p + length (escaped x)) (?E @ [CHR 0x22])"
    by (simp_all add: add.assoc del: length_concat)
  have more: "p + length (escaped x) < length c" using o(2) by (cases "?E") auto
  show ?case
  proof (cases x rule: escaped_cases)
    case Plain
    then show ?thesis using IH [of k] o(1)
      by (subst find_string_end.simps) (simp add: escapes_def del: length_concat)
  next
    case (Letter y)
    then show ?thesis using IH [of "Suc k"] o(1) more
      by (subst find_string_end.simps) (simp add: escapes_def eval_nat_numeral del: length_concat)
  next
    case Hex
    have h: "hex_char n \<noteq> CHR 0x22" "hex_char n \<noteq> CHR 0x5C" if "n < 16" for n
    proof -
      have "(of_char (hex_char n) :: nat) \<noteq> 0x22" "(of_char (hex_char n) :: nat) \<noteq> 0x5C"
        using that by (simp_all add: hex_char_def)
      then show "hex_char n \<noteq> CHR 0x22" "hex_char n \<noteq> CHR 0x5C" by auto
    qed
    let ?n = "of_char x :: nat"
    have step: "find_string_end (buf_at c q d) r k' = find_string_end (buf_at c q d) r' k'"
      if "c ! r = hex_char n" "n < 16" "r < length c" "r' = r + 1" for r r' n k'
      using that h [of n] by (subst find_string_end.simps) simp
    have "occurs c p [CHR 0x5C, CHR ''u'', hex_char (?n div 4096 mod 16), hex_char (?n div 256 mod 16),
        hex_char (?n div 16 mod 16), hex_char (?n mod 16)]"
      using o(1) unfolding Hex(1) hex4_def by simp
    from occurs_six [OF this] have o6: "p + 5 < length c" "c ! p = CHR 0x5C" "c ! (p + 1) = CHR ''u''"
      "c ! (p + 2) = hex_char (?n div 4096 mod 16)" "c ! (p + 3) = hex_char (?n div 256 mod 16)"
      "c ! (p + 4) = hex_char (?n div 16 mod 16)" "c ! (p + 5) = hex_char (?n mod 16)"
      by blast+
    have "find_string_end (buf_at c q d) p k = find_string_end (buf_at c q d) (p + 2) (Suc k)"
      using o6 by (subst find_string_end.simps) simp
    also have "\<dots> = find_string_end (buf_at c q d) (p + 3) (Suc k)" by (rule step [OF o6(4)]) (use o6(1) in simp_all)
    also have "\<dots> = find_string_end (buf_at c q d) (p + 4) (Suc k)" by (rule step [OF o6(5)]) (use o6(1) in simp_all)
    also have "\<dots> = find_string_end (buf_at c q d) (p + 5) (Suc k)" by (rule step [OF o6(6)]) (use o6(1) in simp_all)
    also have "\<dots> = find_string_end (buf_at c q d) (p + 6) (Suc k)" by (rule step [OF o6(7)]) (use o6(1) in simp_all)
    also have "p + 6 = p + length (escaped x)" by (simp add: Hex(1) hex4_def)
    finally show ?thesis using IH [of "Suc k"] Hex(1)
      by (simp add: escapes_def del: length_concat)
  qed
qed

lemma hex_digit_char: "n < 16 \<Longrightarrow> hex_digit (hex_char n) = Some (of_nat n)"
proof -
  assume n: "n < 16"
  then have c: "(of_char (hex_char n) :: nat) = (if n < 10 then 48 + n else 87 + n)"
    by (simp add: hex_char_def)
  show ?thesis
  proof (cases "n < 10")
    case True
    then show ?thesis by (simp add: hex_digit_def c)
  next
    case False
    then have "10 + (87 + n) - 97 = n" by simp
    then show ?thesis using False n by (simp add: hex_digit_def c)
  qed
qed

text \<open>The control characters, by evaluation.\<close>

lemma control_codes:
  "list_all (\<lambda>n. push_bit 4 (push_bit 4 (push_bit 4 (0 + of_nat (n div 4096 mod 16)) + of_nat (n div 256 mod 16)) +
       of_nat (n div 16 mod 16)) + of_nat (n mod 16) = (of_nat n :: u32) \<and>
     \<not> 0xDC00 \<le> (of_nat n :: u32) \<and> \<not> 0xD800 \<le> (of_nat n :: u32) \<and>
     utf8_bytes (ucast (of_nat n :: u32)) = Some [char_of n]) [0..<32]"
  by code_simp

lemma control_code:
  assumes "n < 32"
  shows "push_bit 4 (push_bit 4 (push_bit 4 (0 + of_nat (n div 4096 mod 16)) + of_nat (n div 256 mod 16)) +
       of_nat (n div 16 mod 16)) + of_nat (n mod 16) = (of_nat n :: u32)"
    and "\<not> 0xDC00 \<le> (of_nat n :: u32)" and "\<not> 0xD800 \<le> (of_nat n :: u32)"
    and "utf8_bytes (ucast (of_nat n :: u32)) = Some [char_of n]"
proof -
  have "n \<in> set [0..<32]" using assms by simp
  note c = bspec [OF control_codes [unfolded list_all_iff] this]
  show "push_bit 4 (push_bit 4 (push_bit 4 (0 + of_nat (n div 4096 mod 16)) + of_nat (n div 256 mod 16)) +
       of_nat (n div 16 mod 16)) + of_nat (n mod 16) = (of_nat n :: u32)"
    by (rule conjunct1 [OF c])
  show "\<not> 0xDC00 \<le> (of_nat n :: u32)" by (rule conjunct1 [OF conjunct2 [OF c]])
  show "\<not> 0xD800 \<le> (of_nat n :: u32)" by (rule conjunct1 [OF conjunct2 [OF conjunct2 [OF c]]])
  show "utf8_bytes (ucast (of_nat n :: u32)) = Some [char_of n]"
    by (rule conjunct2 [OF conjunct2 [OF conjunct2 [OF c]]])
qed

lemma parse_hex4_at:
  assumes "occurs c p (hex4 n)" and "n < 32"
  shows "parse_hex4 (buf_at c q d) p = Inr (of_nat n)"
proof -
  let ?a = "n div 4096 mod 16" and ?b = "n div 256 mod 16" and ?e = "n div 16 mod 16" and ?f = "n mod 16"
  note code = control_code(1) [OF assms(2)]
  have loop: "parse_hex4_loop (buf_at c q d) p' (Suc k) h =
      parse_hex4_loop (buf_at c q d) (Suc p') k (if k > 0 then push_bit 4 (h + of_nat m) else h + of_nat m)"
    if "c ! p' = hex_char m" "m < 16" "p' < length c" for p' k h m
    using that by (simp add: hex_digit_char)
  have o: "c ! p = hex_char ?a" "c ! Suc p = hex_char ?b" "c ! Suc (Suc p) = hex_char ?e"
    "c ! Suc (Suc (Suc p)) = hex_char ?f" "Suc (Suc (Suc p)) < length c"
    using assms(1) unfolding hex4_def by simp_all
  have l: "m mod 16 < (16 :: nat)" for m by simp
  let ?buf = "buf_at c q d"
  have four: "parse_hex4 b p = parse_hex4_loop b p (Suc (Suc (Suc (Suc 0)))) 0" for b
    by (simp add: parse_hex4_def eval_nat_numeral del: parse_hex4_loop.simps)
  have "parse_hex4 ?buf p = parse_hex4_loop ?buf (Suc p) (Suc (Suc (Suc 0))) (push_bit 4 (0 + of_nat ?a))"
    unfolding four using loop [OF o(1) l] o(5) by (simp del: parse_hex4_loop.simps)
  also have "\<dots> = parse_hex4_loop ?buf (Suc (Suc p)) (Suc (Suc 0)) (push_bit 4 (push_bit 4 (0 + of_nat ?a) + of_nat ?b))"
    using loop [OF o(2) l] o(5) by (simp del: parse_hex4_loop.simps)
  also have "\<dots> = parse_hex4_loop ?buf (Suc (Suc (Suc p))) (Suc 0)
      (push_bit 4 (push_bit 4 (push_bit 4 (0 + of_nat ?a) + of_nat ?b) + of_nat ?e))"
    using loop [OF o(3) l] o(5) by (simp del: parse_hex4_loop.simps)
  also have "\<dots> = Inr (push_bit 4 (push_bit 4 (push_bit 4 (0 + of_nat ?a) + of_nat ?b) + of_nat ?e) + of_nat ?f)"
    using loop [OF o(4) l, of 0] o(5) by (simp only: parse_hex4_loop.simps) simp
  finally show ?thesis unfolding code .
qed

lemma utf16_control:
  assumes "occurs c p ([CHR 0x5C, CHR ''u''] @ hex4 n)" and "n < 32" and "p + 6 \<le> input_end"
  shows "utf16_literal_to_utf8 (buf_at c q d) p input_end = Inr (Some ([char_of n], 6))"
proof -
  note codes = control_code(2-4) [OF assms(2)]
  have "parse_hex4 (buf_at c q d) (p + 2) = Inr (of_nat n)"
    by (rule parse_hex4_at [OF _ assms(2)]) (use assms(1) in simp)
  then show ?thesis using codes assms(3) by (simp add: utf16_literal_to_utf8_def)
qed

lemma unescape_escaped:
  "occurs c p (concat (map escaped s)) \<Longrightarrow> length out + length s < cap \<Longrightarrow>
   input_end = p + length (concat (map escaped s)) \<Longrightarrow>
   unescape (buf_at c q d) cap input_end p out = Inr (input_end, Some (out @ s))"
proof (induction s arbitrary: p out)
  case Nil
  then show ?case by (simp add: unescape.simps push_def)
next
  case (Cons x s)
  let ?E = "concat (map escaped s)"
  have IH: "unescape (buf_at c q d) cap input_end (p + length (escaped x)) (out @ [x]) =
      Inr (input_end, Some ((out @ [x]) @ s))"
    using Cons.prems by (intro Cons.IH) (simp_all add: add.assoc del: length_concat)
  have o: "occurs c p (escaped x)" using Cons.prems(1) by (simp del: length_concat)
  have e: "p + length (escaped x) \<le> input_end" using Cons.prems(3) by (simp del: length_concat)
  have push: "push cap out [x] = Inr (out @ [x])" using Cons.prems(2) by (simp add: push_def)
  show ?case
  proof (cases x rule: escaped_cases)
    case Plain
    then show ?thesis using IH o e push by (subst unescape.simps) simp
  next
    case (Letter y)
    then have "p < length c" "c ! p = CHR 0x5C" "p + 1 < length c" "c ! (p + 1) = y" "p < input_end"
      using o e by simp_all
    then show ?thesis using IH Letter push by (subst unescape.simps) (simp add: eval_nat_numeral(2))
  next
    case Hex
    let ?n = "of_char x :: nat"
    have len: "length (escaped x) = 6" by (simp add: Hex(1) hex4_def)
    have "utf16_literal_to_utf8 (buf_at c q d) p input_end = Inr (Some ([x], 6))"
      using utf16_control [OF _ Hex(2), of c p input_end q d] o e len by (simp add: Hex(1))
    moreover have "p < length c" "c ! p = CHR 0x5C" "p + 1 < length c" "c ! (p + 1) = CHR ''u''" "p < input_end"
      using o e len by (simp_all add: Hex(1))
    moreover have "simple_escape (CHR ''u'') = None" by (simp add: simple_escape_def)
    ultimately show ?thesis using IH push len by (subst unescape.simps) simp
  qed
qed

lemma escapes_length: "length s + escapes s \<le> length (concat (map escaped s))"
proof (induction s)
  case (Cons x s)
  have "1 + (if escaped x \<noteq> [x] then 1 else 0) \<le> length (escaped x)"
    by (cases x rule: escaped_cases) (simp_all add: hex4_def)
  with Cons show ?case by (simp add: escapes_def del: length_concat split: if_splits)
qed (simp add: escapes_def)

lemma quoted_text: "quoted v = [CHR 0x22] @ concat (map escaped (text_of v)) @ [CHR 0x22]"
  by (simp add: quoted_def text_of_def)

lemma parse_string_quoted:
  assumes "occurs c p (quoted v)" and "clean_string v"
  shows "parse_string item (buf_at c p d) =
    Inr (Some (set_valuestring (Some (text_of v)) (set_type cJSON_String item)), buf_at c (p + length (quoted v)) d)"
proof -
  let ?s = "text_of v"
  let ?E = "concat (map escaped ?s)"
  have o: "p < length c" "c ! p = CHR 0x22" "occurs c (p + 1) (?E @ [CHR 0x22])"
    using assms(1) by (simp_all add: quoted_text del: length_concat)
  have "find_string_end (buf_at c p d) (p + 1) 0 = Inr (Some (p + 1 + length ?E, 0 + escapes ?s))"
    by (rule find_string_end_escaped [OF o(3)])
  moreover have "unescape (buf_at c p d) (p + 1 + length ?E - p - escapes ?s + 1) (p + 1 + length ?E) (p + 1) [] =
      Inr (p + 1 + length ?E, Some ([] @ ?s))"
    by (rule unescape_escaped) (use o(3) escapes_length [of ?s] in \<open>simp_all del: length_concat\<close>)
  moreover have "NUL \<notin> set ?s" using assms(2) by (simp add: clean_string_def text_of_def split: option.splits)
  ultimately show ?thesis
    using o(1,2) by (simp add: parse_string_def allocate_def Let_def takeWhile_clean_all quoted_text del: length_concat)
qed

section \<open>White space\<close>

definition blanks :: "string \<Rightarrow> bool" where
  "blanks w \<longleftrightarrow> list_all (\<lambda>c. \<not> dark c) w"

lemma blanks_simps [simp]:
  "blanks []" "blanks (u @ w) = (blanks u \<and> blanks w)" "blanks [NEWLINE]" "blanks [TAB]" "blanks '' ''"
  "blanks (replicate n TAB)" "blanks w \<Longrightarrow> blanks (layout fmt w)"
  by (auto simp: blanks_def dark_def layout_def list_all_iff)

lemma skip_blanks_over:
  "occurs c p (w @ [y]) \<Longrightarrow> blanks w \<Longrightarrow> dark y \<Longrightarrow> skip_blanks (buf_at c q d) p = Inr (p + length w)"
proof (induction w arbitrary: p)
  case Nil
  then show ?case by (simp add: skip_blanks.simps dark_def)
next
  case (Cons x w)
  then have "skip_blanks (buf_at c q d) (p + 1) = Inr (p + 1 + length w)"
    by (intro Cons.IH) (simp_all add: blanks_def)
  then show ?case using Cons.prems by (subst skip_blanks.simps) (simp add: blanks_def dark_def)
qed

lemma skip_over:
  assumes "occurs c p (w @ [y])" and "blanks w" and "dark y"
  shows "buffer_skip_whitespace (buf_at c p d) = Inr (buf_at c (p + length w) d)"
proof -
  have "p + length w < length c" using assms(1) by simp
  then show ?thesis
    using skip_blanks_over [OF assms, of p d]
    by (simp add: buffer_skip_whitespace_def can_access_at_index_def)
qed

lemma number_char_dark: "number_char x \<Longrightarrow> dark x"
  by (auto simp: number_char_def dark_def is_digit_def)

lemma dark_brackets [simp]: "dark (CHR ''['')" "dark (CHR '']'')"
  by (simp_all add: dark_def)

lemma bracket_not_number [simp]: "\<not> number_char (CHR '']'')" "\<not> number_char NUL"
  by (simp_all add: number_char_def is_digit_def)

section \<open>One element\<close>

definition start_item :: "i32 \<Rightarrow> string option \<Rightarrow> cJSON" where
  "start_item t name = CJSON t None 0 (Finite 0) name []"

lemma start_items: "zero_item = start_item 0 None" "named_item s = start_item cJSON_String (Some s)"
  by (simp_all add: start_item_def zero_item_def named_item_def)

definition parses :: "cJSON \<Rightarrow> bool" where
  "parses it \<longleftrightarrow> (\<forall>d n c p x t name fmt dd. json_value d it \<longrightarrow>
     occurs c p (json_text fmt dd it @ [x]) \<longrightarrow> \<not> number_char x \<longrightarrow> length (json_text fmt dd it) \<le> n \<longrightarrow>
     parse_value n (start_item t name) (buf_at c p d) =
       Some (Inr (Some (parsed_as name it), buf_at c (p + length (json_text fmt dd it)) d)))"

lemma parse_name_quoted:
  assumes "occurs c p (quoted v @ '':'' @ w @ [y])" and "clean_string v" and "blanks w" and "dark y"
  shows "parse_name zero_item (buf_at c p d) =
    Inr (Some (start_item cJSON_String (Some (text_of v))), buf_at c (p + length (quoted v) + 1 + length w) d)"
proof -
  let ?q = "p + length (quoted v)"
  have o: "occurs c p (quoted v)" "occurs c ?q '':''" "occurs c (?q + 1) (w @ [y])"
    using assms(1) by (simp_all add: add.assoc)
  have "buffer_skip_whitespace (buf_at c ?q d) = Inr (buf_at c ?q d)"
    "next_is (CHR '':'') (buf_at c ?q d) = Inr True"
    using o(2) by (simp_all add: skip_at next_is_at)
  moreover have "buffer_skip_whitespace (buf_at c (?q + 1) d) = Inr (buf_at c (?q + 1 + length w) d)"
    by (rule skip_over [OF o(3) assms(3,4)])
  ultimately show ?thesis
    using parse_string_quoted [OF o(1) assms(2), of zero_item d]
    by (simp add: parse_name_def zero_item_def start_item_def Let_def)
qed

text \<open>A value starts with a visible character that is no closing bracket.\<close>

lemma json_text_first:
  assumes "json_value d it"
  obtains y ys where "json_text fmt dd it = y # ys" "dark y" "y \<noteq> CHR '']''" "y \<noteq> CHR 0x7D" "y \<noteq> CHR 0xEF"
proof (cases it)
  case (CJSON t vs vi vd st ch)
  have num: "\<exists>y ys. show_int k = y # ys \<and> number_char y" for k
    using show_int_chars [of k] by (cases "show_int k") (auto simp: show_int_def split: if_splits)
  have kind: "t AND 0xFF = cJSON_NULL \<or> t AND 0xFF = cJSON_False \<or> t AND 0xFF = cJSON_True \<or>
      t AND 0xFF = cJSON_String \<or> (t AND 0xFF = cJSON_Number \<and> vd = Finite (of_int (sint vi))) \<or>
      t AND 0xFF = cJSON_Array \<or> t AND 0xFF = cJSON_Object"
    using assms CJSON by (auto simp: Let_def)
  have dark: "dark (CHR ''n'')" "dark (CHR ''f'')" "dark (CHR ''t'')" by (simp_all add: dark_def)
  have "\<exists>y ys. json_text fmt dd it = y # ys \<and> dark y \<and> y \<noteq> CHR '']'' \<and> y \<noteq> CHR 0x7D \<and> y \<noteq> CHR 0xEF"
  proof (cases "t AND 0xFF = cJSON_Number \<and> vd = Finite (of_int (sint vi))")
    case True
    obtain y ys where y: "show_int (sint vi) = y # ys" "number_char y" using num by blast
    then have "y \<noteq> CHR '']''" "y \<noteq> CHR 0x7D" "y \<noteq> CHR 0xEF"
      by (auto simp: number_char_def is_digit_def)
    then show ?thesis
      using True y number_char_dark CJSON by (simp add: item_types number_string_def)
  next
    case False
    with kind show ?thesis
      using CJSON dark by (elim disjE) (simp_all add: item_types quoted_def)
  qed
  then show thesis using that by blast
qed

text \<open>The text of a member, and how a member is named when it is read.\<close>

definition head_text :: "bool \<Rightarrow> bool \<Rightarrow> cJSON \<Rightarrow> string" where
  "head_text is_object fmt it = (if is_object then quoted (item_string it) @ '':'' @ layout fmt [TAB] else [])"

definition name_of :: "bool \<Rightarrow> cJSON \<Rightarrow> string option" where
  "name_of is_object it = (if is_object then Some (text_of (item_string it)) else None)"

text \<open>
  One round of the container loop, from the bracket or comma at \<open>p\<close> to the next visible
  character \<open>z\<close> behind the element.
\<close>

lemma parse_round:
  assumes it: "parses it" "json_value d it" "clean_string (item_string it)"
    and occ: "occurs c (p + 1) (w @ head_text is_object fmt it @ json_text fmt dd it @ w2 @ [z])"
    and ws: "blanks w" "blanks w2" and z: "dark z" "\<not> number_char z"
    and m: "length (json_text fmt dd it) \<le> m"
    and q: "q = p + 1 + length w + length (head_text is_object fmt it) + length (json_text fmt dd it) + length w2"
  shows "parse_elements (Suc m) is_object acc (buf_at c p d) =
    (if z = CHR '','' then parse_elements m is_object (acc @ [parsed_as (name_of is_object it) it]) (buf_at c q d)
     else Some (Inr (Some (acc @ [parsed_as (name_of is_object it) it]), buf_at c q d)))"
proof -
  let ?h = "head_text is_object fmt it"
  let ?t = "json_text fmt dd it"
  obtain y ys where y: "?t = y # ys" "dark y" using json_text_first [OF it(2)] by metis
  let ?p1 = "p + 1 + length w"
  let ?p2 = "?p1 + length ?h"
  let ?p3 = "?p2 + length ?t"
  have first: "\<exists>x xs. ?h @ ?t = x # xs \<and> dark x"
    using y by (cases is_object) (simp_all add: head_text_def quoted_text)
  then obtain x xs where x: "?h @ ?t = x # xs" "dark x" by blast
  have "occurs c (p + 1) (w @ (?h @ ?t) @ w2 @ [z])" using occ by simp
  then have "occurs c (p + 1) (w @ [x])" unfolding x(1) by simp
  from skip_over [OF this ws(1) x(2)]
  have start: "next_element (buf_at c p d) = Inr (Some zero_item, buf_at c ?p1 d)"
    by (simp add: next_element_def cJSON_New_Item_def allocate_def)
  obtain t0 where named: "element_name is_object zero_item (buf_at c ?p1 d) =
      Inr (Some (start_item t0 (name_of is_object it)), buf_at c ?p2 d)"
  proof (cases is_object)
    case True
    have "occurs c ?p1 (quoted (item_string it) @ '':'' @ layout fmt [TAB] @ [y])"
      using occ True y(1) by (simp add: head_text_def add.assoc)
    from parse_name_quoted [OF this it(3) _ y(2), of d] True show thesis
      by (intro that [of cJSON_String]) (simp add: element_name_def head_text_def name_of_def add.assoc)
  next
    case False
    then show thesis by (intro that [of 0]) (simp add: element_name_def head_text_def name_of_def start_items)
  qed
  obtain x2 xs2 where x2: "w2 @ [z] = x2 # xs2" "\<not> number_char x2"
  proof (cases w2)
    case Nil
    then show thesis using z(2) that by simp
  next
    case (Cons a w')
    then have "\<not> number_char a" using ws(2) number_char_dark [of a] by (auto simp: blanks_def)
    then show thesis using Cons that by simp
  qed
  have "occurs c ?p2 (?t @ w2 @ [z])" using occ by (simp add: add.assoc)
  then have "occurs c ?p2 (?t @ [x2])" unfolding x2(1) by simp
  then have val: "parse_value m (start_item t0 (name_of is_object it)) (buf_at c ?p2 d) =
      Some (Inr (Some (parsed_as (name_of is_object it) it), buf_at c ?p3 d))"
    using it(1,2) x2(2) m unfolding parses_def by blast
  have oz: "occurs c ?p3 (w2 @ [z])" using occ by (simp add: add.assoc)
  have skip: "buffer_skip_whitespace (buf_at c ?p3 d) = Inr (buf_at c q d)"
    using skip_over [OF oz ws(2) z(1), of d] by (simp add: q)
  have "next_is (CHR '','') (buf_at c q d) = Inr (z = CHR '','')"
    using oz by (simp add: q next_is_at)
  then show ?thesis using start named val skip by (simp add: and_step_def)
qed

lemma elements_parsed:
  assumes "\<And>it. it \<in> set (it0 # its) \<Longrightarrow> parses it"
    and "list_all (json_value d) (it0 # its)" and "list_all (\<lambda>it. clean_string (item_string it)) (it0 # its)"
    and "occurs c (p + 1) (w @ elements_text fmt dd (it0 # its) @ '']'')" and "blanks w"
    and "length (elements_text fmt dd (it0 # its)) < n"
  shows "parse_elements n False acc (buf_at c p d) =
    Some (Inr (Some (acc @ map (parsed_as None) (it0 # its)),
      buf_at c (p + 1 + length w + length (elements_text fmt dd (it0 # its))) d))"
  using assms
proof (induction its arbitrary: it0 p w n acc)
  case Nil
  obtain m where n: "n = Suc m" using Nil.prems(6) by (cases n) auto
  have "occurs c (p + 1) (w @ head_text False fmt it0 @ json_text fmt dd it0 @ [] @ '']'')"
    using Nil.prems(4) by (simp add: head_text_def)
  from parse_round [OF _ _ _ this Nil.prems(5), of d m] show ?case
    using Nil.prems by (simp add: n head_text_def name_of_def)
next
  case (Cons it1 its)
  obtain m where n: "n = Suc m" using Cons.prems(6) by (cases n) auto
  let ?t = "json_text fmt dd it0"
  let ?q = "p + 1 + length w + length ?t"
  have "occurs c (p + 1) (w @ head_text False fmt it0 @ ?t @ [] @ '','')"
    using Cons.prems(4) by (simp add: head_text_def)
  from parse_round [OF _ _ _ this Cons.prems(5), of d m ?q acc] Cons.prems
  have "parse_elements n False acc (buf_at c p d) =
      parse_elements m False (acc @ [parsed_as None it0]) (buf_at c ?q d)"
    by (simp add: n head_text_def name_of_def)
  also have "\<dots> = Some (Inr (Some ((acc @ [parsed_as None it0]) @ map (parsed_as None) (it1 # its)),
      buf_at c (?q + 1 + length (layout fmt '' '') + length (elements_text fmt dd (it1 # its))) d))"
  proof (rule Cons.IH)
    show "occurs c (?q + 1) (layout fmt '' '' @ elements_text fmt dd (it1 # its) @ '']'')"
      using Cons.prems(4) by (simp add: add.assoc)
    show "length (elements_text fmt dd (it1 # its)) < m" using Cons.prems(6) n by simp
  qed (use Cons.prems in simp_all)
  finally show ?case by (simp add: add.assoc)
qed

text \<open>The members behind the first indentation.\<close>

lemma fields_parsed:
  assumes "\<And>it. it \<in> set (it0 # its) \<Longrightarrow> parses it"
    and "list_all (json_value d) (it0 # its)" and "list_all (\<lambda>it. clean_string (item_string it)) (it0 # its)"
    and "fields_text fmt dd (it0 # its) = layout fmt (replicate dd TAB) @ body"
    and "occurs c (p + 1) (w @ body @ w2 @ [CHR 0x7D])" and "blanks w" and "blanks w2"
    and "length body < n"
  shows "parse_elements n True acc (buf_at c p d) =
    Some (Inr (Some (acc @ map (\<lambda>it. parsed_as (Some (text_of (item_string it))) it) (it0 # its)),
      buf_at c (p + 1 + length w + length body + length w2) d))"
  using assms
proof (induction its arbitrary: it0 p w n acc body)
  case Nil
  obtain m where n: "n = Suc m" using Nil.prems(8) by (cases n) auto
  have body: "body = head_text True fmt it0 @ json_text fmt dd it0 @ layout fmt [NEWLINE]"
    using Nil.prems(4) by (simp add: head_text_def)
  have "occurs c (p + 1) (w @ head_text True fmt it0 @ json_text fmt dd it0 @ (layout fmt [NEWLINE] @ w2) @ [CHR 0x7D])"
    using Nil.prems(5) by (simp add: body)
  from parse_round [OF _ _ _ this Nil.prems(6), of d m] show ?case
    using Nil.prems by (simp add: n body name_of_def add.assoc)
next
  case (Cons it1 its)
  obtain m where n: "n = Suc m" using Cons.prems(8) by (cases n) auto
  let ?h = "head_text True fmt it0"
  let ?t = "json_text fmt dd it0"
  let ?q = "p + 1 + length w + length ?h + length ?t"
  obtain body' where b': "fields_text fmt dd (it1 # its) = layout fmt (replicate dd TAB) @ body'" by simp
  let ?w = "layout fmt [NEWLINE] @ layout fmt (replicate dd TAB)"
  have body: "body = ?h @ ?t @ '','' @ ?w @ body'"
    using Cons.prems(4) b' by (simp add: head_text_def)
  have "occurs c (p + 1) (w @ ?h @ ?t @ [] @ '','')"
    using Cons.prems(5) by (simp add: body add.assoc)
  from parse_round [OF _ _ _ this Cons.prems(6), of d m ?q acc] Cons.prems
  have "parse_elements n True acc (buf_at c p d) =
      parse_elements m True (acc @ [parsed_as (Some (text_of (item_string it0))) it0]) (buf_at c ?q d)"
    by (simp add: n body name_of_def)
  also have "\<dots> = Some (Inr (Some ((acc @ [parsed_as (Some (text_of (item_string it0))) it0]) @
        map (\<lambda>it. parsed_as (Some (text_of (item_string it))) it) (it1 # its)),
      buf_at c (?q + 1 + length ?w + length body' + length w2) d))"
  proof (rule Cons.IH [OF _ _ _ b'])
    show "occurs c (?q + 1) (?w @ body' @ w2 @ [CHR 0x7D])"
      using Cons.prems(5) by (simp add: body add.assoc)
    show "length body' < m" using Cons.prems(8) n by (simp add: body)
  qed (use Cons.prems in simp_all)
  finally show ?case by (simp add: body add.assoc)
qed

section \<open>Values\<close>

lemma text_at_occurs: "occurs c p s \<Longrightarrow> text_at (buf_at c q d) p s = Inr True"
  by (induction s arbitrary: p) auto

lemma occurs_end: "occurs c p s \<Longrightarrow> p + length s \<le> length c \<or> s = []"
  by (induction s arbitrary: p) fastforce+

lemma value_kind_first:
  assumes "p < length c" and "c ! p \<noteq> CHR ''n''" and "c ! p \<noteq> CHR ''f''" and "c ! p \<noteq> CHR ''t''"
  shows "value_kind_at (buf_at c p d) = Inr (kind_of_char (c ! p))"
  using assms by (simp add: value_kind_at_def literal_at_def can_access_at_index_def)

lemma value_kind_literals:
  "occurs c p ''null'' \<Longrightarrow> value_kind_at (buf_at c p d) = Inr (Literal cJSON_NULL 4)"
  "occurs c p ''false'' \<Longrightarrow> value_kind_at (buf_at c p d) = Inr (Literal cJSON_False 5)"
  "occurs c p ''true'' \<Longrightarrow> value_kind_at (buf_at c p d) = Inr (Literal cJSON_True 4)"
  using occurs_end [of c p "''null''"] occurs_end [of c p "''false''"] occurs_end [of c p "''true''"]
  by (simp_all add: value_kind_at_def literal_at_def can_read_def)

lemma enter_at:
  assumes "occurs c p ([opening] @ w @ [y])" and "blanks w" and "dark y" and "d < CJSON_NESTING_LIMIT"
  shows "enter_container opening closing (buf_at c p d) =
    Inr (Inr (if y = closing then (buf_at c (p + 1 + length w) (d + 1), True)
              else (buf_at c (p + length w) (d + 1), False)))"
proof -
  have o: "occurs c (p + 1) (w @ [y])" using assms(1) by simp
  from skip_over [OF o assms(2,3), of "d + 1"]
  have "buffer_skip_whitespace (buf_at c (p + 1) (d + 1)) = Inr (buf_at c (p + 1 + length w) (d + 1))" .
  moreover have "next_is closing (buf_at c (p + 1 + length w) (d + 1)) = Inr (y = closing)"
    using o by (simp add: next_is_at)
  moreover have "p + 1 + length w < length c" using o by simp
  ultimately show ?thesis
    using assms(1,4) by (simp add: enter_container_def next_is_at can_access_at_index_def Let_def)
qed

lemma json_value_name: "json_value d it \<Longrightarrow> clean_string (item_string it)"
  by (cases it) (simp add: Let_def)

lemma container_parsed:
  assumes enter: "enter_container opening closing (buf_at c p d) = Inr (Inr (buf_at c p1 (d + 1), False))"
    and els: "els (buf_at c p1 (d + 1)) = Some (Inr (Some cs, buf_at c q (d + 1)))"
    and close: "q < length c" "c ! q = closing"
  shows "parse_container opening closing t els (start_item t0 name) (buf_at c p d) =
    Some (Inr (Some (CJSON t None 0 (Finite 0) name cs), buf_at c (q + 1) d))"
  using assms by (simp add: parse_container_def and_step_def next_is_at leave_container_def start_item_def)

lemma empty_container_parsed:
  assumes "enter_container opening closing (buf_at c p d) = Inr (Inr (buf_at c q (d + 1), True))"
  shows "parse_container opening closing t els (start_item t0 name) (buf_at c p d) =
    Some (Inr (Some (CJSON t None 0 (Finite 0) name []), buf_at c (q + 1) d))"
  using assms by (simp add: parse_container_def and_step_def leave_container_def start_item_def)

lemma array_parsed:
  assumes IH: "\<And>it. it \<in> set ch \<Longrightarrow> parses it" and ch: "list_all (json_value (d + 1)) ch"
    and d: "d < CJSON_NESTING_LIMIT"
    and occ: "occurs c p (''['' @ elements_text fmt dd ch @ '']'')" and n: "length (elements_text fmt dd ch) < n"
  shows "parse_container (CHR ''['') (CHR '']'') t (parse_elements n False []) (start_item t0 name) (buf_at c p d) =
    Some (Inr (Some (CJSON t None 0 (Finite 0) name (map (parsed_as None) ch)),
      buf_at c (p + length (elements_text fmt dd ch) + 2) d))"
proof (cases ch)
  case Nil
  then have "occurs c p ([CHR ''[''] @ [] @ [CHR '']''])" using occ by simp
  from enter_at [OF this _ _ d] show ?thesis
    by (simp add: Nil empty_container_parsed)
next
  case (Cons it0 its)
  have v: "json_value (d + 1) it0" using ch Cons by simp
  obtain y ys where y: "json_text fmt dd it0 = y # ys" "dark y" "y \<noteq> CHR '']''"
    using json_text_first [OF v, of fmt dd] by metis
  have o: "occurs c (p + 1) (elements_text fmt dd ch @ '']'')" using occ by simp
  have "occurs c p ([CHR ''[''] @ [] @ [y])" using occ y(1) by (simp add: Cons)
  from enter_at [OF this _ y(2) d, of "CHR '']''"] y(3)
  have enter: "enter_container (CHR ''['') (CHR '']'') (buf_at c p d) = Inr (Inr (buf_at c p (d + 1), False))"
    by simp
  have "parse_elements n False [] (buf_at c p (d + 1)) =
      Some (Inr (Some ([] @ map (parsed_as None) ch), buf_at c (p + 1 + length ([] :: string) + length (elements_text fmt dd ch)) (d + 1)))"
    unfolding Cons
  proof (rule elements_parsed [of it0 its "d + 1"])
    show "list_all (\<lambda>it. clean_string (item_string it)) (it0 # its)"
      using ch json_value_name unfolding Cons by (auto simp: list_all_iff)
  qed (use IH ch o n Cons in simp_all)
  with container_parsed [OF enter, of "parse_elements n False []"] o show ?thesis by simp
qed

lemma object_parsed:
  assumes IH: "\<And>it. it \<in> set ch \<Longrightarrow> parses it" and ch: "list_all (json_value (d + 1)) ch"
    and d: "d < CJSON_NESTING_LIMIT"
    and occ: "occurs c p ([CHR 0x7B] @ layout fmt [NEWLINE] @ fields_text fmt (dd + 1) ch @
      layout fmt (replicate dd TAB) @ [CHR 0x7D])"
    and n: "length (fields_text fmt (dd + 1) ch) < n"
  shows "parse_container (CHR 0x7B) (CHR 0x7D) t (parse_elements n True []) (start_item t0 name) (buf_at c p d) =
    Some (Inr (Some (CJSON t None 0 (Finite 0) name
        (map (\<lambda>it. parsed_as (Some (text_of (item_string it))) it) ch)),
      buf_at c (p + length (layout fmt [NEWLINE]) + length (fields_text fmt (dd + 1) ch) +
        length (layout fmt (replicate dd TAB)) + 2) d))"
proof (cases ch)
  case Nil
  let ?w = "layout fmt [NEWLINE] @ layout fmt (replicate dd TAB)"
  have "occurs c p ([CHR 0x7B] @ ?w @ [CHR 0x7D])" using occ Nil by (simp add: add.assoc)
  from enter_at [OF this _ _ d] show ?thesis
    by (simp add: Nil empty_container_parsed add.assoc)
next
  case (Cons it0 its)
  let ?i = "layout fmt (replicate (dd + 1) TAB)"
  let ?w = "layout fmt [NEWLINE] @ ?i"
  let ?w2 = "layout fmt (replicate dd TAB)"
  obtain r where r: "fields_text fmt (dd + 1) (it0 # its) = ?i @ CHR 0x22 # r"
    by (simp add: quoted_def)
  let ?body = "CHR 0x22 # r"
  have o: "occurs c p ([CHR 0x7B] @ ?w @ ?body @ ?w2 @ [CHR 0x7D])"
    using occ unfolding Cons r by (simp add: add.assoc)
  then have "occurs c p ([CHR 0x7B] @ ?w @ [CHR 0x22])" by (simp add: add.assoc)
  moreover have "blanks ?w" using blanks_simps(6) [of "dd + 1"] by (simp only: blanks_simps)
  ultimately have enter: "enter_container (CHR 0x7B) (CHR 0x7D) (buf_at c p d) =
      Inr (Inr (buf_at c (p + length ?w) (d + 1), False))"
    using enter_at [of c p _ ?w "CHR 0x22" d "CHR 0x7D"] d by simp
  have "parse_elements n True [] (buf_at c (p + length ?w) (d + 1)) =
      Some (Inr (Some ([] @ map (\<lambda>it. parsed_as (Some (text_of (item_string it))) it) ch),
        buf_at c (p + length ?w + 1 + length ([] :: string) + length ?body + length ?w2) (d + 1)))"
    unfolding Cons
  proof (rule fields_parsed [OF _ _ _ r])
    show "list_all (\<lambda>it. clean_string (item_string it)) (it0 # its)"
      using ch json_value_name unfolding Cons by (auto simp: list_all_iff)
    show "occurs c (p + length ?w + 1) ([] @ ?body @ ?w2 @ [CHR 0x7D])" using o by (simp add: add.assoc)
    show "length ?body < n" using n unfolding Cons r by simp
  qed (use IH ch Cons in simp_all)
  with container_parsed [OF enter, of "parse_elements n True []"] o show ?thesis
    unfolding Cons r by (simp add: add.assoc)
qed

lemma parses_item: "parses it"
proof (induction it)
  case (CJSON t vs vi vd st ch)
  let ?it = "CJSON t vs vi vd st ch"
  show ?case unfolding parses_def
  proof (intro allI impI)
    fix d n c p x t0 name fmt dd
    assume v: "json_value d ?it" and occ: "occurs c p (json_text fmt dd ?it @ [x])"
      and x: "\<not> number_char x" and n: "length (json_text fmt dd ?it) \<le> n"
    obtain y ys where y: "json_text fmt dd ?it = y # ys" using json_text_first [OF v] by metis
    then obtain m where m: "n = Suc m" using n by (cases n) auto
    have py: "p < length c" "c ! p = y" using occ unfolding y by simp_all
    note kind = value_kind_first [OF py(1), of d]
    consider (Null) "t AND 0xFF = cJSON_NULL" | (False) "t AND 0xFF = cJSON_False"
      | (True) "t AND 0xFF = cJSON_True" | (String) "t AND 0xFF = cJSON_String" "clean_string vs"
      | (Number) "t AND 0xFF = cJSON_Number" "vd = Finite (of_int (sint vi))"
      | (Array) "t AND 0xFF = cJSON_Array" "d < CJSON_NESTING_LIMIT" "list_all (json_value (d + 1)) ch"
      | (Object) "t AND 0xFF = cJSON_Object" "d < CJSON_NESTING_LIMIT" "list_all (json_value (d + 1)) ch"
      using v by (auto simp: Let_def)
    then show "parse_value n (start_item t0 name) (buf_at c p d) =
        Some (Inr (Some (parsed_as name ?it), buf_at c (p + length (json_text fmt dd ?it)) d))"
    proof cases
      case Null
      then have "occurs c p ''null''" using occ by simp
      from value_kind_literals(1) [OF this, of d] Null show ?thesis
        by (simp add: m set_literal_def start_item_def item_types)
    next
      case False
      then have "occurs c p ''false''" using occ by (simp add: item_types)
      from value_kind_literals(2) [OF this, of d] False show ?thesis
        by (simp add: m set_literal_def start_item_def item_types)
    next
      case True
      then have "occurs c p ''true''" using occ by (simp add: item_types)
      from value_kind_literals(3) [OF this, of d] True show ?thesis
        by (simp add: m set_literal_def start_item_def item_types)
    next
      case String
      have t: "json_text fmt dd ?it = quoted vs" using String(1) by (simp add: item_types)
      have "value_kind_at (buf_at c p d) = Inr StringValue"
        using kind occ unfolding t by (simp add: quoted_def kind_of_char_def)
      moreover have "occurs c p (quoted vs)" using occ unfolding t by simp
      ultimately show ?thesis
        using parse_string_quoted [OF _ String(2), of c p "start_item t0 name" d] String(1) unfolding t
        by (simp add: m start_item_def item_types)
    next
      case Number
      have t: "json_text fmt dd ?it = show_int (sint vi)" using Number by (simp add: item_types number_string_def)
      have "y = CHR ''-'' \<or> is_digit y"
        using y show_nat_first [of "nat (sint vi)"] unfolding t show_int_def by (auto split: if_splits)
      then have "value_kind_at (buf_at c p d) = Inr NumberValue"
      proof
        assume "y = CHR ''-''"
        then show ?thesis using kind py by (simp add: kind_of_char_def)
      next
        assume y: "is_digit y"
        then have "y \<noteq> CHR ''n''" "y \<noteq> CHR ''f''" "y \<noteq> CHR ''t''" "y \<noteq> CHR 0x22" by (auto simp: is_digit_def)
        then show ?thesis using kind py y by (simp add: kind_of_char_def)
      qed
      moreover have "occurs c p (show_int (sint vi) @ [x])" using occ unfolding t .
      ultimately show ?thesis
        using parse_number_shown [OF _ x, of c p vi "start_item t0 name" d] Number unfolding t
        by (simp add: m start_item_def item_types)
    next
      case Array
      have t: "json_text fmt dd ?it = ''['' @ elements_text fmt (dd + 1) ch @ '']''"
        using Array(1) by (simp add: item_types)
      have "value_kind_at (buf_at c p d) = Inr ArrayValue"
        using kind occ unfolding t by (simp add: kind_of_char_def is_digit_def)
      moreover have "occurs c p (''['' @ elements_text fmt (dd + 1) ch @ '']'')" using occ unfolding t by simp
      moreover have "length (elements_text fmt (dd + 1) ch) < m" using n unfolding t m by simp
      ultimately show ?thesis
        using array_parsed [OF CJSON.IH Array(3,2), of c p fmt "dd + 1" m cJSON_Array t0 name] Array(1) unfolding t
        by (simp add: m item_types)
    next
      case Object
      let ?n = "layout fmt [NEWLINE]"
      let ?i = "layout fmt (replicate dd TAB)"
      have t: "json_text fmt dd ?it = [CHR 0x7B] @ ?n @ fields_text fmt (dd + 1) ch @ ?i @ [CHR 0x7D]"
        using Object(1) by (simp add: item_types)
      have "value_kind_at (buf_at c p d) = Inr ObjectValue"
        using kind occ unfolding t by (simp add: kind_of_char_def is_digit_def)
      moreover have "occurs c p ([CHR 0x7B] @ ?n @ fields_text fmt (dd + 1) ch @ ?i @ [CHR 0x7D])"
        using occ unfolding t by (simp add: add.assoc)
      moreover have "length (fields_text fmt (dd + 1) ch) < m" using n unfolding t m by simp
      ultimately show ?thesis
        using object_parsed [OF CJSON.IH Object(3,2), of c p fmt dd m cJSON_Object t0 name] Object(1) unfolding t
        by (simp add: m item_types add.assoc)
    qed
  qed
qed

section \<open>Print and parse\<close>

lemma parse_printed:
  assumes "json_value 0 it"
  shows "cJSON_ParseWithLengthOpts (lit (json_text fmt 0 it)) (length (json_text fmt 0 it) + 1) True [] =
    Some (Inr (Some (parsed_as None it), length (json_text fmt 0 it)))"
proof -
  let ?s = "json_text fmt 0 it"
  let ?c = "lit ?s"
  obtain y ys where y: "?s = y # ys" "dark y" "y \<noteq> CHR 0xEF" using json_text_first [OF assms] by metis
  then have first: "0 < length ?c" "?c ! 0 = y" by (simp_all add: lit_nth)
  have b: "\<lparr>pb_content = ?c, pb_length = Suc (length ?s), pb_offset = 0, pb_depth = 0, pb_allocs = []\<rparr> = buf_at ?c 0 0"
    by (simp add: buf_at_def lit_nth)
  have start: "and_then (skip_utf8_bom (buf_at ?c 0 0)) buffer_skip_whitespace = Inr (buf_at ?c 0 0)"
    using first y by (simp add: skip_utf8_bom_def skip_at)
  have "occurs ?c 0 (?s @ [NUL])" using occurs_prefix [of "?s @ [NUL]" "[]"] by (simp add: lit_def)
  moreover have "length ?s \<le> parse_fuel (Suc (length ?s))" by (simp add: parse_fuel_def)
  ultimately have v: "parse_value (parse_fuel (Suc (length ?s))) zero_item (buf_at ?c 0 0) =
      Some (Inr (Some (parsed_as None it), buf_at ?c (length ?s) 0))"
    using parses_item [of it] assms unfolding parses_def start_items by fastforce
  have stay: "buffer_skip_whitespace (buf_at ?c (length ?s) 0) = Inr (buf_at ?c (length ?s) 0)"
    by (simp add: buffer_skip_whitespace_def can_access_at_index_def skip_blanks.simps lit_nth)
  have "next_is NUL (buf_at ?c (length ?s) 0) = Inr True"
    by (simp add: next_is_at lit_nth)
  then show ?thesis
    unfolding cJSON_ParseWithLengthOpts_def
    by (simp add: cJSON_New_Item_def allocate_def Let_def b start v stay and_step_def)
qed

lemma json_value_printable: "json_value d it \<Longrightarrow> printable it"
proof (induction it arbitrary: d)
  case (CJSON t vs vi vd st ch)
  have "list_all printable ch" if "list_all (json_value (d + 1)) ch"
    using CJSON.IH that by (auto simp: list_all_iff)
  then show ?case using CJSON.prems by (auto simp: Let_def)
qed

lemma print_parse_text:
  assumes "json_value 0 it" and "clean_item it" and "int (length (json_text fmt 0 it) + 2) \<le> INT_MAX"
  shows "\<exists>text. print_item junk reallocate (Some it) fmt [] = Inr (Some text, []) \<and>
    cJSON_ParseWithLengthOpts text (length text) True [] =
      Some (Inr (Some (parsed_as None it), length text - 1))"
proof -
  obtain r oks where t: "print_item junk reallocate (Some it) fmt [] = Inr (r, oks)"
    "r = None \<or> printable it \<and> r = Some (lit (json_text fmt 0 it))"
    "r \<noteq> None \<and> oks = []"
    using print_item_text [OF assms(2), of junk reallocate fmt "[]"] json_value_printable [OF assms(1)] assms(3)
    by auto
  then show ?thesis using parse_printed [OF assms(1), of fmt] by (auto simp: lit_nth)
qed

text \<open>
  C14. Print and parse. Take any item built of null, booleans, integral numbers, strings of any
  characters, arrays and objects, nested at most 1000 deep. Printed in either format, with memory
  available and a text of at most INT_MAX - 2 bytes, and parsed again, it gives the same item, up
  to flags and missing strings, and parsing ends exactly at the terminator of the text.
\<close>

theorem print_parse_roundtrip:
  assumes "json_value 0 it" and "clean_item it" and "int (length (json_text fmt 0 it) + 2) \<le> INT_MAX"
  shows "\<exists>text. print_item junk reallocate (Some it) fmt [] = Inr (Some text, []) \<and>
    cJSON_ParseWithLengthOpts text (length text) True [] =
      Some (Inr (Some (parsed_as None it), length text - 1))"
  by (rule print_parse_text [OF assms])

text \<open>A nested item with a quote and a control character in a string.\<close>

definition nested_item :: cJSON where
  "nested_item = CJSON cJSON_Object None 0 (Finite 0) None
     [CJSON cJSON_Array None 0 (Finite 0) (Some ''a'')
        [CJSON cJSON_Number None (- 7) (Finite (- 7)) None [], CJSON cJSON_True None 1 (Finite 0) None []],
      CJSON cJSON_String (Some [CHR 0x22, CHR 0x01]) 0 (Finite 0) (Some []) []]"

lemma nested_item_ok: "json_value 0 nested_item" "clean_item nested_item"
proof -
  show "json_value 0 nested_item"
    by (simp add: nested_item_def item_types clean_string_def CJSON_NESTING_LIMIT_def)
  have "round_double (of_nat 7) = Finite (of_nat 7)" by (rule round_double_nat) simp
  then have "round_double (- of_nat 7) = Finite (- of_nat 7)" by (rule round_double_minus) simp
  then show "clean_item nested_item"
    by (simp add: nested_item_def clean_string_def representable_def round_double_def)
qed

lemma print_parse_roundtrip_witness:
  "\<exists>text. print_item (\<lambda>_. CHR ''?'') True (Some nested_item) True [] = Inr (Some text, []) \<and>
    cJSON_ParseWithLengthOpts text (length text) True [] = Some (Inr (Some nested_item, length text - 1))"
proof -
  have "int (length (json_text True 0 nested_item) + 2) \<le> INT_MAX" by code_simp
  moreover have "parsed_as None nested_item = nested_item"
    by (simp add: nested_item_def item_types text_of_def)
  ultimately show ?thesis
    using print_parse_roundtrip [OF nested_item_ok, of True "\<lambda>_. CHR ''?''" True] by simp
qed

end
