(* ===== verification/Dispatcher.thy ===== *)
theory Dispatcher
  imports CJson_Print_Parse Scheduling
begin

text \<open>
  What a dispatcher posts to its machine: the part of \<open>_cluster_loop\<close> (lib/cluster_worker.c)
  between taking a job and going back to wait, with its calls of cJSON. In \<open>Scheduling\<close> this
  part is one step whose outcome is arbitrary; here the outcome is computed from what malloc
  and curl answer, and the text of the post is shown to carry the job.
\<close>

section \<open>Posting a job\<close>

text \<open>
  \<open>curl_ok\<close> tells whether \<open>curl_easy_init\<close> succeeds, \<open>perform\<close> whether \<open>curl_easy_perform\<close>
  does for this body; \<open>node\<close> is the job, \<open>None\<close> for a NULL node. The result is what happened
  and the body of the post; \<open>None\<close> is no post or a post with a NULL body.
\<close>

definition dispatch_post ::
  "(nat \<Rightarrow> char) \<Rightarrow> bool \<Rightarrow> (block option \<Rightarrow> bool) \<Rightarrow> u32 option \<Rightarrow> int \<Rightarrow> allocs \<Rightarrow>
   (post_outcome \<times> block option) result" where
  "dispatch_post junk curl_ok perform node wid oks =
     (if \<not> curl_ok then Inr (CurlInitFailed, None)
      else case cJSON_CreateObject oks of
        (None, oks1) \<Rightarrow> Inr (JsonCreateFailed, None)
      | (Some json_obj, oks1) \<Rightarrow>
          (case node of
             None \<Rightarrow> Inl InvalidPointer
           | Some v \<Rightarrow>
               and_then (cJSON_AddNumberToObject (Some json_obj) (Some ''value'')
                 (Finite (of_nat (unat v))) oks1) (\<lambda>((ok1, obj1), oks2).
               if \<not> ok1 then Inr (AddValueFailed, None)
               else and_then (cJSON_AddNumberToObject obj1 (Some ''worker'')
                   (Finite (of_int wid)) oks2) (\<lambda>((ok2, obj2), oks3).
                 if \<not> ok2 then Inr (AddWorkerFailed, None)
                 else and_then (cJSON_PrintUnformatted junk obj2 oks3) (\<lambda>(str_json, oks4).
                   Inr (if perform str_json then Posted else PerformFailed, str_json))))))"

section \<open>The body\<close>

definition job_item :: "nat \<Rightarrow> nat \<Rightarrow> cJSON" where
  "job_item v w = object_item [(''value'', v), (''worker'', w)]"

lemma representable_nat: "n < 2 ^ 32 \<Longrightarrow> representable (Finite (of_nat n))"
  by (simp add: representable_def round_double_nat)

lemma sint_of_nat: "n < 2 ^ 31 \<Longrightarrow> sint (word_of_nat n :: i32) = int n"
  by (simp add: sint_small unat_of_nat)

lemma job_item_text:
  assumes "v < 2 ^ 31" and "w < 2 ^ 31"
  shows "json_text False 0 (job_item v w) = object_text [(''value'', v), (''worker'', w)]"
    and "clean_item (job_item v w)" and "printable (job_item v w)" and "json_value 0 (job_item v w)"
proof -
  have "concat (map escaped ''value'') = ''value''" "concat (map escaped ''worker'') = ''worker''"
    by code_simp+
  then show "json_text False 0 (job_item v w) = object_text [(''value'', v), (''worker'', w)]"
    using assms by (simp add: job_item_def object_item_def member_item_def item_types layout_def quoted_def
        number_string_def sint_of_nat show_int_def object_text_def member_text_def)
  have "representable (Finite (of_nat v))" "representable (Finite (of_nat w))" "representable (Finite 0)"
    using representable_nat [of v] representable_nat [of w] representable_nat [of 0] assms by simp_all
  then show "clean_item (job_item v w)"
    by (simp add: job_item_def object_item_def member_item_def clean_string_def)
  show "printable (job_item v w)"
    by (simp add: job_item_def object_item_def member_item_def item_types)
  show "json_value 0 (job_item v w)"
    using assms by (simp add: job_item_def object_item_def member_item_def item_types clean_string_def
        sint_of_nat CJSON_NESTING_LIMIT_def)
qed

lemma add_member:
  assumes "k < 2 ^ 31"
  shows "cJSON_AddNumberToObject (Some ob) (Some name) (Finite (of_nat k)) [] =
    Inr ((True, Some (set_child (item_child ob @ [member_item (name, k)]) ob)), [])"
  using saturated_int_nat [OF assms]
  by (simp add: cJSON_AddNumberToObject_def cJSON_CreateNumber_def cJSON_New_Item_def zero_item_def
      allocate_def add_item_to_object_def cJSON_strdup_def add_item_to_array_def member_item_def item_types)

text \<open>
  C15. What a machine receives. When memory is available, the body of the post of a job of \<open>v\<close>
  units to machine \<open>w\<close> is exactly the JSON text of the members value and worker; a machine that
  parses it with this library finds in it, whatever the case of the names, the numbers \<open>v\<close> and
  \<open>w\<close>; and the job counts as posted exactly when curl succeeds.
\<close>

theorem machine_receives_job:
  assumes "v < 2 ^ 31" and "w < 2 ^ 31"
  shows "\<exists>body. dispatch_post junk True perform (Some (word_of_nat v)) (int w) [] =
      Inr (if perform (Some body) then Posted else PerformFailed, Some body) \<and>
    body = lit (object_text [(''value'', v), (''worker'', w)]) \<and>
    cJSON_ParseWithLengthOpts body (length body) True [] = Some (Inr (Some (job_item v w), length body - 1)) \<and>
    map_option item_valueint (cJSON_GetObjectItem (Some (job_item v w)) (Some ''value'')) = Some (word_of_nat v) \<and>
    map_option item_valueint (cJSON_GetObjectItem (Some (job_item v w)) (Some ''worker'')) = Some (word_of_nat w)"
proof -
  let ?t = "object_text [(''value'', v), (''worker'', w)]"
  let ?ob = "set_type cJSON_Object zero_item"
  have v: "unat (word_of_nat v :: u32) = v" using assms(1) by (simp add: unat_of_nat)
  have ob: "set_child (item_child (set_child (item_child ?ob @ [member_item (''value'', v)]) ?ob) @
      [member_item (''worker'', w)]) (set_child (item_child ?ob @ [member_item (''value'', v)]) ?ob) = job_item v w"
    by (simp add: zero_item_def job_item_def object_item_def)
  have "length (show_nat v) \<le> 10" "length (show_nat w) \<le> 10" using show_nat_length assms by blast+
  then have "int (length ?t + 2) \<le> INT_MAX" by (simp add: object_text_def member_text_def INT_MAX_def)
  then have "print_item junk True (Some (job_item v w)) False [] = Inr (Some (lit ?t), [])"
    using print_item_text [OF job_item_text(2) [OF assms], of junk True False "[]"] job_item_text(1,3) [OF assms]
    by auto
  then have "dispatch_post junk True perform (Some (word_of_nat v)) (int w) [] =
      Inr (if perform (Some (lit ?t)) then Posted else PerformFailed, Some (lit ?t))"
    using add_member [OF assms(1), of ?ob "''value''"]
      add_member [OF assms(2), of "set_child (item_child ?ob @ [member_item (''value'', v)]) ?ob" "''worker''"] v
    by (simp add: dispatch_post_def cJSON_CreateObject_def create_typed_def cJSON_New_Item_def allocate_def
        cJSON_PrintUnformatted_def ob del: item_set_simps)
  moreover have "parsed_as None (job_item v w) = job_item v w"
    by (simp add: job_item_def object_item_def member_item_def item_types text_of_def)
  then have "cJSON_ParseWithLengthOpts (lit ?t) (length (lit ?t)) True [] =
      Some (Inr (Some (job_item v w), length (lit ?t) - 1))"
    using parse_printed [OF job_item_text(4) [OF assms], of False] job_item_text(1) [OF assms]
    by (simp add: lit_nth)
  moreover have "\<not> same_ignoring_case ''worker'' ''value''" by code_simp
  then have "map_option item_valueint (cJSON_GetObjectItem (Some (job_item v w)) (Some ''value'')) = Some (word_of_nat v)"
    "map_option item_valueint (cJSON_GetObjectItem (Some (job_item v w)) (Some ''worker'')) = Some (word_of_nat w)"
    by (simp_all add: cJSON_GetObjectItem_def get_object_item_ci job_item_def object_item_def member_item_def
        case_insensitive_equal_def)
  ultimately show ?thesis by blast
qed

lemma machine_receives_job_witness:
  "\<exists>body. dispatch_post (\<lambda>_. NUL) True (\<lambda>_. True) (Some (word_of_nat 12)) (int 1) [] = Inr (Posted, Some body) \<and>
     body = lit (object_text [(''value'', 12), (''worker'', 1)])"
  using machine_receives_job [of 12 1 "\<lambda>_. NUL" "\<lambda>_. True"] by auto

text \<open>
  The result of \<open>cJSON_PrintUnformatted\<close> is not tested: when its first malloc fails (the sixth of the
  round), the job is posted with a NULL body and counts as delivered.
\<close>

lemma null_body_is_posted:
  "dispatch_post junk True (\<lambda>_. True) (Some (word_of_nat 12)) 1 [True, True, True, True, True, False] =
     Inr (Posted, None)"
proof -
  have s: "saturated_int (Finite (of_nat 12)) = Inr (word_of_nat 12)" "saturated_int (Finite (of_nat 1)) = Inr (word_of_nat 1)"
    by (rule saturated_int_nat, simp)+
  then show ?thesis
    by (simp add: dispatch_post_def cJSON_CreateObject_def create_typed_def cJSON_New_Item_def allocate_def
        cJSON_AddNumberToObject_def cJSON_CreateNumber_def add_item_to_object_def cJSON_strdup_def
        add_item_to_array_def cJSON_PrintUnformatted_def print_item_def)
qed

end
