(* ===== verification/CJson_Minify.thy ===== *)
theory CJson_Minify
  imports CJson_Print_Parse
begin

text \<open>
  \<open>cJSON_Minify\<close> (lib/c_json.c) removes white space and comments from a JSON text in place. It is
  modelled on the block it works in, with an offset it reads at and an offset it writes at.
\<close>

section \<open>In place\<close>

definition is_blank :: "char \<Rightarrow> bool" where
  "is_blank c \<longleftrightarrow> c = CHR '' '' \<or> c = CHR 0x09 \<or> c = CHR 0x0D \<or> c = CHR 0x0A"

text \<open>The two comment skippers after the opening characters: the new read offset.\<close>

function skip_oneline :: "block \<Rightarrow> nat \<Rightarrow> nat result" where
  "skip_oneline b i =
     (if i < length b then
        (if b ! i = NUL then Inr i else if b ! i = NEWLINE then Inr (i + 1) else skip_oneline b (i + 1))
      else Inl OutOfBounds)"
  by pat_completeness auto
termination by (relation "measure (\<lambda>(b, i). length b - i)") auto

function skip_multiline :: "block \<Rightarrow> nat \<Rightarrow> nat result" where
  "skip_multiline b i =
     (if i < length b then
        (if b ! i = NUL then Inr i
         else if b ! i = CHR ''*'' then
           (if i + 1 < length b then
              (if b ! (i + 1) = CHR ''/'' then Inr (i + 2) else skip_multiline b (i + 1))
            else Inl OutOfBounds)
         else skip_multiline b (i + 1))
      else Inl OutOfBounds)"
  by pat_completeness auto
termination by (relation "measure (\<lambda>(b, i). length b - i)") auto

text \<open>The loop of \<open>minify_string\<close>, behind the opening quote; \<open>w\<close> is the write offset.\<close>

function minify_string_loop :: "block \<Rightarrow> nat \<Rightarrow> nat \<Rightarrow> (block \<times> nat \<times> nat) result" where
  "minify_string_loop b i w =
     (if i < length b \<and> w < length b then
        (if b ! i = NUL then Inr (b, i, w)
         else let b1 = b[w := b ! i] in
           if b1 ! i = CHR 0x22 then Inr (b1[w := CHR 0x22], i + 1, w + 1)
           else if b1 ! i = CHR 0x5C then
             (if i + 1 < length b \<and> w + 1 < length b then
                (if b1 ! (i + 1) = CHR 0x22 then
                   minify_string_loop (b1[w + 1 := b1 ! (i + 1)]) (i + 2) (w + 2)
                 else minify_string_loop b1 (i + 1) (w + 1))
              else Inl OutOfBounds)
           else minify_string_loop b1 (i + 1) (w + 1))
      else Inl OutOfBounds)"
  by pat_completeness auto
termination by (relation "measure (\<lambda>(b, i, w). length b - i)") (auto simp: Let_def)

definition minify_string :: "block \<Rightarrow> nat \<Rightarrow> nat \<Rightarrow> (block \<times> nat \<times> nat) result" where
  "minify_string b i w =
     (if i < length b \<and> w < length b then minify_string_loop (b[w := b ! i]) (i + 1) (w + 1)
      else Inl OutOfBounds)"

text \<open>
  The main loop; \<open>n\<close> bounds its rounds, and every round moves the read offset, so the length of
  the block is enough.
\<close>

fun minify_loop :: "nat \<Rightarrow> block \<Rightarrow> nat \<Rightarrow> nat \<Rightarrow> block result" where
  "minify_loop 0 b i w = Inl Diverged"
| "minify_loop (Suc n) b i w =
     (if length b \<le> i then Inl OutOfBounds
      else if b ! i = NUL then (if w < length b then Inr (b[w := NUL]) else Inl OutOfBounds)
      else if is_blank (b ! i) then minify_loop n b (i + 1) w
      else if b ! i = CHR ''/'' then
        (if length b \<le> i + 1 then Inl OutOfBounds
         else if b ! (i + 1) = CHR ''/'' then and_then (skip_oneline b (i + 2)) (\<lambda>i'. minify_loop n b i' w)
         else if b ! (i + 1) = CHR ''*'' then and_then (skip_multiline b (i + 2)) (\<lambda>i'. minify_loop n b i' w)
         else minify_loop n b (i + 1) w)
      else if b ! i = CHR 0x22 then
        and_then (minify_string b i w) (\<lambda>(b', i', w'). minify_loop n b' i' w')
      else if w < length b then minify_loop n (b[w := b ! i]) (i + 1) (w + 1)
      else Inl OutOfBounds)"

definition cJSON_Minify :: "block \<Rightarrow> block result" where
  "cJSON_Minify json = minify_loop (length json) json 0 0"

declare skip_oneline.simps [simp del] skip_multiline.simps [simp del] minify_string_loop.simps [simp del]

section \<open>On strings\<close>

text \<open>What the functions do, on the characters that are left.\<close>

fun rest_of_line :: "string \<Rightarrow> string" where
  "rest_of_line [] = []"
| "rest_of_line (c # s) = (if c = NEWLINE then s else rest_of_line s)"

fun rest_of_comment :: "string \<Rightarrow> string" where
  "rest_of_comment (c # d # s) = (if c = CHR ''*'' \<and> d = CHR ''/'' then s else rest_of_comment (d # s))"
| "rest_of_comment s = []"

fun split_string :: "string \<Rightarrow> string \<times> string" where
  "split_string [] = ([], [])"
| "split_string (c # s) =
     (if c = CHR 0x22 then ([c], s)
      else if c = CHR 0x5C \<and> s \<noteq> [] \<and> hd s = CHR 0x22 then
        (let (u, r) = split_string (tl s) in (c # CHR 0x22 # u, r))
      else (let (u, r) = split_string s in (c # u, r)))"

lemma rest_lengths:
  "length (rest_of_line s) \<le> length s" "length (rest_of_comment s) \<le> length s"
  "length (snd (split_string s)) \<le> length s"
proof -
  show "length (rest_of_line s) \<le> length s" by (induction s) auto
  show "length (rest_of_comment s) \<le> length s" by (induction s rule: rest_of_comment.induct) auto
  show "length (snd (split_string s)) \<le> length s"
    by (induction s rule: split_string.induct) (auto simp: case_prod_beta Let_def)
qed

lemma rest_tail: "length (rest_of_line (tl s)) \<le> length s" "length (rest_of_comment (tl s)) \<le> length s"
  using rest_lengths(1,2) [of "tl s"] by simp_all

function minified :: "string \<Rightarrow> string" where
  "minified s =
     (case s of [] \<Rightarrow> []
      | c # r \<Rightarrow>
          if is_blank c then minified r
          else if c = CHR ''/'' then
            (if r \<noteq> [] \<and> hd r = CHR ''/'' then minified (rest_of_line (tl r))
             else if r \<noteq> [] \<and> hd r = CHR ''*'' then minified (rest_of_comment (tl r))
             else minified r)
          else if c = CHR 0x22 then c # fst (split_string r) @ minified (snd (split_string r))
          else c # minified r)"
  by pat_completeness auto
termination
  by (relation "measure length")
    (auto simp: rest_tail rest_lengths less_Suc_eq_le)

declare minified.simps [simp del]

lemma minified_simps:
  "minified [] = []"
  "is_blank c \<Longrightarrow> minified (c # r) = minified r"
  "minified (CHR 0x22 # r) = CHR 0x22 # fst (split_string r) @ minified (snd (split_string r))"
  "\<not> is_blank c \<Longrightarrow> c \<noteq> CHR ''/'' \<Longrightarrow> c \<noteq> CHR 0x22 \<Longrightarrow> minified (c # r) = c # minified r"
  by (subst minified.simps; simp add: is_blank_def)+

section \<open>The work in place is the work on strings\<close>

text \<open>
  The block is: what is written, old bytes the writer has left behind, and what is still to be
  read with its terminator. Writing one byte moves the border.
\<close>

lemma write_one:
  "\<exists>g'. length g' = length g \<and> (out @ g @ c # r)[length out := c] = (out @ [c]) @ g' @ r"
  by (cases g) (auto simp: list_update_append intro: exI [of _ "tl g @ [c]"])

lemma skip_oneline_rest:
  "NUL \<notin> set s \<Longrightarrow> skip_oneline (p @ s @ NUL # t) (length p) =
     Inr (length p + (length s - length (rest_of_line s)))"
proof (induction s arbitrary: p)
  case Nil
  then show ?case by (simp add: skip_oneline.simps)
next
  case (Cons c s)
  have "skip_oneline ((p @ [c]) @ s @ NUL # t) (length (p @ [c])) =
      Inr (length (p @ [c]) + (length s - length (rest_of_line s)))"
    using Cons.prems by (intro Cons.IH) simp
  then show ?case using Cons.prems rest_lengths(1) [of s]
    by (subst skip_oneline.simps) (auto simp: nth_append)
qed

lemma skip_multiline_rest:
  "NUL \<notin> set s \<Longrightarrow> skip_multiline (p @ s @ NUL # t) (length p) =
     Inr (length p + (length s - length (rest_of_comment s)))"
proof (induction s arbitrary: p)
  case Nil
  then show ?case by (simp add: skip_multiline.simps)
next
  case (Cons c s)
  have IH: "skip_multiline ((p @ [c]) @ s @ NUL # t) (length (p @ [c])) =
      Inr (length (p @ [c]) + (length s - length (rest_of_comment s)))"
    using Cons.prems by (intro Cons.IH) simp
  show ?case
  proof (cases s)
    case Nil
    then show ?thesis using IH Cons.prems by (subst skip_multiline.simps) (auto simp: nth_append)
  next
    case (Cons d s')
    then show ?thesis using IH \<open>NUL \<notin> set (c # s)\<close> rest_lengths(2) [of s]
      by (subst skip_multiline.simps) (auto simp: nth_append)
  qed
qed

lemma rest_suffix:
  "\<exists>u. s = u @ rest_of_line s" "\<exists>u. s = u @ rest_of_comment s" "\<exists>u. s = u @ snd (split_string s)"
proof -
  show "\<exists>u. s = u @ rest_of_line s"
  proof (induction s)
    case (Cons c s)
    then obtain u where "s = u @ rest_of_line s" by blast
    then show ?case
      by (cases "c = NEWLINE") (auto intro: exI [of _ "[c]"] exI [of _ "c # u"])
  qed simp
  show "\<exists>u. s = u @ rest_of_comment s"
  proof (induction s rule: rest_of_comment.induct)
    case (1 c d s)
    show ?case
    proof (cases "c = CHR ''*'' \<and> d = CHR ''/''")
      case True
      then show ?thesis by (intro exI [of _ "[c, d]"]) simp
    next
      case False
      then obtain u where "d # s = u @ rest_of_comment (d # s)" using 1 by blast
      then show ?thesis using False by (intro exI [of _ "c # u"]) auto
    qed
  qed simp_all
  show "\<exists>u. s = u @ snd (split_string s)"
  proof (induction s rule: split_string.induct)
    case (2 c s)
    consider "c = CHR 0x22" | "c \<noteq> CHR 0x22" "c = CHR 0x5C \<and> s \<noteq> [] \<and> hd s = CHR 0x22"
      | "c \<noteq> CHR 0x22" "\<not> (c = CHR 0x5C \<and> s \<noteq> [] \<and> hd s = CHR 0x22)" by blast
    then show ?case
    proof cases
      case 1
      then show ?thesis by (intro exI [of _ "[c]"]) simp
    next
      case 2
      then obtain u where "tl s = u @ snd (split_string (tl s))" using "2.IH"(1) by blast
      moreover have "s = hd s # tl s" using 2 by (cases s) auto
      ultimately show ?thesis using 2
        by (intro exI [of _ "c # hd s # u"]) (simp add: case_prod_beta Let_def)
    next
      case 3
      then obtain u where "s = u @ snd (split_string s)" using "2.IH"(2) by blast
      then show ?thesis using 3 by (intro exI [of _ "c # u"]) (auto simp: case_prod_beta Let_def)
    qed
  qed simp
qed

text \<open>What one write leaves for the reader.\<close>

lemma written_reads:
  "(out @ g @ c # r)[length out := c] ! (length out + length g) = c"
  "k \<noteq> 0 \<Longrightarrow> (out @ g @ c # r)[length out := c] ! (length out + length g + k) = (c # r) ! k"
  by (cases g; simp add: nth_append list_update_append)+

lemma minify_string_loop_rest:
  assumes "NUL \<notin> set s"
  shows "\<exists>g'. minify_string_loop (out @ g @ s @ NUL # t) (length out + length g) (length out) =
    Inr (out @ fst (split_string s) @ g' @ snd (split_string s) @ NUL # t,
      length out + length (fst (split_string s)) + length g', length out + length (fst (split_string s)))"
  using assms
proof (induction s arbitrary: out g rule: split_string.induct)
  case 1
  show ?case by (subst minify_string_loop.simps) (auto simp: nth_append intro: exI [of _ g])
next
  case (2 c s)
  let ?r = "s @ NUL # t"
  let ?b = "out @ g @ c # ?r"
  let ?b1 = "?b[length out := c]"
  have c: "NUL \<notin> set s" and nul: "(c = NUL) = False" using "2.prems" by auto
  obtain g1 where g1: "length g1 = length g" "?b1 = (out @ [c]) @ g1 @ ?r"
    using write_one [of g out c ?r] by blast
  have at_i: "?b ! (length out + length g) = c" by (simp add: nth_append)
  have step: "minify_string_loop ?b (length out + length g) (length out) =
      (if c = CHR 0x22 then Inr (?b1[length out := CHR 0x22], length out + length g + 1, length out + 1)
       else if c = CHR 0x5C then
         (if ?b1 ! (length out + length g + 1) = CHR 0x22 then
            minify_string_loop (?b1[length out + 1 := ?b1 ! (length out + length g + 1)])
              (length out + length g + 2) (length out + 2)
          else minify_string_loop ?b1 (length out + length g + 1) (length out + 1))
       else minify_string_loop ?b1 (length out + length g + 1) (length out + 1))"
    unfolding minify_string_loop.simps [of ?b] at_i nul written_reads(1) Let_def by simp
  have at_j: "?b1 ! (length out + length g + 1) = (s @ [NUL]) ! 0"
    using written_reads(2) [of 1 out g c ?r] by (cases s) simp_all
  consider (quote) "c = CHR 0x22"
    | (esc) d s' where "c = CHR 0x5C" "s = d # s'" "d = CHR 0x22"
    | (plain) "c \<noteq> CHR 0x22" "\<not> (c = CHR 0x5C \<and> s \<noteq> [] \<and> hd s = CHR 0x22)"
    by (cases s) auto
  then show ?case
  proof cases
    case quote
    have "minify_string_loop ?b (length out + length g) (length out) =
        Inr (out @ [c] @ g1 @ ?r, length out + 1 + length g1, length out + 1)"
      using step g1 quote by simp
    then show ?thesis using quote by auto
  next
    case esc
    obtain g2 where g2: "length g2 = length g1"
      "((out @ [c]) @ g1 @ d # s' @ NUL # t)[length (out @ [c]) := d] = (out @ [c, d]) @ g2 @ s' @ NUL # t"
      using write_one [of g1 "out @ [c]" d "s' @ NUL # t"] by auto
    have "minify_string_loop ?b (length out + length g) (length out) =
        minify_string_loop ((out @ [c, d]) @ g2 @ s' @ NUL # t) (length (out @ [c, d]) + length g2)
          (length (out @ [c, d]))"
    proof -
      have "?b1 ! (length out + length g + 1) = d" unfolding at_j by (simp add: esc(2))
      then have "minify_string_loop ?b (length out + length g) (length out) =
          minify_string_loop (((out @ [c]) @ g1 @ ?r)[length (out @ [c]) := d])
            (length out + length g + 2) (length out + 2)"
        unfolding step g1(2) using esc(1,3) by simp
      then show ?thesis using g1(1) g2(1) by (simp add: esc(2) g2(2) [simplified])
    qed
    moreover obtain g' where "minify_string_loop ((out @ [c, d]) @ g2 @ s' @ NUL # t)
        (length (out @ [c, d]) + length g2) (length (out @ [c, d])) =
      Inr ((out @ [c, d]) @ fst (split_string s') @ g' @ snd (split_string s') @ NUL # t,
        length (out @ [c, d]) + length (fst (split_string s')) + length g',
        length (out @ [c, d]) + length (fst (split_string s')))"
      using "2.IH"(1) [of "out @ [c, d]" g2] esc c by auto
    ultimately show ?thesis using esc by (auto simp: case_prod_beta Let_def)
  next
    case plain
    have "minify_string_loop ?b (length out + length g) (length out) =
        minify_string_loop ((out @ [c]) @ g1 @ ?r) (length (out @ [c]) + length g1) (length (out @ [c]))"
      using step at_j plain g1 by (cases s) auto
    moreover obtain g' where "minify_string_loop ((out @ [c]) @ g1 @ ?r)
        (length (out @ [c]) + length g1) (length (out @ [c])) =
      Inr ((out @ [c]) @ fst (split_string s) @ g' @ snd (split_string s) @ NUL # t,
        length (out @ [c]) + length (fst (split_string s)) + length g',
        length (out @ [c]) + length (fst (split_string s)))"
      using "2.IH"(2) [of "out @ [c]" g1] plain c by auto
    ultimately show ?thesis using plain by (auto simp: case_prod_beta Let_def)
  qed
qed

lemma minify_string_rest:
  assumes "NUL \<notin> set s" and "split_string s = (u, r)"
  shows "\<exists>g'. minify_string (out @ g @ CHR 0x22 # s @ NUL # t) (length out + length g) (length out) =
    Inr ((out @ CHR 0x22 # u) @ g' @ r @ NUL # t, length (out @ CHR 0x22 # u) + length g',
      length (out @ CHR 0x22 # u))"
proof -
  let ?b = "out @ g @ CHR 0x22 # s @ NUL # t"
  obtain g1 where g1: "length g1 = length g"
    "?b[length out := CHR 0x22] = (out @ [CHR 0x22]) @ g1 @ s @ NUL # t"
    using write_one [of g out "CHR 0x22" "s @ NUL # t"] by blast
  have "minify_string ?b (length out + length g) (length out) =
      minify_string_loop ((out @ [CHR 0x22]) @ g1 @ s @ NUL # t)
        (length (out @ [CHR 0x22]) + length g1) (length (out @ [CHR 0x22]))"
    using g1 by (simp add: minify_string_def nth_append)
  then show ?thesis
    using minify_string_loop_rest [OF assms(1), of "out @ [CHR 0x22]" g1 t] assms(2) by auto
qed

lemma no_nul_rest:
  assumes "NUL \<notin> set s"
  shows "NUL \<notin> set (rest_of_line s)" "NUL \<notin> set (rest_of_comment s)" "NUL \<notin> set (snd (split_string s))"
  using rest_suffix [of s] assms by (metis Un_iff set_append)+

lemma skipped:
  assumes "s = u @ r"
  shows "out @ g @ p @ s @ x = out @ (g @ p @ u) @ r @ x"
    "length out + length g + length p + (length s - length r) = length out + length (g @ p @ u)"
  using assms by simp_all

text \<open>The main loop, with as many rounds as there are characters left and one more.\<close>

lemma minify_loop_rest:
  assumes "NUL \<notin> set s" and "length s < n"
  shows "\<exists>x. minify_loop n (out @ g @ s @ NUL # t) (length out + length g) (length out) =
    Inr (out @ minified s @ NUL # x)"
  using assms
proof (induction s arbitrary: n out g rule: minified.induct)
  case (1 s)
  obtain m where n: "n = Suc m" using "1.prems"(2) by (cases n) auto
  show ?case
  proof (cases s)
    case Nil
    obtain g' where "(out @ g @ NUL # t)[length out := NUL] = (out @ [NUL]) @ g' @ t"
      using write_one [of g out NUL t] by blast
    then show ?thesis by (simp add: Nil n nth_append minified_simps)
  next
    case (Cons c r)
    let ?b = "out @ g @ c # r @ NUL # t"
    let ?i = "length out + length g"
    have r: "NUL \<notin> set r" "length r < m" and nul: "(c = NUL) = False"
      using "1.prems" Cons n by auto
    have at_i: "?b ! ?i = c" by (simp add: nth_append)
    have at_j: "?b ! (?i + 1) = (r @ [NUL]) ! 0" by (cases r) (simp_all add: nth_append)
    have step: "minify_loop n ?b ?i (length out) =
       (if is_blank c then minify_loop m ?b (?i + 1) (length out)
        else if c = CHR ''/'' then
          (if (r @ [NUL]) ! 0 = CHR ''/'' then
             and_then (skip_oneline ?b (?i + 2)) (\<lambda>i'. minify_loop m ?b i' (length out))
           else if (r @ [NUL]) ! 0 = CHR ''*'' then
             and_then (skip_multiline ?b (?i + 2)) (\<lambda>i'. minify_loop m ?b i' (length out))
           else minify_loop m ?b (?i + 1) (length out))
        else if c = CHR 0x22 then
          and_then (minify_string ?b ?i (length out)) (\<lambda>(b', i', w'). minify_loop m b' i' w')
        else minify_loop m (?b[length out := c]) (?i + 1) (length out + 1))"
      unfolding n minify_loop.simps(2) at_i at_j nul by simp
    consider (blank) "is_blank c"
      | (line) r' where "c = CHR ''/''" "r = CHR ''/'' # r'"
      | (comment) r' where "c = CHR ''/''" "r = CHR ''*'' # r'"
      | (slash) "c = CHR ''/''" "\<not> (r \<noteq> [] \<and> hd r = CHR ''/'')" "\<not> (r \<noteq> [] \<and> hd r = CHR ''*'')"
      | (quote) "c = CHR 0x22"
      | (other) "\<not> is_blank c" "c \<noteq> CHR ''/''" "c \<noteq> CHR 0x22"
      by (cases r) auto
    then show ?thesis
    proof cases
      case blank
      have "minify_loop n ?b ?i (length out) =
          minify_loop m (out @ (g @ [c]) @ r @ NUL # t) (length out + length (g @ [c])) (length out)"
        unfolding step if_P [OF blank] by simp
      then show ?thesis using "1.IH"(1) [OF Cons blank r, of out "g @ [c]"] Cons blank
        by (simp add: minified_simps)
    next
      case line
      then have nb: "\<not> is_blank c" by (simp add: is_blank_def)
      obtain u where u: "r' = u @ rest_of_line r'" using rest_suffix(1) by blast
      let ?g = "g @ [c, CHR ''/''] @ u"
      have r': "NUL \<notin> set r'" "NUL \<notin> set (rest_of_line r')" "length (rest_of_line r') < m"
        using r line(2) no_nul_rest(1) [of r'] rest_lengths(1) [of r'] by auto
      have b: "?b = out @ ?g @ rest_of_line r' @ NUL # t"
        using arg_cong [OF u, of "\<lambda>x. out @ g @ c # CHR ''/'' # x @ NUL # t"] by (simp add: line(2))
      have "skip_oneline ?b (?i + 2) = Inr (length out + length ?g)"
        using skip_oneline_rest [OF r'(1), of "out @ g @ [c, CHR ''/'']" t] line(2)
          arg_cong [OF u, of length] by simp
      then have "minify_loop n ?b ?i (length out) =
          minify_loop m (out @ ?g @ rest_of_line r' @ NUL # t) (length out + length ?g) (length out)"
        unfolding step b [symmetric] using line nb by simp
      moreover have "minified s = minified (rest_of_line r')"
        using line nb Cons by (subst minified.simps) auto
      moreover have "\<exists>x. minify_loop m (out @ ?g @ rest_of_line r' @ NUL # t) (length out + length ?g) (length out) =
          Inr (out @ minified (rest_of_line r') @ NUL # x)"
        using "1.IH"(2) [of c r m out ?g] Cons nb line r' by simp
      ultimately show ?thesis using Cons by simp
    next
      case comment
      then have nb: "\<not> is_blank c" by (simp add: is_blank_def)
      obtain u where u: "r' = u @ rest_of_comment r'" using rest_suffix(2) by blast
      let ?g = "g @ [c, CHR ''*''] @ u"
      have r': "NUL \<notin> set r'" "NUL \<notin> set (rest_of_comment r')" "length (rest_of_comment r') < m"
        using r comment(2) no_nul_rest(2) [of r'] rest_lengths(2) [of r'] by auto
      have b: "?b = out @ ?g @ rest_of_comment r' @ NUL # t"
        using arg_cong [OF u, of "\<lambda>x. out @ g @ c # CHR ''*'' # x @ NUL # t"] by (simp add: comment(2))
      have "skip_multiline ?b (?i + 2) = Inr (length out + length ?g)"
        using skip_multiline_rest [OF r'(1), of "out @ g @ [c, CHR ''*'']" t] comment(2)
          arg_cong [OF u, of length] by simp
      then have "minify_loop n ?b ?i (length out) =
          minify_loop m (out @ ?g @ rest_of_comment r' @ NUL # t) (length out + length ?g) (length out)"
        unfolding step b [symmetric] using comment nb by simp
      moreover have "minified s = minified (rest_of_comment r')"
        using comment nb Cons by (subst minified.simps) auto
      moreover have "\<exists>x. minify_loop m (out @ ?g @ rest_of_comment r' @ NUL # t) (length out + length ?g) (length out) =
          Inr (out @ minified (rest_of_comment r') @ NUL # x)"
        using "1.IH"(3) [of c r m out ?g] Cons nb comment r' by simp
      ultimately show ?thesis using Cons by simp
    next
      case slash
      have nb: "\<not> is_blank c" using slash(1) by (simp add: is_blank_def)
      have "minify_loop n ?b ?i (length out) =
          minify_loop m (out @ (g @ [c]) @ r @ NUL # t) (length out + length (g @ [c])) (length out)"
        unfolding step using slash nb by (cases r) simp_all
      moreover have "minified s = minified r"
        using slash nb Cons by (subst minified.simps) auto
      ultimately show ?thesis using "1.IH"(4) [OF Cons nb slash r, of out "g @ [c]"] Cons
        by simp
    next
      case quote
      then have nb: "\<not> is_blank c" "c \<noteq> CHR ''/''" by (simp_all add: is_blank_def)
      obtain u q where q: "split_string r = (u, q)" by (cases "split_string r")
      have q': "NUL \<notin> set q" "length q < m"
        using no_nul_rest(3) [OF r(1)] rest_lengths(3) [of r] q r(2) by simp_all
      obtain g' where "minify_string ?b ?i (length out) =
          Inr ((out @ c # u) @ g' @ q @ NUL # t, length (out @ c # u) + length g', length (out @ c # u))"
        using minify_string_rest [OF r(1) q] quote by blast
      then have "minify_loop n ?b ?i (length out) = minify_loop m ((out @ c # u) @ g' @ q @ NUL # t)
          (length (out @ c # u) + length g') (length (out @ c # u))"
        unfolding step using quote nb by simp
      moreover have "minified s = c # u @ minified q"
        using quote q Cons by (simp add: minified_simps)
      moreover have "\<exists>x. minify_loop m ((out @ c # u) @ g' @ q @ NUL # t)
          (length (out @ c # u) + length g') (length (out @ c # u)) = Inr ((out @ c # u) @ minified q @ NUL # x)"
        using "1.IH"(5) [of c r m "out @ c # u" g'] Cons nb quote q q' by simp
      ultimately show ?thesis using Cons by simp
    next
      case other
      obtain g' where g': "length g' = length g"
        "(out @ g @ c # r @ NUL # t)[length out := c] = (out @ [c]) @ g' @ r @ NUL # t"
        using write_one [of g out c "r @ NUL # t"] by blast
      then have "minify_loop n ?b ?i (length out) =
          minify_loop m ((out @ [c]) @ g' @ r @ NUL # t) (length (out @ [c]) + length g') (length (out @ [c]))"
        unfolding step using other by simp
      then show ?thesis using "1.IH"(6) [OF Cons other r, of "out @ [c]" g'] other Cons
        by (simp add: minified_simps)
    qed
  qed
qed

lemma minify_is_minified:
  assumes "NUL \<notin> set s"
  shows "\<exists>x. cJSON_Minify (lit s @ t) = Inr (lit (minified s) @ x)"
  using minify_loop_rest [OF assms, of "length (s @ NUL # t)" "[]" "[]" t]
  by (auto simp: cJSON_Minify_def lit_def)

section \<open>Minifying what the printer wrote\<close>

definition solid :: "char \<Rightarrow> bool" where
  "solid c \<longleftrightarrow> \<not> is_blank c \<and> c \<noteq> CHR ''/'' \<and> c \<noteq> CHR 0x22"

lemma minified_solid: "list_all solid s \<Longrightarrow> minified (s @ r) = s @ minified r"
  by (induction s) (simp_all add: solid_def minified_simps)

lemma minified_blank: "list_all is_blank s \<Longrightarrow> minified (s @ r) = minified r"
  by (induction s) (simp_all add: minified_simps)

lemma minified_layout:
  "minified (layout fmt (replicate d TAB) @ r) = minified r"
  "minified (layout fmt [TAB] @ r) = minified r"
  "minified (layout fmt [NEWLINE] @ r) = minified r"
  "minified (layout fmt '' '' @ r) = minified r"
  by (rule minified_blank, simp add: layout_def is_blank_def list_all_iff)+

text \<open>Numbers.\<close>

lemma solid_consts [simp]:
  "solid (CHR ''0'')" "solid (CHR ''-'')" "solid (CHR ''+'')" "solid (CHR ''e'')" "solid (CHR ''.'')"
  "solid (CHR ''n'')" "solid (CHR ''u'')" "solid (CHR ''l'')"
  by (simp_all add: solid_def is_blank_def)

lemma solid_show_nat [simp]: "list_all solid (show_nat n)"
proof -
  have "is_digit c \<Longrightarrow> solid c" for c by (auto simp: is_digit_def solid_def is_blank_def)
  then show ?thesis using show_nat_digits by (auto simp: list_all_iff)
qed

lemma solid_parts:
  assumes "list_all solid ds"
  shows "list_all solid (take n ds)" "list_all solid (drop n ds)" "list_all solid (strip_zeros ds)"
  using assms strip_zeros_set [of ds] by (auto simp: list_all_iff dest: in_set_takeD in_set_dropD)

lemma solid_sprintf_g: "list_all solid (sprintf_g P q)"
proof -
  obtain ds e where s: "significant P \<bar>q\<bar> = (ds, e)" by (cases "significant P \<bar>q\<bar>")
  have "list_all solid (fst (significant P \<bar>q\<bar>))" by (simp add: significant_def Let_def)
  then have ds: "list_all solid ds" using s by simp
  have zeros: "list_all solid (replicate n (CHR ''0''))" for n by (simp add: list_all_iff)
  have "list_all solid (exponent_text e)" by (simp add: exponent_text_def Let_def zeros)
  then show ?thesis using ds zeros
    by (simp add: sprintf_g_def s with_point_def solid_parts)
qed

lemma solid_number_string: "list_all solid (number_string it)"
proof (cases "item_valuedouble it")
  case (Finite q)
  have "list_all solid (show_int k)" for k by (simp add: show_int_def)
  then show ?thesis by (simp add: number_string_def Finite Let_def solid_sprintf_g case_prod_beta)
qed (simp_all add: number_string_def)

text \<open>Strings, unless the last character is a backslash.\<close>

definition ends_plain :: "string option \<Rightarrow> bool" where
  "ends_plain v \<longleftrightarrow> (case v of None \<Rightarrow> True | Some t \<Rightarrow> t \<noteq> [] \<longrightarrow> last t \<noteq> CHR 0x5C)"

lemma split_string_plain:
  "c \<noteq> CHR 0x22 \<Longrightarrow> c \<noteq> CHR 0x5C \<Longrightarrow> split_string (c # s) = (c # fst (split_string s), snd (split_string s))"
  "split_string (CHR 0x5C # CHR 0x22 # s) = (CHR 0x5C # CHR 0x22 # fst (split_string s), snd (split_string s))"
  "d \<noteq> CHR 0x22 \<Longrightarrow> split_string (CHR 0x5C # d # s) =
     (CHR 0x5C # fst (split_string (d # s)), snd (split_string (d # s)))"
  by (simp_all add: case_prod_beta Let_def)

lemma hex_char_plain: "n < 16 \<Longrightarrow> hex_char n \<noteq> CHR 0x22 \<and> hex_char n \<noteq> CHR 0x5C"
proof -
  assume "n < 16"
  then have "hex_digit (hex_char n) \<noteq> None" by (simp add: hex_digit_char)
  moreover have "hex_digit (CHR 0x22) = None" "hex_digit (CHR 0x5C) = None"
    by (simp_all add: hex_digit_def)
  ultimately show ?thesis by metis
qed

lemma split_string_escaped:
  assumes "c = CHR 0x5C \<longrightarrow> hd (x @ [NUL]) \<noteq> CHR 0x22"
  shows "split_string (escaped c @ x) = (escaped c @ fst (split_string x), snd (split_string x))"
proof (cases c rule: escaped_cases)
  case Plain
  then show ?thesis by (simp add: case_prod_beta Let_def)
next
  case (Letter y)
  show ?thesis
  proof (cases "y = CHR 0x5C")
    case True
    then have "c = CHR 0x5C" using Letter(2) by (simp add: simple_escape_def split: if_splits)
    then have "hd (x @ [NUL]) \<noteq> CHR 0x22" using assms by simp
    then have "split_string (CHR 0x5C # x) = (CHR 0x5C # fst (split_string x), snd (split_string x))"
      by (cases x) (simp_all add: case_prod_beta Let_def)
    then show ?thesis using Letter(1) True split_string_plain(3) [of "CHR 0x5C" x] by simp
  next
    case False
    then show ?thesis using Letter(1)
      by (cases "y = CHR 0x22") (simp_all add: case_prod_beta Let_def)
  qed
next
  case Hex
  then show ?thesis
    using hex_char_plain by (simp add: hex4_def case_prod_beta Let_def)
qed

lemma escaped_start: "hd (escaped c) \<noteq> CHR 0x22" "escaped c \<noteq> []"
  by (cases c rule: escaped_cases; simp)+

lemma split_string_quoted:
  "t \<noteq> [] \<longrightarrow> last t \<noteq> CHR 0x5C \<Longrightarrow>
   split_string (concat (map escaped t) @ CHR 0x22 # r) = (concat (map escaped t) @ [CHR 0x22], r)"
proof (induction t)
  case (Cons c t)
  let ?x = "concat (map escaped t) @ CHR 0x22 # r"
  have "split_string ?x = (concat (map escaped t) @ [CHR 0x22], r)"
    using Cons.prems by (intro Cons.IH) auto
  moreover have "c = CHR 0x5C \<longrightarrow> hd (?x @ [NUL]) \<noteq> CHR 0x22"
    using Cons.prems escaped_start by (cases t) auto
  ultimately show ?case using split_string_escaped [of c ?x] by simp
qed simp

lemma minified_quoted: "ends_plain v \<Longrightarrow> minified (quoted v @ r) = quoted v @ minified r"
proof -
  assume "ends_plain v"
  then have "split_string (concat (map escaped (text_of v)) @ CHR 0x22 # r) =
      (concat (map escaped (text_of v)) @ [CHR 0x22], r)"
    by (intro split_string_quoted) (auto simp: ends_plain_def text_of_def split: option.splits)
  then show ?thesis by (simp add: quoted_text minified_simps)
qed

text \<open>Items without raw parts, whose strings and names do not end in a backslash.\<close>

fun plain_ends :: "cJSON \<Rightarrow> bool" where
  "plain_ends (CJSON t vs vi vd st ch) \<longleftrightarrow>
     t AND 0xFF \<noteq> cJSON_Raw \<and> ends_plain st \<and> (t AND 0xFF = cJSON_String \<longrightarrow> ends_plain vs) \<and>
     list_all plain_ends ch"

lemma minified_elements:
  assumes "\<And>c d d' r. c \<in> set cs \<Longrightarrow> minified (json_text fmt d c @ r) = json_text False d' c @ minified r"
  shows "minified (elements_text fmt d cs @ r) = elements_text False d' cs @ minified r"
  using assms
proof (induction cs)
  case (Cons c cs)
  have comma: "minified (CHR '','' # x) = CHR '','' # minified x" for x
    by (rule minified_simps(4)) (simp_all add: is_blank_def)
  have "minified (elements_text fmt d cs @ r) = elements_text False d' cs @ minified r"
    by (rule Cons.IH) (use Cons.prems in simp)
  then show ?case using Cons.prems [of c d _ d'] minified_layout(4)
    by (simp add: comma) (simp add: layout_def)
qed simp

lemma minified_fields:
  assumes "\<And>c d d' r. c \<in> set cs \<Longrightarrow> minified (json_text fmt d c @ r) = json_text False d' c @ minified r"
    and "\<And>c. c \<in> set cs \<Longrightarrow> ends_plain (item_string c)"
  shows "minified (fields_text fmt d cs @ r) = fields_text False d' cs @ minified r"
  using assms
proof (induction cs)
  case (Cons c cs)
  have mark: "minified (CHR '','' # x) = CHR '','' # minified x" "minified (CHR '':'' # x) = CHR '':'' # minified x" for x
    by (rule minified_simps(4); simp add: is_blank_def)+
  have "minified (fields_text fmt d cs @ r) = fields_text False d' cs @ minified r"
    by (rule Cons.IH) (use Cons.prems in simp_all)
  then show ?case using Cons.prems(1) [of c d _ d'] Cons.prems(2) [of c] minified_layout
    by (simp add: mark minified_quoted) (simp add: layout_def)
qed simp

lemma minified_json_text:
  "printable it \<Longrightarrow> plain_ends it \<Longrightarrow> minified (json_text fmt d it @ r) = json_text False d' it @ minified r"
proof (induction it arbitrary: d d' r)
  case (CJSON t vs vi vd st ch)
  have mark: "minified (CHR ''['' # x) = CHR ''['' # minified x" "minified (CHR '']'' # x) = CHR '']'' # minified x"
    "minified (CHR 0x7B # x) = CHR 0x7B # minified x" "minified (CHR 0x7D # x) = CHR 0x7D # minified x" for x
    by (rule minified_simps(4); simp add: is_blank_def)+
  have item_string: "ends_plain (item_string c)" if "plain_ends c" for c using that by (cases c) simp
  have IH: "minified (json_text fmt d c @ r) = json_text False d' c @ minified r"
    if "c \<in> set ch" "list_all printable ch" for c d d' r
    using CJSON.IH [OF that(1)] CJSON.prems(2) that by (simp add: list_all_iff)
  from CJSON.prems(1) show ?case
  proof (cases rule: printable_cases)
    case (Word w)
    then have "list_all solid w" by (auto simp: solid_def is_blank_def)
    then show ?thesis using Word(1) minified_solid by simp
  next
    case Number
    show ?thesis unfolding Number(2) by (rule minified_solid [OF solid_number_string])
  next
    case (Raw raw)
    then show ?thesis using CJSON.prems(2) by simp
  next
    case String
    show ?thesis unfolding String(2) using CJSON.prems(2) String(1) by (simp add: minified_quoted)
  next
    case Array
    then have "minified (elements_text fmt (d + 1) ch @ x) = elements_text False (d' + 1) ch @ minified x" for x
      by (intro minified_elements IH)
    then show ?thesis unfolding Array(3) by (simp add: mark)
  next
    case Object
    have "ends_plain (item_string c)" if "c \<in> set ch" for c
      using CJSON.prems(2) that by (intro item_string) (simp add: list_all_iff)
    with Object have "minified (fields_text fmt (d + 1) ch @ x) = fields_text False (d' + 1) ch @ minified x" for x
      by (intro minified_fields IH)
    then show ?thesis unfolding Object(3) using minified_layout
      by (simp add: mark) (simp add: layout_def mark)
  qed
qed

lemma printed_text:
  assumes "clean_item it" and "print_item junk reallocate (Some it) fmt oks = Inr (Some b, oks')"
  shows "printable it" and "b = lit (json_text fmt 0 it)"
  using print_item_text [OF assms(1), of junk reallocate fmt oks] assms(2) by auto

lemma sample_item_formatted: "length (json_text True 0 sample_item) \<le> 100"
proof -
  have "show_int 12 = ''12''" "show_int 1 = ''1''" by code_simp+
  moreover have "concat (map escaped ''value'') = ''value''" "concat (map escaped ''worker'') = ''worker''"
    by code_simp+
  ultimately show ?thesis
    by (simp add: sample_item_def item_types layout_def quoted_def number_string_def)
qed

section \<open>Properties\<close>

text \<open>
  C18. \<open>cJSON_Minify\<close> on what \<open>cJSON_Print\<close> wrote. If the items have no raw part and no string or
  name ends in a backslash, minifying the indented text of an item leaves, in place and
  terminated, exactly what \<open>cJSON_PrintUnformatted\<close> gives: white space goes, what is inside
  strings (escapes, slashes, quotes) stays, and the function never leaves the block.
\<close>

theorem minify_unformats:
  assumes "clean_item it" and "plain_ends it"
    and "print_item junk reallocate (Some it) True oks = Inr (Some b, oks')"
  shows "\<exists>x. cJSON_Minify b = Inr (lit (json_text False 0 it) @ x)"
proof -
  from printed_text [OF assms(1,3)] have b: "printable it" "b = lit (json_text True 0 it)" by auto
  have "NUL \<notin> set (json_text True 0 it)" by (rule json_text_clean [OF assms(1) b(1)])
  from minify_is_minified [OF this, of "[]"] show ?thesis
    using minified_json_text [OF b(1) assms(2), of True 0 "[]" 0] by (simp add: b(2) minified_simps)
qed

lemma minify_unformats_witness:
  "\<exists>b oks' x. print_item (\<lambda>_. CHR ''?'') True (Some sample_item) True [] = Inr (Some b, oks') \<and>
     cJSON_Minify b = Inr (lit (json_text False 0 sample_item) @ x)"
proof -
  obtain b oks' where b: "print_item (\<lambda>_. CHR ''?'') True (Some sample_item) True [] = Inr (Some b, oks')"
    using print_item_text [OF sample_item_text(1), of "\<lambda>_. CHR ''?''" True True "[]"]
      sample_item_text(2) sample_item_formatted by (auto simp: INT_MAX_def)
  moreover have "plain_ends sample_item" by (simp add: sample_item_def ends_plain_def item_types)
  ultimately show ?thesis using minify_unformats [OF sample_item_text(1) _ b] by blast
qed

text \<open>
  Without that: behind a string that ends in a backslash the minifier takes the closing quote for
  an escaped one. The blank in the second string of the array is lost.
\<close>

definition backslash_array :: string where
  "backslash_array = ''['' @ [CHR 0x22, CHR 0x5C, CHR 0x5C, CHR 0x22] @ '','' @ [CHR 0x22] @ ''x y'' @ [CHR 0x22] @ '']''"

lemma minify_eats_string_blank:
  "cJSON_Minify (lit backslash_array) =
     Inr (lit (''['' @ [CHR 0x22, CHR 0x5C, CHR 0x5C, CHR 0x22] @ '','' @ [CHR 0x22] @ ''xy'' @ [CHR 0x22] @ '']'') @ [NUL])"
  by code_simp

end
