(* ===== verification/CJson_Heap.thy ===== *)
theory CJson_Heap
  imports CJson
begin

text \<open>
  The items of lib/c_json.c as they lie in memory: structs that refer to each other with
  \<open>next\<close>, \<open>prev\<close> and \<open>child\<close>. The children of an array or object are a chain through \<open>next\<close>
  that ends with NULL; \<open>prev\<close> goes back, and the \<open>prev\<close> of the first child is the last one.
  This theory has the operations that relink, detach and free items.

  Strings belong to the struct that refers to them and are kept in it as values. A new struct
  gets an address that is a parameter, \<open>None\<close> when the allocation fails.
\<close>

section \<open>Items in memory\<close>

type_synonym addr = nat

record json_node =
  n_next :: "addr option"
  n_prev :: "addr option"
  n_child :: "addr option"
  n_type :: i32
  n_valuestring :: "string option"
  n_valueint :: i32
  n_valuedouble :: dbl
  n_string :: "string option"

type_synonym json_heap = "addr \<rightharpoonup> json_node"

definition load_item :: "json_heap \<Rightarrow> addr option \<Rightarrow> json_node result" where
  "load_item h p = (case p of None \<Rightarrow> Inl InvalidPointer
     | Some a \<Rightarrow> (case h a of None \<Rightarrow> Inl InvalidPointer | Some n \<Rightarrow> Inr n))"

definition update_item :: "json_heap \<Rightarrow> addr option \<Rightarrow> (json_node \<Rightarrow> json_node) \<Rightarrow> json_heap result" where
  "update_item h p f = (case p of None \<Rightarrow> Inl InvalidPointer
     | Some a \<Rightarrow> (case h a of None \<Rightarrow> Inl InvalidPointer | Some n \<Rightarrow> Inr (h(a \<mapsto> f n))))"

abbreviation set_next_to :: "json_heap \<Rightarrow> addr option \<Rightarrow> addr option \<Rightarrow> json_heap result" where
  "set_next_to h p q \<equiv> update_item h p (n_next_update (\<lambda>_. q))"

abbreviation set_prev_to :: "json_heap \<Rightarrow> addr option \<Rightarrow> addr option \<Rightarrow> json_heap result" where
  "set_prev_to h p q \<equiv> update_item h p (n_prev_update (\<lambda>_. q))"

abbreviation set_child_to :: "json_heap \<Rightarrow> addr option \<Rightarrow> addr option \<Rightarrow> json_heap result" where
  "set_child_to h p q \<equiv> update_item h p (n_child_update (\<lambda>_. q))"

section \<open>Finding\<close>

fun walk_next :: "json_heap \<Rightarrow> addr option \<Rightarrow> nat \<Rightarrow> addr option result" where
  "walk_next h p 0 = Inr p"
| "walk_next h None (Suc i) = Inr None"
| "walk_next h (Some a) (Suc i) = and_then (load_item h (Some a)) (\<lambda>n. walk_next h (n_next n) i)"

definition item_at :: "json_heap \<Rightarrow> addr option \<Rightarrow> nat \<Rightarrow> addr option result" where
  "item_at h array index =
     (if array = None then Inr None
      else and_then (load_item h array) (\<lambda>n. walk_next h (n_child n) index))"

text \<open>The condition of the two loops, which over a cyclic chain need not return.\<close>

definition other_name :: "bool \<Rightarrow> string \<Rightarrow> string option \<Rightarrow> bool" where
  "other_name case_sensitive name st =
     (if case_sensitive then st \<noteq> None \<and> st \<noteq> Some name
      else \<not> case_insensitive_equal (Some name) st)"

partial_function (option) named_loop ::
  "json_heap \<Rightarrow> addr option \<Rightarrow> string \<Rightarrow> bool \<Rightarrow> addr option result option" where
  "named_loop h p name case_sensitive =
     (case p of
        None \<Rightarrow> Some (Inr None)
      | Some a \<Rightarrow>
          (case h a of
             None \<Rightarrow> Some (Inl InvalidPointer)
           | Some n \<Rightarrow>
               if other_name case_sensitive name (n_string n)
               then named_loop h (n_next n) name case_sensitive
               else Some (Inr (if n_string n = None then None else Some a))))"

definition item_named ::
  "json_heap \<Rightarrow> addr option \<Rightarrow> string option \<Rightarrow> bool \<Rightarrow> addr option result option" where
  "item_named h object name case_sensitive =
     (case (object, name) of
        (Some ob, Some s) \<Rightarrow>
          (case h ob of
             None \<Rightarrow> Some (Inl InvalidPointer)
           | Some n \<Rightarrow> named_loop h (n_child n) s case_sensitive)
      | _ \<Rightarrow> Some (Inr None))"

section \<open>Adding\<close>

definition suffix_object :: "json_heap \<Rightarrow> addr option \<Rightarrow> addr option \<Rightarrow> json_heap result" where
  "suffix_object h prev item =
     and_then (set_next_to h prev item) (\<lambda>h1. set_prev_to h1 item prev)"

definition append_item :: "json_heap \<Rightarrow> addr option \<Rightarrow> addr option \<Rightarrow> (json_heap \<times> bool) result" where
  "append_item h array item =
     (if item = None \<or> array = None \<or> array = item then Inr (h, False)
      else and_then (load_item h array) (\<lambda>a.
        if n_child a = None then
          and_then (set_child_to h array item) (\<lambda>h1.
          and_then (set_prev_to h1 item item) (\<lambda>h2.
          and_then (set_next_to h2 item None) (\<lambda>h3. Inr (h3, True))))
        else and_then (load_item h (n_child a)) (\<lambda>c.
          if n_prev c = None then Inr (h, True)
          else and_then (suffix_object h (n_prev c) item) (\<lambda>h1.
            and_then (load_item h1 array) (\<lambda>a1.
            and_then (set_prev_to h1 (n_child a1) item) (\<lambda>h2. Inr (h2, True)))))))"

text \<open>A reference shares value and children with the item it refers to.\<close>

definition create_reference :: "json_heap \<Rightarrow> addr option \<Rightarrow> addr option \<Rightarrow> (json_heap \<times> addr option) result" where
  "create_reference h item new =
     (case (item, new) of
        (None, _) \<Rightarrow> Inr (h, None)
      | (_, None) \<Rightarrow> Inr (h, None)
      | (Some _, Some a) \<Rightarrow> and_then (load_item h item) (\<lambda>n.
          Inr (h(a \<mapsto> n\<lparr>n_string := None, n_type := n_type n OR cJSON_IsReference,
            n_next := None, n_prev := None\<rparr>), Some a)))"

definition empty_node :: json_node where
  "empty_node = \<lparr>n_next = None, n_prev = None, n_child = None, n_type = 0, n_valuestring = None,
     n_valueint = 0, n_valuedouble = Finite 0, n_string = None\<rparr>"

text \<open>References to a string and to a chain of children that others own.\<close>

definition create_string_reference :: "json_heap \<Rightarrow> string option \<Rightarrow> addr option \<Rightarrow> json_heap \<times> addr option" where
  "create_string_reference h s new =
     (case new of None \<Rightarrow> (h, None)
      | Some a \<Rightarrow> (h(a \<mapsto> empty_node\<lparr>n_type := cJSON_String OR cJSON_IsReference, n_valuestring := s\<rparr>), new))"

definition create_object_reference :: "json_heap \<Rightarrow> addr option \<Rightarrow> addr option \<Rightarrow> json_heap \<times> addr option" where
  "create_object_reference h child new =
     (case new of None \<Rightarrow> (h, None)
      | Some a \<Rightarrow> (h(a \<mapsto> empty_node\<lparr>n_type := cJSON_Object OR cJSON_IsReference, n_child := child\<rparr>), new))"

definition create_array_reference :: "json_heap \<Rightarrow> addr option \<Rightarrow> addr option \<Rightarrow> json_heap \<times> addr option" where
  "create_array_reference h child new =
     (case new of None \<Rightarrow> (h, None)
      | Some a \<Rightarrow> (h(a \<mapsto> empty_node\<lparr>n_type := cJSON_Array OR cJSON_IsReference, n_child := child\<rparr>), new))"

definition append_reference ::
  "json_heap \<Rightarrow> addr option \<Rightarrow> addr option \<Rightarrow> addr option \<Rightarrow> (json_heap \<times> bool) result" where
  "append_reference h array item new =
     (if array = None then Inr (h, False)
      else and_then (create_reference h item new) (\<lambda>(h1, r). append_item h1 array r))"

section \<open>Detaching and inserting\<close>

definition detach_item :: "json_heap \<Rightarrow> addr option \<Rightarrow> addr option \<Rightarrow> (json_heap \<times> addr option) result" where
  "detach_item h parent item =
     (if parent = None \<or> item = None then Inr (h, None)
      else and_then (load_item h parent) (\<lambda>p.
        and_then (load_item h item) (\<lambda>n.
        and_then (if item \<noteq> n_child p then set_next_to h (n_prev n) (n_next n) else Inr h) (\<lambda>h1.
        and_then (load_item h1 item) (\<lambda>n1.
        and_then (if n_next n1 \<noteq> None then set_prev_to h1 (n_next n1) (n_prev n1) else Inr h1) (\<lambda>h2.
        and_then (load_item h2 parent) (\<lambda>p2.
        and_then (load_item h2 item) (\<lambda>n2.
        and_then (if item = n_child p2 then set_child_to h2 parent (n_next n2)
                  else if n_next n2 = None then set_prev_to h2 (n_child p2) (n_prev n2)
                  else Inr h2) (\<lambda>h3.
        and_then (set_prev_to h3 item None) (\<lambda>h4.
        and_then (set_next_to h4 item None) (\<lambda>h5. Inr (h5, item))))))))))))"

definition detach_nth :: "json_heap \<Rightarrow> addr option \<Rightarrow> i32 \<Rightarrow> (json_heap \<times> addr option) result" where
  "detach_nth h array which =
     (if which <s 0 then Inr (h, None)
      else and_then (item_at h array (unat (scast which :: u64))) (\<lambda>item. detach_item h array item))"

text \<open>The relinking in \<open>cJSON_InsertItemInArray\<close>.\<close>

definition insert_before :: "json_heap \<Rightarrow> addr option \<Rightarrow> addr option \<Rightarrow> addr option \<Rightarrow> json_heap result" where
  "insert_before h array after newitem =
     and_then (set_next_to h newitem after) (\<lambda>h1.
     and_then (load_item h1 after) (\<lambda>n.
     and_then (set_prev_to h1 newitem (n_prev n)) (\<lambda>h2.
     and_then (set_prev_to h2 after newitem) (\<lambda>h3.
     and_then (load_item h3 array) (\<lambda>a.
     if after = n_child a then set_child_to h3 array newitem
     else and_then (load_item h3 newitem) (\<lambda>w. set_next_to h3 (n_prev w) newitem))))))"

definition insert_item :: "json_heap \<Rightarrow> addr option \<Rightarrow> i32 \<Rightarrow> addr option \<Rightarrow> (json_heap \<times> bool) result" where
  "insert_item h array which newitem =
     (if which <s 0 then Inr (h, False)
      else and_then (item_at h array (unat (scast which :: u64))) (\<lambda>after.
        if after = None then append_item h array newitem
        else and_then (insert_before h array after newitem) (\<lambda>h'. Inr (h', True))))"

section \<open>Deleting and replacing\<close>

definition deallocate_item :: "json_heap \<Rightarrow> addr \<Rightarrow> json_heap result" where
  "deallocate_item h a = (case h a of None \<Rightarrow> Inl InvalidPointer | Some n \<Rightarrow> Inr (h(a := None)))"

text \<open>Deleting goes through the siblings, the children of each first. A struct is read again after its children are gone.\<close>

partial_function (option) delete_items :: "json_heap \<Rightarrow> addr option \<Rightarrow> json_heap result option" where
  "delete_items h p =
     (case p of
        None \<Rightarrow> Some (Inr h)
      | Some a \<Rightarrow>
          (case h a of
             None \<Rightarrow> Some (Inl InvalidPointer)
           | Some n \<Rightarrow>
               Option.bind
                 (if n_type n AND cJSON_IsReference = 0 \<and> n_child n \<noteq> None then delete_items h (n_child n)
                  else Some (Inr h)) (\<lambda>r.
                 case r of
                   Inl e \<Rightarrow> Some (Inl e)
                 | Inr h1 \<Rightarrow>
                     (case deallocate_item h1 a of
                        Inl e \<Rightarrow> Some (Inl e)
                      | Inr h2 \<Rightarrow> delete_items h2 (n_next n)))))"

definition delete_nth :: "json_heap \<Rightarrow> addr option \<Rightarrow> i32 \<Rightarrow> json_heap result option" where
  "delete_nth h array which =
     (case detach_nth h array which of
        Inl e \<Rightarrow> Some (Inl e)
      | Inr (h1, item) \<Rightarrow> delete_items h1 item)"

text \<open>The relinking in the middle of \<open>cJSON_ReplaceItemViaPointer\<close>; the item is left without siblings.\<close>

definition swap_item :: "json_heap \<Rightarrow> addr option \<Rightarrow> addr option \<Rightarrow> addr option \<Rightarrow> json_heap result" where
  "swap_item h parent item replacement =
     and_then (load_item h item) (\<lambda>n.
     and_then (set_next_to h replacement (n_next n)) (\<lambda>h1.
     and_then (set_prev_to h1 replacement (n_prev n)) (\<lambda>h2.
     and_then (if n_next n \<noteq> None then set_prev_to h2 (n_next n) replacement else Inr h2) (\<lambda>h3.
     and_then (load_item h3 parent) (\<lambda>p.
     and_then
       (if n_child p = item then
          and_then (load_item h3 (n_child p)) (\<lambda>c.
          and_then (if n_prev c = n_child p then set_prev_to h3 replacement replacement else Inr h3)
            (\<lambda>h4. set_child_to h4 parent replacement))
        else
          and_then (load_item h3 replacement) (\<lambda>r.
          and_then (if n_prev r \<noteq> None then set_next_to h3 (n_prev r) replacement else Inr h3) (\<lambda>h4.
          and_then (load_item h4 replacement) (\<lambda>r4.
          if n_next r4 = None then set_prev_to h4 (n_child p) replacement else Inr h4)))) (\<lambda>h5.
     and_then (set_next_to h5 item None) (\<lambda>h6. set_prev_to h6 item None)))))))"

definition replace_item ::
  "json_heap \<Rightarrow> addr option \<Rightarrow> addr option \<Rightarrow> addr option \<Rightarrow> (json_heap \<times> bool) result option" where
  "replace_item h parent item replacement =
     (if parent = None then Some (Inr (h, False))
      else case load_item h parent of
        Inl e \<Rightarrow> Some (Inl e)
      | Inr p \<Rightarrow>
          if n_child p = None \<or> replacement = None \<or> item = None then Some (Inr (h, False))
          else if replacement = item then Some (Inr (h, True))
          else
            (case swap_item h parent item replacement of
               Inl e \<Rightarrow> Some (Inl e)
             | Inr h7 \<Rightarrow> map_option (\<lambda>r. and_then r (\<lambda>h8. Inr (h8, True))) (delete_items h7 item)))"

definition replace_nth ::
  "json_heap \<Rightarrow> addr option \<Rightarrow> i32 \<Rightarrow> addr option \<Rightarrow> (json_heap \<times> bool) result option" where
  "replace_nth h array which newitem =
     (if which <s 0 then Some (Inr (h, False))
      else case item_at h array (unat (scast which :: u64)) of
        Inl e \<Rightarrow> Some (Inl e)
      | Inr item \<Rightarrow> replace_item h array item newitem)"

section \<open>By name\<close>

text \<open>Giving an item its name: with a copy of the key, or with the key itself if it is constant.\<close>

definition name_item :: "json_heap \<Rightarrow> addr option \<Rightarrow> string option \<Rightarrow> i32 \<Rightarrow> json_heap result" where
  "name_item h item key new_type = update_item h item (\<lambda>n. n\<lparr>n_string := key, n_type := new_type\<rparr>)"

definition append_named ::
  "json_heap \<Rightarrow> addr option \<Rightarrow> string option \<Rightarrow> addr option \<Rightarrow> bool \<Rightarrow> allocs \<Rightarrow> ((json_heap \<times> bool) \<times> allocs) result" where
  "append_named h object key item constant_key oks =
     (if object = None \<or> key = None \<or> item = None \<or> object = item then Inr ((h, False), oks)
      else and_then (load_item h item) (\<lambda>n.
        let (new_key, oks') = (if constant_key then (key, oks) else cJSON_strdup key oks);
            new_type = (if constant_key then n_type n OR cJSON_StringIsConst
                        else n_type n AND NOT cJSON_StringIsConst)
        in if new_key = None then Inr ((h, False), oks')
           else and_then (name_item h item new_key new_type) (\<lambda>h1.
             and_then (append_item h1 object item) (\<lambda>r. Inr (r, oks')))))"

definition append_reference_named ::
  "json_heap \<Rightarrow> addr option \<Rightarrow> string option \<Rightarrow> addr option \<Rightarrow> addr option \<Rightarrow> allocs \<Rightarrow> ((json_heap \<times> bool) \<times> allocs) result" where
  "append_reference_named h object key item new oks =
     (if object = None \<or> key = None then Inr ((h, False), oks)
      else and_then (create_reference h item new) (\<lambda>(h1, r). append_named h1 object key r False oks))"

definition detach_named ::
  "json_heap \<Rightarrow> addr option \<Rightarrow> string option \<Rightarrow> bool \<Rightarrow> (json_heap \<times> addr option) result option" where
  "detach_named h object key case_sensitive =
     map_option (\<lambda>r. and_then r (\<lambda>item. detach_item h object item)) (item_named h object key case_sensitive)"

definition delete_named ::
  "json_heap \<Rightarrow> addr option \<Rightarrow> string option \<Rightarrow> bool \<Rightarrow> json_heap result option" where
  "delete_named h object key case_sensitive =
     Option.bind (detach_named h object key case_sensitive) (\<lambda>r.
       case r of Inl e \<Rightarrow> Some (Inl e) | Inr (h1, item) \<Rightarrow> delete_items h1 item)"

definition replace_named ::
  "json_heap \<Rightarrow> addr option \<Rightarrow> string option \<Rightarrow> addr option \<Rightarrow> bool \<Rightarrow> allocs \<Rightarrow>
   ((json_heap \<times> bool) \<times> allocs) result option" where
  "replace_named h object key replacement case_sensitive oks =
     (if replacement = None \<or> key = None then Some (Inr ((h, False), oks))
      else case load_item h replacement of
        Inl e \<Rightarrow> Some (Inl e)
      | Inr n \<Rightarrow>
          (case cJSON_strdup key oks of
             (None, oks') \<Rightarrow>
               Some (and_then (update_item h replacement (n_string_update (\<lambda>_. None))) (\<lambda>h1. Inr ((h1, False), oks')))
           | (Some new_key, oks') \<Rightarrow>
               (case name_item h replacement (Some new_key) (n_type n AND NOT cJSON_StringIsConst) of
                  Inl e \<Rightarrow> Some (Inl e)
                | Inr h1 \<Rightarrow>
                    Option.bind (item_named h1 object key case_sensitive) (\<lambda>r.
                      case r of
                        Inl e \<Rightarrow> Some (Inl e)
                      | Inr item \<Rightarrow>
                          map_option (\<lambda>r. and_then r (\<lambda>s. Inr (s, oks'))) (replace_item h1 object item replacement)))))"

end
