(* ===== verification/CJson_Chains.thy ===== *)
theory CJson_Chains
  imports CJson_Heap
begin

text \<open>
  The chains of \<open>CJson_Heap\<close> as lists of addresses, and what the relinking operations do to
  them: appending, inserting, removing and replacing one element of the list.
\<close>

section \<open>Chains\<close>

lemma load_item_simps [simp]:
  "load_item h None = Inl InvalidPointer"
  "h a = Some n \<Longrightarrow> load_item h (Some a) = Inr n"
  by (simp_all add: load_item_def)

lemma update_item_simps [simp]:
  "update_item h None f = Inl InvalidPointer"
  "h a = Some n \<Longrightarrow> update_item h (Some a) f = Inr (h(a \<mapsto> f n))"
  by (simp_all add: update_item_def)

definition end_of :: "addr option \<Rightarrow> addr list \<Rightarrow> addr option" where
  "end_of q as = (if as = [] then q else Some (last as))"

definition start_of :: "addr list \<Rightarrow> addr option \<Rightarrow> addr option" where
  "start_of as r = (case as of [] \<Rightarrow> r | a # _ \<Rightarrow> Some a)"

lemma end_start_simps [simp]:
  "end_of q [] = q" "end_of q (as @ [a]) = Some a" "start_of [] r = r" "start_of (a # as) r = Some a"
  "end_of q (a # as) = end_of (Some a) as"
  by (simp_all add: end_of_def start_of_def)

lemma end_of_append [simp]: "end_of q (as @ bs) = end_of (end_of q as) bs"
  by (simp add: end_of_def)

lemma start_of_append [simp]: "start_of (as @ bs) r = start_of as (start_of bs r)"
  by (simp add: start_of_def split: list.split)

text \<open>\<open>linked h q as r\<close>: the items \<open>as\<close> follow each other, behind \<open>q\<close> and before \<open>r\<close>.\<close>

fun linked :: "json_heap \<Rightarrow> addr option \<Rightarrow> addr list \<Rightarrow> addr option \<Rightarrow> bool" where
  "linked h q [] r \<longleftrightarrow> True"
| "linked h q (a # as) r \<longleftrightarrow>
     (\<exists>n. h a = Some n \<and> n_prev n = q \<and> n_next n = start_of as r) \<and> linked h (Some a) as r"

definition children :: "json_heap \<Rightarrow> addr option \<Rightarrow> addr list \<Rightarrow> bool" where
  "children h p as \<longleftrightarrow> p = start_of as None \<and> linked h (end_of None as) as None \<and> distinct as"

lemma linked_append:
  "linked h q (as @ bs) r \<longleftrightarrow> linked h q as (start_of bs r) \<and> linked h (end_of q as) bs r"
  by (induction as arbitrary: q) auto

lemma linked_frame: "(\<And>a. a \<in> set as \<Longrightarrow> h' a = h a) \<Longrightarrow> linked h' q as r = linked h q as r"
  by (induction as arbitrary: q) auto

lemma linked_fun_upd [simp]: "a \<notin> set as \<Longrightarrow> linked (h(a := x)) q as r = linked h q as r"
  by (rule linked_frame) auto

text \<open>Changing the pointers at the two ends of a chain.\<close>

lemma linked_first:
  "linked h q (a # as) r \<Longrightarrow> a \<notin> set as \<Longrightarrow>
   \<exists>n. h a = Some n \<and> linked (h(a \<mapsto> n\<lparr>n_prev := q'\<rparr>)) q' (a # as) r"
  by auto

lemma linked_last:
  "linked h q (as @ [a]) r \<Longrightarrow> a \<notin> set as \<Longrightarrow>
   \<exists>n. h a = Some n \<and> linked (h(a \<mapsto> n\<lparr>n_next := r'\<rparr>)) q (as @ [a]) r'"
  by (auto simp: linked_append)

lemma children_parts:
  assumes "children h p (xs @ a # ys)"
  obtains n where "h a = Some n" "n_prev n = end_of (end_of (Some a) ys) xs" "n_next n = start_of ys None"
    "linked h (end_of (Some a) ys) xs (Some a)" "linked h (Some a) ys None"
    "a \<notin> set xs" "a \<notin> set ys" "distinct xs" "distinct ys" "set xs \<inter> set ys = {}"
    "p = start_of xs (Some a)"
proof -
  from assms have l: "linked h (end_of (Some a) ys) xs (Some a)" "linked h (end_of (end_of (Some a) ys) xs) (a # ys) None"
    "distinct (xs @ a # ys)" "p = start_of xs (Some a)"
    by (auto simp: children_def linked_append end_of_def)
  then obtain n where "h a = Some n" "n_prev n = end_of (end_of (Some a) ys) xs" "n_next n = start_of ys None" "linked h (Some a) ys None" by auto
  with l show thesis by (intro that) auto
qed

section \<open>Relinking\<close>

text \<open>
  \<open>parent_of h p as\<close>: the item at \<open>p\<close> has the children \<open>as\<close>. \<open>relinks h h' p S\<close>: from \<open>h\<close> to \<open>h'\<close> only
  the child pointer of \<open>p\<close> and the sibling pointers of the items in \<open>S\<close> have changed.
\<close>

definition parent_of :: "json_heap \<Rightarrow> addr \<Rightarrow> addr list \<Rightarrow> bool" where
  "parent_of h p as \<longleftrightarrow> p \<notin> set as \<and> (\<exists>n. h p = Some n \<and> children h (n_child n) as)"

definition unlinked :: "json_node \<Rightarrow> json_node" where
  "unlinked n = n\<lparr>n_next := None, n_prev := None\<rparr>"

lemma unlinked_simps [simp]:
  "unlinked (n\<lparr>n_next := x\<rparr>) = unlinked n" "unlinked (n\<lparr>n_prev := x\<rparr>) = unlinked n"
  by (simp_all add: unlinked_def)

definition relinks :: "json_heap \<Rightarrow> json_heap \<Rightarrow> addr \<Rightarrow> addr set \<Rightarrow> bool" where
  "relinks h h' p S \<longleftrightarrow>
     (\<forall>a. a \<noteq> p \<longrightarrow> a \<notin> S \<longrightarrow> h' a = h a) \<and>
     (\<forall>a. a \<noteq> p \<longrightarrow> map_option unlinked (h' a) = map_option unlinked (h a)) \<and>
     map_option (n_child_update (\<lambda>_. None)) (h' p) = map_option (n_child_update (\<lambda>_. None)) (h p)"

lemma append_item_links:
  assumes "parent_of h p as" and "h x = Some m" and "x \<notin> set as" and "x \<noteq> p" and "n_next m = None"
  shows "\<exists>h'. append_item h (Some p) (Some x) = Inr (h', True) \<and> parent_of h' p (as @ [x]) \<and>
    relinks h h' p (set (as @ [x]))"
proof -
  obtain n where n: "h p = Some n" "children h (n_child n) as" "p \<notin> set as"
    using assms(1) by (auto simp: parent_of_def)
  show ?thesis
  proof (cases as)
    case Nil
    then show ?thesis using n assms(2-5)
      by (auto simp: append_item_def children_def parent_of_def relinks_def)
  next
    case (Cons b bs)
    show ?thesis
    proof (cases bs rule: rev_cases)
      case Nil
      then show ?thesis using n assms(2-5) \<open>as = b # bs\<close>
        by (auto simp: append_item_def suffix_object_def children_def parent_of_def relinks_def)
    next
      case (snoc cs l)
      then show ?thesis using n assms(2-5) \<open>as = b # bs\<close>
        by (auto simp: append_item_def suffix_object_def children_def parent_of_def relinks_def linked_append)
    qed
  qed
qed

lemmas relinking = children_def parent_of_def relinks_def linked_append

text \<open>Detaching an element; it is in the middle, at one of the ends, or alone.\<close>

lemma detach_item_links:
  assumes "parent_of h p (xs @ a # ys)"
  shows "\<exists>h'. detach_item h (Some p) (Some a) = Inr (h', Some a) \<and> parent_of h' p (xs @ ys) \<and>
    relinks h h' p (set (xs @ a # ys)) \<and> (\<exists>n. h' a = Some n \<and> n_next n = None \<and> n_prev n = None)"
proof -
  obtain n where n: "h p = Some n" "children h (n_child n) (xs @ a # ys)" "p \<notin> set (xs @ a # ys)"
    using assms by (auto simp: parent_of_def)
  consider (only) "xs = []" "ys = []"
    | (first) l where "xs = []" "ys = [l]" | (firsts) y zs l where "xs = []" "ys = y # zs @ [l]"
    | (last) f where "xs = [f]" "ys = []" | (lasts) f ws x where "xs = f # ws @ [x]" "ys = []"
    | (inner) f ws where "xs = f # ws" "ys \<noteq> []"
    by (metis (no_types, opaque_lifting) list.exhaust rev_exhaust)
  then show ?thesis
  proof cases
    case only
    then show ?thesis using n by (auto simp: detach_item_def relinking)
  next
    case first
    then show ?thesis using n by (auto simp: detach_item_def relinking)
  next
    case firsts
    then show ?thesis using n by (auto simp: detach_item_def relinking)
  next
    case last
    then show ?thesis using n by (auto simp: detach_item_def relinking)
  next
    case lasts
    then show ?thesis using n by (auto simp: detach_item_def relinking)
  next
    case inner
    then obtain y zs where y: "ys = y # zs" by (cases ys) auto
    show ?thesis
    proof (cases ws rule: rev_cases)
      case Nil
      then show ?thesis using inner y n by (auto simp: detach_item_def relinking)
    next
      case (snoc vs w)
      then show ?thesis using inner y n by (auto simp: detach_item_def relinking)
    qed
  qed
qed

lemma insert_before_links:
  assumes "parent_of h p (xs @ a # ys)" and "h x = Some m" and "x \<notin> set (xs @ a # ys)" and "x \<noteq> p"
  shows "\<exists>h'. insert_before h (Some p) (Some a) (Some x) = Inr h' \<and> parent_of h' p (xs @ x # a # ys) \<and>
    relinks h h' p (set (xs @ x # a # ys))"
proof -
  obtain n where n: "h p = Some n" "children h (n_child n) (xs @ a # ys)" "p \<notin> set (xs @ a # ys)"
    using assms by (auto simp: parent_of_def)
  consider "xs = []" "ys = []" | l where "xs = []" "ys = [l]" | y zs l where "xs = []" "ys = y # zs @ [l]"
    | f where "xs = [f]" | f ws w where "xs = f # ws @ [w]"
    by (metis (no_types, opaque_lifting) list.exhaust rev_exhaust)
  then show ?thesis
    using n assms(2-4) by cases (auto simp: insert_before_def relinking)
qed

lemma swap_item_links:
  assumes "parent_of h p (xs @ a # ys)" and "h x = Some m" and "x \<notin> set (xs @ a # ys)" and "x \<noteq> p"
  shows "\<exists>h'. swap_item h (Some p) (Some a) (Some x) = Inr h' \<and> parent_of h' p (xs @ x # ys) \<and>
    relinks h h' p (set (xs @ x # a # ys)) \<and> (\<exists>n. h' a = Some n \<and> n_next n = None \<and> n_prev n = None)"
proof -
  obtain n where n: "h p = Some n" "children h (n_child n) (xs @ a # ys)" "p \<notin> set (xs @ a # ys)"
    using assms by (auto simp: parent_of_def)
  consider "xs = []" "ys = []" | l where "xs = []" "ys = [l]" | y zs l where "xs = []" "ys = y # zs @ [l]"
    | f where "xs = [f]" "ys = []" | f ws w where "xs = f # ws @ [w]" "ys = []"
    | f y zs where "xs = [f]" "ys = y # zs" | f ws w y zs where "xs = f # ws @ [w]" "ys = y # zs"
    by (metis (no_types, opaque_lifting) list.exhaust rev_exhaust)
  then show ?thesis
    using n assms(2-4) by cases (auto simp: swap_item_def relinking)
qed

end
