(* ===== verification/CJson_Trees.thy ===== *)
theory CJson_Trees
  imports CJson_Chains
begin

text \<open>
  Items in memory as the trees of \<open>CJson\<close>: the operations on structs and pointers implement
  operations on lists of children, and deleting frees exactly the structs of a tree.
\<close>

section \<open>Trees in memory\<close>

text \<open>A shape says at which addresses the items of a tree lie.\<close>

datatype shape = Shape (root: addr) (branches: "shape list")

fun addrs :: "shape \<Rightarrow> addr list"
and addrs_list :: "shape list \<Rightarrow> addr list" where
  "addrs (Shape a ss) = a # addrs_list ss"
| "addrs_list [] = []"
| "addrs_list (s # ss) = addrs s @ addrs_list ss"

text \<open>\<open>tree h s it\<close>: the structs at the addresses of \<open>s\<close> are the item \<open>it\<close>.\<close>

fun tree :: "json_heap \<Rightarrow> shape \<Rightarrow> cJSON \<Rightarrow> bool"
and trees :: "json_heap \<Rightarrow> shape list \<Rightarrow> cJSON list \<Rightarrow> bool" where
  "tree h (Shape a ss) (CJSON t vs vi vd st ch) \<longleftrightarrow>
     (\<exists>n. h a = Some n \<and> n_type n = t \<and> n_valuestring n = vs \<and> n_valueint n = vi \<and>
       n_valuedouble n = vd \<and> n_string n = st \<and> children h (n_child n) (map root ss)) \<and> trees h ss ch"
| "trees h [] cs \<longleftrightarrow> cs = []"
| "trees h (s # ss) cs \<longleftrightarrow> (case cs of [] \<Rightarrow> False | c # cs' \<Rightarrow> tree h s c \<and> trees h ss cs')"

definition stored :: "json_heap \<Rightarrow> shape \<Rightarrow> cJSON \<Rightarrow> bool" where
  "stored h s it \<longleftrightarrow> tree h s it \<and> distinct (addrs s)"

lemma root_in_addrs [simp]: "root s \<in> set (addrs s)"
  by (cases s) simp

lemma roots_in_addrs: "set (map root ss) \<subseteq> set (addrs_list ss)"
  by (induction ss) auto

lemma addrs_list_append [simp]: "addrs_list (xs @ ys) = addrs_list xs @ addrs_list ys"
  by (induction xs) simp_all

lemma trees_length: "trees h ss cs \<Longrightarrow> length ss = length cs"
  by (induction ss arbitrary: cs) (auto split: list.splits)

lemma trees_append:
  "trees h (xs @ ys) cs \<longleftrightarrow> trees h xs (take (length xs) cs) \<and> trees h ys (drop (length xs) cs) \<and> length xs \<le> length cs"
proof (induction xs arbitrary: cs)
  case (Cons x xs)
  then show ?case by (cases cs) simp_all
qed simp

text \<open>A tree does not notice changes elsewhere, nor of the sibling pointers of its root.\<close>

lemma children_frame: "(\<And>a. a \<in> set as \<Longrightarrow> h' a = h a) \<Longrightarrow> children h' p as = children h p as"
  using linked_frame [of as h' h] by (simp add: children_def)

lemma trees_frame:
  "(\<And>a. a \<in> set (addrs s) \<Longrightarrow> h' a = h a) \<Longrightarrow> tree h' s it = tree h s it"
  "(\<And>a. a \<in> set (addrs_list ss) \<Longrightarrow> h' a = h a) \<Longrightarrow> trees h' ss cs = trees h ss cs"
proof (induction h' s it and h' ss cs rule: tree_trees.induct)
  case (1 h' a ss t vs vi vd st ch)
  have "children h' p (map root ss) = children h p (map root ss)" for p
    using 1(2) roots_in_addrs [of ss] by (intro children_frame) auto
  moreover have "trees h' ss ch = trees h ss ch" using 1 by simp
  ultimately show ?case using 1(2) [of a] by simp
next
  case (3 h' s ss cs)
  then show ?case by (cases cs) simp_all
qed simp

lemma tree_root_frame:
  assumes "\<And>a. a \<in> set (addrs_list (branches s)) \<Longrightarrow> h' a = h a"
    and "map_option unlinked (h' (root s)) = map_option unlinked (h (root s))"
  shows "tree h' s it = tree h s it"
proof (cases s)
  case (Shape a ss)
  obtain t vs vi vd st ch where it: "it = CJSON t vs vi vd st ch" by (cases it)
  have c: "children h' p (map root ss) = children h p (map root ss)" for p
    using assms(1) roots_in_addrs [of ss] Shape by (intro children_frame) auto
  have t: "trees h' ss ch = trees h ss ch" using assms(1) Shape by (intro trees_frame) simp
  show ?thesis
  proof (cases "h a")
    case None
    then show ?thesis using assms(2) Shape by (simp add: it)
  next
    case (Some n)
    then obtain n' where n': "h' a = Some n'" "unlinked n' = unlinked n" using assms(2) Shape by auto
    from n'(2) have "n_type n' = n_type n" "n_valuestring n' = n_valuestring n" "n_valueint n' = n_valueint n"
      "n_valuedouble n' = n_valuedouble n" "n_string n' = n_string n" "n_child n' = n_child n"
      by (cases n; cases n'; simp add: unlinked_def)+
    then show ?thesis using Some n'(1) c t Shape by (simp add: it)
  qed
qed

text \<open>The items of several shapes, when only sibling pointers of their roots change.\<close>

lemma trees_roots_frame:
  assumes "distinct (addrs_list ss)" and "\<And>a. a \<in> set (addrs_list ss) - set (map root ss) \<Longrightarrow> h' a = h a"
    and "\<And>a. a \<in> set (map root ss) \<Longrightarrow> map_option unlinked (h' a) = map_option unlinked (h a)"
  shows "trees h' ss cs = trees h ss cs"
  using assms
proof (induction ss arbitrary: cs)
  case (Cons s ss)
  have "a \<notin> set (map root (s # ss))" if "a \<in> set (addrs_list (branches s))" for a
    using that Cons.prems(1) roots_in_addrs [of ss] by (cases s) auto
  moreover have "set (addrs_list (branches s)) \<subseteq> set (addrs_list (s # ss))" by (cases s) auto
  ultimately have "tree h' s it = tree h s it" for it
    using Cons.prems(2,3) by (intro tree_root_frame) auto
  moreover have "root s \<notin> set (addrs_list ss)"
    using Cons.prems(1) by (auto simp del: root_in_addrs intro: root_in_addrs)
  then have "trees h' ss cs = trees h ss cs" for cs
    using Cons.prems by (intro Cons.IH) auto
  ultimately show ?case by (auto split: list.splits)
qed simp

lemma trees_cong: "(\<And>s it. s \<in> set ss \<Longrightarrow> tree h' s it = tree h s it) \<Longrightarrow> trees h' ss cs = trees h ss cs"
proof (induction ss arbitrary: cs)
  case (Cons s ss)
  then show ?case by (cases cs) simp_all
qed simp

section \<open>Relinking the children of a tree\<close>

text \<open>
  After relinking among the children \<open>ts\<close> of \<open>p\<close> (old and new), the trees below are what they were.
\<close>

lemma relinked_trees:
  assumes "relinks h h' p (set (map root ts))" and "distinct (p # addrs_list ts)" and "set ss \<subseteq> set ts"
  shows "trees h' ss cs = trees h ss cs"
proof (rule trees_cong)
  fix s it assume "s \<in> set ss"
  with assms(3) obtain xs ys where ts: "ts = xs @ s # ys" using split_list by (metis subsetD)
  have d: "set (addrs_list (branches s)) \<subseteq> set (addrs s)" "root s \<notin> set (addrs_list (branches s))"
    using assms(2) by (cases s; auto simp: ts)+
  have "set (addrs s) \<inter> set (map root xs) = {}" "set (addrs s) \<inter> set (map root ys) = {}" "p \<notin> set (addrs s)"
    using assms(2) roots_in_addrs [of xs] roots_in_addrs [of ys] by (auto simp: ts)
  then have away: "a \<noteq> p \<and> a \<notin> set (map root ts)" if "a \<in> set (addrs_list (branches s))" for a
    using that d unfolding ts by auto
  have "root s \<noteq> p" using \<open>p \<notin> set (addrs s)\<close> root_in_addrs [of s] by metis
  then show "tree h' s it = tree h s it"
    using assms(1) away unfolding relinks_def by (intro tree_root_frame) blast+
qed

lemma relinks_dom: "relinks h h' p S \<Longrightarrow> dom h' = dom h"
proof -
  assume r: "relinks h h' p S"
  have "h' a = None \<longleftrightarrow> h a = None" for a
  proof (cases "a = p")
    case True
    have "map_option (n_child_update (\<lambda>_. None)) (h' p) = map_option (n_child_update (\<lambda>_. None)) (h p)"
      using r by (simp add: relinks_def)
    then show ?thesis using True by (metis map_option_is_None)
  next
    case False
    then have "map_option unlinked (h' a) = map_option unlinked (h a)" using r by (simp add: relinks_def)
    then show ?thesis by (metis map_option_is_None)
  qed
  then show ?thesis by (auto simp: dom_def)
qed

lemma stored_parent: "stored h (Shape p ss) it \<Longrightarrow> parent_of h p (map root ss)"
  using roots_in_addrs [of ss] by (cases it) (auto simp: stored_def parent_of_def)

lemma stored_relinked:
  assumes st: "stored h (Shape p ss) it" and r: "relinks h h' p (set (map root ts))"
    and d: "distinct (p # addrs_list ts)" and sub: "set ss' \<subseteq> set ts" and d': "distinct (addrs_list ss')"
    and par: "parent_of h' p (map root ss')" and t: "trees h ss' ch'"
  shows "stored h' (Shape p ss') (set_child ch' it)"
proof -
  obtain k vs vi vd nm ch where it: "it = CJSON k vs vi vd nm ch" by (cases it)
  obtain n where n: "h p = Some n" "n_type n = k" "n_valuestring n = vs" "n_valueint n = vi"
    "n_valuedouble n = vd" "n_string n = nm"
    using st by (auto simp: stored_def it)
  obtain n' where n': "h' p = Some n'" "children h' (n_child n') (map root ss')"
    using par by (auto simp: parent_of_def)
  have "n'\<lparr>n_child := None\<rparr> = n\<lparr>n_child := None\<rparr>" using r n(1) n'(1) by (simp add: relinks_def)
  then have "n_type n' = k" "n_valuestring n' = vs" "n_valueint n' = vi" "n_valuedouble n' = vd" "n_string n' = nm"
    using n by (cases n; cases n'; simp)+
  moreover have "trees h' ss' ch'" using relinked_trees [OF r d sub] t by simp
  moreover have "set (addrs_list ss') \<subseteq> set (addrs_list ts)" using sub
  proof (induction ss')
    case (Cons s ss')
    then obtain xs ys where "ts = xs @ s # ys" using split_list by (metis list.set_intros(1) subsetD)
    then have "set (addrs s) \<subseteq> set (addrs_list ts)" by auto
    then show ?case using Cons by auto
  qed simp
  ultimately show ?thesis using n' d d' by (auto simp: stored_def it)
qed

lemma walk_next_linked:
  "linked h q as None \<Longrightarrow> walk_next h (start_of as None) i = Inr (if i < length as then Some (as ! i) else None)"
proof (induction as arbitrary: q i)
  case Nil
  then show ?case by (cases i) simp_all
next
  case (Cons a as)
  then obtain n where "h a = Some n" "n_next n = start_of as None" "linked h (Some a) as None" by auto
  then show ?case using Cons.IH by (cases i) simp_all
qed

lemma item_at_stored:
  assumes "stored h (Shape p ss) it"
  shows "item_at h (Some p) i = Inr (if i < length ss then Some (root (ss ! i)) else None)"
proof -
  obtain n where n: "h p = Some n" "children h (n_child n) (map root ss)"
    using stored_parent [OF assms] by (auto simp: parent_of_def)
  then show ?thesis
    using walk_next_linked [of h "end_of None (map root ss)" "map root ss" i]
    by (simp add: item_at_def children_def)
qed

text \<open>An index as the functions take it: an int that is not negative.\<close>

lemma index_of_nat:
  assumes "i < 2 ^ 31"
  shows "\<not> (word_of_nat i :: i32) <s 0" and "unat (scast (word_of_nat i :: i32) :: u64) = i"
proof -
  have s: "sint (word_of_nat i :: i32) = int i"
    using assms by (simp add: sint_small unat_of_nat)
  then show "\<not> (word_of_nat i :: i32) <s 0" by (simp add: word_sless_alt)
  have "unat (word_of_int (int i) :: u64) = i" using assms by (simp add: unat_of_nat)
  then show "unat (scast (word_of_nat i :: i32) :: u64) = i"
    by (simp add: scast_eq s)
qed

section \<open>The operations on lists\<close>

definition remove_nth :: "nat \<Rightarrow> 'a list \<Rightarrow> 'a list" where
  "remove_nth i xs = take i xs @ drop (Suc i) xs"

definition insert_nth :: "nat \<Rightarrow> 'a \<Rightarrow> 'a list \<Rightarrow> 'a list" where
  "insert_nth i x xs = take i xs @ x # drop i xs"

lemma edit_split:
  "length xs = i \<Longrightarrow> remove_nth i (xs @ y # ys) = xs @ ys"
  "length xs = i \<Longrightarrow> insert_nth i x (xs @ ys) = xs @ x # ys"
  by (auto simp: remove_nth_def insert_nth_def)

lemma trees_split:
  assumes "trees h (xs @ s # ys) cs"
  obtains cs1 c cs2 where "cs = cs1 @ c # cs2" "length cs1 = length xs" "trees h xs cs1" "tree h s c" "trees h ys cs2"
proof -
  let ?n = "length xs"
  have t: "trees h xs (take ?n cs)" "trees h (s # ys) (drop ?n cs)" "?n \<le> length cs"
    using assms unfolding trees_append by blast+
  then obtain c cs2 where d: "drop ?n cs = c # cs2" by (cases "drop ?n cs") auto
  have "cs = take ?n cs @ c # cs2" using d append_take_drop_id [of ?n cs] by simp
  then show thesis using that [of "take ?n cs" c cs2] t d by simp
qed

lemma trees_join: "trees h xs cs \<Longrightarrow> trees h ys ds \<Longrightarrow> trees h (xs @ ys) (cs @ ds)"
  using trees_length [of h xs cs] by (simp add: trees_append)

lemma trees_one: "trees h [s] [c] = tree h s c"
  by simp

text \<open>An item that can be added: it is followed by nothing.\<close>

definition loose :: "json_heap \<Rightarrow> shape \<Rightarrow> cJSON \<Rightarrow> bool" where
  "loose h s it \<longleftrightarrow> stored h s it \<and> (\<exists>n. h (root s) = Some n \<and> n_next n = None)"

lemma root_apart:
  assumes "set (addrs (Shape p ss)) \<inter> set (addrs s) = {}"
  shows "root s \<notin> set (map root ss)" and "root s \<noteq> p"
proof -
  have "root s \<notin> set (addrs (Shape p ss))" using assms root_in_addrs [of s] by blast
  then show "root s \<notin> set (map root ss)" "root s \<noteq> p" using roots_in_addrs [of ss] by auto
qed

lemma append_item_stored:
  assumes st: "stored h (Shape p ss) it" and x: "loose h s x" and apart: "set (addrs (Shape p ss)) \<inter> set (addrs s) = {}"
  shows "\<exists>h'. append_item h (Some p) (Some (root s)) = Inr (h', True) \<and>
    stored h' (Shape p (ss @ [s])) (set_child (item_child it @ [x]) it)"
proof -
  note notin = root_apart [OF apart]
  obtain m where m: "h (root s) = Some m" "n_next m = None" using x by (auto simp: loose_def)
  obtain h' where h': "append_item h (Some p) (Some (root s)) = Inr (h', True)"
    "parent_of h' p (map root (ss @ [s]))" "relinks h h' p (set (map root (ss @ [s])))"
    using append_item_links [OF stored_parent [OF st] m(1) notin m(2)] by auto
  have d: "distinct (p # addrs_list (ss @ [s]))"
    using st x apart by (auto simp: stored_def loose_def)
  have "trees h ss (item_child it)" using st by (cases it) (simp add: stored_def)
  then have "trees h (ss @ [s]) (item_child it @ [x])"
    using x by (intro trees_join) (simp_all add: loose_def stored_def)
  then have "stored h' (Shape p (ss @ [s])) (set_child (item_child it @ [x]) it)"
    using d by (intro stored_relinked [OF st h'(3) d _ _ h'(2)]) simp_all
  then show ?thesis using h'(1) by blast
qed

lemma trees_of_stored: "stored h (Shape p ss) it \<Longrightarrow> trees h ss (item_child it)"
  by (cases it) (simp add: stored_def)

lemma insert_item_stored:
  assumes st: "stored h (Shape p ss) it" and x: "loose h s x"
    and apart: "set (addrs (Shape p ss)) \<inter> set (addrs s) = {}" and i: "i < 2 ^ 31"
  shows "\<exists>h'. insert_item h (Some p) (word_of_nat i) (Some (root s)) = Inr (h', True) \<and>
    stored h' (Shape p (insert_nth i s ss)) (set_child (insert_nth i x (item_child it)) it)"
proof (cases "i < length ss")
  case False
  have l: "length ss = length (item_child it)" using trees_of_stored [OF st] by (rule trees_length)
  then show ?thesis
    using append_item_stored [OF st x apart] item_at_stored [OF st, of i] index_of_nat [OF i] False
    by (auto simp: insert_item_def insert_nth_def)
next
  case True
  define xs t ys where ss: "xs = take i ss" "t = ss ! i" "ys = drop (Suc i) ss"
  have split: "ss = xs @ t # ys" "length xs = i" using True by (simp_all add: ss id_take_nth_drop)
  obtain cs1 c cs2 where cs: "item_child it = cs1 @ c # cs2" "length cs1 = length xs"
    "trees h xs cs1" "tree h t c" "trees h ys cs2"
    using trees_of_stored [OF st] unfolding split(1) by (rule trees_split)
  obtain m where m: "h (root s) = Some m" using x by (auto simp: loose_def)
  have par: "parent_of h p (map root xs @ root t # map root ys)" using stored_parent [OF st] split(1) by simp
  obtain h' where h': "insert_before h (Some p) (Some (root t)) (Some (root s)) = Inr h'"
    "parent_of h' p (map root (xs @ s # t # ys))" "relinks h h' p (set (map root (xs @ s # t # ys)))"
    using insert_before_links [OF par m] root_apart [OF apart] split(1) by auto
  have d: "distinct (p # addrs_list (xs @ s # t # ys))"
    using st x apart by (auto simp: stored_def loose_def split(1))
  have "trees h (s # t # ys) (x # c # cs2)" using x cs by (simp add: loose_def stored_def)
  then have "trees h (xs @ s # t # ys) (cs1 @ x # c # cs2)" by (rule trees_join [OF cs(3)])
  then have "stored h' (Shape p (xs @ s # t # ys)) (set_child (cs1 @ x # c # cs2) it)"
    using d by (intro stored_relinked [OF st h'(3) d _ _ h'(2)]) simp_all
  then show ?thesis
    using h'(1) item_at_stored [OF st, of i] index_of_nat [OF i] True split(2) cs(1,2)
    by (simp add: insert_item_def edit_split split(1) nth_append)
qed

lemma detach_nth_stored:
  assumes st: "stored h (Shape p ss) it" and i: "i < 2 ^ 31" "i < length ss"
  shows "\<exists>h'. detach_nth h (Some p) (word_of_nat i) = Inr (h', Some (root (ss ! i))) \<and>
    stored h' (Shape p (remove_nth i ss)) (set_child (remove_nth i (item_child it)) it) \<and>
    loose h' (ss ! i) (item_child it ! i) \<and> dom h' = dom h"
proof -
  define xs t ys where ss: "xs = take i ss" "t = ss ! i" "ys = drop (Suc i) ss"
  have split: "ss = xs @ t # ys" "length xs = i" using i(2) by (simp_all add: ss id_take_nth_drop)
  obtain cs1 c cs2 where cs: "item_child it = cs1 @ c # cs2" "length cs1 = length xs"
    "trees h xs cs1" "tree h t c" "trees h ys cs2"
    using trees_of_stored [OF st] unfolding split(1) by (rule trees_split)
  have par: "parent_of h p (map root xs @ root t # map root ys)" using stored_parent [OF st] split(1) by simp
  obtain h' n where h': "detach_item h (Some p) (Some (root t)) = Inr (h', Some (root t))"
    "parent_of h' p (map root (xs @ ys))" "relinks h h' p (set (map root (xs @ t # ys)))"
    "h' (root t) = Some n" "n_next n = None"
    using detach_item_links [OF par] by auto
  have d: "distinct (p # addrs_list (xs @ t # ys))" using st by (auto simp: stored_def split(1))
  have "stored h' (Shape p (xs @ ys)) (set_child (cs1 @ cs2) it)"
    using d by (intro stored_relinked [OF st h'(3) d _ _ h'(2)] trees_join cs(3,5)) auto
  moreover have "trees h' [t] [c]" using relinked_trees [OF h'(3) d, of "[t]" "[c]"] cs(4) by simp
  then have "loose h' t c" using d h'(4,5) by (simp add: loose_def stored_def)
  ultimately show ?thesis
    using h'(1) item_at_stored [OF st, of i] index_of_nat [OF i(1)] split(2) cs(1,2)
      relinks_dom [OF h'(3)]
    by (simp add: detach_nth_def edit_split split(1) nth_append)
qed

section \<open>Deleting\<close>

text \<open>Items that own what they refer to.\<close>

fun owner :: "cJSON \<Rightarrow> bool" where
  "owner (CJSON t vs vi vd st ch) \<longleftrightarrow> t AND cJSON_IsReference = 0 \<and> list_all owner ch"

lemma delete_trees:
  "trees h ss cs \<Longrightarrow> linked h q (map root ss) None \<Longrightarrow> distinct (addrs_list ss) \<Longrightarrow> list_all owner cs \<Longrightarrow>
   delete_items h (start_of (map root ss) None) = Some (Inr (h |` (- set (addrs_list ss))))"
proof (induction "length (addrs_list ss)" arbitrary: h ss cs q rule: less_induct)
  case less
  show ?case
  proof (cases ss)
    case Nil
    then show ?thesis by (simp add: delete_items.simps restrict_map_def)
  next
    case (Cons s ss')
    obtain a ts where s: "s = Shape a ts" by (cases s)
    obtain c cs' where cs: "cs = c # cs'" using less.prems(1) Cons by (cases cs) auto
    obtain k vs vi vd nm ch where c: "c = CJSON k vs vi vd nm ch" by (cases c)
    obtain n where n: "h a = Some n" "n_type n = k" "children h (n_child n) (map root ts)" "trees h ts ch"
      "n_next n = start_of (map root ss') None"
      using less.prems(1,2) by (auto simp: Cons s cs c)
    have d: "distinct (addrs_list ts)" "a \<notin> set (addrs_list ts)" "a \<notin> set (addrs_list ss')"
      "set (addrs_list ts) \<inter> set (addrs_list ss') = {}" "distinct (addrs_list ss')"
      using less.prems(3) by (auto simp: Cons s)
    have own: "k AND cJSON_IsReference = 0" "list_all owner ch" "list_all owner cs'"
      using less.prems(4) by (auto simp: cs c)
    let ?h1 = "h |` (- set (addrs_list ts))"
    have "delete_items h (start_of (map root ts) None) = Some (Inr ?h1)"
      using n(3,4) d(1) own(2) by (intro less.hyps [where q = "end_of None (map root ts)"]) (auto simp: Cons s children_def)
    then have one: "(if n_type n AND cJSON_IsReference = 0 \<and> n_child n \<noteq> None then delete_items h (n_child n)
        else Some (Inr h)) = Some (Inr ?h1)"
      using n(2,3) own(1) by (cases ts) (auto simp: children_def)
    let ?h2 = "?h1(a := None)"
    have eq: "?h2 x = h x" if "x \<in> set (addrs_list ss')" for x using that d by (auto simp: restrict_map_def)
    have "delete_items ?h2 (start_of (map root ss') None) = Some (Inr (?h2 |` (- set (addrs_list ss'))))"
    proof (rule less.hyps)
      show "trees ?h2 ss' cs'" using trees_frame(2) [of ss' ?h2 h] eq less.prems(1) by (auto simp: Cons cs)
      show "linked ?h2 (Some a) (map root ss') None"
      proof -
        have "?h2 x = h x" if "x \<in> set (map root ss')" for x
          by (rule eq) (use that roots_in_addrs [of ss'] in blast)
        then have "linked ?h2 (Some a) (map root ss') None = linked h (Some a) (map root ss') None"
          by (rule linked_frame)
        then show ?thesis using less.prems(2) by (simp add: Cons s)
      qed
    qed (use d own in \<open>simp_all add: Cons s\<close>)
    moreover have "?h2 |` (- set (addrs_list ss')) = h |` (- set (addrs_list ss))"
      using d(2,3) by (auto simp: Cons s restrict_map_def fun_eq_iff)
    moreover have "deallocate_item ?h1 a = Inr ?h2"
      using n(1) d(2) by (simp add: deallocate_item_def restrict_map_def)
    ultimately show ?thesis
      using n(1,5) by (subst delete_items.simps) (simp only: Cons s list.map shape.sel end_start_simps option.case one Option.bind.simps sum.case)
  qed
qed

lemma delete_stored:
  assumes "loose h s it" and "owner it"
  shows "delete_items h (Some (root s)) = Some (Inr (h |` (- set (addrs s))))"
proof -
  obtain n where "h (root s) = Some n" "n_next n = None" using assms(1) by (auto simp: loose_def)
  then show ?thesis
    using delete_trees [of h "[s]" "[it]" "n_prev n"] assms by (simp add: loose_def stored_def)
qed

section \<open>Replacing\<close>

lemma replace_nth_stored:
  assumes st: "stored h (Shape p ss) it" and x: "stored h s x" and own: "owner (item_child it ! i)"
    and apart: "set (addrs (Shape p ss)) \<inter> set (addrs s) = {}" and i: "i < 2 ^ 31" "i < length ss"
  shows "\<exists>h'. replace_nth h (Some p) (word_of_nat i) (Some (root s)) = Some (Inr (h', True)) \<and>
    stored h' (Shape p (ss[i := s])) (set_child ((item_child it)[i := x]) it) \<and>
    (\<forall>a \<in> set (addrs (ss ! i)). h' a = None)"
proof -
  define xs t ys where ss: "xs = take i ss" "t = ss ! i" "ys = drop (Suc i) ss"
  have split: "ss = xs @ t # ys" "length xs = i" using i(2) by (simp_all add: ss id_take_nth_drop)
  obtain cs1 c cs2 where cs: "item_child it = cs1 @ c # cs2" "length cs1 = length xs"
    "trees h xs cs1" "tree h t c" "trees h ys cs2"
    using trees_of_stored [OF st] unfolding split(1) by (rule trees_split)
  have par: "parent_of h p (map root xs @ root t # map root ys)" using stored_parent [OF st] split(1) by simp
  obtain m where m: "h (root s) = Some m" using x by (cases s; cases x) (auto simp: stored_def)
  obtain h' n where h': "swap_item h (Some p) (Some (root t)) (Some (root s)) = Inr h'"
    "parent_of h' p (map root (xs @ s # ys))" "relinks h h' p (set (map root (xs @ s # t # ys)))"
    "h' (root t) = Some n" "n_next n = None"
    using swap_item_links [OF par m] root_apart [OF apart] split(1) by auto
  have d: "distinct (p # addrs_list (xs @ s # t # ys))" using st x apart by (auto simp: stored_def split(1))
  have tr: "trees h (xs @ s # ys) (cs1 @ x # cs2)" using x cs by (intro trees_join) (simp_all add: stored_def)
  have new: "stored h' (Shape p (xs @ s # ys)) (set_child (cs1 @ x # cs2) it)"
    using d tr by (intro stored_relinked [OF st h'(3) d _ _ h'(2)]) auto
  have "trees h' [t] [c]" using relinked_trees [OF h'(3) d, of "[t]" "[c]"] cs(4) by simp
  then have "loose h' t c" using d h'(4,5) by (simp add: loose_def stored_def)
  then have del: "delete_items h' (Some (root t)) = Some (Inr (h' |` (- set (addrs t))))"
    using own cs(1,2) split(2) by (intro delete_stored) (auto simp: nth_append)
  let ?h = "h' |` (- set (addrs t))"
  have "\<forall>a \<in> set (addrs (Shape p (xs @ s # ys))). ?h a = h' a" using d by (auto simp: restrict_map_def)
  then have "stored ?h (Shape p (xs @ s # ys)) (set_child (cs1 @ x # cs2) it)"
    using new trees_frame(1) [of "Shape p (xs @ s # ys)" ?h h'] unfolding stored_def by blast
  moreover obtain n where "h p = Some n" "n_child n \<noteq> None"
    using par by (cases xs) (auto simp: parent_of_def children_def)
  moreover have "root s \<noteq> root t" using root_apart(1) [OF apart] split(1) by simp
  ultimately show ?thesis
    using h'(1) del item_at_stored [OF st, of i] index_of_nat [OF i(1)] split cs(1,2)
    by (auto simp: replace_nth_def replace_item_def nth_append list_update_append restrict_map_def)
qed

section \<open>By name\<close>

lemma find_item_other:
  "find_item cs name (c # xs) = (if other_name cs name (item_string c) then find_item cs name xs else Some c)"
  by (simp add: other_name_def)

text \<open>The position of the item \<open>find_item\<close> answers.\<close>

fun name_index :: "bool \<Rightarrow> string \<Rightarrow> cJSON list \<Rightarrow> nat" where
  "name_index cs name [] = 0"
| "name_index cs name (c # xs) = (if other_name cs name (item_string c) then Suc (name_index cs name xs) else 0)"

lemma name_index_find:
  "find_item cs name xs = (if name_index cs name xs < length xs then Some (xs ! name_index cs name xs) else None)"
  by (induction xs) (auto simp: other_name_def)

lemma tree_string: "tree h s c \<Longrightarrow> \<exists>n. h (root s) = Some n \<and> n_string n = item_string c"
  by (cases s; cases c) auto

lemma named_loop_linked:
  "linked h q (map root ss) None \<Longrightarrow> trees h ss cs \<Longrightarrow>
   named_loop h (start_of (map root ss) None) name b = Some (Inr
     (if name_index b name cs < length cs \<and> item_string (cs ! name_index b name cs) \<noteq> None
      then Some (root (ss ! name_index b name cs)) else None))"
proof (induction ss arbitrary: cs q)
  case Nil
  then show ?case by (simp add: named_loop.simps)
next
  case (Cons s ss)
  then obtain c cs' where cs: "cs = c # cs'" "tree h s c" "trees h ss cs'" by (cases cs) auto
  obtain n where n: "h (root s) = Some n" "n_string n = item_string c" using tree_string [OF cs(2)] by blast
  then have "n_next n = start_of (map root ss) None" "linked h (Some (root s)) (map root ss) None"
    using Cons.prems(1) by auto
  with Cons.IH [OF _ cs(3)] n show ?case
    by (subst named_loop.simps) (auto simp: cs(1))
qed

lemma item_named_stored:
  assumes "stored h (Shape p ss) it"
  shows "item_named h (Some p) (Some name) b = Some (Inr
    (if get_object_item (Some it) (Some name) b \<noteq> None
     then Some (root (ss ! name_index b name (item_child it))) else None))"
proof -
  obtain n where n: "h p = Some n" "children h (n_child n) (map root ss)"
    using stored_parent [OF assms] by (auto simp: parent_of_def)
  then show ?thesis
    using named_loop_linked [OF _ trees_of_stored [OF assms], of "end_of None (map root ss)" name b]
    by (auto simp: item_named_def children_def get_object_item_def name_index_find)
qed

lemma detach_named_stored:
  assumes st: "stored h (Shape p ss) it" and get: "get_object_item (Some it) (Some name) b = Some c"
    and i: "i = name_index b name (item_child it)" and len: "length ss < 2 ^ 31"
  shows "\<exists>h'. detach_named h (Some p) (Some name) b = Some (Inr (h', Some (root (ss ! i)))) \<and>
    stored h' (Shape p (remove_nth i ss)) (set_child (remove_nth i (item_child it)) it) \<and> loose h' (ss ! i) c \<and>
    dom h' = dom h"
proof -
  have c: "i < length (item_child it)" "item_child it ! i = c"
    using get i by (auto simp: get_object_item_def name_index_find split: if_splits)
  have l: "i < length ss" using c(1) trees_length [OF trees_of_stored [OF st]] by simp
  then have "i < 2 ^ 31" using len by linarith
  from detach_nth_stored [OF st this l] obtain h' where h': "detach_nth h (Some p) (word_of_nat i) = Inr (h', Some (root (ss ! i)))"
    "stored h' (Shape p (remove_nth i ss)) (set_child (remove_nth i (item_child it)) it)" "loose h' (ss ! i) c" "dom h' = dom h"
    using c(2) by auto
  then have "detach_item h (Some p) (Some (root (ss ! i))) = Inr (h', Some (root (ss ! i)))"
    using item_at_stored [OF st, of i] index_of_nat [OF \<open>i < 2 ^ 31\<close>] l by (simp add: detach_nth_def)
  then show ?thesis using h'(2-4) item_named_stored [OF st, of name b] get i by (simp add: detach_named_def)
qed

section \<open>Properties\<close>

lemma edit_inverse: "i \<le> length xs \<Longrightarrow> remove_nth i (insert_nth i x xs) = xs"
  "i \<le> length xs \<Longrightarrow> insert_nth i x xs ! i = x" "length (insert_nth i x xs) = Suc (length xs)"
  by (simp_all add: remove_nth_def insert_nth_def nth_append min_def)

lemma set_child_simps: "set_child a (set_child b it) = set_child a it" "set_child (item_child it) it = it"
  by (cases it, simp)+

text \<open>
  C21. Relinking. An array or object with any children, and an item outside it: inserting the item
  before index \<open>i\<close> (or at the end) succeeds, the array in memory is then exactly the list of
  children with the item at \<open>i\<close>, all links in both directions included; detaching index \<open>i\<close> again
  returns the item, whole and without siblings, and leaves the array as it was.
\<close>

theorem insert_detach_roundtrip:
  assumes "stored h (Shape p ss) it" and "loose h s x" and "set (addrs (Shape p ss)) \<inter> set (addrs s) = {}"
    and "i \<le> length ss" and "i < 2 ^ 31"
  shows "\<exists>h1 h2. insert_item h (Some p) (word_of_nat i) (Some (root s)) = Inr (h1, True) \<and>
    stored h1 (Shape p (insert_nth i s ss)) (set_child (insert_nth i x (item_child it)) it) \<and>
    detach_nth h1 (Some p) (word_of_nat i) = Inr (h2, Some (root s)) \<and>
    stored h2 (Shape p ss) it \<and> loose h2 s x"
proof -
  have l: "i \<le> length (item_child it)"
    using trees_length [OF trees_of_stored [OF assms(1)]] assms(4) by simp
  obtain h1 where h1: "insert_item h (Some p) (word_of_nat i) (Some (root s)) = Inr (h1, True)"
    "stored h1 (Shape p (insert_nth i s ss)) (set_child (insert_nth i x (item_child it)) it)"
    using insert_item_stored [OF assms(1-3,5)] by blast
  have "i < length (insert_nth i s ss)" using assms(4) by (simp add: edit_inverse)
  from detach_nth_stored [OF h1(2) assms(5) this] h1 show ?thesis
    using assms(4) l by (auto simp: edit_inverse set_child_simps)
qed

text \<open>
  Replacing a child. Replacing the child at index \<open>i\<close> by another item succeeds, the array in
  memory is then the list of children updated at \<open>i\<close>, and all structs of the old child are freed.
\<close>

lemma replace_frees_old:
  assumes "stored h (Shape p ss) it" and "stored h s x" and "owner (item_child it ! i)"
    and "set (addrs (Shape p ss)) \<inter> set (addrs s) = {}" and "i < 2 ^ 31" and "i < length ss"
  shows "\<exists>h'. replace_nth h (Some p) (word_of_nat i) (Some (root s)) = Some (Inr (h', True)) \<and>
    stored h' (Shape p (ss[i := s])) (set_child ((item_child it)[i := x]) it) \<and>
    (\<forall>a \<in> set (addrs (ss ! i)). h' a = None)"
  by (rule replace_nth_stored [OF assms])

text \<open>
  C20. Deleting a member. If lookup finds an item under the name, deleting the name ends, frees
  exactly the structs of this item and of everything below it, each once, and leaves the
  object with its other members in order. \<open>cJSON_Delete\<close> follows no freed or NULL pointer.
\<close>

theorem member_deleted:
  assumes "stored h (Shape p ss) it" and "get_object_item (Some it) (Some name) b = Some c" and "owner c"
    and "i = name_index b name (item_child it)" and "length ss < 2 ^ 31"
  shows "\<exists>h'. delete_named h (Some p) (Some name) b = Some (Inr h') \<and>
    stored h' (Shape p (remove_nth i ss)) (set_child (remove_nth i (item_child it)) it) \<and>
    dom h' = dom h - set (addrs (ss ! i))"
proof -
  obtain h1 where h1: "detach_named h (Some p) (Some name) b = Some (Inr (h1, Some (root (ss ! i))))"
    "stored h1 (Shape p (remove_nth i ss)) (set_child (remove_nth i (item_child it)) it)"
    "loose h1 (ss ! i) c" "dom h1 = dom h"
    using detach_named_stored [OF assms(1,2,4,5)] by blast
  let ?h = "h1 |` (- set (addrs (ss ! i)))"
  have "i < length ss"
    using assms(2,4) trees_length [OF trees_of_stored [OF assms(1)]]
    by (auto simp: get_object_item_def name_index_find split: if_splits)
  then have "ss = take i ss @ ss ! i # drop (Suc i) ss" by (rule id_take_nth_drop)
  then have "distinct (p # addrs_list (take i ss @ ss ! i # drop (Suc i) ss))"
    using assms(1) by (simp add: stored_def)
  then have "\<forall>a \<in> set (addrs (Shape p (remove_nth i ss))). ?h a = h1 a"
    by (auto simp: remove_nth_def restrict_map_def)
  then have "stored ?h (Shape p (remove_nth i ss)) (set_child (remove_nth i (item_child it)) it)"
    using h1(2) trees_frame(1) [of "Shape p (remove_nth i ss)" ?h h1] unfolding stored_def by blast
  moreover have "dom ?h = dom h - set (addrs (ss ! i))" using h1(4) by auto
  ultimately show ?thesis
    using h1(1) delete_stored [OF h1(3) assms(3)] by (auto simp: delete_named_def)
qed

text \<open>A sample: an object with two members at 2 and 3, and an item outside it at 4.\<close>

definition sample_heap :: json_heap where
  "sample_heap =
    [1 \<mapsto> \<lparr>n_next = None, n_prev = None, n_child = Some 2, n_type = cJSON_Object, n_valuestring = None,
          n_valueint = 0, n_valuedouble = Finite 0, n_string = None\<rparr>,
     2 \<mapsto> \<lparr>n_next = Some 3, n_prev = Some 3, n_child = None, n_type = cJSON_True, n_valuestring = None,
          n_valueint = 0, n_valuedouble = Finite 0, n_string = Some ''a''\<rparr>,
     3 \<mapsto> \<lparr>n_next = None, n_prev = Some 2, n_child = None, n_type = cJSON_NULL, n_valuestring = None,
          n_valueint = 0, n_valuedouble = Finite 0, n_string = Some ''b''\<rparr>,
     4 \<mapsto> \<lparr>n_next = None, n_prev = None, n_child = None, n_type = cJSON_False, n_valuestring = None,
          n_valueint = 0, n_valuedouble = Finite 0, n_string = Some ''c''\<rparr>]"

definition sample_object :: cJSON where
  "sample_object = CJSON cJSON_Object None 0 (Finite 0) None
     [CJSON cJSON_True None 0 (Finite 0) (Some ''a'') [], CJSON cJSON_NULL None 0 (Finite 0) (Some ''b'') []]"

definition sample_member :: cJSON where
  "sample_member = CJSON cJSON_False None 0 (Finite 0) (Some ''c'') []"

lemma sample_stored:
  "stored sample_heap (Shape 1 [Shape 2 [], Shape 3 []]) sample_object"
  "loose sample_heap (Shape 4 []) sample_member" "owner (item_child sample_object ! 0)"
  by (simp_all add: stored_def loose_def sample_heap_def sample_object_def sample_member_def children_def
      end_of_def start_of_def item_types)

lemma insert_detach_roundtrip_witness:
  "\<exists>h1 h2. insert_item sample_heap (Some 1) (word_of_nat 1) (Some 4) = Inr (h1, True) \<and>
    detach_nth h1 (Some 1) (word_of_nat 1) = Inr (h2, Some 4) \<and>
    stored h2 (Shape 1 [Shape 2 [], Shape 3 []]) sample_object"
  using insert_detach_roundtrip [OF sample_stored(1,2), of 1] by auto

lemma replace_frees_old_witness:
  "\<exists>h'. replace_nth sample_heap (Some 1) (word_of_nat 0) (Some 4) = Some (Inr (h', True)) \<and> h' 2 = None"
  using replace_frees_old [OF sample_stored(1) _ sample_stored(3), of "Shape 4 []" sample_member] sample_stored(2)
  by (auto simp: loose_def)

lemma member_deleted_witness:
  "\<exists>h'. delete_named sample_heap (Some 1) (Some ''B'') False = Some (Inr h') \<and>
     dom h' = dom sample_heap - {3} \<and>
     stored h' (Shape 1 [Shape 2 []]) (set_child [CJSON cJSON_True None 0 (Finite 0) (Some ''a'') []] sample_object)"
proof -
  have "get_object_item (Some sample_object) (Some ''B'') False =
      Some (CJSON cJSON_NULL None 0 (Finite 0) (Some ''b'') [])"
    "name_index False ''B'' (item_child sample_object) = 1"
    by code_simp+
  moreover have "owner (CJSON cJSON_NULL None 0 (Finite 0) (Some ''b'') [])" by (simp add: item_types)
  ultimately show ?thesis
    using member_deleted [OF sample_stored(1), of "''B''" False _ 1]
    by (auto simp: remove_nth_def sample_object_def)
qed

text \<open>Inserting NULL before an existing child follows a NULL pointer; the other cases refuse NULL.\<close>

lemma insert_null_faults:
  assumes "stored h (Shape p ss) it" and "i < 2 ^ 31"
  shows "insert_item h (Some p) (word_of_nat i) None = (if i < length ss then Inl InvalidPointer else Inr (h, False))"
  using item_at_stored [OF assms(1), of i] index_of_nat [OF assms(2)]
  by (simp add: insert_item_def insert_before_def append_item_def)

text \<open>
  A reference to a chain of children: lookup in it finds what lookup in the owner finds, and
  deleting it frees its own struct only.
\<close>

lemma container_reference_shares:
  assumes "stored h (Shape p ss) it" and "h p = Some n" and "h a = None"
    and r: "create_object_reference h (n_child n) (Some a) = (h', Some a)"
  shows "item_named h' (Some a) (Some name) b = item_named h (Some p) (Some name) b"
    and "delete_items h' (Some a) = Some (Inr h)"
proof -
  have h': "h' = h(a \<mapsto> empty_node\<lparr>n_type := cJSON_Object OR cJSON_IsReference, n_child := n_child n\<rparr>)"
    using r by (simp add: create_object_reference_def)
  have c: "children h (n_child n) (map root ss)" using stored_parent [OF assms(1)] assms(2) by (auto simp: parent_of_def)
  then have l: "linked h (end_of None (map root ss)) (map root ss) None" and start: "n_child n = start_of (map root ss) None"
    by (simp_all add: children_def)
  have "a \<notin> set (map root ss)"
  proof -
    have "linked h q as None \<Longrightarrow> x \<in> set as \<Longrightarrow> h x \<noteq> None" for q as x
      by (induction as arbitrary: q) auto
    with l assms(3) show ?thesis by blast
  qed
  then have l': "linked h' (end_of None (map root ss)) (map root ss) None" using l by (simp add: h')
  have "a \<notin> set (addrs_list ss)"
  proof -
    have "tree h s c \<Longrightarrow> x \<in> set (addrs s) \<Longrightarrow> h x \<noteq> None"
      "trees h ts cs \<Longrightarrow> x \<in> set (addrs_list ts) \<Longrightarrow> h x \<noteq> None" for s c ts cs x
    proof (induction h s c and h ts cs rule: tree_trees.induct)
      case (3 h s ss cs)
      then show ?case by (cases cs) auto
    qed auto
    then show ?thesis using trees_of_stored [OF assms(1)] assms(3) by blast
  qed
  then have "h' x = h x" if "x \<in> set (addrs_list ss)" for x using that by (auto simp: h')
  then have "trees h' ss (item_child it)"
    using trees_frame(2) [of ss h' h] trees_of_stored [OF assms(1)] by metis
  then show "item_named h' (Some a) (Some name) b = item_named h (Some p) (Some name) b"
    using named_loop_linked [OF l'] named_loop_linked [OF l trees_of_stored [OF assms(1)]] assms(2) start
    by (simp add: item_named_def h')
  have "(cJSON_Object OR cJSON_IsReference) AND cJSON_IsReference \<noteq> 0" by (simp add: item_types)
  then have "delete_items h' (Some a) = Some (Inr (h'(a := None)))"
    by (subst delete_items.simps) (simp add: h' empty_node_def deallocate_item_def delete_items.simps [of _ None])
  moreover have "h'(a := None) = h" using assms(3) by (auto simp: h')
  ultimately show "delete_items h' (Some a) = Some (Inr h)" by simp
qed

text \<open>A reference is deleted without what it refers to.\<close>

lemma reference_deleted_alone:
  assumes "h a = None" and "load_item h item = Inr n" and "item = Some b"
  shows "\<exists>h'. create_reference h item (Some a) = Inr (h', Some a) \<and> delete_items h' (Some a) = Some (Inr h)"
proof -
  let ?n = "n\<lparr>n_string := None, n_type := n_type n OR cJSON_IsReference, n_next := None, n_prev := None\<rparr>"
  have "(n_type n OR cJSON_IsReference) AND cJSON_IsReference = cJSON_IsReference"
    by (simp add: bit_eq_iff bit_simps)
  then have "n_type ?n AND cJSON_IsReference \<noteq> 0" by (simp add: cJSON_IsReference_def)
  then have "delete_items (h(a \<mapsto> ?n)) (Some a) = Some (Inr ((h(a \<mapsto> ?n))(a := None)))"
    by (subst delete_items.simps) (simp add: deallocate_item_def delete_items.simps [of _ None])
  moreover have "(h(a \<mapsto> ?n))(a := None) = h" using assms(1) by auto
  ultimately show ?thesis using assms(2,3) by (simp add: create_reference_def)
qed

end
