(* ===== verification/CJson_Copy.thy ===== *)
theory CJson_Copy
  imports CJson_Print_Parse CJson_Trees
begin

text \<open>
  Setting values, building arrays, duplicating and comparing items (lib/c_json.c), on the trees
  of \<open>CJson\<close>.
\<close>

section \<open>Setting a string\<close>

text \<open>
  \<open>strlen\<close> of both strings is taken before the NULL test of the old one. A string that fits is
  copied in place, another one goes to a new block. The result is what the caller gets.
\<close>

definition cJSON_SetValuestring :: "cJSON \<Rightarrow> string \<Rightarrow> allocs \<Rightarrow> (string option \<times> cJSON \<times> allocs) result" where
  "cJSON_SetValuestring object valuestring oks =
     (if item_type object AND cJSON_String = 0 \<or> item_type object AND cJSON_IsReference \<noteq> 0
      then Inr (None, object, oks)
      else case item_valuestring object of
        None \<Rightarrow> Inl InvalidPointer
      | Some old \<Rightarrow>
          if length valuestring \<le> length old
          then Inr (Some valuestring, set_valuestring (Some valuestring) object, oks)
          else (case cJSON_strdup (Some valuestring) oks of
              (None, oks') \<Rightarrow> Inr (None, object, oks')
            | (Some copy, oks') \<Rightarrow> Inr (Some copy, set_valuestring (Some copy) object, oks')))"

section \<open>Arrays of values\<close>

text \<open>
  The four functions that build an array differ in what creates the \<open>i\<close>-th item. \<open>create_items\<close> is
  their loop, with \<open>n\<close> rounds left; when an item cannot be created the array is deleted.
\<close>

fun create_items ::
  "(nat \<Rightarrow> allocs \<Rightarrow> (cJSON option \<times> allocs) result) \<Rightarrow> nat \<Rightarrow> nat \<Rightarrow> cJSON \<Rightarrow> allocs \<Rightarrow> (cJSON option \<times> allocs) result" where
  "create_items create 0 i a oks = Inr (Some a, oks)"
| "create_items create (Suc n) i a oks =
     and_then (create i oks) (\<lambda>(item, oks').
       case item of
         None \<Rightarrow> Inr (None, oks')
       | Some it \<Rightarrow> create_items create n (i + 1) (set_child (item_child a @ [it]) a) oks')"

definition create_array_of ::
  "(nat \<Rightarrow> allocs \<Rightarrow> (cJSON option \<times> allocs) result) \<Rightarrow> bool \<Rightarrow> i32 \<Rightarrow> allocs \<Rightarrow> (cJSON option \<times> allocs) result" where
  "create_array_of create null number oks =
     (if number <s 0 \<or> null then Inr (None, oks)
      else case cJSON_CreateArray oks of
        (None, oks') \<Rightarrow> Inr (None, oks')
      | (Some a, oks') \<Rightarrow> create_items create (unat number) 0 a oks')"

definition read_element :: "'a list \<Rightarrow> nat \<Rightarrow> 'a result" where
  "read_element xs i = (if i < length xs then Inr (xs ! i) else Inl OutOfBounds)"

definition cJSON_CreateIntArray :: "i32 list option \<Rightarrow> i32 \<Rightarrow> allocs \<Rightarrow> (cJSON option \<times> allocs) result" where
  "cJSON_CreateIntArray numbers number oks =
     create_array_of (\<lambda>i oks. and_then (read_element (the numbers) i) (\<lambda>x.
       cJSON_CreateNumber (Finite (of_int (sint x))) oks)) (numbers = None) number oks"

text \<open>A float is a double, so the arrays of floats and doubles are the same here.\<close>

definition cJSON_CreateDoubleArray :: "dbl list option \<Rightarrow> i32 \<Rightarrow> allocs \<Rightarrow> (cJSON option \<times> allocs) result" where
  "cJSON_CreateDoubleArray numbers number oks =
     create_array_of (\<lambda>i oks. and_then (read_element (the numbers) i) (\<lambda>x. cJSON_CreateNumber x oks))
       (numbers = None) number oks"

definition cJSON_CreateFloatArray :: "dbl list option \<Rightarrow> i32 \<Rightarrow> allocs \<Rightarrow> (cJSON option \<times> allocs) result" where
  "cJSON_CreateFloatArray numbers number oks =
     create_array_of (\<lambda>i oks. and_then (read_element (the numbers) i) (\<lambda>x. cJSON_CreateNumber x oks))
       (numbers = None) number oks"

definition cJSON_CreateStringArray :: "string option list option \<Rightarrow> i32 \<Rightarrow> allocs \<Rightarrow> (cJSON option \<times> allocs) result" where
  "cJSON_CreateStringArray strings number oks =
     create_array_of (\<lambda>i oks. and_then (read_element (the strings) i) (\<lambda>s. Inr (cJSON_CreateString s oks)))
       (strings = None) number oks"

section \<open>Duplicating\<close>

text \<open>A string of the copy; a constant key is shared, not copied.\<close>

definition copy_string :: "bool \<Rightarrow> string option \<Rightarrow> allocs \<Rightarrow> bool \<times> allocs" where
  "copy_string shared s oks =
     (if s = None \<or> shared then (True, oks)
      else let (copy, oks') = cJSON_strdup s oks in (copy \<noteq> None, oks'))"

fun duplicate :: "bool \<Rightarrow> cJSON \<Rightarrow> allocs \<Rightarrow> cJSON option \<times> allocs"
and duplicate_list :: "cJSON list \<Rightarrow> allocs \<Rightarrow> cJSON list option \<times> allocs" where
  "duplicate recurse (CJSON t vs vi vd st ch) oks =
     (let (new, oks1) = allocate oks in
      if \<not> new then (None, oks1)
      else let (ok2, oks2) = copy_string False vs oks1 in
        if \<not> ok2 then (None, oks2)
        else let (ok3, oks3) = copy_string (t AND cJSON_StringIsConst \<noteq> 0) st oks2 in
          if \<not> ok3 then (None, oks3)
          else if \<not> recurse then (Some (CJSON (t AND NOT cJSON_IsReference) vs vi vd st []), oks3)
          else (case duplicate_list ch oks3 of
              (None, oks4) \<Rightarrow> (None, oks4)
            | (Some ch', oks4) \<Rightarrow> (Some (CJSON (t AND NOT cJSON_IsReference) vs vi vd st ch'), oks4)))"
| "duplicate_list [] oks = (Some [], oks)"
| "duplicate_list (c # cs) oks =
     (case duplicate True c oks of
        (None, oks1) \<Rightarrow> (None, oks1)
      | (Some c', oks1) \<Rightarrow>
          (case duplicate_list cs oks1 of
             (None, oks2) \<Rightarrow> (None, oks2)
           | (Some cs', oks2) \<Rightarrow> (Some (c' # cs'), oks2)))"

definition cJSON_Duplicate :: "cJSON option \<Rightarrow> bool \<Rightarrow> allocs \<Rightarrow> cJSON option \<times> allocs" where
  "cJSON_Duplicate item recurse oks =
     (case item of None \<Rightarrow> (None, oks) | Some it \<Rightarrow> duplicate recurse it oks)"

section \<open>Comparing\<close>

definition comparable :: "i32 \<Rightarrow> bool" where
  "comparable k \<longleftrightarrow> k \<in> {cJSON_False, cJSON_True, cJSON_NULL, cJSON_Number, cJSON_String, cJSON_Raw,
     cJSON_Array, cJSON_Object}"

lemma find_item_size: "find_item cs name xs = Some y \<Longrightarrow> size y < size_list size xs"
proof -
  assume "find_item cs name xs = Some y"
  then have "y \<in> set xs" using find_item_SomeD by blast
  then show ?thesis by (induction xs) auto
qed

lemma get_object_item_size: "get_object_item (Some ob) name cs = Some y \<Longrightarrow> size y < size ob"
proof -
  assume "get_object_item (Some ob) name cs = Some y"
  then obtain n where "find_item cs n (item_child ob) = Some y"
    by (auto simp: get_object_item_def split: option.splits if_splits)
  then have "size y < size_list size (item_child ob)" by (rule find_item_size)
  then show ?thesis by (cases ob) simp
qed

lemma child_size: "size_list size (item_child it) < size it"
  by (cases it) simp

text \<open>
  The comparison of two items that lie at different addresses and share no children. Members
  are looked up by name, in both directions.
\<close>

function compare_items :: "bool \<Rightarrow> cJSON \<Rightarrow> cJSON \<Rightarrow> bool"
and compare_elements :: "bool \<Rightarrow> cJSON list \<Rightarrow> cJSON list \<Rightarrow> bool"
and members_found :: "bool \<Rightarrow> cJSON list \<Rightarrow> cJSON \<Rightarrow> bool" where
  "compare_items case_sensitive a b =
     (let k = item_type a AND 0xFF in
      if k \<noteq> item_type b AND 0xFF \<or> \<not> comparable k then False
      else if k = cJSON_Number then compare_double (item_valuedouble a) (item_valuedouble b)
      else if k = cJSON_String \<or> k = cJSON_Raw then
        (case (item_valuestring a, item_valuestring b) of (Some s, Some t) \<Rightarrow> s = t | _ \<Rightarrow> False)
      else if k = cJSON_Array then compare_elements case_sensitive (item_child a) (item_child b)
      else if k = cJSON_Object then
        members_found case_sensitive (item_child a) b \<and> members_found case_sensitive (item_child b) a
      else True)"
| "compare_elements case_sensitive [] [] = True"
| "compare_elements case_sensitive (x # xs) (y # ys) =
     (compare_items case_sensitive x y \<and> compare_elements case_sensitive xs ys)"
| "compare_elements case_sensitive [] (y # ys) = False"
| "compare_elements case_sensitive (x # xs) [] = False"
| "members_found case_sensitive [] b = True"
| "members_found case_sensitive (x # xs) b =
     (case get_object_item (Some b) (item_string x) case_sensitive of
        None \<Rightarrow> False
      | Some y \<Rightarrow> compare_items case_sensitive x y \<and> members_found case_sensitive xs b)"
  by pat_completeness auto

termination
  by (relation "measure (\<lambda>x. case x of Inl (_, a, b) \<Rightarrow> size a + size b
      | Inr (Inl (_, xs, ys)) \<Rightarrow> size_list size xs + size_list size ys
      | Inr (Inr (_, xs, b)) \<Rightarrow> size_list size xs + size b)") (auto dest: get_object_item_size intro: add_strict_mono child_size)

text \<open>\<open>same_pointer\<close> tells whether the two arguments are the same pointer.\<close>

definition cJSON_Compare :: "bool \<Rightarrow> cJSON option \<Rightarrow> cJSON option \<Rightarrow> bool \<Rightarrow> bool" where
  "cJSON_Compare same_pointer a b case_sensitive =
     (case (a, b) of
        (Some x, Some y) \<Rightarrow>
          if item_type x AND 0xFF \<noteq> item_type y AND 0xFF \<or> \<not> comparable (item_type x AND 0xFF) then False
          else same_pointer \<or> compare_items case_sensitive x y
      | _ \<Rightarrow> False)"

declare compare_items.simps [simp del]

section \<open>Comparing is symmetric\<close>

lemma compare_double_commute: "compare_double a b = compare_double b a"
  by (cases a; cases b) (auto simp: compare_double_def abs_minus_commute max.commute)

lemma compare_commute:
  "compare_items cs a b = compare_items cs b a" "compare_elements cs xs ys = compare_elements cs ys xs"
  "members_found cs zs d = members_found cs zs d"
proof (induction cs a b and cs xs ys and cs zs d rule: compare_items_compare_elements_members_found.induct)
  case (1 cs a b)
  then show ?case
    unfolding compare_items.simps [of cs a b] compare_items.simps [of cs b a]
    by (auto simp: compare_double_commute Let_def split: option.splits)
qed auto

section \<open>Items that compare equal\<close>

fun names_apart :: "bool \<Rightarrow> cJSON list \<Rightarrow> bool" where
  "names_apart cs [] = True"
| "names_apart cs (c # xs) \<longleftrightarrow> item_string c \<noteq> None \<and>
     (\<forall>x \<in> set xs. other_name cs (the (item_string x)) (item_string c)) \<and> names_apart cs xs"

lemma members_found_iff:
  "members_found cs xs b \<longleftrightarrow> (\<forall>x \<in> set xs. \<exists>y. get_object_item (Some b) (item_string x) cs = Some y \<and> compare_items cs x y)"
  by (induction xs) (auto split: option.splits)

lemma find_own_name: "names_apart cs xs \<Longrightarrow> x \<in> set xs \<Longrightarrow> item_string x \<noteq> None \<and> find_item cs (the (item_string x)) xs = Some x"
  by (induction xs) (auto simp: other_name_def case_insensitive_equal_def)

lemma get_own_name:
  assumes "names_apart cs (item_child ob)" and "j < length (item_child ob)"
  shows "get_object_item (Some ob) (item_string (item_child ob ! j)) cs = Some (item_child ob ! j)"
  using find_own_name [OF assms(1), of "item_child ob ! j"] assms(2) by (auto simp: get_object_item_def)

lemma names_apart_cong: "map item_string xs = map item_string ys \<Longrightarrow> names_apart cs xs = names_apart cs ys"
proof (induction xs arbitrary: ys)
  case (Cons x xs)
  then obtain y ys' where y: "ys = y # ys'" "item_string x = item_string y" "map item_string xs = map item_string ys'" by auto
  have "(\<forall>x \<in> set xs. P (item_string x)) = (\<forall>x \<in> set ys'. P (item_string x))" for P
    using arg_cong [OF y(3), of "list_all P"] by (simp add: list_all_iff)
  from this [of "\<lambda>st. other_name cs (the st) (item_string y)"] Cons.IH [OF y(3)] y(1,2)
  show ?case by simp
qed simp

text \<open>Two items of the same shape and values, with no NaN and no infinity, and strings present.\<close>

fun alike :: "bool \<Rightarrow> cJSON \<Rightarrow> cJSON \<Rightarrow> bool" where
  "alike cs (CJSON t vs vi vd st ch) b \<longleftrightarrow>
     (let k = t AND 0xFF in
      item_type b AND 0xFF = k \<and> comparable k \<and>
      (k = cJSON_Number \<longrightarrow> (\<exists>q. vd = Finite q) \<and> item_valuedouble b = vd) \<and>
      (k = cJSON_String \<or> k = cJSON_Raw \<longrightarrow> vs \<noteq> None \<and> item_valuestring b = vs) \<and>
      (k = cJSON_Array \<or> k = cJSON_Object \<longrightarrow> list_all2 (alike cs) ch (item_child b)) \<and>
      (k = cJSON_Object \<longrightarrow> map item_string (item_child b) = map item_string ch \<and> names_apart cs ch))"

lemma compare_elements_all2: "list_all2 (compare_items cs) xs ys \<Longrightarrow> compare_elements cs xs ys"
  by (induction rule: list_all2_induct) simp_all

lemma compare_double_same: "compare_double (Finite q) (Finite q)"
proof -
  have pos: "double_le (Finite 0) (round_double r)" if "0 \<le> r" for r
  proof (cases "r = 0")
    case False
    define e where "e = max (binary_exponent \<bar>r\<bar>) (- 1022)"
    have "0 \<le> scale2 (52 - e) \<bar>r\<bar>" by (simp add: scale2_powi)
    then have "0 \<le> \<lfloor>scale2 (52 - e) \<bar>r\<bar>\<rfloor>" by simp
    then have "0 \<le> round_half_even (scale2 (52 - e) \<bar>r\<bar>)"
      unfolding round_half_even_def Let_def by auto
    then have "0 \<le> scale2 (e - 52) (of_int (round_half_even (scale2 (52 - e) \<bar>r\<bar>)))"
      by (simp add: scale2_powi)
    then show ?thesis using that False by (simp add: round_double_def Let_def e_def)
  qed (simp add: round_double_def)
  have "round_double 0 = Finite 0" by (simp add: round_double_def)
  then show ?thesis using pos [of "\<bar>q\<bar> * DBL_EPSILON"] by (simp add: compare_double_def DBL_EPSILON_def)
qed

lemma alike_compare: "alike cs a b \<Longrightarrow> compare_items cs a b"
proof (induction a arbitrary: b)
  case (CJSON t vs vi vd st ch)
  let ?a = "CJSON t vs vi vd st ch"
  let ?k = "t AND 0xFF"
  have k: "item_type b AND 0xFF = ?k" "comparable ?k" using CJSON.prems by (simp_all add: Let_def)
  have IH: "list_all2 (compare_items cs) ch (item_child b)" if "?k = cJSON_Array \<or> ?k = cJSON_Object"
  proof -
    have "list_all2 (alike cs) ch (item_child b)" using CJSON.prems that by (auto simp: Let_def)
    then show ?thesis using CJSON.IH by (auto simp: list_all2_conv_all_nth)
  qed
  have members: "members_found cs ch b \<and> members_found cs (item_child b) ?a" if "?k = cJSON_Object"
  proof -
    have names: "map item_string (item_child b) = map item_string ch" "names_apart cs ch"
      using CJSON.prems that by (simp_all add: Let_def)
    have names': "names_apart cs (item_child b)" using names_apart_cong [OF names(1)] names(2) by simp
    have l: "length (item_child b) = length ch" using IH that by (simp add: list_all2_lengthD)
    have s: "item_string (item_child b ! j) = item_string (ch ! j)" if "j < length ch" for j
      using names(1) that l by (metis nth_map)
    have one: "compare_items cs (ch ! j) (item_child b ! j)" if "j < length ch" for j
      using IH that \<open>?k = cJSON_Object\<close> by (simp add: list_all2_conv_all_nth)
    have "\<exists>y. get_object_item (Some b) (item_string (ch ! j)) cs = Some y \<and> compare_items cs (ch ! j) y"
      if "j < length ch" for j
      using get_own_name [OF names', of j] one [OF that] s [OF that] that l by auto
    moreover have "\<exists>y. get_object_item (Some ?a) (item_string (item_child b ! j)) cs = Some y \<and>
        compare_items cs (item_child b ! j) y" if "j < length ch" for j
      using get_own_name [of cs ?a j] names(2) one [OF that] s [OF that] that compare_commute(1) by auto
    ultimately show ?thesis using l by (auto simp: members_found_iff in_set_conv_nth)
  qed
  show ?case
  proof (cases "?k = cJSON_Object")
    case True
    then show ?thesis using members k by (simp add: compare_items.simps item_types)
  next
    case False
    then show ?thesis using CJSON.prems k IH compare_double_same
      by (auto simp: compare_items.simps [of cs ?a b] Let_def compare_elements_all2)
  qed
qed

section \<open>Duplicates\<close>

text \<open>The copy owns everything below it.\<close>

fun owned_copy :: "cJSON \<Rightarrow> cJSON" where
  "owned_copy (CJSON t vs vi vd st ch) = CJSON (t AND NOT cJSON_IsReference) vs vi vd st (map owned_copy ch)"

lemma copy_string_nil [simp]: "copy_string shared s [] = (True, [])"
  by (simp add: copy_string_def cJSON_strdup_def allocate_def split: option.splits)

lemma duplicate_owned:
  "fst (duplicate b it oks) \<noteq> None \<Longrightarrow> b \<Longrightarrow> fst (duplicate b it oks) = Some (owned_copy it)"
  "fst (duplicate_list cs oks) \<noteq> None \<Longrightarrow> fst (duplicate_list cs oks) = Some (map owned_copy cs)"
  by (induction b it oks and cs oks rule: duplicate_duplicate_list.induct)
    (auto simp: Let_def split: prod.splits if_splits option.splits)

lemma duplicate_succeeds:
  "b \<Longrightarrow> oks = [] \<Longrightarrow> duplicate b it oks = (Some (owned_copy it), [])"
  "oks = [] \<Longrightarrow> duplicate_list cs oks = (Some (map owned_copy cs), [])"
  by (induction b it oks and cs oks rule: duplicate_duplicate_list.induct)
    (auto simp: Let_def allocate_def)

lemma flag_bits:
  "(t AND NOT cJSON_IsReference) AND 0xFF = t AND (0xFF :: i32)"
  "(t AND NOT cJSON_IsReference) AND cJSON_IsReference = 0"
proof -
  have "NOT cJSON_IsReference AND 0xFF = (0xFF :: i32)" by (simp add: cJSON_IsReference_def)
  then show "(t AND NOT cJSON_IsReference) AND 0xFF = t AND (0xFF :: i32)" by (simp add: and.assoc)
  show "(t AND NOT cJSON_IsReference) AND cJSON_IsReference = 0" by (simp add: and.assoc)
qed

lemma owned_copy_simps [simp]: "item_string (owned_copy it) = item_string it"
  by (cases it) simp

lemma owner_owned_copy: "owner (owned_copy it)"
  by (induction it) (simp add: flag_bits list_all_iff)

lemma alike_owned_copy: "alike cs it it \<Longrightarrow> alike cs it (owned_copy it)"
proof (induction it)
  case (CJSON t vs vi vd st ch)
  have "list_all2 (alike cs) ch (map owned_copy ch)" if "list_all2 (alike cs) ch ch"
    using that CJSON.IH by (auto simp: list_all2_conv_all_nth)
  moreover have "map (item_string \<circ> owned_copy) ch = map item_string ch" by simp
  ultimately show ?case using CJSON.prems by (auto simp: Let_def flag_bits)
qed

text \<open>No comparison can tell the copy from the item.\<close>

lemma owned_copy_fields [simp]:
  "item_type (owned_copy it) AND 0xFF = item_type it AND 0xFF" "item_valuestring (owned_copy it) = item_valuestring it"
  "item_valuedouble (owned_copy it) = item_valuedouble it" "item_child (owned_copy it) = map owned_copy (item_child it)"
  by (cases it; simp add: flag_bits)+

lemma find_item_owned: "find_item cs name (map owned_copy xs) = map_option owned_copy (find_item cs name xs)"
  by (induction xs) auto

lemma get_item_owned:
  "get_object_item (Some (owned_copy b)) name cs = map_option owned_copy (get_object_item (Some b) name cs)"
  by (auto simp: get_object_item_def find_item_owned split: option.splits)

lemma compare_owned:
  "compare_items cs a (owned_copy b) = compare_items cs a b \<and> compare_items cs (owned_copy a) b = compare_items cs a b"
  "compare_elements cs xs (map owned_copy ys) = compare_elements cs xs ys \<and>
   compare_elements cs (map owned_copy xs) ys = compare_elements cs xs ys"
  "members_found cs zs (owned_copy d) = members_found cs zs d \<and>
   members_found cs (map owned_copy zs) d = members_found cs zs d"
proof (induction cs a b and cs xs ys and cs zs d rule: compare_items_compare_elements_members_found.induct)
  case (1 cs a b)
  show ?case
    unfolding compare_items.simps [of cs a "owned_copy b"] compare_items.simps [of cs "owned_copy a" b]
      compare_items.simps [of cs a b] owned_copy_fields
    using 1 by (simp add: Let_def)
qed (auto simp: get_item_owned split: option.splits)

section \<open>Arrays of numbers\<close>

definition int_item :: "i32 \<Rightarrow> cJSON" where
  "int_item x = CJSON cJSON_Number None x (Finite (of_int (sint x))) None []"

lemma create_int_items:
  "i + n = length xs \<Longrightarrow>
   create_items (\<lambda>i oks. and_then (read_element xs i) (\<lambda>x.
       cJSON_CreateNumber (Finite (of_int (sint x))) oks)) n i a [] =
     Inr (Some (set_child (item_child a @ map int_item (drop i xs)) a), [])"
proof (induction n arbitrary: i a)
  case 0
  then show ?case by (simp add: set_child_simps)
next
  case (Suc n)
  then have "drop i xs = xs ! i # drop (Suc i) xs" by (intro Cons_nth_drop_Suc [symmetric]) simp
  moreover have "cJSON_CreateNumber (Finite (of_int (sint (xs ! i)))) [] = Inr (Some (int_item (xs ! i)), [])"
    using saturated_sint [of "xs ! i"]
    by (simp add: cJSON_CreateNumber_def cJSON_New_Item_def allocate_def zero_item_def int_item_def)
  ultimately show ?case
    using Suc.prems Suc.IH [of "Suc i"] by (simp add: read_element_def set_child_simps)
qed

lemma nth_item_nth: "i < length cs \<Longrightarrow> nth_item cs i = Some (cs ! i)"
  by (induction cs i rule: nth_item.induct) simp_all

section \<open>Properties\<close>

text \<open>
  C22. Duplicates. Whatever allocations fail, duplicating an item gives NULL or a copy of the whole
  tree in which nothing is a reference, so that deleting it frees all of it; with memory
  available it gives the copy. The copy cannot be told from the item by a comparison: it compares
  equal to exactly those items, in either mode, that the item compares equal to. An item need not
  compare equal to itself, and then it does not to its copy; it does if it has no infinite or NaN
  number, no missing string, and different names in every object.
\<close>

theorem duplicate_is_equal_copy:
  shows "fst (cJSON_Duplicate (Some it) True oks) \<in> {None, Some (owned_copy it)} \<and>
    cJSON_Duplicate (Some it) True [] = (Some (owned_copy it), []) \<and> owner (owned_copy it) \<and>
    cJSON_Compare False x (Some (owned_copy it)) cs = cJSON_Compare False x (Some it) cs \<and>
    (alike cs it it \<longrightarrow> cJSON_Compare False (Some it) (Some (owned_copy it)) cs)"
proof -
  have "cJSON_Compare False x (Some (owned_copy it)) cs = cJSON_Compare False x (Some it) cs" for x
    using compare_owned(1) by (simp add: cJSON_Compare_def split: option.split)
  moreover have "cJSON_Compare False (Some it) (Some it) cs" if "alike cs it it"
    using alike_compare [OF that] that by (cases it) (auto simp: cJSON_Compare_def Let_def)
  ultimately show ?thesis
    using duplicate_owned(1) [of True it oks] duplicate_succeeds(1) [of True "[]" it] owner_owned_copy
    by (cases "fst (duplicate True it oks)") (auto simp: cJSON_Duplicate_def)
qed

lemma nested_item_alike: "alike True nested_item nested_item"
  by (simp add: nested_item_def item_types comparable_def other_name_def)

lemma duplicate_is_equal_copy_witness:
  "cJSON_Compare False (Some nested_item) (Some (owned_copy nested_item)) True"
  using duplicate_is_equal_copy [of nested_item "[]" None True] nested_item_alike by blast

lemma alike_parsed:
  "alike cs it it \<Longrightarrow> json_value d it \<Longrightarrow> alike cs it (parsed_as name it)"
proof (induction it arbitrary: d name)
  case (CJSON t vs vi vd st ch)
  let ?k = "t AND 0xFF"
  have k: "?k AND 0xFF = ?k" by simp
  have IH: "alike cs (ch ! j) (parsed_as nm (ch ! j))"
    if "?k = cJSON_Array \<or> ?k = cJSON_Object" "j < length ch" for j nm
  proof (rule CJSON.IH)
    show "alike cs (ch ! j) (ch ! j)" using CJSON.prems(1) that by (auto simp: Let_def list_all2_conv_all_nth)
    show "json_value (d + 1) (ch ! j)" using CJSON.prems(2) that by (auto simp: Let_def list_all_iff item_types)
  qed (use that in simp)
  have arr: "list_all2 (alike cs) ch (map (parsed_as None) ch)" if "?k = cJSON_Array"
    using IH that by (simp add: list_all2_conv_all_nth)
  have obj: "list_all2 (alike cs) ch (map (\<lambda>c. parsed_as (Some (text_of (item_string c))) c) ch)"
    if "?k = cJSON_Object"
    using IH that by (simp add: list_all2_conv_all_nth)
  have name: "item_string (parsed_as nm c) = nm" for nm c by (cases c) (simp add: Let_def)
  have some: "Some (text_of (item_string c)) = item_string c" if "names_apart cs ch" "c \<in> set ch" for c
  proof -
    have "item_string c \<noteq> None" using find_own_name [OF that] by blast
    then show ?thesis by (auto simp: text_of_def)
  qed
  have names: "map item_string (map (\<lambda>c. parsed_as (Some (text_of (item_string c))) c) ch) = map item_string ch"
    if "?k = cJSON_Object"
  proof -
    have "names_apart cs ch" using CJSON.prems(1) that by (simp add: Let_def)
    from some [OF this] show ?thesis by (simp add: name)
  qed
  consider "?k = cJSON_Number" | "?k = cJSON_String" | "?k = cJSON_Array" | "?k = cJSON_Object"
    | "?k \<in> {cJSON_NULL, cJSON_False, cJSON_True}"
    using CJSON.prems(2) by (auto simp: Let_def)
  then show ?case
  proof cases
    case 1
    then show ?thesis using CJSON.prems(1) by (simp add: Let_def k item_types)
  next
    case 2
    then show ?thesis using CJSON.prems(1) by (auto simp: Let_def k item_types text_of_def)
  next
    case 3
    then show ?thesis using CJSON.prems(1) arr by (simp add: Let_def k item_types)
  next
    case 4
    then show ?thesis using CJSON.prems(1) obj names by (simp add: Let_def k item_types del: map_map)
  next
    case 5
    then show ?thesis using CJSON.prems(1) by (auto simp: Let_def k item_types)
  qed
qed

text \<open>
  The text of an item stands for the item: printed in either format and parsed again, a JSON
  value whose strings are present and whose objects have different names compares equal to the
  item the parser builds, although the two differ in flags and addresses.
\<close>

lemma reparsed_compares_equal:
  assumes "json_value 0 it" and "clean_item it" and "int (length (json_text fmt 0 it) + 2) \<le> INT_MAX"
    and "alike cs it it"
  shows "\<exists>text it'. print_item junk reallocate (Some it) fmt [] = Inr (Some text, []) \<and>
    cJSON_ParseWithLengthOpts text (length text) True [] = Some (Inr (Some it', length text - 1)) \<and>
    cJSON_Compare False (Some it) (Some it') cs"
proof -
  obtain out where "print_item junk reallocate (Some it) fmt [] = Inr (Some out, [])"
    "cJSON_ParseWithLengthOpts out (length out) True [] = Some (Inr (Some (parsed_as None it), length out - 1))"
    using print_parse_text [OF assms(1-3), of junk reallocate] by blast
  moreover have a: "alike cs it (parsed_as None it)" by (rule alike_parsed [OF assms(4,1)])
  then have "cJSON_Compare False (Some it) (Some (parsed_as None it)) cs"
    using alike_compare [OF a] by (cases it) (auto simp: cJSON_Compare_def Let_def)
  ultimately show ?thesis by blast
qed

lemma reparsed_compares_equal_witness:
  "\<exists>text it'. print_item (\<lambda>_. CHR ''?'') True (Some nested_item) False [] = Inr (Some text, []) \<and>
    cJSON_ParseWithLengthOpts text (length text) True [] = Some (Inr (Some it', length text - 1)) \<and>
    cJSON_Compare False (Some nested_item) (Some it') True"
proof -
  have "int (length (json_text False 0 nested_item) + 2) \<le> INT_MAX" by code_simp
  then show ?thesis
    using reparsed_compares_equal [OF nested_item_ok _ nested_item_alike] by blast
qed

text \<open>
  Arrays of ints. With memory available the array built from \<open>n\<close> ints has \<open>n\<close> elements, and the
  element at each index is a number with exactly this int value and the same value as a double.
\<close>

lemma int_array_items:
  assumes "length xs < 2 ^ 31"
  shows "\<exists>a. cJSON_CreateIntArray (Some xs) (word_of_nat (length xs)) [] = Inr (Some a, []) \<and>
    cJSON_IsArray (Some a) \<and> cJSON_GetArraySize (Some a) = word_of_nat (length xs) \<and>
    (\<forall>i < length xs. \<exists>it. cJSON_GetArrayItem (Some a) (word_of_nat i) = Some it \<and> cJSON_IsNumber (Some it) \<and>
       item_valueint it = xs ! i \<and> item_valuedouble it = Finite (of_int (sint (xs ! i))))"
proof -
  let ?a = "set_child (map int_item xs) (set_type cJSON_Array zero_item)"
  have "unat (word_of_nat (length xs) :: i32) = length xs" using assms by (simp add: unat_of_nat)
  then have "cJSON_CreateIntArray (Some xs) (word_of_nat (length xs)) [] = Inr (Some ?a, [])"
    using create_int_items [of 0 "length xs" xs "CJSON cJSON_Array None 0 (Finite 0) None []"] index_of_nat(1) [OF assms]
    by (simp add: cJSON_CreateIntArray_def create_array_of_def cJSON_CreateArray_def create_typed_def
        cJSON_New_Item_def allocate_def zero_item_def)
  moreover have "cJSON_IsArray (Some ?a)" "cJSON_GetArraySize (Some ?a) = word_of_nat (length xs)"
    by (simp_all add: cJSON_IsArray_def has_type_def cJSON_GetArraySize_def item_types)
  moreover have "cJSON_GetArrayItem (Some ?a) (word_of_nat i) = Some (int_item (xs ! i))" if "i < length xs" for i
    using index_of_nat [of i] that assms by (simp add: cJSON_GetArrayItem_def get_array_item_def nth_item_nth)
  ultimately show ?thesis
    by (auto simp: int_item_def cJSON_IsNumber_def has_type_def item_types)
qed

lemma int_array_items_witness:
  "\<exists>a it. cJSON_CreateIntArray (Some [7, - 1]) 2 [] = Inr (Some a, []) \<and>
     cJSON_GetArrayItem (Some a) 1 = Some it \<and> item_valueint it = - 1"
proof -
  obtain a where a: "cJSON_CreateIntArray (Some [7, - 1]) (word_of_nat (length [7, - 1 :: i32])) [] = Inr (Some a, [])"
    "\<forall>i < length [7, - 1 :: i32]. \<exists>it. cJSON_GetArrayItem (Some a) (word_of_nat i) = Some it \<and>
       cJSON_IsNumber (Some it) \<and> item_valueint it = [7, - 1] ! i \<and>
       item_valuedouble it = Finite (of_int (sint ([7, - 1 :: i32] ! i)))"
    using int_array_items [of "[7, - 1]"] by auto
  from a(2) [rule_format, of 1] a(1) show ?thesis by auto
qed

text \<open>An object with two members of the same name does not compare equal to its copy.\<close>

lemma same_names_unequal:
  "\<not> cJSON_Compare False (Some (CJSON cJSON_Object None 0 (Finite 0) None
     [CJSON cJSON_True None 0 (Finite 0) (Some ''a'') [], CJSON cJSON_False None 0 (Finite 0) (Some ''a'') []]))
   (Some (owned_copy (CJSON cJSON_Object None 0 (Finite 0) None
     [CJSON cJSON_True None 0 (Finite 0) (Some ''a'') [], CJSON cJSON_False None 0 (Finite 0) (Some ''a'') []]))) True"
  by (simp add: cJSON_Compare_def compare_items.simps item_types comparable_def cJSON_IsReference_def get_object_item_def)

text \<open>An infinite number, which the parser makes of 1e999, compares equal to every finite one.\<close>

lemma infinity_equals_everything:
  "cJSON_Compare False (Some (CJSON cJSON_Number None 2147483647 (Infinity False) None []))
     (Some (CJSON cJSON_Number None vi (Finite q) None [])) cs"
  by (simp add: cJSON_Compare_def compare_items.simps item_types comparable_def compare_double_def)

text \<open>Setting the string of an item without one follows a NULL pointer.\<close>

lemma set_missing_string_faults:
  assumes "item_type it AND cJSON_String \<noteq> 0" and "item_type it AND cJSON_IsReference = 0" and "item_valuestring it = None"
  shows "cJSON_SetValuestring it s oks = Inl InvalidPointer"
  using assms by (simp add: cJSON_SetValuestring_def)

end
