(* ===== verification/CJson_Hooks.thy ===== *)
theory CJson_Hooks
  imports CJson_Parse_Safety
begin

text \<open>
  The global state of lib/c_json.c: the hooks by which it takes and gives back memory, and the
  error position of the last parse. A function pointer is the name of the function; \<open>Other\<close> are
  the functions of the caller. The parameter of the printer that says whether there is a realloc is
  \<open>hook_reallocate g \<noteq> None\<close> of the hooks \<open>g\<close>.
\<close>

section \<open>Hooks\<close>

datatype memory_fn = Libc_malloc | Libc_free | Libc_realloc | Other nat

record internal_hooks =
  hook_allocate :: memory_fn
  hook_deallocate :: memory_fn
  hook_reallocate :: "memory_fn option"

record cJSON_Hooks =
  malloc_fn :: "memory_fn option"
  free_fn :: "memory_fn option"

definition initial_hooks :: internal_hooks where
  "initial_hooks =
     \<lparr>hook_allocate = Libc_malloc, hook_deallocate = Libc_free, hook_reallocate = Some Libc_realloc\<rparr>"

text \<open>A pointer that is NULL is \<open>None\<close>. The hooks set before have no effect on the new ones.\<close>

definition cJSON_InitHooks :: "cJSON_Hooks option \<Rightarrow> internal_hooks \<Rightarrow> internal_hooks" where
  "cJSON_InitHooks hooks g =
     (case hooks of
        None \<Rightarrow> g\<lparr>hook_allocate := Libc_malloc, hook_deallocate := Libc_free, hook_reallocate := Some Libc_realloc\<rparr>
      | Some hs \<Rightarrow>
          let g1 = g\<lparr>hook_allocate := (case malloc_fn hs of None \<Rightarrow> Libc_malloc | Some f \<Rightarrow> f)\<rparr>;
              g2 = g1\<lparr>hook_deallocate := (case free_fn hs of None \<Rightarrow> Libc_free | Some f \<Rightarrow> f)\<rparr> in
          g2\<lparr>hook_reallocate :=
            (if hook_allocate g2 = Libc_malloc \<and> hook_deallocate g2 = Libc_free then Some Libc_realloc else None)\<rparr>)"

text \<open>
  Memory is always given back by the partner of the function it came from: realloc is there
  exactly when malloc and free are those of the C library, whatever is set in whatever order.
\<close>

lemma hooks_fit:
  assumes "g = foldl (\<lambda>g hs. cJSON_InitHooks hs g) initial_hooks calls"
  shows "hook_reallocate g = (if hook_allocate g = Libc_malloc \<and> hook_deallocate g = Libc_free
    then Some Libc_realloc else None)"
  using assms
  by (cases calls rule: rev_cases)
    (auto simp: initial_hooks_def cJSON_InitHooks_def Let_def split: option.splits)

lemma hooks_forgotten: "cJSON_InitHooks hs (cJSON_InitHooks hs' g) = cJSON_InitHooks hs g"
  by (auto simp: cJSON_InitHooks_def Let_def split: option.splits)

lemma hooks_reset: "cJSON_InitHooks None (foldl (\<lambda>g hs. cJSON_InitHooks hs g) initial_hooks calls) = initial_hooks"
  by (simp add: cJSON_InitHooks_def initial_hooks_def)

section \<open>The error of the last parse\<close>

text \<open>\<open>json\<close> is NULL or the text that was parsed.\<close>

record error =
  error_json :: "block option"
  position :: nat

definition no_error :: error where
  "no_error = \<lparr>error_json = None, position = 0\<rparr>"

text \<open>
  What a call of \<open>cJSON_ParseWithLengthOpts\<close> leaves in \<open>global_error\<close>, where the text is not NULL.
  On success it is reset.
\<close>

definition parse_leaves ::
  "block \<Rightarrow> nat \<Rightarrow> bool \<Rightarrow> allocs \<Rightarrow> (cJSON option \<times> error) result option" where
  "parse_leaves val buffer_length require_null_terminated oks =
     map_option (\<lambda>r. and_then r (\<lambda>(item, p). Inr (item,
       case item of None \<Rightarrow> \<lparr>error_json = Some val, position = p\<rparr> | Some _ \<Rightarrow> no_error)))
     (cJSON_ParseWithLengthOpts val buffer_length require_null_terminated oks)"

text \<open>The rest of the text at the error; \<open>None\<close> is NULL.\<close>

definition cJSON_GetErrorPtr :: "error \<Rightarrow> block option" where
  "cJSON_GetErrorPtr e = map_option (drop (position e)) (error_json e)"

text \<open>
  After a parse as the service does it the error pointer is NULL if there is an item, and
  otherwise points into the text, before its end.
\<close>

lemma error_points_inside:
  assumes "0 < n" and "n \<le> length bytes" and "bytes ! (n - 1) = NUL"
  shows "\<exists>item e. parse_leaves bytes n require_null_terminated oks = Some (Inr (item, e)) \<and>
    (case item of
       Some _ \<Rightarrow> cJSON_GetErrorPtr e = None
     | None \<Rightarrow> \<exists>p < n. cJSON_GetErrorPtr e = Some (drop p bytes))"
proof -
  obtain item p where "cJSON_ParseWithLengthOpts bytes n require_null_terminated oks = Some (Inr (item, p))" "p < n"
    using parse_inside [OF assms] by blast
  then show ?thesis
    by (cases item) (auto simp: parse_leaves_def cJSON_GetErrorPtr_def no_error_def)
qed

section \<open>The version\<close>

definition CJSON_VERSION_MAJOR :: nat where "CJSON_VERSION_MAJOR = 1"
definition CJSON_VERSION_MINOR :: nat where "CJSON_VERSION_MINOR = 7"
definition CJSON_VERSION_PATCH :: nat where "CJSON_VERSION_PATCH = 16"

text \<open>\<open>sprintf\<close> into a static array of 15 bytes.\<close>

definition cJSON_Version :: "block result" where
  "cJSON_Version =
     put_bytes (calloc 15) 0 (lit (show_nat CJSON_VERSION_MAJOR @ ''.'' @ show_nat CJSON_VERSION_MINOR @ ''.'' @
       show_nat CJSON_VERSION_PATCH))"

lemma version_fits: "and_then cJSON_Version (\<lambda>b. c_string b 0) = Inr ''1.7.16''"
  by code_simp

end
