(* ===== verification/Utils_Files.thy ===== *)
theory Utils_Files
  imports Handler_Loop
begin

text \<open>
  The two functions of lib/utils.c that cut a text into lines and read a file into memory.
  The service does not call them. \<open>junk\<close> is what fresh memory holds.
\<close>

section \<open>Lines\<close>

text \<open>
  \<open>strtok_r\<close> with the delimiter \<open>\n\<close>, from the position it has saved: the token and the next
  position. It reads up to the delimiter behind the token or the end of the string. \<open>None\<close> is
  NULL.
\<close>

definition strtok_r :: "block \<Rightarrow> nat \<Rightarrow> (string \<times> nat) option result" where
  "strtok_r b p =
     (let start = dropWhile (\<lambda>c. c = LF) (drop p b);
          token = takeWhile (\<lambda>c. c \<noteq> LF \<and> c \<noteq> NUL) start;
          stop = drop (length token) start
      in case stop of
           [] \<Rightarrow> Inl OutOfBounds
         | c # _ \<Rightarrow>
             if token = [] then Inr None
             else Inr (Some (token, length b - length stop + (if c = LF then 1 else 0))))"

lemma strtok_r_proceeds:
  assumes "strtok_r b p = Inr (Some (token, q))" and "p \<le> length b"
  shows "p < q \<and> q \<le> length b"
proof -
  let ?start = "dropWhile (\<lambda>c. c = LF) (drop p b)"
  let ?tok = "takeWhile (\<lambda>c. c \<noteq> LF \<and> c \<noteq> NUL) ?start"
  have len: "length ?tok \<le> length ?start" by (rule length_takeWhile_le)
  have "length ?start \<le> length b - p" using length_dropWhile_le [of "\<lambda>c. c = LF" "drop p b"] by simp
  moreover have "0 < length ?tok \<and> length ?tok < length ?start \<and>
      length b - (length ?start - length ?tok) \<le> q \<and> q \<le> length b - (length ?start - length ?tok) + 1"
    using assms(1) by (auto simp: strtok_r_def Let_def split: list.splits if_splits dest: arg_cong [where f = length])
  ultimately show ?thesis using len assms(2) by linarith
qed

text \<open>
  The loop, with the tokens of the lines that are left. \<open>lines[i]\<close> is written behind the array
  if there are more lines than \<open>lines_num\<close>; each line is copied without a terminator.
\<close>

function lines_loop :: "(nat \<Rightarrow> char) \<Rightarrow> block \<Rightarrow> nat \<Rightarrow> nat \<Rightarrow> string \<Rightarrow> nat \<Rightarrow> block list result" where
  "lines_loop junk copy lines_num i part p =
     (if lines_num \<le> i then Inl OutOfBounds
      else
        and_then (strncpy (malloc junk (length part)) 0 (lit part) 0 (length part)) (\<lambda>line.
        case strtok_r copy p of
          Inl e \<Rightarrow> Inl e
        | Inr None \<Rightarrow> Inr [line]
        | Inr (Some (next_part, q)) \<Rightarrow>
            and_then (lines_loop junk copy lines_num (i + 1) next_part q) (\<lambda>rest. Inr (line # rest))))"
  by pat_completeness auto
termination by (relation "measure (\<lambda>(junk, copy, lines_num, i, part, p). lines_num - i)") auto

declare lines_loop.simps [simp del]

text \<open>The filled part of the array. The first \<open>part\<close> is not tested for NULL.\<close>

definition bytes_to_lines :: "(nat \<Rightarrow> char) \<Rightarrow> block \<Rightarrow> nat \<Rightarrow> nat \<Rightarrow> block list result" where
  "bytes_to_lines junk bytes byte_len lines_num =
     and_then (strncpy (malloc junk byte_len) 0 bytes 0 byte_len) (\<lambda>copy.
     and_then (strtok_r copy 0) (\<lambda>r.
       case r of
         None \<Rightarrow> Inl InvalidPointer
       | Some (part, p) \<Rightarrow> lines_loop junk copy lines_num 0 part p))"

text \<open>The lines of a text, without the empty ones.\<close>

function split_lines :: "string \<Rightarrow> string list" where
  "split_lines s =
     (let start = dropWhile (\<lambda>c. c = LF) s in
      if start = [] then []
      else takeWhile (\<lambda>c. c \<noteq> LF) start # split_lines (dropWhile (\<lambda>c. c \<noteq> LF) start))"
  by pat_completeness auto
termination
proof (relation "measure length", simp)
  fix s :: string and start assume s: "start = dropWhile (\<lambda>c. c = LF) s" "start \<noteq> []"
  then have "hd start \<noteq> LF" using hd_dropWhile [of "\<lambda>c. c = LF" s] by simp
  with s(2) have "length (dropWhile (\<lambda>c. c \<noteq> LF) start) < length start"
    by (cases start) (simp_all add: le_imp_less_Suc length_dropWhile_le)
  then show "(dropWhile (\<lambda>c. c \<noteq> LF) start, s) \<in> measure length"
    using s(1) length_dropWhile_le [of "\<lambda>c. c = LF" s] by simp
qed

declare split_lines.simps [simp del]

lemma split_lines_newline: "split_lines (LF # s) = split_lines s"
  by (subst (1 2) split_lines.simps) simp

lemma split_lines_none: "split_lines s = [] \<longleftrightarrow> dropWhile (\<lambda>c. c = LF) s = []"
  by (subst split_lines.simps) (simp add: Let_def)

lemma token_end:
  "NUL \<notin> set u \<Longrightarrow> takeWhile (\<lambda>c. c \<noteq> LF \<and> c \<noteq> NUL) (u @ NUL # r) = takeWhile (\<lambda>c. c \<noteq> LF) u"
  by (induction u) auto

lemma strtok_r_eq:
  assumes "dropWhile (\<lambda>c. c = LF) (drop p b) = start" and "takeWhile (\<lambda>c. c \<noteq> LF \<and> c \<noteq> NUL) start = token"
    and "drop (length token) start = c # rest"
  shows "strtok_r b p = (if token = [] then Inr None
    else Inr (Some (token, length b - length (c # rest) + (if c = LF then 1 else 0))))"
  using assms by (simp add: strtok_r_def Let_def)

text \<open>One call takes the first line of what is left.\<close>

lemma strtok_r_takes:
  assumes b: "b = a @ t @ NUL # r" and clean: "NUL \<notin> set t"
  shows "case split_lines t of
      [] \<Rightarrow> strtok_r b (length a) = Inr None
    | line # rest \<Rightarrow> \<exists>a' t'. strtok_r b (length a) = Inr (Some (line, length a')) \<and>
        b = a' @ t' @ NUL # r \<and> NUL \<notin> set t' \<and> split_lines t' = rest"
proof -
  let ?u = "dropWhile (\<lambda>c. c = LF) t"
  have start: "dropWhile (\<lambda>c. c = LF) (drop (length a) b) = ?u @ NUL # r"
    using b by (simp add: dropWhile_append)
  have u: "NUL \<notin> set ?u" using clean set_dropWhileD by fastforce
  have token: "takeWhile (\<lambda>c. c \<noteq> LF \<and> c \<noteq> NUL) (?u @ NUL # r) = takeWhile (\<lambda>c. c \<noteq> LF) ?u"
    by (rule token_end [OF u])
  show ?thesis
  proof (cases "?u = []")
    case True
    then have "split_lines t = []" by (simp only: split_lines_none)
    moreover have "strtok_r b (length a) = Inr None"
      using strtok_r_eq [OF start token, of NUL r] by (simp add: True)
    ultimately show ?thesis by simp
  next
    case False
    define tok v where tok_v: "tok = takeWhile (\<lambda>c. c \<noteq> LF) ?u" "v = dropWhile (\<lambda>c. c \<noteq> LF) ?u"
    have u: "?u = tok @ v" by (simp add: tok_v)
    have v: "v = [] \<or> hd v = LF" using hd_dropWhile [of "\<lambda>c. c \<noteq> LF" ?u] unfolding tok_v by blast
    have split: "split_lines t = tok # split_lines v"
      unfolding tok_v split_lines.simps [of t] Let_def if_not_P [OF False] by (rule refl)
    have "hd ?u \<noteq> LF" using hd_dropWhile [OF False] .
    then have tok: "tok \<noteq> []" using False tok_v(1) by (cases ?u) auto
    have stop: "drop (length tok) (?u @ NUL # r) = v @ NUL # r" by (simp add: u)
    obtain pre where t: "t = pre @ tok @ v" by (metis takeWhile_dropWhile_id u)
    note eq = strtok_r_eq [OF start token [folded tok_v(1)]]
    show ?thesis
    proof (cases v)
      case Nil
      have "strtok_r b (length a) = Inr (Some (tok, length (a @ t)))"
        using eq [of NUL r] stop tok b Nil by simp
      moreover have "b = (a @ t) @ [] @ NUL # r" using b by simp
      moreover have "split_lines [] = []" by (simp add: split_lines_none)
      ultimately show ?thesis unfolding split list.case Nil by (metis list.set_cases list.distinct(1))
    next
      case (Cons c w)
      then have c: "c = LF" using v by simp
      have "strtok_r b (length a) = Inr (Some (tok, length (a @ pre @ tok @ [LF])))"
        using eq [of LF "w @ NUL # r"] stop tok b t Cons c by simp
      moreover have "b = (a @ pre @ tok @ [LF]) @ w @ NUL # r" using b t Cons c by simp
      moreover have "NUL \<notin> set w" using clean t Cons by simp
      moreover have "split_lines v = split_lines w" using Cons c by (simp add: split_lines_newline)
      ultimately show ?thesis unfolding split list.case by metis
    qed
  qed
qed

lemma copy_line: "NUL \<notin> set part \<Longrightarrow> strncpy (malloc junk (length part)) 0 (lit part) 0 (length part) = Inr part"
  by (simp add: strncpy_def read_upto_lit put_bytes_def)

lemma takeWhile_set: "set (takeWhile P xs) \<subseteq> set xs" and dropWhile_set: "set (dropWhile P xs) \<subseteq> set xs"
  by (auto dest: set_takeWhileD set_dropWhileD)

lemma split_lines_clean: "line \<in> set (split_lines s) \<Longrightarrow> set line \<subseteq> set s \<and> line \<noteq> [] \<and> LF \<notin> set line"
proof (induction s rule: split_lines.induct)
  case (1 s)
  let ?start = "dropWhile (\<lambda>c. c = LF) s"
  show ?case
  proof (cases "?start = []")
    case True
    then have "split_lines s = []" by (simp only: split_lines_none)
    then show ?thesis using 1(2) by simp
  next
    case False
    have split: "split_lines s = takeWhile (\<lambda>c. c \<noteq> LF) ?start # split_lines (dropWhile (\<lambda>c. c \<noteq> LF) ?start)"
      unfolding split_lines.simps [of s] Let_def if_not_P [OF False] by (rule refl)
    define tok v where tok_v: "tok = takeWhile (\<lambda>c. c \<noteq> LF) ?start" "v = dropWhile (\<lambda>c. c \<noteq> LF) ?start"
    have start: "set ?start \<subseteq> set s" by (rule dropWhile_set)
    have sub: "set tok \<subseteq> set ?start" "set v \<subseteq> set ?start"
      unfolding tok_v by (rule takeWhile_set, rule dropWhile_set)
    have tok: "tok \<noteq> []" unfolding tok_v using hd_dropWhile [OF False] False by (cases ?start) auto
    have clean: "LF \<notin> set tok" unfolding tok_v using set_takeWhileD [of LF] by fastforce
    have "line = tok \<or> line \<in> set (split_lines v)" using 1(2) unfolding split tok_v by simp
    then show ?thesis
    proof
      assume "line = tok"
      then show ?thesis using sub(1) start tok clean by blast
    next
      assume "line \<in> set (split_lines v)"
      then have "set line \<subseteq> set v \<and> line \<noteq> [] \<and> LF \<notin> set line" using 1(1) [OF refl False] unfolding tok_v by blast
      then show ?thesis using sub(2) start by blast
    qed
  qed
qed

lemma lines_loop_splits:
  "b = a @ t @ NUL # r \<Longrightarrow> NUL \<notin> set t \<Longrightarrow> NUL \<notin> set part \<Longrightarrow> i + length (split_lines t) < lines_num \<Longrightarrow>
   lines_loop junk b lines_num i part (length a) = Inr (part # split_lines t)"
proof (induction "split_lines t" arbitrary: a t part i)
  case Nil
  then show ?case using strtok_r_takes [OF Nil.prems(1,2)] copy_line [OF Nil.prems(3)]
    by (subst lines_loop.simps) simp
next
  case (Cons line rest)
  obtain a' t' where next_line: "strtok_r b (length a) = Inr (Some (line, length a'))"
    "b = a' @ t' @ NUL # r" "NUL \<notin> set t'" "split_lines t' = rest"
    using strtok_r_takes [OF Cons.prems(1,2)] Cons.hyps(2) by (auto split: list.splits)
  have "line \<in> set (split_lines t)" using Cons.hyps(2) by (metis list.set_intros(1))
  then have "NUL \<notin> set line" using split_lines_clean Cons.prems(2) by blast
  moreover have "i + 1 + length rest < lines_num" using Cons.prems(4) Cons.hyps(2) [symmetric] by simp
  ultimately have "lines_loop junk b lines_num (i + 1) line (length a') = Inr (line # rest)"
    using Cons.hyps(1) [of t' a' line "i + 1"] next_line(2-4) by simp
  then show ?case using next_line(1) copy_line [OF Cons.prems(3)] Cons.prems(4) Cons.hyps(2) [symmetric]
    by (subst lines_loop.simps) simp
qed

text \<open>
  Lines. For a text that is terminated inside its bytes and has a line that is not empty, and an
  array large enough for these lines, the function gives exactly the lines of the text that are
  not empty, in order, each without a terminator.
\<close>

lemma bytes_to_lines_splits:
  assumes "NUL \<notin> set s" and "length s < n" and "split_lines s \<noteq> []" and "length (split_lines s) \<le> lines_num"
  shows "bytes_to_lines junk (s @ NUL # r) n lines_num = Inr (split_lines s)"
proof -
  have read: "read_upto (s @ NUL # r) 0 n = Inr s" using read_upto_terminated [OF assms(1)] assms(2) by simp
  obtain m where m: "n = length s + Suc m" using less_imp_Suc_add [OF assms(2)] by auto
  have copy: "strncpy (malloc junk n) 0 (s @ NUL # r) 0 n = Inr ([] @ s @ NUL # replicate m NUL)"
    using read by (simp add: strncpy_def put_bytes_def m)
  obtain line rest where lines: "split_lines s = line # rest" using assms(3) by (cases "split_lines s") auto
  obtain a' t' where first: "strtok_r (s @ NUL # replicate m NUL) 0 = Inr (Some (line, length a'))"
    "s @ NUL # replicate m NUL = a' @ t' @ NUL # replicate m NUL" "NUL \<notin> set t'" "split_lines t' = rest"
    using strtok_r_takes [of "s @ NUL # replicate m NUL" "[]" s "replicate m NUL"] assms(1) lines by auto
  have "NUL \<notin> set line" using split_lines_clean [of line s] lines assms(1) by auto
  then have "lines_loop junk (s @ NUL # replicate m NUL) lines_num 0 line (length a') = Inr (line # rest)"
    using lines_loop_splits [OF first(2,3), of line 0 lines_num junk] assms(4) lines first(4) by simp
  then show ?thesis using copy first(1) lines by (simp add: bytes_to_lines_def)
qed

text \<open>
  A text whose bytes hold no terminator is read past its copy, and one with empty lines only
  makes strlen follow a NULL pointer.
\<close>

lemma unterminated_text_overruns:
  assumes "bs \<noteq> []" and "NUL \<notin> set bs" and "LF \<notin> set bs"
  shows "bytes_to_lines junk bs (length bs) lines_num = Inl OutOfBounds"
proof -
  have "strncpy (malloc junk (length bs)) 0 bs 0 (length bs) = Inr bs"
    using assms(2) by (simp add: strncpy_def read_upto_def takeWhile_clean_all put_bytes_def)
  moreover have "strtok_r bs 0 = Inl OutOfBounds"
  proof -
    have "dropWhile (\<lambda>c. c = LF) bs = bs" using assms(1,3) by (cases bs) auto
    moreover have "takeWhile (\<lambda>c. c \<noteq> LF \<and> c \<noteq> NUL) bs = bs"
      using assms(2,3) by (auto simp: takeWhile_eq_all_conv)
    ultimately show ?thesis unfolding strtok_r_def drop_0 by (simp only: Let_def) simp
  qed
  ultimately show ?thesis by (simp add: bytes_to_lines_def)
qed

lemma no_line_follows_null:
  "bytes_to_lines junk (LF # NUL # r) 2 lines_num = Inl InvalidPointer"
  by (simp add: bytes_to_lines_def strtok_r_def strncpy_def read_upto_def put_bytes_def numeral_2_eq_2)

text \<open>
  What \<open>count_lines\<close> counts is the number of newlines; one line more is room enough.
\<close>

lemma strchr_finds:
  "NUL \<notin> set s \<Longrightarrow> strchr (a @ s @ NUL # r) (length a) LF =
    Inr (if LF \<in> set s then Some (length a + length (takeWhile (\<lambda>c. c \<noteq> LF) s)) else None)"
proof (induction s arbitrary: a)
  case Nil
  then show ?case by (subst strchr.simps) simp
next
  case (Cons c s)
  have "strchr (a @ (c # s) @ NUL # r) (length a + 1) LF =
      Inr (if LF \<in> set s then Some (length a + 1 + length (takeWhile (\<lambda>c. c \<noteq> LF) s)) else None)"
    using Cons.IH [of "a @ [c]"] Cons.prems by simp
  then show ?case using Cons.prems by (subst strchr.simps) auto
qed

lemma takeWhile_line: "LF \<notin> set u \<Longrightarrow> takeWhile (\<lambda>c. c \<noteq> LF) (u @ LF # w) = u"
  by (induction u) auto

definition newlines :: "string \<Rightarrow> nat" where
  "newlines s = length (filter (\<lambda>c. c = LF) s)"

lemma count_newlines_counts:
  "NUL \<notin> set s \<Longrightarrow> count_newlines (a @ s @ NUL # r) (length a) = Inr (newlines s)"
proof (induction "length s" arbitrary: a s rule: less_induct)
  case less
  show ?case
  proof (cases "LF \<in> set s")
    case False
    then have "newlines s = 0" by (auto simp: newlines_def filter_empty_conv)
    then show ?thesis using strchr_finds [OF less.prems] False by (subst count_newlines.simps) simp
  next
    case True
    then obtain u w where s: "s = u @ LF # w" "LF \<notin> set u" by (metis split_list_first)
    have "takeWhile (\<lambda>c. c \<noteq> LF) s = u" unfolding s(1) by (rule takeWhile_line [OF s(2)])
    then have find: "strchr (a @ s @ NUL # r) (length a) LF = Inr (Some (length a + length u))"
      using strchr_finds [OF less.prems] True by simp
    have "count_newlines ((a @ u @ [LF]) @ w @ NUL # r) (length (a @ u @ [LF])) = Inr (newlines w)"
      by (rule less.hyps) (use s less.prems in auto)
    then have rest: "count_newlines (a @ s @ NUL # r) (length a + length u + 1) = Inr (newlines w)" using s(1) by simp
    have "newlines s = newlines w + 1" using s by (auto simp: newlines_def filter_empty_conv)
    then show ?thesis using find rest by (subst count_newlines.simps) simp
  qed
qed

lemma lines_bounded_start:
  "length (split_lines s) \<le> newlines s + (if s = [] \<or> hd s = LF then 0 else 1)"
proof (induction s rule: split_lines.induct)
  case (1 s)
  let ?start = "dropWhile (\<lambda>c. c = LF) s"
  show ?case
  proof (cases "?start = []")
    case True
    then have "split_lines s = []" by (simp only: split_lines_none)
    then show ?thesis by simp
  next
    case False
    define v where "v = dropWhile (\<lambda>c. c \<noteq> LF) ?start"
    have "length (split_lines v) \<le> newlines v + (if v = [] \<or> hd v = LF then 0 else 1)"
      using 1 [OF refl False] unfolding v_def by blast
    moreover have "v = [] \<or> hd v = LF" using hd_dropWhile [of "\<lambda>c. c \<noteq> LF" ?start] unfolding v_def by blast
    ultimately have "length (split_lines v) \<le> newlines v" by simp
    moreover have "length (split_lines s) = Suc (length (split_lines v))"
      unfolding split_lines.simps [of s] Let_def if_not_P [OF False] v_def by simp
    moreover have "newlines s = newlines (takeWhile (\<lambda>c. c = LF) s) + newlines (takeWhile (\<lambda>c. c \<noteq> LF) ?start) + newlines v"
      unfolding newlines_def v_def
      by (metis (no_types, lifting) add.assoc filter_append length_append takeWhile_dropWhile_id)
    moreover have "s \<noteq> [] \<Longrightarrow> hd s = LF \<Longrightarrow> 0 < newlines (takeWhile (\<lambda>c. c = LF) s)"
      by (cases s) (simp_all add: newlines_def)
    moreover have "s \<noteq> []" using False by auto
    ultimately show ?thesis by auto
  qed
qed

lemma lines_bounded: "length (split_lines s) \<le> newlines s + 1"
  using lines_bounded_start [of s] by (simp split: if_splits)

text \<open>
  Counting and cutting. For a terminated text with a line that is not empty, \<open>count_lines\<close> gives
  the number of newlines, and with one more as the size of the array the lines come out whole.
\<close>

lemma counted_lines_fit:
  assumes "NUL \<notin> set s" and "length s < n" and "n \<le> length s + 1 + length r" and "split_lines s \<noteq> []"
  shows "count_lines junk (s @ NUL # r) n = Inr (newlines s) \<and>
    bytes_to_lines junk (s @ NUL # r) n (newlines s + 1) = Inr (split_lines s)"
proof
  obtain m where m: "n = length s + Suc m" using less_imp_Suc_add [OF assms(2)] by auto
  have "memcpy (malloc junk n) 0 (s @ NUL # r) 0 n = Inr ([] @ s @ NUL # take m r)"
    using assms(3) by (simp add: memcpy_def read_bytes_def put_bytes_def m)
  then show "count_lines junk (s @ NUL # r) n = Inr (newlines s)"
    using count_newlines_counts [OF assms(1), of "[]"] by (simp add: count_lines_def)
  show "bytes_to_lines junk (s @ NUL # r) n (newlines s + 1) = Inr (split_lines s)"
    by (rule bytes_to_lines_splits [OF assms(1,2,4) lines_bounded])
qed

section \<open>Files\<close>

text \<open>
  \<open>read_whole_file\<close>, with the answers of read. \<open>total_bytes_read\<close> and
  \<open>current_bufferized_bytes\<close> are declared without a value and then added to. A failed read
  gives \<open>-1\<close>, which counts as a number of bytes and as the bound of strncat. \<open>fresh\<close> is the
  outcome of realloc, as in \<open>Connection_Context\<close>. \<open>None\<close> while the answers are not enough.
\<close>

definition FILE_BLOCK :: nat where "FILE_BLOCK = 8092"
definition FILE_BUFFER :: nat where "FILE_BUFFER = 4096"

record file_reader =
  file_string :: block
  file_buffer :: block
  total_bytes_read :: "int result"
  current_bufferized_bytes :: "int result"

definition grow_string :: "(nat \<Rightarrow> char) option \<Rightarrow> int \<Rightarrow> int \<Rightarrow> file_reader \<Rightarrow> file_reader result" where
  "grow_string fresh total_bytes current rd =
     (if int FILE_BLOCK \<le> current then
        (case fresh of
           None \<Rightarrow> Inl ExitFailure
         | Some junk \<Rightarrow>
             let size = nat (total_bytes + int FILE_BLOCK) in
             Inr (rd\<lparr>file_string := take size (file_string rd) @ malloc junk (size - length (file_string rd)),
               current_bufferized_bytes := Inr 0\<rparr>))
      else Inr rd)"

definition file_chunk :: "(nat \<Rightarrow> char) option \<Rightarrow> int \<Rightarrow> nat \<Rightarrow> file_reader \<Rightarrow> file_reader result" where
  "file_chunk fresh amount bound rd =
     and_then (total_bytes_read rd) (\<lambda>total0.
     and_then (current_bufferized_bytes rd) (\<lambda>current0.
     let total_bytes = total0 + amount; current = current0 + amount in
     and_then (grow_string fresh total_bytes current
       (rd\<lparr>total_bytes_read := Inr total_bytes, current_bufferized_bytes := Inr current\<rparr>)) (\<lambda>rd'.
     and_then (strncat (file_string rd') (file_buffer rd') 0 bound) (\<lambda>s. Inr (rd'\<lparr>file_string := s\<rparr>)))))"

fun read_file_loop ::
  "(nat \<Rightarrow> char) option \<Rightarrow> file_reader \<Rightarrow> read_outcome list \<Rightarrow> block option result" where
  "read_file_loop fresh rd [] = Inr None"
| "read_file_loop fresh rd (ReadBytes [] # outs) = Inr (Some (file_string rd))"
| "read_file_loop fresh rd (ReadBytes bs # outs) =
     and_then (put_bytes (file_buffer rd) 0 bs) (\<lambda>b.
     and_then (file_chunk fresh (int (length bs)) (length bs) (rd\<lparr>file_buffer := b\<rparr>)) (\<lambda>rd'.
       read_file_loop fresh rd' outs))"
| "read_file_loop fresh rd (ReadError e # outs) =
     and_then (file_chunk fresh (- 1) (2 ^ 64 - 1) rd) (\<lambda>rd'. read_file_loop fresh rd' outs)"

definition zeroed_reader :: "int result \<Rightarrow> int result \<Rightarrow> file_reader" where
  "zeroed_reader total_bytes current =
     \<lparr>file_string = calloc FILE_BLOCK, file_buffer = calloc FILE_BUFFER, total_bytes_read = total_bytes,
      current_bufferized_bytes = current\<rparr>"

definition read_whole_file :: "(nat \<Rightarrow> char) option \<Rightarrow> read_outcome list \<Rightarrow> block option result" where
  "read_whole_file fresh outs =
     read_file_loop fresh (zeroed_reader (Inl Uninitialised) (Inl Uninitialised)) outs"

text \<open>Reading any file that is not empty adds to a counter that has no value.\<close>

lemma whole_file_uninitialised:
  assumes "bs \<noteq> []" and "length bs \<le> FILE_BUFFER"
  shows "read_whole_file fresh (ReadBytes bs # outs) = Inl Uninitialised"
proof -
  obtain c cs where bs: "bs = c # cs" using assms(1) by (cases bs) auto
  have "\<exists>b. put_bytes (calloc FILE_BUFFER) 0 bs = Inr b" using assms(2) by (simp add: put_bytes_def)
  then show ?thesis by (auto simp: read_whole_file_def zeroed_reader_def file_chunk_def bs)
qed

lemma whole_empty_file: "read_whole_file fresh (ReadBytes [] # outs) = Inr (Some (calloc 8092))"
  by (simp add: read_whole_file_def zeroed_reader_def FILE_BLOCK_def)

text \<open>
  Apart from the missing initial values the loop is right: with both counters zero it returns the
  whole file, in any portions, followed by a terminator, and stays inside its blocks.
\<close>

definition holds_file :: "string \<Rightarrow> file_reader \<Rightarrow> bool" where
  "holds_file content rd \<longleftrightarrow> NUL \<notin> set content \<and> length (file_buffer rd) = FILE_BUFFER \<and>
     total_bytes_read rd = Inr (int (length content)) \<and>
     (\<exists>r c. file_string rd = content @ NUL # r \<and> current_bufferized_bytes rd = Inr (int c) \<and> c < FILE_BLOCK \<and>
       length content + FILE_BLOCK \<le> length (file_string rd) + c)"

lemma strncat_room:
  assumes "NUL \<notin> set d" and "NUL \<notin> set bs" and "length bs \<le> length r"
  shows "strncat (d @ NUL # r) (bs @ rest) 0 (length bs) = Inr ((d @ bs) @ NUL # drop (length bs) r)"
proof -
  have "read_upto (bs @ rest) 0 (length bs) = Inr bs" using read_upto_full [OF assms(2), of _ "[]" 0 rest] by simp
  moreover have "put_bytes (d @ NUL # r) (length d) (bs @ [NUL]) = Inr (d @ bs @ NUL # drop (length bs) r)"
    using assms(3) by (simp add: put_bytes_def)
  ultimately show ?thesis using assms(1) by (simp add: strncat_def c_string_terminated)
qed

lemma file_chunk_holds:
  assumes "holds_file content rd" and "NUL \<notin> set bs" and "length bs \<le> FILE_BUFFER"
  shows "\<exists>b rd'. put_bytes (file_buffer rd) 0 bs = Inr b \<and>
    file_chunk (Some junk) (int (length bs)) (length bs) (rd\<lparr>file_buffer := b\<rparr>) = Inr rd' \<and>
    holds_file (content @ bs) rd'"
proof -
  obtain r c where rd: "file_string rd = content @ NUL # r" "current_bufferized_bytes rd = Inr (int c)"
    "c < FILE_BLOCK" "length content + FILE_BLOCK \<le> length (file_string rd) + c"
    "NUL \<notin> set content" "length (file_buffer rd) = FILE_BUFFER" "total_bytes_read rd = Inr (int (length content))"
    using assms(1) by (auto simp: holds_file_def)
  let ?b = "bs @ drop (length bs) (file_buffer rd)" and ?total = "length content + length bs"
  have b: "put_bytes (file_buffer rd) 0 bs = Inr ?b" "length ?b = FILE_BUFFER"
    using assms(3) rd(6) by (simp_all add: put_bytes_def)
  have len: "length (file_string rd) = length content + 1 + length r" using rd(1) by simp
  show ?thesis
  proof (cases "FILE_BLOCK \<le> c + length bs")
    case True
    let ?size = "?total + FILE_BLOCK"
    have pos: "0 < FILE_BLOCK" by (simp add: FILE_BLOCK_def)
    obtain r' where r': "take ?size (file_string rd) @ malloc junk (?size - length (file_string rd)) = content @ NUL # r'"
      "length r' + 1 + length content = ?size"
    proof -
      let ?s = "take ?size (file_string rd) @ malloc junk (?size - length (file_string rd))"
      have "length ?s = ?size" by simp
      moreover have "take (length content + 1) ?s = content @ [NUL]"
        using rd(1) pos by (simp add: take_Cons')
      ultimately have "?s = content @ NUL # drop (length content + 1) ?s"
        by (metis append.assoc append_Cons append_Nil append_take_drop_id)
      moreover have "length (drop (length content + 1) ?s) + 1 + length content = ?size"
        using \<open>length ?s = ?size\<close> pos by simp
      ultimately show ?thesis using that by blast
    qed
    have "strncat (content @ NUL # r') ?b 0 (length bs) = Inr ((content @ bs) @ NUL # drop (length bs) r')"
      by (rule strncat_room [OF rd(5) assms(2)]) (use r'(2) pos in linarith)
    moreover have "nat (int (length content) + int (length bs) + int FILE_BLOCK) = ?size" by linarith
    moreover have "int FILE_BLOCK \<le> int c + int (length bs)" using True by linarith
    ultimately have "file_chunk (Some junk) (int (length bs)) (length bs) (rd\<lparr>file_buffer := ?b\<rparr>) =
        Inr (rd\<lparr>file_buffer := ?b, total_bytes_read := Inr (int ?total), current_bufferized_bytes := Inr 0,
          file_string := (content @ bs) @ NUL # drop (length bs) r'\<rparr>)" (is "_ = Inr ?rd")
      using rd(2,7) r'(1) by (simp add: file_chunk_def grow_string_def Let_def)
    moreover have "holds_file (content @ bs) ?rd"
      using rd(5) assms(2) b(2) r'(2) pos by (auto simp: holds_file_def intro: exI [of _ 0])
    ultimately show ?thesis using b(1) by blast
  next
    case False
    have "strncat (content @ NUL # r) ?b 0 (length bs) = Inr ((content @ bs) @ NUL # drop (length bs) r)"
      by (rule strncat_room [OF rd(5) assms(2)]) (use False rd(4) len in linarith)
    moreover have "\<not> int FILE_BLOCK \<le> int c + int (length bs)" using False by linarith
    ultimately have "file_chunk (Some junk) (int (length bs)) (length bs) (rd\<lparr>file_buffer := ?b\<rparr>) =
        Inr (rd\<lparr>file_buffer := ?b, total_bytes_read := Inr (int ?total),
          current_bufferized_bytes := Inr (int (c + length bs)),
          file_string := (content @ bs) @ NUL # drop (length bs) r\<rparr>)" (is "_ = Inr ?rd")
      using rd(1,2,7) by (simp add: file_chunk_def grow_string_def Let_def)
    moreover have "holds_file (content @ bs) ?rd"
      using rd(4,5) assms(2) b(2) len False by (auto simp: holds_file_def intro!: exI [of _ "c + length bs"])
    ultimately show ?thesis using b(1) by blast
  qed
qed

lemma file_loop_reads:
  "holds_file content rd \<Longrightarrow> \<forall>bs \<in> set dat. bs \<noteq> [] \<and> length bs \<le> FILE_BUFFER \<and> NUL \<notin> set bs \<Longrightarrow>
   \<exists>s. read_file_loop (Some junk) rd (map ReadBytes dat @ ReadBytes [] # outs) = Inr (Some s) \<and>
     c_string s 0 = Inr (content @ concat dat)"
proof (induction dat arbitrary: content rd)
  case Nil
  then show ?case by (auto simp: holds_file_def c_string_terminated)
next
  case (Cons bs dat)
  obtain c cs where bs: "bs = c # cs" using Cons.prems(2) by (cases bs) auto
  obtain b rd' where step: "put_bytes (file_buffer rd) 0 bs = Inr b"
    "file_chunk (Some junk) (int (length bs)) (length bs) (rd\<lparr>file_buffer := b\<rparr>) = Inr rd'"
    "holds_file (content @ bs) rd'"
    using file_chunk_holds [OF Cons.prems(1), of bs junk] Cons.prems(2) by auto
  then show ?case using Cons.IH [OF step(3)] Cons.prems(2) bs by simp
qed

lemma whole_file_if_zeroed:
  assumes "\<forall>bs \<in> set dat. bs \<noteq> [] \<and> length bs \<le> FILE_BUFFER \<and> NUL \<notin> set bs"
  shows "\<exists>s. read_file_loop (Some junk) (zeroed_reader (Inr 0) (Inr 0)) (map ReadBytes dat @ ReadBytes [] # outs) =
    Inr (Some s) \<and> c_string s 0 = Inr (concat dat)"
proof -
  have "holds_file [] (zeroed_reader (Inr 0) (Inr 0))"
  proof -
    have "0 < FILE_BLOCK" by (simp add: FILE_BLOCK_def)
    then obtain k where "FILE_BLOCK = Suc k" by (cases FILE_BLOCK) auto
    then have "calloc FILE_BLOCK = NUL # replicate k NUL" by (metis calloc_def replicate_Suc)
    then have "file_string (zeroed_reader (Inr 0) (Inr 0)) = NUL # replicate k NUL" by (simp add: zeroed_reader_def)
    then show ?thesis using \<open>FILE_BLOCK = Suc k\<close> by (simp add: holds_file_def) (simp add: zeroed_reader_def)
  qed
  from file_loop_reads [OF this assms] show ?thesis by simp
qed

end
