(* ===== verification/Picohttp_Decoder.thy ===== *)
theory Picohttp_Decoder
  imports C_Strings
begin

text \<open>
  The decoder of chunked bodies of lib/picohttpparser.c: \<open>phr_decode_chunked\<close> removes the chunk
  headers from a buffer in place and keeps its state between calls. It is modelled on the
  buffer, and shown to compute a machine that takes one byte at a time.
\<close>

section \<open>The decoder\<close>

datatype chunk_state =
  CHUNKED_IN_CHUNK_SIZE | CHUNKED_IN_CHUNK_EXT | CHUNKED_IN_CHUNK_DATA | CHUNKED_IN_CHUNK_CRLF
| CHUNKED_IN_TRAILERS_LINE_HEAD | CHUNKED_IN_TRAILERS_LINE_MIDDLE

record phr_chunked_decoder =
  bytes_left_in_chunk :: u64
  consume_trailer :: bool
  hex_count :: nat
  chunk_state :: chunk_state

definition new_decoder :: "bool \<Rightarrow> phr_chunked_decoder" where
  "new_decoder trailer = \<lparr>bytes_left_in_chunk = 0, consume_trailer = trailer, hex_count = 0,
     chunk_state = CHUNKED_IN_CHUNK_SIZE\<rparr>"

definition decode_hex :: "char \<Rightarrow> nat option" where
  "decode_hex c =
     (let n = of_char c in
      if 48 \<le> n \<and> n \<le> 57 then Some (n - 48)
      else if 65 \<le> n \<and> n \<le> 70 then Some (n - 65 + 10)
      else if 97 \<le> n \<and> n \<le> 102 then Some (n - 97 + 10)
      else None)"

definition memmove :: "block \<Rightarrow> nat \<Rightarrow> nat \<Rightarrow> nat \<Rightarrow> block result" where
  "memmove b p q n = and_then (read_bytes b q n) (put_bytes b p)"

text \<open>Why a call ends: the input is used up, it is malformed, or the body is complete.\<close>

datatype verdict = Incomplete | Malformed | Finished

text \<open>
  The contract of a decoder that is called with the bytes as they arrive. A call gives a verdict,
  the new state, the data and, when the body is complete, what is left of the input. The laws:
  input may be cut anywhere, and nothing is decoded from nothing.
\<close>

type_synonym 'd call = "verdict \<times> 'd \<times> string \<times> string"

fun call_again :: "('d \<Rightarrow> string \<Rightarrow> 'd call) \<Rightarrow> 'd call \<Rightarrow> string \<Rightarrow> 'd call" where
  "call_again call (Incomplete, d, ys, r) t = (case call d t of (v, d', zs, q) \<Rightarrow> (v, d', ys @ zs, q))"
| "call_again call (Malformed, d, ys, r) t = (Malformed, d, ys, r)"
| "call_again call (Finished, d, ys, r) t = (Finished, d, ys, r @ t)"

definition call_all :: "('d \<Rightarrow> string \<Rightarrow> 'd call) \<Rightarrow> 'd \<Rightarrow> string list \<Rightarrow> 'd call" where
  "call_all call d ps = foldl (call_again call) (Incomplete, d, [], []) ps"

locale incremental =
  fixes call :: "'d \<Rightarrow> string \<Rightarrow> 'd call" and valid :: "'d \<Rightarrow> bool"
  assumes call_nothing: "valid d \<Longrightarrow> call d [] = (Incomplete, d, [], [])"
    and call_cut: "valid d \<Longrightarrow> call d (s @ t) = call_again call (call d s) t"
    and call_valid: "valid d \<Longrightarrow> call d s = (v, d', ys, r) \<Longrightarrow> valid d'"
begin

lemma calls_continue:
  "valid d \<Longrightarrow> foldl (call_again call) (call d s) ps = call d (s @ concat ps)"
proof (induction ps arbitrary: s)
  case (Cons p ps)
  have "foldl (call_again call) (call d (s @ p)) ps = call d ((s @ p) @ concat ps)"
    by (rule Cons.IH [OF Cons.prems])
  then show ?case by (simp add: call_cut [OF Cons.prems, of s p])
qed simp

lemma pieces: "valid d \<Longrightarrow> call_all call d ps = call d (concat ps)"
  using calls_continue [of d "[]" ps] by (simp add: call_all_def call_nothing)

end

text \<open>
  The loops of the cases. Each gives the decoder and the new read offset, and a verdict if the
  call ends there.
\<close>

type_synonym scanned = "(phr_chunked_decoder \<times> nat \<times> verdict option) result"

function size_loop :: "phr_chunked_decoder \<Rightarrow> block \<Rightarrow> nat \<Rightarrow> nat \<Rightarrow> scanned" where
  "size_loop d b bufsz src =
     (if src = bufsz then Inr (d, src, Some Incomplete)
      else if length b \<le> src then Inl OutOfBounds
      else case decode_hex (b ! src) of
        None \<Rightarrow>
          if hex_count d = 0 then Inr (d, src, Some Malformed)
          else Inr (d\<lparr>hex_count := 0, chunk_state := CHUNKED_IN_CHUNK_EXT\<rparr>, src, None)
      | Some v \<Rightarrow>
          if hex_count d = 16 then Inr (d, src, Some Malformed)
          else size_loop (d\<lparr>bytes_left_in_chunk := bytes_left_in_chunk d * 16 + of_nat v,
            hex_count := hex_count d + 1\<rparr>) b bufsz (src + 1))"
  by pat_completeness auto
termination by (relation "measure (\<lambda>(d, b, bufsz, src). length b - src)") auto

text \<open>Skipping to a line feed, and skipping carriage returns: the offset of the first other byte.\<close>

function to_line_feed :: "block \<Rightarrow> nat \<Rightarrow> nat \<Rightarrow> (nat \<times> bool) result" where
  "to_line_feed b bufsz src =
     (if src = bufsz then Inr (src, False)
      else if length b \<le> src then Inl OutOfBounds
      else if b ! src = CHR 0x0A then Inr (src, True)
      else to_line_feed b bufsz (src + 1))"
  by pat_completeness auto
termination by (relation "measure (\<lambda>(b, bufsz, src). length b - src)") auto

function over_returns :: "block \<Rightarrow> nat \<Rightarrow> nat \<Rightarrow> (nat \<times> bool) result" where
  "over_returns b bufsz src =
     (if src = bufsz then Inr (src, False)
      else if length b \<le> src then Inl OutOfBounds
      else if b ! src \<noteq> CHR 0x0D then Inr (src, True)
      else over_returns b bufsz (src + 1))"
  by pat_completeness auto
termination by (relation "measure (\<lambda>(b, bufsz, src). length b - src)") auto

definition ext_case :: "phr_chunked_decoder \<Rightarrow> block \<Rightarrow> nat \<Rightarrow> nat \<Rightarrow> scanned" where
  "ext_case d b bufsz src =
     and_then (to_line_feed b bufsz src) (\<lambda>(src1, found).
       if \<not> found then Inr (d, src1, Some Incomplete)
       else if bytes_left_in_chunk d = 0 then
         (if consume_trailer d then Inr (d\<lparr>chunk_state := CHUNKED_IN_TRAILERS_LINE_HEAD\<rparr>, src1 + 1, None)
          else Inr (d, src1 + 1, Some Finished))
       else Inr (d\<lparr>chunk_state := CHUNKED_IN_CHUNK_DATA\<rparr>, src1 + 1, None))"

definition crlf_case :: "phr_chunked_decoder \<Rightarrow> block \<Rightarrow> nat \<Rightarrow> nat \<Rightarrow> scanned" where
  "crlf_case d b bufsz src =
     and_then (over_returns b bufsz src) (\<lambda>(src1, found).
       if \<not> found then Inr (d, src1, Some Incomplete)
       else if b ! src1 \<noteq> CHR 0x0A then Inr (d, src1, Some Malformed)
       else Inr (d\<lparr>chunk_state := CHUNKED_IN_CHUNK_SIZE\<rparr>, src1 + 1, None))"

definition head_case :: "phr_chunked_decoder \<Rightarrow> block \<Rightarrow> nat \<Rightarrow> nat \<Rightarrow> scanned" where
  "head_case d b bufsz src =
     and_then (over_returns b bufsz src) (\<lambda>(src1, found).
       if \<not> found then Inr (d, src1, Some Incomplete)
       else if b ! src1 = CHR 0x0A then Inr (d, src1 + 1, Some Finished)
       else Inr (d\<lparr>chunk_state := CHUNKED_IN_TRAILERS_LINE_MIDDLE\<rparr>, src1 + 1, None))"

definition middle_case :: "phr_chunked_decoder \<Rightarrow> block \<Rightarrow> nat \<Rightarrow> nat \<Rightarrow> scanned" where
  "middle_case d b bufsz src =
     and_then (to_line_feed b bufsz src) (\<lambda>(src1, found).
       if \<not> found then Inr (d, src1, Some Incomplete)
       else Inr (d\<lparr>chunk_state := CHUNKED_IN_TRAILERS_LINE_HEAD\<rparr>, src1 + 1, None))"

text \<open>Data moves to the front of the buffer; the result has the buffer and both offsets.\<close>

definition data_case ::
  "phr_chunked_decoder \<Rightarrow> block \<Rightarrow> nat \<Rightarrow> nat \<Rightarrow> nat \<Rightarrow>
   (phr_chunked_decoder \<times> block \<times> nat \<times> nat \<times> verdict option) result" where
  "data_case d b bufsz src dst =
     (let avail = bufsz - src; left = unat (bytes_left_in_chunk d) in
      if avail < left then
        and_then (if dst \<noteq> src then memmove b dst src avail else Inr b) (\<lambda>b1.
          Inr (d\<lparr>bytes_left_in_chunk := bytes_left_in_chunk d - of_nat avail\<rparr>, b1, src + avail, dst + avail,
            Some Incomplete))
      else
        and_then (if dst \<noteq> src then memmove b dst src left else Inr b) (\<lambda>b1.
          Inr (d\<lparr>bytes_left_in_chunk := 0, chunk_state := CHUNKED_IN_CHUNK_CRLF\<rparr>, b1, src + left, dst + left,
            None)))"

text \<open>
  The cases fall through in the order of the states; \<open>fuel\<close> bounds the number of cases entered.
  Every case but that of the size consumes a byte or ends the call.
\<close>

fun decode_loop ::
  "nat \<Rightarrow> phr_chunked_decoder \<Rightarrow> block \<Rightarrow> nat \<Rightarrow> nat \<Rightarrow> nat \<Rightarrow>
   (phr_chunked_decoder \<times> block \<times> nat \<times> nat \<times> verdict) result" where
  "decode_loop 0 d b bufsz src dst = Inl Diverged"
| "decode_loop (Suc n) d b bufsz src dst =
     (case chunk_state d of
        CHUNKED_IN_CHUNK_DATA \<Rightarrow>
          and_then (data_case d b bufsz src dst) (\<lambda>(d1, b1, src1, dst1, v).
            case v of None \<Rightarrow> decode_loop n d1 b1 bufsz src1 dst1 | Some v \<Rightarrow> Inr (d1, b1, src1, dst1, v))
      | st \<Rightarrow>
          and_then
            (case st of
               CHUNKED_IN_CHUNK_SIZE \<Rightarrow> size_loop d b bufsz src
             | CHUNKED_IN_CHUNK_EXT \<Rightarrow> ext_case d b bufsz src
             | CHUNKED_IN_CHUNK_CRLF \<Rightarrow> crlf_case d b bufsz src
             | CHUNKED_IN_TRAILERS_LINE_HEAD \<Rightarrow> head_case d b bufsz src
             | _ \<Rightarrow> middle_case d b bufsz src) (\<lambda>(d1, src1, v).
            case v of None \<Rightarrow> decode_loop n d1 b bufsz src1 dst | Some v \<Rightarrow> Inr (d1, b, src1, dst, v)))"

text \<open>The decoder, the buffer, the new \<open>*_bufsz\<close> and the return value.\<close>

definition phr_decode_chunked ::
  "phr_chunked_decoder \<Rightarrow> block \<Rightarrow> nat \<Rightarrow> (phr_chunked_decoder \<times> block \<times> nat \<times> int) result" where
  "phr_decode_chunked decoder b bufsz =
     and_then (decode_loop (2 * bufsz + 2) decoder b bufsz 0 0) (\<lambda>(d1, b1, src, dst, v).
       and_then (if dst \<noteq> src then memmove b1 dst src (bufsz - src) else Inr b1) (\<lambda>b2.
         Inr (d1, b2, dst,
           case v of Incomplete \<Rightarrow> - 2 | Malformed \<Rightarrow> - 1 | Finished \<Rightarrow> int (bufsz - src))))"

definition phr_decode_chunked_is_in_data :: "phr_chunked_decoder \<Rightarrow> bool" where
  "phr_decode_chunked_is_in_data decoder \<longleftrightarrow> chunk_state decoder = CHUNKED_IN_CHUNK_DATA"

declare decode_loop.simps(2) [simp del] size_loop.simps [simp del] to_line_feed.simps [simp del] over_returns.simps [simp del]

section \<open>One byte at a time\<close>

datatype response = Go phr_chunked_decoder string | Fail phr_chunked_decoder | Stop phr_chunked_decoder

definition ext_step :: "phr_chunked_decoder \<Rightarrow> char \<Rightarrow> response" where
  "ext_step d c =
     (if c \<noteq> CHR 0x0A then Go d []
      else if bytes_left_in_chunk d \<noteq> 0 then Go (d\<lparr>chunk_state := CHUNKED_IN_CHUNK_DATA\<rparr>) []
      else if consume_trailer d then Go (d\<lparr>chunk_state := CHUNKED_IN_TRAILERS_LINE_HEAD\<rparr>) []
      else Stop d)"

definition chunk_step :: "phr_chunked_decoder \<Rightarrow> char \<Rightarrow> response" where
  "chunk_step d c =
     (case chunk_state d of
        CHUNKED_IN_CHUNK_SIZE \<Rightarrow>
          (case decode_hex c of
             Some v \<Rightarrow>
               if hex_count d = 16 then Fail d
               else Go (d\<lparr>bytes_left_in_chunk := bytes_left_in_chunk d * 16 + of_nat v, hex_count := hex_count d + 1\<rparr>) []
           | None \<Rightarrow>
               if hex_count d = 0 then Fail d
               else ext_step (d\<lparr>hex_count := 0, chunk_state := CHUNKED_IN_CHUNK_EXT\<rparr>) c)
      | CHUNKED_IN_CHUNK_EXT \<Rightarrow> ext_step d c
      | CHUNKED_IN_CHUNK_DATA \<Rightarrow>
          Go (d\<lparr>bytes_left_in_chunk := bytes_left_in_chunk d - 1,
            chunk_state := if bytes_left_in_chunk d = 1 then CHUNKED_IN_CHUNK_CRLF else CHUNKED_IN_CHUNK_DATA\<rparr>) [c]
      | CHUNKED_IN_CHUNK_CRLF \<Rightarrow>
          if c = CHR 0x0D then Go d []
          else if c = CHR 0x0A then Go (d\<lparr>chunk_state := CHUNKED_IN_CHUNK_SIZE\<rparr>) [] else Fail d
      | CHUNKED_IN_TRAILERS_LINE_HEAD \<Rightarrow>
          if c = CHR 0x0D then Go d []
          else if c = CHR 0x0A then Stop d
          else Go (d\<lparr>chunk_state := CHUNKED_IN_TRAILERS_LINE_MIDDLE\<rparr>) []
      | CHUNKED_IN_TRAILERS_LINE_MIDDLE \<Rightarrow>
          if c = CHR 0x0A then Go (d\<lparr>chunk_state := CHUNKED_IN_TRAILERS_LINE_HEAD\<rparr>) [] else Go d [])"

text \<open>The result of a run: the verdict, the decoder, the decoded data and what is left of the input.\<close>

fun feed :: "phr_chunked_decoder \<Rightarrow> string \<Rightarrow> verdict \<times> phr_chunked_decoder \<times> string \<times> string" where
  "feed d [] = (Incomplete, d, [], [])"
| "feed d (c # s) =
     (case chunk_step d c of
        Go d' xs \<Rightarrow> (case feed d' s of (v, d'', ys, r) \<Rightarrow> (v, d'', xs @ ys, r))
      | Fail d' \<Rightarrow> (Malformed, d', [], c # s)
      | Stop d' \<Rightarrow> (Finished, d', [], s))"

text \<open>In a state for data there is data to come.\<close>

definition sound :: "phr_chunked_decoder \<Rightarrow> bool" where
  "sound d \<longleftrightarrow> (chunk_state d = CHUNKED_IN_CHUNK_DATA \<longrightarrow> bytes_left_in_chunk d \<noteq> 0)"

section \<open>The loops do what the machine does\<close>

lemma to_line_feed_at:
  "to_line_feed (p @ s @ t) (length p + length s) (length p) =
     Inr (length p + length (takeWhile (\<lambda>c. c \<noteq> CHR 0x0A) s), CHR 0x0A \<in> set s)"
proof (induction s arbitrary: p)
  case Nil
  then show ?case by (simp add: to_line_feed.simps)
next
  case (Cons c s)
  from Cons.IH [of "p @ [c]"] show ?case by (subst to_line_feed.simps) auto
qed

lemma over_returns_at:
  "over_returns (p @ s @ t) (length p + length s) (length p) =
     Inr (length p + length (takeWhile (\<lambda>c. c = CHR 0x0D) s), dropWhile (\<lambda>c. c = CHR 0x0D) s \<noteq> [])"
proof (induction s arbitrary: p)
  case Nil
  then show ?case by (simp add: over_returns.simps)
next
  case (Cons c s)
  from Cons.IH [of "p @ [c]"] show ?case by (subst over_returns.simps) auto
qed

text \<open>\<open>scans d s x\<close>: what a loop answers for the unread bytes \<open>s\<close> agrees with the machine.\<close>

definition scans :: "phr_chunked_decoder \<Rightarrow> string \<Rightarrow> nat \<Rightarrow> scanned \<Rightarrow> bool" where
  "scans d s k x \<longleftrightarrow> (\<exists>d' u r v. x = Inr (d', k + length u, v) \<and> s = u @ r \<and> sound d' \<and>
     (case v of
        None \<Rightarrow> feed d s = feed d' r \<and>
          (u \<noteq> [] \<or> chunk_state d = CHUNKED_IN_CHUNK_SIZE \<and> chunk_state d' = CHUNKED_IN_CHUNK_EXT)
      | Some w \<Rightarrow> feed d s = (w, d', [], r)))"

lemma scans_stop:
  "x = Inr (d', k + length u, Some w) \<Longrightarrow> s = u @ r \<Longrightarrow> sound d' \<Longrightarrow> feed d s = (w, d', [], r) \<Longrightarrow> scans d s k x"
  unfolding scans_def by (intro exI [of _ d'] exI [of _ u] exI [of _ r] exI [of _ "Some w"]) simp

lemma scans_go:
  "x = Inr (d', k + length u, None) \<Longrightarrow> s = u @ r \<Longrightarrow> sound d' \<Longrightarrow> u \<noteq> [] \<Longrightarrow> feed d s = feed d' r \<Longrightarrow> scans d s k x"
  unfolding scans_def by (intro exI [of _ d'] exI [of _ u] exI [of _ r] exI [of _ None]) simp

lemma scans_size:
  "chunk_state d = CHUNKED_IN_CHUNK_SIZE \<Longrightarrow>
   scans d s (length p) (size_loop d (p @ s @ t) (length p + length s) (length p))"
proof (induction s arbitrary: d p)
  case Nil
  then show ?case by (simp add: size_loop.simps scans_def sound_def)
next
  case (Cons c s)
  show ?case
  proof (cases "decode_hex c")
    case None
    let ?d = "d\<lparr>hex_count := 0, chunk_state := CHUNKED_IN_CHUNK_EXT\<rparr>"
    show ?thesis
    proof (cases "hex_count d = 0")
      case True
      then show ?thesis using None Cons.prems
        by (subst size_loop.simps) (auto simp: scans_def chunk_step_def sound_def intro!: exI [of _ "[]"])
    next
      case False
      have "feed d (c # s) = feed ?d (c # s)" using None Cons.prems False by (simp add: chunk_step_def)
      then show ?thesis using None Cons.prems False
        by (subst size_loop.simps) (auto simp: scans_def sound_def simp del: feed.simps intro!: exI [of _ "[]"])
    qed
  next
    case (Some v)
    show ?thesis
    proof (cases "hex_count d = 16")
      case True
      then show ?thesis using Some Cons.prems
        by (subst size_loop.simps) (auto simp: scans_def chunk_step_def sound_def intro!: exI [of _ "[]"])
    next
      case False
      let ?d = "d\<lparr>bytes_left_in_chunk := bytes_left_in_chunk d * 16 + of_nat v, hex_count := hex_count d + 1\<rparr>"
      have "scans ?d s (length (p @ [c])) (size_loop ?d ((p @ [c]) @ s @ t) (length (p @ [c]) + length s) (length (p @ [c])))"
        by (rule Cons.IH) (simp add: Cons.prems)
      then obtain d' u r w where IH: "size_loop ?d (p @ c # s @ t) (Suc (length p + length s)) (Suc (length p)) =
          Inr (d', Suc (length p) + length u, w)" "s = u @ r" "sound d'"
        "case w of None \<Rightarrow> feed ?d s = feed d' r | Some y \<Rightarrow> feed ?d s = (y, d', [], r)"
        by (auto simp: scans_def split: option.splits)
      have f: "feed d (c # s) = feed ?d s"
        using Some Cons.prems False by (simp add: chunk_step_def split: prod.splits)
      have "size_loop d (p @ (c # s) @ t) (length p + length (c # s)) (length p) =
          Inr (d', length p + length (c # u), w)"
        using Some Cons.prems False IH(1) by (subst size_loop.simps) simp
      then show ?thesis unfolding scans_def f
        using IH(2-4) by (intro exI [of _ d'] exI [of _ "c # u"] exI [of _ r] exI [of _ w]) (auto split: option.splits)
    qed
  qed
qed

text \<open>Bytes a state skips.\<close>

lemma feed_skip:
  assumes "\<And>c. c \<in> set u \<Longrightarrow> chunk_step d c = Go d []"
  shows "feed d (u @ r) = feed d r"
  using assms by (induction u) (simp_all split: prod.splits)

lemma line_feed_split:
  assumes "x \<in> set s"
  obtains r where "s = takeWhile (\<lambda>c. c \<noteq> x) s @ x # r"
proof -
  have "dropWhile (\<lambda>c. c \<noteq> x) s \<noteq> []" using assms by (simp add: dropWhile_eq_Nil_conv)
  then obtain y r where r: "dropWhile (\<lambda>c. c \<noteq> x) s = y # r" by (cases "dropWhile (\<lambda>c. c \<noteq> x) s") auto
  then have "y = x" using hd_dropWhile [of "\<lambda>c. c \<noteq> x" s] by auto
  then show thesis using r that takeWhile_dropWhile_id [of "\<lambda>c. c \<noteq> x" s] by metis
qed

lemma feed_to_line_feed:
  assumes "\<And>c. c \<noteq> CHR 0x0A \<Longrightarrow> chunk_step d c = Go d []"
  shows "CHR 0x0A \<notin> set s \<Longrightarrow> feed d s = (Incomplete, d, [], [])"
    and "feed d (takeWhile (\<lambda>c. c \<noteq> CHR 0x0A) s @ r) = feed d r"
proof -
  show "feed d (takeWhile (\<lambda>c. c \<noteq> CHR 0x0A) s @ r) = feed d r"
  proof (rule feed_skip)
    fix c assume "c \<in> set (takeWhile (\<lambda>c. c \<noteq> CHR 0x0A) s)"
    from set_takeWhileD [OF this] show "chunk_step d c = Go d []" by (intro assms) blast
  qed
next
  assume "CHR 0x0A \<notin> set s"
  then have "chunk_step d c = Go d []" if "c \<in> set s" for c using that by (intro assms) metis
  from feed_skip [of s d "[]", OF this] show "feed d s = (Incomplete, d, [], [])" by simp
qed

lemma takeWhile_other: "x \<notin> set s \<Longrightarrow> takeWhile (\<lambda>c. c \<noteq> x) s = s"
  unfolding takeWhile_eq_all_conv by metis

lemma scans_ext:
  assumes "chunk_state d = CHUNKED_IN_CHUNK_EXT"
  shows "scans d s (length p) (ext_case d (p @ s @ t) (length p + length s) (length p))"
proof -
  have skip: "c \<noteq> CHR 0x0A \<Longrightarrow> chunk_step d c = Go d []" for c
    using assms by (simp add: chunk_step_def ext_step_def)
  have sd: "sound d" using assms by (simp add: sound_def)
  show ?thesis
  proof (cases "CHR 0x0A \<in> set s")
    case False
    have "ext_case d (p @ s @ t) (length p + length s) (length p) = Inr (d, length p + length s, Some Incomplete)"
      by (simp add: ext_case_def to_line_feed_at takeWhile_other [OF False] False)
    then show ?thesis by (rule scans_stop [where r = "[]"]) (use sd feed_to_line_feed(1) [OF skip False] in simp_all)
  next
    case True
    let ?u = "takeWhile (\<lambda>c. c \<noteq> CHR 0x0A) s"
    obtain r where r: "s = ?u @ CHR 0x0A # r" using line_feed_split [OF True] by blast
    have s: "s = (?u @ [CHR 0x0A]) @ r" using r by simp
    have f: "feed d s = feed d (CHR 0x0A # r)"
      using feed_to_line_feed(2) [OF skip, of s "CHR 0x0A # r"] r by simp
    have e: "ext_case d (p @ s @ t) (length p + length s) (length p) =
        (if bytes_left_in_chunk d = 0 then
           (if consume_trailer d then Inr (d\<lparr>chunk_state := CHUNKED_IN_TRAILERS_LINE_HEAD\<rparr>, length p + length (?u @ [CHR 0x0A]), None)
            else Inr (d, length p + length (?u @ [CHR 0x0A]), Some Finished))
         else Inr (d\<lparr>chunk_state := CHUNKED_IN_CHUNK_DATA\<rparr>, length p + length (?u @ [CHR 0x0A]), None))"
      using True by (simp add: ext_case_def to_line_feed_at)
    consider "bytes_left_in_chunk d = 0" "consume_trailer d" | "bytes_left_in_chunk d = 0" "\<not> consume_trailer d"
      | "bytes_left_in_chunk d \<noteq> 0" by blast
    then show ?thesis
    proof cases
      case 1
      show ?thesis
        by (rule scans_go [OF _ s]) (use e 1 f assms in \<open>simp_all add: sound_def chunk_step_def ext_step_def\<close>)
    next
      case 2
      show ?thesis
        by (rule scans_stop [OF _ s]) (use e 2 f assms in \<open>simp_all add: sound_def chunk_step_def ext_step_def\<close>)
    next
      case 3
      show ?thesis
        by (rule scans_go [OF _ s]) (use e 3 f assms in \<open>simp_all add: sound_def chunk_step_def ext_step_def\<close>)
    qed
  qed
qed

lemma scans_middle:
  assumes "chunk_state d = CHUNKED_IN_TRAILERS_LINE_MIDDLE"
  shows "scans d s (length p) (middle_case d (p @ s @ t) (length p + length s) (length p))"
proof -
  have skip: "c \<noteq> CHR 0x0A \<Longrightarrow> chunk_step d c = Go d []" for c
    using assms by (simp add: chunk_step_def)
  have sd: "sound d" using assms by (simp add: sound_def)
  show ?thesis
  proof (cases "CHR 0x0A \<in> set s")
    case False
    have "middle_case d (p @ s @ t) (length p + length s) (length p) = Inr (d, length p + length s, Some Incomplete)"
      by (simp add: middle_case_def to_line_feed_at takeWhile_other [OF False] False)
    then show ?thesis by (rule scans_stop [where r = "[]"]) (use sd feed_to_line_feed(1) [OF skip False] in simp_all)
  next
    case True
    let ?u = "takeWhile (\<lambda>c. c \<noteq> CHR 0x0A) s"
    obtain r where r: "s = ?u @ CHR 0x0A # r" using line_feed_split [OF True] by blast
    have s: "s = (?u @ [CHR 0x0A]) @ r" using r by simp
    have f: "feed d s = feed d (CHR 0x0A # r)"
      using feed_to_line_feed(2) [OF skip, of s "CHR 0x0A # r"] r by simp
    have e: "middle_case d (p @ s @ t) (length p + length s) (length p) =
        Inr (d\<lparr>chunk_state := CHUNKED_IN_TRAILERS_LINE_HEAD\<rparr>, length p + length (?u @ [CHR 0x0A]), None)"
      using True by (simp add: middle_case_def to_line_feed_at)
    show ?thesis
      by (rule scans_go [OF e s]) (use f assms in \<open>simp_all add: sound_def chunk_step_def\<close>)
  qed
qed

lemma feed_returns:
  assumes "chunk_step d (CHR 0x0D) = Go d []"
  shows "feed d (takeWhile (\<lambda>c. c = CHR 0x0D) s @ r) = feed d r"
proof (rule feed_skip)
  fix c assume "c \<in> set (takeWhile (\<lambda>c. c = CHR 0x0D) s)"
  then have "c = CHR 0x0D" using set_takeWhileD by metis
  then show "chunk_step d c = Go d []" using assms by simp
qed

lemma returns_split:
  obtains (Used) "takeWhile (\<lambda>c. c = CHR 0x0D) s = s" "dropWhile (\<lambda>c. c = CHR 0x0D) s = []"
  | (Other) c r where "s = takeWhile (\<lambda>c. c = CHR 0x0D) s @ c # r" "dropWhile (\<lambda>c. c = CHR 0x0D) s \<noteq> []"
      "(c = CHR 0x0D) = False"
proof (cases "dropWhile (\<lambda>c. c = CHR 0x0D) s")
  case Nil
  then show thesis using Used takeWhile_dropWhile_id [of "\<lambda>c. c = CHR 0x0D" s] by simp
next
  case (Cons c r)
  then have "c \<noteq> CHR 0x0D" using hd_dropWhile [of "\<lambda>c. c = CHR 0x0D" s] by auto
  then show thesis using Other [of c r] Cons takeWhile_dropWhile_id [of "\<lambda>c. c = CHR 0x0D" s] by simp
qed

lemma scans_crlf:
  assumes "chunk_state d = CHUNKED_IN_CHUNK_CRLF"
  shows "scans d s (length p) (crlf_case d (p @ s @ t) (length p + length s) (length p))"
proof -
  have skip: "chunk_step d (CHR 0x0D) = Go d []" using assms by (simp add: chunk_step_def)
  have sd: "sound d" using assms by (simp add: sound_def)
  let ?u = "takeWhile (\<lambda>c. c = CHR 0x0D) s"
  show ?thesis
  proof (cases rule: returns_split [of s])
    case Used
    have "crlf_case d (p @ s @ t) (length p + length s) (length p) = Inr (d, length p + length s, Some Incomplete)"
      by (simp add: crlf_case_def over_returns_at Used)
    then show ?thesis
      by (rule scans_stop [where r = "[]"]) (use sd feed_returns [OF skip, of s "[]"] Used in simp_all)
  next
    case (Other c r)
    have at: "(p @ s @ t) ! (length p + length ?u) = c"
      using arg_cong [OF Other(1), of "\<lambda>x. (p @ x @ t) ! (length p + length ?u)"] by (simp add: nth_append)
    have f: "feed d s = feed d (c # r)" using feed_returns [OF skip, of s "c # r"] Other(1) by simp
    show ?thesis
    proof (cases "c = CHR 0x0A")
      case True
      have s: "s = (?u @ [c]) @ r" using Other(1) by simp
      show ?thesis
        by (rule scans_go [OF _ s])
          (use f at True assms Other(2) in \<open>simp_all add: crlf_case_def over_returns_at sound_def chunk_step_def\<close>)
    next
      case False
      show ?thesis
        by (rule scans_stop [OF _ Other(1)])
          (use f at False assms Other(2,3) sd in \<open>simp_all add: crlf_case_def over_returns_at chunk_step_def\<close>)
    qed
  qed
qed

lemma scans_head:
  assumes "chunk_state d = CHUNKED_IN_TRAILERS_LINE_HEAD"
  shows "scans d s (length p) (head_case d (p @ s @ t) (length p + length s) (length p))"
proof -
  have skip: "chunk_step d (CHR 0x0D) = Go d []" using assms by (simp add: chunk_step_def)
  have sd: "sound d" using assms by (simp add: sound_def)
  let ?u = "takeWhile (\<lambda>c. c = CHR 0x0D) s"
  show ?thesis
  proof (cases rule: returns_split [of s])
    case Used
    have "head_case d (p @ s @ t) (length p + length s) (length p) = Inr (d, length p + length s, Some Incomplete)"
      by (simp add: head_case_def over_returns_at Used)
    then show ?thesis
      by (rule scans_stop [where r = "[]"]) (use sd feed_returns [OF skip, of s "[]"] Used in simp_all)
  next
    case (Other c r)
    have at: "(p @ s @ t) ! (length p + length ?u) = c"
      using arg_cong [OF Other(1), of "\<lambda>x. (p @ x @ t) ! (length p + length ?u)"] by (simp add: nth_append)
    have f: "feed d s = feed d (c # r)" using feed_returns [OF skip, of s "c # r"] Other(1) by simp
    have s: "s = (?u @ [c]) @ r" using Other(1) by simp
    show ?thesis
    proof (cases "c = CHR 0x0A")
      case True
      show ?thesis
        by (rule scans_stop [OF _ s])
          (use f at True assms Other(2) sd in \<open>simp_all add: head_case_def over_returns_at chunk_step_def\<close>)
    next
      case False
      show ?thesis
        by (rule scans_go [OF _ s])
          (use f at False assms Other(2,3) in \<open>simp_all add: head_case_def over_returns_at sound_def chunk_step_def split: prod.splits\<close>)
    qed
  qed
qed

lemma scans_case:
  assumes "chunk_state d \<noteq> CHUNKED_IN_CHUNK_DATA"
  shows "scans d s (length p)
    (case chunk_state d of
       CHUNKED_IN_CHUNK_SIZE \<Rightarrow> size_loop d (p @ s @ t) (length p + length s) (length p)
     | CHUNKED_IN_CHUNK_EXT \<Rightarrow> ext_case d (p @ s @ t) (length p + length s) (length p)
     | CHUNKED_IN_CHUNK_CRLF \<Rightarrow> crlf_case d (p @ s @ t) (length p + length s) (length p)
     | CHUNKED_IN_TRAILERS_LINE_HEAD \<Rightarrow> head_case d (p @ s @ t) (length p + length s) (length p)
     | _ \<Rightarrow> middle_case d (p @ s @ t) (length p + length s) (length p))"
  using assms scans_size scans_ext scans_crlf scans_head scans_middle
  by (cases "chunk_state d") simp_all

lemma decode_loop_data:
  "chunk_state d = CHUNKED_IN_CHUNK_DATA \<Longrightarrow>
   decode_loop (Suc n) d b bufsz src dst = and_then (data_case d b bufsz src dst) (\<lambda>(d1, b1, src1, dst1, v).
     case v of None \<Rightarrow> decode_loop n d1 b1 bufsz src1 dst1 | Some v \<Rightarrow> Inr (d1, b1, src1, dst1, v))"
  by (simp add: decode_loop.simps(2))

lemma decode_loop_scan:
  assumes "chunk_state d \<noteq> CHUNKED_IN_CHUNK_DATA"
  shows "decode_loop (Suc n) d b bufsz src dst =
    and_then
      (case chunk_state d of
         CHUNKED_IN_CHUNK_SIZE \<Rightarrow> size_loop d b bufsz src
       | CHUNKED_IN_CHUNK_EXT \<Rightarrow> ext_case d b bufsz src
       | CHUNKED_IN_CHUNK_CRLF \<Rightarrow> crlf_case d b bufsz src
       | CHUNKED_IN_TRAILERS_LINE_HEAD \<Rightarrow> head_case d b bufsz src
       | _ \<Rightarrow> middle_case d b bufsz src) (\<lambda>(d1, src1, v).
      case v of None \<Rightarrow> decode_loop n d1 b bufsz src1 dst | Some v \<Rightarrow> Inr (d1, b, src1, dst, v))"
  using assms by (cases "chunk_state d") (simp_all add: decode_loop.simps(2))

section \<open>Data\<close>

lemma unat_decrease: "x \<noteq> 0 \<Longrightarrow> unat (x - 1 :: u64) = unat x - 1"
  by (simp add: unat_minus_one)

lemma feed_data:
  assumes "chunk_state d = CHUNKED_IN_CHUNK_DATA" and "bytes_left_in_chunk d \<noteq> 0"
  shows "length s < unat (bytes_left_in_chunk d) \<Longrightarrow>
      feed d s = (Incomplete, d\<lparr>bytes_left_in_chunk := bytes_left_in_chunk d - of_nat (length s)\<rparr>, s, [])"
    and "unat (bytes_left_in_chunk d) \<le> length s \<Longrightarrow>
      feed d s = (case feed (d\<lparr>bytes_left_in_chunk := 0, chunk_state := CHUNKED_IN_CHUNK_CRLF\<rparr>)
          (drop (unat (bytes_left_in_chunk d)) s) of
        (v, d', ys, r) \<Rightarrow> (v, d', take (unat (bytes_left_in_chunk d)) s @ ys, r))"
  using assms
proof (induction s arbitrary: d)
  case Nil
  {
    case 1
    then show ?case by simp
  next
    case 2
    then show ?case by (simp add: unat_eq_zero)
  }
next
  case (Cons c s)
  {
    case 1
    let ?l = "bytes_left_in_chunk d"
    let ?d = "d\<lparr>bytes_left_in_chunk := ?l - 1\<rparr>"
    have ne: "?l \<noteq> 1"
    proof
      assume "?l = 1"
      with 1(1) show False by simp
    qed
    have l: "?l - 1 \<noteq> 0" "length s < unat (?l - 1)" using ne 1(1) unat_decrease [OF 1(3)] by simp_all
    have "feed ?d s = (Incomplete, ?d\<lparr>bytes_left_in_chunk := ?l - 1 - of_nat (length s)\<rparr>, s, [])"
      using Cons.IH(1) [of ?d] 1 l by simp
    moreover have "?l - 1 - of_nat (length s) = ?l - of_nat (length (c # s))" by (simp add: algebra_simps)
    moreover have "chunk_step d c = Go ?d [c]" using 1 ne by (cases d) (simp add: chunk_step_def)
    ultimately show ?case by simp
  next
    case 2
    let ?l = "bytes_left_in_chunk d"
    show ?case
    proof (cases "?l = 1")
      case True
      then show ?thesis using 2 by (simp add: chunk_step_def)
    next
      case False
      let ?d = "d\<lparr>bytes_left_in_chunk := ?l - 1\<rparr>"
      obtain k where k: "unat ?l = Suc k" using 2 by (cases "unat ?l") (auto simp: unat_eq_zero)
      have l: "?l - 1 \<noteq> 0" "unat (?l - 1) = k" using False unat_decrease [OF 2(3)] k by simp_all
      have "feed ?d s = (case feed (?d\<lparr>bytes_left_in_chunk := 0, chunk_state := CHUNKED_IN_CHUNK_CRLF\<rparr>) (drop k s) of
          (v, d', ys, r) \<Rightarrow> (v, d', take k s @ ys, r))"
        using Cons.IH(2) [of ?d] 2 l k by simp
      moreover have "chunk_step d c = Go ?d [c]" using 2 False by (cases d) (simp add: chunk_step_def)
      ultimately show ?thesis using k by (simp split: prod.splits)
    qed
  }
qed

lemma move_front:
  assumes "k \<le> length s"
  shows "\<exists>g'. length g' = length g \<and>
    (if length out \<noteq> length out + length g then memmove (out @ g @ s @ t) (length out) (length out + length g) k
     else Inr (out @ g @ s @ t)) = Inr ((out @ take k s) @ g' @ drop k s @ t)"
proof (cases "g = []")
  case True
  then show ?thesis by simp
next
  case False
  let ?g = "take (length g) (drop k (g @ s))"
  have "drop (length g) (drop k (g @ s)) = drop k s" by (simp only: drop_drop) simp
  then have "drop k (g @ s) = ?g @ drop k s" by (metis append_take_drop_id)
  moreover have "drop k (g @ s @ t) = drop k (g @ s) @ t" using assms by simp
  ultimately have d: "drop k (g @ s @ t) = ?g @ drop k s @ t" by simp
  show ?thesis using False assms d
    by (intro exI [of _ ?g]) (simp add: memmove_def read_bytes_def put_bytes_def)
qed

section \<open>The decoder is the machine\<close>

lemma decode_loop_feeds:
  assumes "sound d" and "2 * length s + (if chunk_state d = CHUNKED_IN_CHUNK_SIZE then 1 else 0) < n"
    and "feed d s = (v, d', ys, r)" and "N = length out + length g + length s"
  shows "\<exists>g'. decode_loop n d (out @ g @ s @ t) N (length out + length g) (length out) =
      Inr (d', (out @ ys) @ g' @ r @ t, length (out @ ys) + length g', length (out @ ys), v) \<and>
    N = length (out @ ys) + length g' + length r \<and> sound d'"
  using assms
proof (induction n arbitrary: d s out g ys)
  case (Suc n)
  let ?b = "out @ g @ s @ t"
  show ?case
  proof (cases "chunk_state d = CHUNKED_IN_CHUNK_DATA")
    case False
    let ?x = "case chunk_state d of
         CHUNKED_IN_CHUNK_SIZE \<Rightarrow> size_loop d ?b N (length out + length g)
       | CHUNKED_IN_CHUNK_EXT \<Rightarrow> ext_case d ?b N (length out + length g)
       | CHUNKED_IN_CHUNK_CRLF \<Rightarrow> crlf_case d ?b N (length out + length g)
       | CHUNKED_IN_TRAILERS_LINE_HEAD \<Rightarrow> head_case d ?b N (length out + length g)
       | _ \<Rightarrow> middle_case d ?b N (length out + length g)"
    have "scans d s (length out + length g) ?x"
      using scans_case [OF False, of s "out @ g" t] unfolding Suc.prems(4) append_assoc length_append .
    then obtain d1 u r1 w where scan: "?x = Inr (d1, length out + length g + length u, w)"
      and w: "s = u @ r1" "sound d1"
        "case w of None \<Rightarrow> feed d s = feed d1 r1 \<and>
            (u \<noteq> [] \<or> chunk_state d = CHUNKED_IN_CHUNK_SIZE \<and> chunk_state d1 = CHUNKED_IN_CHUNK_EXT)
          | Some x \<Rightarrow> feed d s = (x, d1, [], r1)"
      unfolding scans_def by blast
    have step: "decode_loop (Suc n) d ?b N (length out + length g) (length out) =
        (case w of None \<Rightarrow> decode_loop n d1 ?b N (length out + length g + length u) (length out)
         | Some x \<Rightarrow> Inr (d1, ?b, length out + length g + length u, length out, x))"
      unfolding decode_loop_scan [OF False] scan by simp
    show ?thesis
    proof (cases w)
      case (Some x)
      then have "x = v" "d1 = d'" "ys = []" "r1 = r" using w(3) Suc.prems(3) by simp_all
      then show ?thesis using step Some w(1,2) Suc.prems(4) by (intro exI [of _ "g @ u"]) simp
    next
      case None
      have "2 * length r1 + (if chunk_state d1 = CHUNKED_IN_CHUNK_SIZE then 1 else 0) < n"
        using w(1,3) None Suc.prems(2) by (cases u) (auto split: if_splits)
      moreover have "feed d1 r1 = (v, d', ys, r)" using w(3) None Suc.prems(3) by simp
      ultimately have "\<exists>g'. decode_loop n d1 (out @ (g @ u) @ r1 @ t) N (length out + length (g @ u)) (length out) =
          Inr (d', (out @ ys) @ g' @ r @ t, length (out @ ys) + length g', length (out @ ys), v) \<and>
        N = length (out @ ys) + length g' + length r \<and> sound d'"
        using w(1,2) Suc.prems(4) by (intro Suc.IH) simp_all
      then show ?thesis using step None w(1) by (simp add: add.assoc)
    qed
  next
    case True
    let ?l = "unat (bytes_left_in_chunk d)"
    have avail: "N - (length out + length g) = length s" by (simp add: Suc.prems(4))
    have l: "bytes_left_in_chunk d \<noteq> 0" using Suc.prems(1) True by (simp add: sound_def)
    show ?thesis
    proof (cases "length s < ?l")
      case less: True
      obtain g' where g': "length g' = length g"
        "(if length out \<noteq> length out + length g then memmove ?b (length out) (length out + length g) (length s) else Inr ?b) =
          Inr ((out @ s) @ g' @ t)"
        using move_front [of "length s" s g out t] by auto
      have f: "v = Incomplete" "d' = d\<lparr>bytes_left_in_chunk := bytes_left_in_chunk d - of_nat (length s)\<rparr>" "ys = s" "r = []"
        using feed_data(1) [OF True l less] Suc.prems(3) by simp_all
      have "bytes_left_in_chunk d - of_nat (length s) \<noteq> 0"
      proof
        assume "bytes_left_in_chunk d - of_nat (length s) = 0"
        then have "?l = unat (of_nat (length s) :: u64)" by simp
        moreover have "unat (of_nat (length s) :: u64) \<le> length s" by (simp add: unat_of_nat)
        ultimately show False using less by simp
      qed
      then have "sound d'" using f by (simp add: sound_def)
      moreover have "decode_loop (Suc n) d ?b N (length out + length g) (length out) =
          Inr (d', (out @ s) @ g' @ t, length out + length g + length s, length out + length s, Incomplete)"
      proof -
        have "data_case d ?b N (length out + length g) (length out) =
            Inr (d', (out @ s) @ g' @ t, length out + length g + length s, length out + length s, Some Incomplete)"
          unfolding data_case_def Let_def avail if_P [OF less] g'(2) f(2) by simp
        then show ?thesis by (simp add: decode_loop_data [OF True])
      qed
      ultimately show ?thesis using f g'(1) Suc.prems(4) by (intro exI [of _ g']) simp
    next
      case False
      then have le: "?l \<le> length s" by simp
      let ?d = "d\<lparr>bytes_left_in_chunk := 0, chunk_state := CHUNKED_IN_CHUNK_CRLF\<rparr>"
      obtain g' where g': "length g' = length g"
        "(if length out \<noteq> length out + length g then memmove ?b (length out) (length out + length g) ?l else Inr ?b) =
          Inr ((out @ take ?l s) @ g' @ drop ?l s @ t)"
        using move_front [OF le] by blast
      obtain zs where f: "feed ?d (drop ?l s) = (v, d', zs, r)" "ys = take ?l s @ zs"
        using feed_data(2) [OF True l le] Suc.prems(3) by (auto split: prod.splits)
      have pos: "0 < ?l" using l by (simp add: unat_gt_0)
      have "\<exists>g2. decode_loop n ?d ((out @ take ?l s) @ g' @ drop ?l s @ t) N (length (out @ take ?l s) + length g')
          (length (out @ take ?l s)) =
          Inr (d', ((out @ take ?l s) @ zs) @ g2 @ r @ t, length ((out @ take ?l s) @ zs) + length g2,
            length ((out @ take ?l s) @ zs), v) \<and>
        N = length ((out @ take ?l s) @ zs) + length g2 + length r \<and> sound d'"
        by (rule Suc.IH) (use f Suc.prems(2,4) le pos g'(1) in \<open>auto simp: sound_def min_def\<close>)
      moreover have "decode_loop (Suc n) d ?b N (length out + length g) (length out) =
          decode_loop n ?d ((out @ take ?l s) @ g' @ drop ?l s @ t) N (length (out @ take ?l s) + length g')
            (length (out @ take ?l s))"
      proof -
        have "data_case d ?b N (length out + length g) (length out) =
            Inr (?d, (out @ take ?l s) @ g' @ drop ?l s @ t, length out + length g + ?l, length out + ?l, None)"
          unfolding data_case_def Let_def avail if_not_P [OF False] g'(2) by simp
        then show ?thesis using le g'(1) by (simp add: decode_loop_data [OF True] min_def add.commute add.left_commute)
      qed
      ultimately show ?thesis using f(2) by simp
    qed
  qed
qed simp

lemma decode_is_feed:
  assumes "sound d" and "feed d s = (v, d', ys, r)"
  shows "\<exists>x. phr_decode_chunked d (s @ t) (length s) =
      Inr (d', ys @ r @ x, length ys, case v of Incomplete \<Rightarrow> - 2 | Malformed \<Rightarrow> - 1 | Finished \<Rightarrow> int (length r)) \<and>
    sound d' \<and> length (ys @ r @ x) = length (s @ t)"
proof -
  obtain g where g: "decode_loop (2 * length s + 2) d (s @ t) (length s) 0 0 =
      Inr (d', ys @ g @ r @ t, length ys + length g, length ys, v)"
    "length s = length ys + length g + length r" "sound d'"
  proof -
    have "2 * length s + (if chunk_state d = CHUNKED_IN_CHUNK_SIZE then 1 else 0) < 2 * length s + 2" by simp
    from decode_loop_feeds [OF assms(1) this assms(2), of "length s" "[]" "[]" t] that show thesis by auto
  qed
  obtain g' where "length g' = length g"
    "(if length ys \<noteq> length ys + length g then memmove (ys @ g @ r @ t) (length ys) (length ys + length g) (length r)
      else Inr (ys @ g @ r @ t)) = Inr ((ys @ r) @ g' @ t)"
    using move_front [of "length r" r g ys t] by auto
  moreover have "length s - (length ys + length g) = length r" using g(2) by simp
  ultimately have "phr_decode_chunked d (s @ t) (length s) = Inr (d', ys @ r @ g' @ t, length ys,
      case v of Incomplete \<Rightarrow> - 2 | Malformed \<Rightarrow> - 1 | Finished \<Rightarrow> int (length r))"
    by (simp only: phr_decode_chunked_def g(1) and_then_simps prod.case append_assoc)
  then show ?thesis using g \<open>length g' = length g\<close> by (intro exI [of _ "g' @ t"]) simp
qed

text \<open>A call never leaves the buffer and always ends.\<close>

lemma feed_length: "feed d s = (v, d', ys, r) \<Longrightarrow> length ys + length r \<le> length s"
proof (induction s arbitrary: d ys)
  case (Cons c s)
  have one: "chunk_step d c = Go d1 xs \<Longrightarrow> length xs \<le> 1" for d1 xs
    by (auto simp: chunk_step_def ext_step_def split: chunk_state.splits option.splits if_splits)
  show ?case
  proof (cases "chunk_step d c")
    case (Go d1 xs)
    then obtain zs where "feed d1 s = (v, d', zs, r)" "ys = xs @ zs"
      using Cons.prems by (auto split: prod.splits)
    then show ?thesis using Cons.IH [of d1 zs] one [OF Go] by simp
  qed (use Cons.prems in auto)
qed auto

lemma decoder_stays_inside:
  assumes "sound d" and "n \<le> length b"
  shows "\<exists>d' b' n' ret. phr_decode_chunked d b n = Inr (d', b', n', ret) \<and> sound d' \<and> length b' = length b \<and>
    n' \<le> n \<and> - 2 \<le> ret \<and> (0 \<le> ret \<longrightarrow> int n' + ret \<le> int n)"
proof -
  obtain v d' ys r where f: "feed d (take n b) = (v, d', ys, r)" by (cases "feed d (take n b)")
  have l: "length ys + length r \<le> n" using feed_length [OF f] assms(2) by simp
  obtain x where "phr_decode_chunked d (take n b @ drop n b) (length (take n b)) = Inr (d', ys @ r @ x, length ys,
      case v of Incomplete \<Rightarrow> - 2 | Malformed \<Rightarrow> - 1 | Finished \<Rightarrow> int (length r))"
    "sound d'" "length (ys @ r @ x) = length (take n b @ drop n b)"
    using decode_is_feed [OF assms(1) f] by blast
  then have "phr_decode_chunked d b n = Inr (d', ys @ r @ x, length ys,
      case v of Incomplete \<Rightarrow> - 2 | Malformed \<Rightarrow> - 1 | Finished \<Rightarrow> int (length r))"
    "length (ys @ r @ x) = length b"
    using assms(2) by (simp_all add: min_absorb2)
  then show ?thesis using l \<open>sound d'\<close> by (cases v) auto
qed

section \<open>Input in pieces\<close>

lemma feed_append:
  "feed d (s @ t) = (case feed d s of (v, d', ys, r) \<Rightarrow>
     if v = Incomplete then (case feed d' t of (w, d'', zs, q) \<Rightarrow> (w, d'', ys @ zs, q)) else (v, d', ys, r @ t))"
proof (induction s arbitrary: d)
  case (Cons c s)
  show ?case
  proof (cases "chunk_step d c")
    case (Go d1 xs)
    then show ?thesis using Cons.IH [of d1] by (auto split: prod.splits)
  qed simp_all
qed (simp split: prod.splits)

section \<open>Encoding\<close>

definition hex_letter :: "nat \<Rightarrow> char" where
  "hex_letter n = (if n < 10 then char_of (48 + n) else char_of (87 + n))"

fun hex_text :: "nat \<Rightarrow> string" where
  "hex_text n = (if n < 16 then [hex_letter n] else hex_text (n div 16) @ [hex_letter (n mod 16)])"

declare hex_text.simps [simp del]

definition chunk_text :: "string \<Rightarrow> string" where
  "chunk_text c = hex_text (length c) @ [CHR 0x0D, CHR 0x0A] @ c @ [CHR 0x0D, CHR 0x0A]"

definition chunks_text :: "string list \<Rightarrow> string" where
  "chunks_text cs = concat (map chunk_text cs) @ hex_text 0 @ [CHR 0x0D, CHR 0x0A]"

lemma decode_hex_letter: "n < 16 \<Longrightarrow> decode_hex (hex_letter n) = Some n"
  by (auto simp: decode_hex_def hex_letter_def Let_def)

lemma hex_text_length: "n < 16 ^ Suc k \<Longrightarrow> length (hex_text n) \<le> Suc k"
proof (induction k arbitrary: n)
  case 0
  then show ?case by (simp add: hex_text.simps [of n])
next
  case (Suc k)
  then have "n div 16 < 16 ^ Suc k" by (simp add: less_mult_imp_div_less mult.commute)
  from Suc.IH [OF this] show ?case by (subst hex_text.simps) simp
qed

lemma feed_hex:
  "length (hex_text n) \<le> 16 \<Longrightarrow>
   feed (new_decoder tr) (hex_text n @ s) =
     feed ((new_decoder tr)\<lparr>bytes_left_in_chunk := of_nat n, hex_count := length (hex_text n)\<rparr>) s"
proof (induction n arbitrary: s rule: hex_text.induct)
  case (1 n)
  show ?case
  proof (cases "n < 16")
    case True
    then show ?thesis
      by (simp add: hex_text.simps [of n] chunk_step_def new_decoder_def decode_hex_letter split: prod.splits)
  next
    case False
    let ?m = "n div 16"
    have t: "hex_text n = hex_text ?m @ [hex_letter (n mod 16)]" using False by (subst hex_text.simps) simp
    have l: "length (hex_text ?m) < 16" using 1(2) t by simp
    have w: "(of_nat ?m * 16 + of_nat (n mod 16) :: u64) = of_nat n"
    proof -
      have "(of_nat ?m * 16 + of_nat (n mod 16) :: u64) = of_nat (?m * 16 + n mod 16)"
        by (simp only: of_nat_add of_nat_mult of_nat_numeral)
      then show ?thesis by (simp only: div_mult_mod_eq)
    qed
    let ?d = "(new_decoder tr)\<lparr>bytes_left_in_chunk := of_nat ?m, hex_count := length (hex_text ?m)\<rparr>"
    have "feed (new_decoder tr) (hex_text n @ s) = feed ?d (hex_letter (n mod 16) # s)"
      using 1(1) [OF False, of "hex_letter (n mod 16) # s"] l t by simp
    also have "\<dots> = feed ((new_decoder tr)\<lparr>bytes_left_in_chunk := of_nat n, hex_count := length (hex_text n)\<rparr>) s"
      using l w t by (simp add: chunk_step_def new_decoder_def decode_hex_letter split: prod.splits)
    finally show ?thesis .
  qed
qed

lemma decode_hex_return: "decode_hex (CHR 0x0D) = None"
  by (simp add: decode_hex_def)

text \<open>One chunk, and the last one.\<close>

lemma feed_chunk:
  assumes "c \<noteq> []" and "length c < 2 ^ 64"
  shows "feed (new_decoder tr) (chunk_text c @ s) =
    (case feed (new_decoder tr) s of (v, d, ys, r) \<Rightarrow> (v, d, c @ ys, r))"
proof -
  let ?w = "of_nat (length c) :: u64"
  have "length c < 16 ^ Suc 15" using assms(2) by simp
  then have "length (hex_text (length c)) \<le> Suc 15" by (rule hex_text_length)
  then have l: "length (hex_text (length c)) \<le> 16" by simp
  have ne: "hex_text (length c) \<noteq> []" by (subst hex_text.simps) simp
  have w: "unat ?w = length c" using assms(2) by (simp add: unat_of_nat)
  then have w0: "?w \<noteq> 0" using assms(1) by (metis length_0_conv unat_0)
  let ?d = "(new_decoder tr)\<lparr>bytes_left_in_chunk := ?w, chunk_state := CHUNKED_IN_CHUNK_DATA\<rparr>"
  have "feed (new_decoder tr) (chunk_text c @ s) = feed ?d (c @ CHR 0x0D # CHR 0x0A # s)"
    using feed_hex [OF l, of tr "CHR 0x0D # CHR 0x0A # c @ CHR 0x0D # CHR 0x0A # s"] ne w0
    by (simp add: chunk_text_def chunk_step_def ext_step_def new_decoder_def decode_hex_return split: prod.splits)
  also have "\<dots> = (case feed (?d\<lparr>bytes_left_in_chunk := 0, chunk_state := CHUNKED_IN_CHUNK_CRLF\<rparr>) (CHR 0x0D # CHR 0x0A # s) of
      (v, d, ys, r) \<Rightarrow> (v, d, c @ ys, r))"
    using feed_data(2) [of ?d "c @ CHR 0x0D # CHR 0x0A # s"] w w0 by simp
  also have "\<dots> = (case feed (new_decoder tr) s of (v, d, ys, r) \<Rightarrow> (v, d, c @ ys, r))"
    by (simp add: chunk_step_def new_decoder_def split: prod.splits)
  finally show ?thesis .
qed

lemma feed_chunks:
  assumes "\<And>c. c \<in> set cs \<Longrightarrow> c \<noteq> [] \<and> length c < 2 ^ 64"
  shows "\<exists>d. feed (new_decoder False) (chunks_text cs @ s) = (Finished, d, concat cs, s)"
  using assms
proof (induction cs)
  case Nil
  have "hex_text 0 = [CHR ''0'']" by code_simp
  then show ?case
    by (simp add: chunks_text_def chunk_step_def ext_step_def new_decoder_def decode_hex_def)
next
  case (Cons c cs)
  then obtain d where "feed (new_decoder False) (chunks_text cs @ s) = (Finished, d, concat cs, s)" by auto
  then show ?case using feed_chunk [of c False "chunks_text cs @ s"] Cons.prems by (simp add: chunks_text_def)
qed

section \<open>Properties\<close>

text \<open>
  C24. Chunked bodies. A body sent in any number of non-empty chunks, followed by any bytes, is
  decoded in place: the buffer then starts with the body without the chunk headers, \<open>*_bufsz\<close>
  is its length, and the return value counts the bytes behind it, which follow the body in the
  buffer.
\<close>

theorem chunks_are_decoded:
  assumes "\<And>c. c \<in> set cs \<Longrightarrow> c \<noteq> [] \<and> length c < 2 ^ 64"
  shows "\<exists>d x. phr_decode_chunked (new_decoder False) (chunks_text cs @ s) (length (chunks_text cs @ s)) =
    Inr (d, concat cs @ s @ x, length (concat cs), int (length s))"
proof -
  obtain d where f: "feed (new_decoder False) (chunks_text cs @ s) = (Finished, d, concat cs, s)"
    using feed_chunks [OF assms] by blast
  have "sound (new_decoder False)" by (simp add: sound_def new_decoder_def)
  from decode_is_feed [OF this f, of "[]"] show ?thesis by auto
qed

lemma chunks_are_decoded_witness:
  "\<exists>d x. phr_decode_chunked (new_decoder False) (chunks_text [''Wiki'', ''pedia''] @ ''!'')
      (length (chunks_text [''Wiki'', ''pedia''] @ ''!'')) = Inr (d, ''Wikipedia!'' @ x, 9, 1)"
proof -
  have "c \<noteq> [] \<and> length c < 2 ^ 64" if "c \<in> set [''Wiki'', ''pedia'']" for c using that by auto
  from chunks_are_decoded [of "[''Wiki'', ''pedia'']" "''!''", OF this] show ?thesis by (simp add: numeral_eq_Suc)
qed

text \<open>What a caller sees of a call on the bytes \<open>s\<close>.\<close>

definition decode_call :: "phr_chunked_decoder \<Rightarrow> string \<Rightarrow> phr_chunked_decoder call" where
  "decode_call d s =
     (case phr_decode_chunked d s (length s) of
        Inl e \<Rightarrow> (Malformed, d, [], [])
      | Inr (d', b, n, ret) \<Rightarrow>
          (if ret = - 2 then Incomplete else if ret = - 1 then Malformed else Finished, d', take n b,
            if 0 \<le> ret then take (nat ret) (drop n b) else []))"

lemma decode_call_feed:
  assumes "sound d" and "feed d s = (v, d', ys, r)"
  shows "decode_call d s = (v, d', ys, if v = Finished then r else []) \<and> sound d'"
proof -
  obtain x where "phr_decode_chunked d s (length s) = Inr (d', ys @ r @ x, length ys,
      case v of Incomplete \<Rightarrow> - 2 | Malformed \<Rightarrow> - 1 | Finished \<Rightarrow> int (length r))" "sound d'"
    using decode_is_feed [OF assms, of "[]"] by auto
  then show ?thesis by (cases v) (simp_all add: decode_call_def)
qed

interpretation chunked: incremental decode_call sound
proof
  fix d s t assume d: "sound d"
  show "decode_call d [] = (Incomplete, d, [], [])" using decode_call_feed [OF d, of "[]"] by simp
  obtain v d1 ys r where f: "feed d s = (v, d1, ys, r)" by (cases "feed d s")
  note c = decode_call_feed [OF d f]
  obtain w d2 zs q where g: "feed d1 t = (w, d2, zs, q)" by (cases "feed d1 t")
  have "feed d (s @ t) = (if v = Incomplete then (w, d2, ys @ zs, q) else (v, d1, ys, r @ t))"
    by (simp add: feed_append f g)
  then show "decode_call d (s @ t) = call_again decode_call (decode_call d s) t"
    using c decode_call_feed [OF _ g] decode_call_feed [OF d, of "s @ t"] by (cases v) auto
next
  fix d s v d' ys r
  assume "sound d" and "decode_call d s = (v, d', ys, r)"
  then show "sound d'" using decode_call_feed [of d s] by (cases "feed d s") auto
qed

text \<open>
  C25. Decoding as the bytes arrive. However the encoded body and the bytes behind it are cut into
  pieces, calling the decoder with one piece after the other, until it answers that the body is
  complete, gives the body as the data of the calls one after the other; what is left of the
  last piece and the pieces not passed on are exactly the bytes behind the body.
\<close>

theorem decoded_in_pieces:
  assumes "\<And>c. c \<in> set cs \<Longrightarrow> c \<noteq> [] \<and> length c < 2 ^ 64" and "concat ps = chunks_text cs @ s"
  shows "\<exists>d. call_all decode_call (new_decoder False) ps = (Finished, d, concat cs, s)"
proof -
  have sd: "sound (new_decoder False)" by (simp add: sound_def new_decoder_def)
  obtain d where "feed (new_decoder False) (chunks_text cs @ s) = (Finished, d, concat cs, s)"
    using feed_chunks [OF assms(1)] by blast
  from decode_call_feed [OF sd this] show ?thesis by (simp add: chunked.pieces [OF sd] assms(2))
qed

lemma decoded_in_pieces_witness:
  "\<exists>d. call_all decode_call (new_decoder False)
     [''4'' @ [CHR 0x0D], [CHR 0x0A] @ ''Wi'', ''ki'' @ [CHR 0x0D, CHR 0x0A], ''0'' @ [CHR 0x0D, CHR 0x0A] @ ''!''] =
   (Finished, d, ''Wiki'', ''!'')"
proof -
  have "c \<noteq> [] \<and> length c < 2 ^ 64" if "c \<in> set [''Wiki'']" for c using that by auto
  moreover have "concat [''4'' @ [CHR 0x0D], [CHR 0x0A] @ ''Wi'', ''ki'' @ [CHR 0x0D, CHR 0x0A],
      ''0'' @ [CHR 0x0D, CHR 0x0A] @ ''!''] = chunks_text [''Wiki''] @ ''!''"
    by code_simp
  ultimately show ?thesis using decoded_in_pieces [of "[''Wiki'']"] by simp
qed

end
