(* ===== verification/Spec2Isabelle.thy ===== *)
theory Spec2Isabelle
  imports Handler_Connections Handler_Threads Server Scheduling_Races CJson_Parse_Safety Connection_Context Dispatcher CJson_Minify CJson_Copy CJson_Hooks Utils_Files Picohttp_Decoder
begin

text \<open>
  Pronto, a job scheduler with an HTTP front end: a verification library for the C server
  under src/srv.

  The program. Clients post \<open>{"qty": n}\<close> to /schedule. A handler thread (lib/handler.c)
  receives and parses the request and puts a job into a priority queue (lib/prio_queue.c).
  A scheduler thread (lib/scheduler_worker.c) takes the smallest job, looks for the worker
  with the most free resources (lib/pronto.c) and hands the job to the dispatcher thread of
  that worker (lib/cluster_worker.c), which posts it to the remote machine with curl; a job
  that fits nowhere goes to the waiting queue. When a machine is done it posts to
  /done; the handler gives the resources back and wakes the rescheduler thread
  (lib/rescheduler.c), which serves the waiting queue. The server (lib/server.c) accepts
  connections and deals them out to the handlers. Requests are parsed by lib/picohttpparser.c
  and lib/c_json.c, answers are built by lib/http_response.c.

  Modelling conventions. C ints and longs whose overflow matters are words (\<open>Prelude\<close>);
  errors and undefined behaviour are values of \<open>fault\<close>, so that "returns \<open>Inr\<close>" includes
  "no access outside an object". Memory objects are byte lists with explicit offsets
  (\<open>C_Strings\<close>). What the program does not determine is a parameter: \<open>junk\<close>, the content
  of memory fresh from malloc or of an uninitialised local array (one function for all
  blocks); \<open>slack\<close>, the bytes that happen to follow a block; \<open>stack_room\<close>, how large a
  local array can be; \<open>date\<close>, the output of strftime; the outcomes of malloc in cJSON, of
  read, send, accept and epoll_ctl, and of each post of a dispatcher (\<open>post_outcome\<close>). Theorems
  hold for every value of these, within the hypotheses they state.

  Theories.
  \<^item> \<open>Prelude\<close>: integer types, faults, \<open>and_then\<close>, decimal numerals, list lemmas.
  \<^item> \<open>Prio_Queue\<close> (prio_queue.c, h/node.h, h/job.h): the linked list on a node store, and its
    refinement to a sorted list of requests. The locale \<open>request_queue\<close> is the contract the
    schedulers rely on; the store and the list are interpretations of it.
  \<^item> \<open>Pronto\<close> (pronto.c, h/pronto.h, h/config.h, and the start of cluster_worker.c): workers,
    capacity books, admission, best fit, reserving and freeing.
  \<^item> \<open>Scheduling\<close> (scheduler_worker.c, rescheduler.c, cluster_worker.c, the callbacks of
    handler.c): each thread is a program counter, one step is one action on the shared
    state, threads interleave freely (\<open>sys_step\<close>). \<open>Scheduling_Locks\<close>: lock discipline,
    mutual exclusion. \<open>Scheduling_Inv\<close>: the invariants of reachable states (semaphores
    agree with queues, every accepted job is in one place, books balanced, queues sorted).
    \<open>Scheduling_Progress\<close>: freedom from deadlock and the measure \<open>work\<close> that bounds the
    steps left without new requests. \<open>Scheduling_Races\<close>: executable runs, the properties of
    the thread system, and two races.
  \<^item> \<open>Server\<close> (server.c, main.c): start-up and the accept loop.
  \<^item> \<open>Connection_Context\<close> (connection_context.c): a growing buffer.
  \<^item> \<open>Picohttp\<close> (picohttpparser.c without SSE 4.2, where findchar_fast is the identity), with
    \<open>Picohttp_Safety\<close> (bounds, the unrolled loop), \<open>Picohttp_Stability\<close> (an answer does not
    depend on later bytes), \<open>Picohttp_Roundtrip\<close> (parse after print), \<open>Picohttp_Chunks\<close>
    (incremental parsing) and \<open>Picohttp_Decoder\<close> (the decoder of chunked bodies, as a machine that
    takes a byte at a time; the locale \<open>incremental\<close> is what a caller that feeds it the bytes as
    they arrive relies on).
  \<^item> \<open>CJson\<close> (c_json.c: items, tests, lookup, constructors, adding), \<open>CJson_Parse\<close> (the parser,
    with strtod rounding to nearest even), \<open>CJson_Parse_Safety\<close> (bounds, termination,
    nesting), \<open>CJson_Roundtrip\<close>; \<open>CJson_Print\<close> (the printer on its growing buffer, with the C
    library's \<open>%g\<close> conversion), \<open>CJson_Numbers\<close> (the text of every double fits its buffer),
    \<open>CJson_Print_Correct\<close> (the printer computes the recursive text and stays inside its
    buffers), \<open>CJson_Print_Parse\<close> (parse after print) and \<open>CJson_Minify\<close> (minifying in place);
    \<open>CJson_Heap\<close> (items as structs with pointers: relinking, references, detaching, replacing,
    deleting), \<open>CJson_Chains\<close> (chains of siblings as lists) and \<open>CJson_Trees\<close> (trees of structs:
    the operations implement those on lists, deleting frees exactly a tree); \<open>CJson_Copy\<close>
    (arrays of values, duplicating, comparing); \<open>CJson_Hooks\<close> (hooks, error position, version).
  \<^item> \<open>Dispatcher\<close> (cluster_worker.c): what a dispatcher posts to its machine.
  \<^item> \<open>Utils_Files\<close> (utils.c): cutting a text into lines and reading a file.
  \<^item> \<open>Http_Request\<close> (http_request.c, utils.c), \<open>Http_Response\<close> (http_response.c).
  \<^item> \<open>Handler\<close> (handler.c: routes, callbacks, \<open>build_response\<close>), \<open>Handler_Correct\<close> (every
    branch of the callbacks), \<open>Handler_Threads\<close> (the callbacks refine the handler threads of
    \<open>Scheduling\<close>), \<open>Handler_Loop\<close> and \<open>Handler_Loop_Correct\<close> (receiving and streaming), and
    \<open>Handler_Serve\<close>, which composes them from bytes on a socket to the answer and the queue;
    \<open>Handler_Epoll\<close>, the event loop over many connections and the epoll instance as a step
    relation labelled with the events, with what holds in every run; \<open>Handler_Streams\<close>, the
    stronger invariant of the runs in which no hang-up on a response closes a descriptor by
    misreading its address, and what becomes of a response whose client is gone;
    \<open>Cluster_Changes\<close>, the changes threads make to the cluster and why a reservation commutes with
    them; and \<open>Handler_Connections\<close>: the life of a connection, and the connections that are never
    closed.

  What the environment does. In the event loop the kernel is an assumption: which events
  \<open>epoll_wait\<close> can return (\<open>reported\<close>, \<open>wait_returns\<close> in \<open>Handler_Epoll\<close>) is written down from its
  documentation, with EPOLLHUP reported as long as it holds for a descriptor registered without
  EPOLLET. accept gives a descriptor that is not open, malloc an address that is not in use; nothing
  is assumed of the numbers. Where the code depends on memory it does not own or has not written
  (the byte behind the clone of a header name, the fresh block for the headers of a response, the
  stack behind a received request) the theorems say what happens for every content.

  Bounds and fuel. The mutually recursive functions of the JSON parser take fuel;
  \<open>parse_fuel\<close>, computed from the input length, is proved to be enough for every input
  (\<open>CJson_Parse_Safety\<close>), so that running out never hides a result. The receive loop recurses
  on the list of answers of read; that the code consumes only boundedly many of them is
  proved, not assumed. Words have the width of the C type on the x86-64 System V ABI.
  Lengths of HTTP requests and responses, which config.h bounds by 122880, are naturals.

  Not modelled. curl (its outcomes are parameters); the SSE 4.2 variant of findchar_fast, which
  the build does not enable; output to stdout; the client in Rust (src/client), a separate
  program.
\<close>

end
